(* ===== verification/Prelude.thy ===== *)
theory Prelude
  imports Main "HOL-Library.Word"
begin

text \<open>
  Shared vocabulary of the development.

  \<^item> The machine types of the Go sources: \<open>uint64\<close> is a \<open>64 word\<close>, \<open>uint32\<close> a
    \<open>32 word\<close>; \<open>int64\<close> is an \<open>int\<close> kept in range, with the wrap-around of an
    addition written out by \<open>i64\<close>.
  \<^item> Go errors. An error is the list of the sentinel values its chain wraps, which is all that
    \<open>errors.Is\<close> looks at; the message text is not kept.
  \<^item> Named collections of facts, and general lemmas on lists and words the components share.
\<close>

section \<open>Fact collections\<close>

named_theorems text_simps \<open>facts on printed numbers and cut strings\<close>
named_theorems key_simps \<open>which object keys are equal and which differ\<close>
named_theorems codec_simps \<open>round trips of the manifest encoding\<close>
named_theorems store_simps \<open>what the store operations do\<close>

section \<open>Machine types\<close>

type_synonym u64 = "64 word"
type_synonym u32 = "32 word"
type_synonym bytes = "char list"

definition MaxInt64 :: int where
  "MaxInt64 = 2 ^ 63 - 1"

definition MinInt64 :: int where
  "MinInt64 = - (2 ^ 63)"

text \<open>Being a value an \<open>int64\<close> can hold.\<close>

definition is_i64 :: "int \<Rightarrow> bool" where
  "is_i64 x \<longleftrightarrow> MinInt64 \<le> x \<and> x \<le> MaxInt64"

text \<open>The two's complement wrap-around of an \<open>int64\<close> result.\<close>

definition i64 :: "int \<Rightarrow> int" where
  "i64 x = (x + 2 ^ 63) mod 2 ^ 64 - 2 ^ 63"

lemmas i64_bounds = MaxInt64_def MinInt64_def is_i64_def

lemma i64_id: "is_i64 x \<Longrightarrow> i64 x = x"
  by (simp add: i64_def i64_bounds)

lemma is_i64_i64 [simp]: "is_i64 (i64 x)"
proof -
  have "0 \<le> (x + 2 ^ 63) mod 2 ^ 64" and "(x + 2 ^ 63) mod 2 ^ 64 < (2 ^ 64 :: int)"
    by simp_all
  then show ?thesis by (simp add: i64_def i64_bounds)
qed

section \<open>Errors\<close>

datatype sentinel =
    ErrNotExist | ErrExist | ErrVersionMismatch | ErrUnknownScheme
  | ErrTrackExists | ErrTrackNotFound | ErrGroupExists | ErrInvalidTrackPath | ErrInvalidGroup
  | ErrGroupOutOfOrder | ErrUnsupportedVersion | ErrManifestMismatch | ErrGroupNotFound
  | ErrGroupRedacted | ErrEpochNotFound | ErrEpochOutOfOrder | ErrNotCommitted
  | EOF | Canceled | ErrInvalidKey | ErrUnauthenticated | ErrNoRows | fs_ErrNotExist | fs_ErrExist
  | Unfinished

text \<open>
  \<open>Unfinished\<close> is no Go error: it is what a loop of the model answers when the fuel it was given runs
  out, for the loops that probe a store until an object is missing. No code tests for it, so it
  reaches the caller of the operation, and the theorems state how much fuel is enough.
\<close>

type_synonym error = "sentinel list"

text \<open>\<open>errors.Is err target\<close>: some error of the chain is the target.\<close>

definition errors_Is :: "error \<Rightarrow> sentinel \<Rightarrow> bool" where
  "errors_Is e t \<longleftrightarrow> t \<in> set e"

text \<open>
  \<open>fmt.Errorf\<close> with \<open>%w\<close> verbs: the sentinels named by the format, then those of the error it
  wraps. An error with no sentinel is the empty list.
\<close>

definition wrap :: "sentinel list \<Rightarrow> error \<Rightarrow> error" where
  "wrap ts e = ts @ e"

lemma errors_Is_wrap [simp]: "errors_Is (wrap ts e) t \<longleftrightarrow> t \<in> set ts \<or> errors_Is e t"
  by (auto simp: errors_Is_def wrap_def)

lemma errors_Is_Nil [simp]: "\<not> errors_Is [] t"
  by (simp add: errors_Is_def)

lemma errors_Is_Cons [simp]: "errors_Is (x # e) t \<longleftrightarrow> x = t \<or> errors_Is e t"
  by (auto simp: errors_Is_def)

text \<open>
  A context, as far as \<open>ctx.Err()\<close> sees it: live, canceled, or past its deadline. The context of
  one call is fixed; a cancellation while the call runs shows as a store call that fails, which
  the contract of a store allows at every call.
\<close>

datatype ctx = Live | Ctx_Canceled | Ctx_Deadline

definition ctx_Err :: "ctx \<Rightarrow> error option" where
  "ctx_Err c = (case c of Live \<Rightarrow> None | Ctx_Canceled \<Rightarrow> Some [Canceled] | Ctx_Deadline \<Rightarrow> Some [])"

section \<open>Words\<close>

lemma word_Suc_unat: "(n :: 'a::len word) < m \<Longrightarrow> unat (n + 1) = Suc (unat n)"
proof -
  assume "n < m"
  then have "n \<noteq> - 1"
    using word_order.extremum_strict by auto
  then have "1 + n \<noteq> 0"
    by (metis add.commute add_eq_0_iff2)
  then show ?thesis
    by (metis add.commute unatSuc)
qed

lemma word_inc_less: "(n :: 'a::len word) \<noteq> - 1 \<Longrightarrow> n < n + 1"
  by (metis add.commute add_eq_0_iff2 not_less_iff_gr_or_eq unatSuc word_less_nat_alt lessI)

lemma unat_less_2p64 [simp]: "unat (x :: u64) < 18446744073709551616"
  using unsigned_less [of x, where ?'a = nat] by simp

lemma uint_pos: "(x :: 'a::len word) \<noteq> 0 \<Longrightarrow> 0 < uint x"
  using unsigned_greater_eq [of x, where ?'a = int] unsigned_eq_0_iff [of x, where ?'a = int]
  by linarith

end
