(* ===== verification/Go_Text.thy ===== *)
theory Go_Text
  imports Prelude
begin

text \<open>
  The parts of Go's \<open>strings\<close>, \<open>strconv\<close> and \<open>fmt\<close> packages the ledger uses: prefix tests and
  cuts, decimal printing with a minimum width, and the parsing of unsigned and signed decimals.
  Strings are lists of bytes (\<open>char\<close>), as Go strings are.
\<close>

section \<open>Prefixes and cuts\<close>

definition HasPrefix :: "string \<Rightarrow> string \<Rightarrow> bool" where
  "HasPrefix s p \<longleftrightarrow> take (length p) s = p"

definition HasSuffix :: "string \<Rightarrow> string \<Rightarrow> bool" where
  "HasSuffix s p \<longleftrightarrow> length p \<le> length s \<and> drop (length s - length p) s = p"

text \<open>\<open>strings.CutPrefix\<close>: the rest of the string, or \<open>None\<close> when it does not start so.\<close>

definition CutPrefix :: "string \<Rightarrow> string \<Rightarrow> string option" where
  "CutPrefix s p = (if HasPrefix s p then Some (drop (length p) s) else None)"

text \<open>\<open>strings.Cut\<close>: split around the first occurrence of the separator.\<close>

fun Cut :: "string \<Rightarrow> string \<Rightarrow> string \<times> string \<times> bool" where
  "Cut [] sep = ([], [], sep = [])"
| "Cut (c # cs) sep =
     (if HasPrefix (c # cs) sep then ([], drop (length sep) (c # cs), True)
      else (case Cut cs sep of (before, after, found) \<Rightarrow> (c # before, after, found)))"

text \<open>\<open>strings.Contains\<close>.\<close>

fun Contains :: "string \<Rightarrow> string \<Rightarrow> bool" where
  "Contains [] sub \<longleftrightarrow> sub = []"
| "Contains (c # cs) sub \<longleftrightarrow> HasPrefix (c # cs) sub \<or> Contains cs sub"

text \<open>\<open>strings.Trim s "/"\<close>, and the two parts of a string around its last slash.\<close>

definition trim_slashes :: "string \<Rightarrow> string" where
  "trim_slashes s = rev (dropWhile (\<lambda>ch. ch = CHR ''/'') (rev (dropWhile (\<lambda>ch. ch = CHR ''/'') s)))"

definition cut_last_slash :: "string \<Rightarrow> (string \<times> string) option" where
  "cut_last_slash s =
     (let after = rev (takeWhile (\<lambda>ch. ch \<noteq> CHR ''/'') (rev s))
      in if CHR ''/'' \<in> set s then Some (take (length s - Suc (length after)) s, after) else None)"

section \<open>Decimal numbers\<close>

definition digit :: "nat \<Rightarrow> char" where
  "digit n = char_of (48 + n)"

definition is_digit :: "char \<Rightarrow> bool" where
  "is_digit c \<longleftrightarrow> 48 \<le> (of_char c :: nat) \<and> (of_char c :: nat) \<le> 57"

fun dec :: "nat \<Rightarrow> string" where
  "dec n = (if n < 10 then [digit n] else dec (n div 10) @ [digit (n mod 10)])"

declare dec.simps [simp del]

text \<open>\<open>fmt.Sprintf\<close> with \<open>%0wd\<close> for an unsigned value: zeros up to the width \<open>w\<close>.\<close>

definition Sprintf_0d :: "nat \<Rightarrow> nat \<Rightarrow> string" where
  "Sprintf_0d w n = replicate (w - length (dec n)) (CHR ''0'') @ dec n"

fun dec_val :: "nat \<Rightarrow> string \<Rightarrow> nat" where
  "dec_val a [] = a"
| "dec_val a (c # cs) = dec_val (10 * a + (of_char c - 48)) cs"

text \<open>
  \<open>strconv.ParseUint s 10 64\<close>: a non-empty run of decimal digits below \<open>2^64\<close>. The two error
  values of the package (syntax and range) are not told apart by any caller.
\<close>

definition ParseUint :: "string \<Rightarrow> error + u64" where
  "ParseUint s =
     (if s = [] \<or> \<not> list_all is_digit s then Inl []
      else if 2 ^ 64 \<le> dec_val 0 s then Inl []
      else Inr (of_nat (dec_val 0 s)))"

text \<open>
  \<open>strconv.ParseInt s 10 64\<close>, which is also \<open>strconv.Atoi\<close> on a 64-bit platform: an optional
  sign and a non-empty run of digits, in the range of an \<open>int64\<close>.
\<close>

definition ParseInt :: "string \<Rightarrow> error + int" where
  "ParseInt s =
     (let neg = HasPrefix s ''-'';
          ds = (if neg \<or> HasPrefix s ''+'' then drop 1 s else s);
          v = (if neg then - int (dec_val 0 ds) else int (dec_val 0 ds))
      in if ds = [] \<or> \<not> list_all is_digit ds then Inl []
         else if is_i64 v then Inr v else Inl [])"

text \<open>\<open>strconv.FormatInt v 10\<close>.\<close>

definition FormatInt :: "int \<Rightarrow> string" where
  "FormatInt v = (if v < 0 then CHR ''-'' # dec (nat (- v)) else dec (nat v))"

section \<open>Cuts\<close>

lemma HasPrefix_append [simp]: "HasPrefix (p @ s) p"
  by (simp add: HasPrefix_def)

lemma HasPrefix_Nil [simp]: "HasPrefix s []"
  by (simp add: HasPrefix_def)

lemma HasPrefix_Cons [simp]:
  "HasPrefix (c # s) (d # p) \<longleftrightarrow> c = d \<and> HasPrefix s p"
  by (auto simp: HasPrefix_def)

lemma HasPrefix_Nil_left [simp]: "HasPrefix [] p \<longleftrightarrow> p = []"
  by (auto simp: HasPrefix_def)

lemma HasPrefix_iff: "HasPrefix s p \<longleftrightarrow> (\<exists>r. s = p @ r)"
  by (metis HasPrefix_append HasPrefix_def append_take_drop_id)

lemma HasSuffix_iff: "HasSuffix s p \<longleftrightarrow> (\<exists>r. s = r @ p)"
proof
  assume "HasSuffix s p"
  then show "\<exists>r. s = r @ p"
    unfolding HasSuffix_def by (metis append_take_drop_id)
qed (auto simp: HasSuffix_def)

lemma CutPrefix_append [simp]: "CutPrefix (p @ s) p = Some s"
  by (simp add: CutPrefix_def)

text \<open>The first character of the separator not occurring before it fixes the cut.\<close>

lemma Cut_first:
  assumes "d \<notin> set a"
  shows "Cut (a @ (d # sep) @ b) (d # sep) = (a, b, True)"
  using assms by (induction a) (auto simp: HasPrefix_iff)

lemma Cut_first_Cons:
  assumes "d \<notin> set a"
  shows "Cut (a @ d # sep @ b) (d # sep) = (a, b, True)"
  using Cut_first [OF assms, of sep b] by simp

lemma Cut_True: "Cut s sep = (a, b, True) \<Longrightarrow> s = a @ sep @ b"
  by (induction s sep arbitrary: a b rule: Cut.induct)
     (auto simp: HasPrefix_iff split: if_splits prod.splits)

lemma Cut_found_iff: "snd (snd (Cut s sep)) \<longleftrightarrow> Contains s sep"
  by (induction s sep rule: Cut.induct) (auto split: prod.splits)

lemma Contains_iff: "Contains s sub \<longleftrightarrow> (\<exists>a b. s = a @ sub @ b)"
proof (induction s)
  case (Cons c s)
  have "(\<exists>a b. c # s = a @ sub @ b) \<longleftrightarrow> (\<exists>b. c # s = sub @ b) \<or> (\<exists>a b. s = a @ sub @ b)"
    by (metis append_Cons append_Nil list.sel(3) neq_Nil_conv)
  with Cons show ?case by (simp add: HasPrefix_iff)
qed auto

lemma Contains_append_left: "Contains s sub \<Longrightarrow> Contains (s @ t) sub"
  unfolding Contains_iff by (metis append_assoc)

lemma Contains_append_right: "Contains t sub \<Longrightarrow> Contains (s @ t) sub"
  by (auto simp: Contains_iff) (metis append_assoc)

section \<open>Decimal round trips\<close>

lemma of_char_digit: "d < 10 \<Longrightarrow> (of_char (digit d) :: nat) = 48 + d"
  by (simp add: digit_def)

lemma is_digit_digit: "d < 10 \<Longrightarrow> is_digit (digit d)"
  by (simp add: is_digit_def of_char_digit)

lemma dec_nonempty [simp, text_simps]: "dec n \<noteq> []"
  by (subst dec.simps) simp

lemma dec_digits: "list_all is_digit (dec n)"
proof (induction n rule: dec.induct)
  case (1 n)
  then show ?case
    by (subst dec.simps) (simp add: is_digit_digit)
qed

lemma dec_val_append: "dec_val a (xs @ ys) = dec_val (dec_val a xs) ys"
  by (induction xs arbitrary: a) auto

lemma dec_val_dec [simp, text_simps]: "dec_val 0 (dec n) = n"
proof (induction n rule: dec.induct)
  case (1 n)
  then show ?case
    by (subst dec.simps) (simp add: of_char_digit dec_val_append)
qed

lemma dec_val_zeros [simp]: "dec_val 0 (replicate k (CHR ''0'') @ s) = dec_val 0 s"
  by (induction k) auto

lemma Sprintf_digits: "list_all is_digit (Sprintf_0d w n)"
  by (auto simp: Sprintf_0d_def dec_digits list_all_iff is_digit_def dest: in_set_replicate [THEN iffD1])
     (use dec_digits [of n] in \<open>auto simp: list_all_iff is_digit_def\<close>)

lemma Sprintf_nonempty [simp, text_simps]: "Sprintf_0d w n \<noteq> []"
  by (simp add: Sprintf_0d_def)

lemma dec_val_Sprintf [simp, text_simps]: "dec_val 0 (Sprintf_0d w n) = n"
  by (simp add: Sprintf_0d_def)

lemma Sprintf_inject [simp, key_simps]: "Sprintf_0d w n = Sprintf_0d w m \<longleftrightarrow> n = m"
  by (metis dec_val_Sprintf)

lemma Sprintf_no_char:
  "\<not> is_digit c \<Longrightarrow> c \<notin> set (Sprintf_0d w n)"
  using Sprintf_digits [of w n] by (auto simp: list_all_iff)

lemma dec_no_char: "\<not> is_digit c \<Longrightarrow> c \<notin> set (dec n)"
  using dec_digits [of n] by (auto simp: list_all_iff)

lemma not_digits [simp, key_simps]:
  "\<not> is_digit (CHR ''-'')" "\<not> is_digit (CHR ''/'')" "\<not> is_digit (CHR ''.'')"
  "\<not> is_digit (CHR ''e'')" "\<not> is_digit (CHR ''g'')" "\<not> is_digit (CHR ''r'')"
  "\<not> is_digit (CHR ''l'')" "\<not> is_digit (CHR ''h'')" "\<not> is_digit (CHR ''s'')"
  "\<not> is_digit (CHR ''+'')"
  by (simp_all add: is_digit_def)

lemma ParseUint_Sprintf [simp, text_simps]:
  "ParseUint (Sprintf_0d w (unat (x :: u64))) = Inr x"
  using Sprintf_digits [of w "unat x"] by (simp add: ParseUint_def not_le)

lemma ParseUint_dec [simp, text_simps]: "ParseUint (dec (unat (x :: u64))) = Inr x"
  using dec_digits [of "unat x"] by (simp add: ParseUint_def not_le)

lemma dec_not_sign [simp]:
  "\<not> HasPrefix (dec n) ''-''" "\<not> HasPrefix (dec n) ''+''"
  using dec_no_char [of "CHR ''-''" n] dec_no_char [of "CHR ''+''" n]
  by (auto simp: HasPrefix_iff)

lemma ParseInt_FormatInt [simp, text_simps]: "is_i64 v \<Longrightarrow> ParseInt (FormatInt v) = Inr v"
  using dec_digits by (auto simp: ParseInt_def FormatInt_def Let_def)

end
