(* ===== verification/Group_Id.thy ===== *)
theory Group_Id
  imports Go_Text
begin

unbundle bit_operations_syntax

text \<open>
  Group identities (\<open>ledger/group.go\<close>): the packing of an epoch and a sequence into one 64-bit
  number, its text form, and the parser of that form. The theorems say that the two parts are
  recovered, that numeric order is the lexicographic order of (epoch, sequence), and that the text
  form is read back to the same identity.
\<close>

section \<open>Definitions\<close>

datatype GroupID = GroupID (raw: u64)

definition groupSeqBits :: nat where
  "groupSeqBits = 40"

definition groupSeqMask :: u64 where
  "groupSeqMask = push_bit groupSeqBits 1 - 1"

definition groupEpochBits :: nat where
  "groupEpochBits = 64 - groupSeqBits"

definition maxGroupEpoch :: u64 where
  "maxGroupEpoch = push_bit groupEpochBits 1 - 1"

definition NewGroupID :: "u64 \<Rightarrow> u64 \<Rightarrow> GroupID" where
  "NewGroupID epoch sequence =
     GroupID (push_bit groupSeqBits epoch OR (sequence AND groupSeqMask))"

definition Epoch :: "GroupID \<Rightarrow> u64" where
  "Epoch g = drop_bit groupSeqBits (raw g)"

definition Sequence :: "GroupID \<Rightarrow> u64" where
  "Sequence g = raw g AND groupSeqMask"

definition String_GroupID :: "GroupID \<Rightarrow> string" where
  "String_GroupID g =
     ''e'' @ Sprintf_0d 6 (unat (Epoch g)) @ ''-g'' @ Sprintf_0d 8 (unat (Sequence g))"

text \<open>\<open>cmp.Compare\<close> on the raw numbers.\<close>

definition Compare :: "GroupID \<Rightarrow> GroupID \<Rightarrow> int" where
  "Compare g other = (if raw g < raw other then - 1 else if raw g > raw other then 1 else 0)"

definition ParseGroupID :: "string \<Rightarrow> error + GroupID" where
  "ParseGroupID s =
     (if s = '''' then Inr (GroupID 0)
      else case CutPrefix s ''e'' of
        None \<Rightarrow> Inl []
      | Some rest \<Rightarrow>
          (case Cut rest ''-g'' of (epochText, seqText, ok) \<Rightarrow>
            if \<not> ok then Inl []
            else case ParseUint epochText of
              Inl e \<Rightarrow> Inl e
            | Inr epoch \<Rightarrow>
                (case ParseUint seqText of
                  Inl e \<Rightarrow> Inl e
                | Inr sequence \<Rightarrow>
                    if epoch > maxGroupEpoch then Inl []
                    else if sequence > groupSeqMask then Inl []
                    else Inr (NewGroupID epoch sequence))))"

text \<open>The order of identities is the order of the raw numbers.\<close>

instantiation GroupID :: linorder
begin

definition less_eq_GroupID :: "GroupID \<Rightarrow> GroupID \<Rightarrow> bool" where
  "less_eq_GroupID a b \<longleftrightarrow> raw a \<le> raw b"

definition less_GroupID :: "GroupID \<Rightarrow> GroupID \<Rightarrow> bool" where
  "less_GroupID a b \<longleftrightarrow> raw a < raw b"

instance
  by standard (auto simp: less_eq_GroupID_def less_GroupID_def GroupID.expand)

end

lemmas group_id_order = less_eq_GroupID_def less_GroupID_def

section \<open>The packing, in natural numbers\<close>

lemma groupSeqMask_mask: "groupSeqMask = mask 40"
  by (simp add: groupSeqMask_def groupSeqBits_def mask_eq_decr_exp push_bit_eq_mult)

lemma unat_groupSeqMask: "unat groupSeqMask = 2 ^ 40 - 1"
  by (simp add: groupSeqMask_def groupSeqBits_def push_bit_eq_mult)

lemma unat_maxGroupEpoch: "unat maxGroupEpoch = 2 ^ 24 - 1"
  by (simp add: maxGroupEpoch_def groupEpochBits_def groupSeqBits_def push_bit_eq_mult)

lemma unat_Epoch: "unat (Epoch g) = unat (raw g) div 2 ^ 40"
  by (simp add: Epoch_def groupSeqBits_def drop_bit_eq_div unat_div)

lemma Sequence_take_bit: "Sequence g = take_bit 40 (raw g)"
  by (simp add: Sequence_def groupSeqMask_mask take_bit_eq_mask)

lemma unat_Sequence: "unat (Sequence g) = unat (raw g) mod 2 ^ 40"
  by (simp add: Sequence_take_bit take_bit_eq_mod unat_mod)

lemma raw_split: "unat (raw g) = unat (Epoch g) * 2 ^ 40 + unat (Sequence g)"
  by (simp add: unat_Epoch unat_Sequence)

lemma Epoch_NewGroupID: "Epoch (NewGroupID epoch sequence) = take_bit 24 epoch"
  by (rule bit_word_eqI)
     (auto simp: Epoch_def NewGroupID_def groupSeqBits_def groupSeqMask_mask bit_simps)

lemma Sequence_NewGroupID: "Sequence (NewGroupID epoch sequence) = take_bit 40 sequence"
  by (rule bit_word_eqI)
     (auto simp: Sequence_take_bit NewGroupID_def groupSeqBits_def groupSeqMask_mask bit_simps)

lemma take_bit_u64_id: "unat x < 2 ^ n \<Longrightarrow> take_bit n (x :: u64) = x"
  by (rule unsigned_word_eqI [where ?'a = nat]) (simp add: unsigned_take_bit_eq take_bit_nat_eq_self)

lemma le_maxGroupEpoch: "x \<le> maxGroupEpoch \<longleftrightarrow> unat x < 2 ^ 24"
  by (auto simp: word_le_nat_alt unat_maxGroupEpoch)

lemma le_groupSeqMask: "x \<le> groupSeqMask \<longleftrightarrow> unat x < 2 ^ 40"
  by (auto simp: word_le_nat_alt unat_groupSeqMask)

lemma Epoch_le [simp]: "Epoch g \<le> maxGroupEpoch"
proof -
  have "unat (raw g) div 2 ^ 40 < (2 ^ 24 :: nat)"
    using unat_less_2p64 [of "raw g"] by (simp add: div_less_iff_less_mult)
  then show ?thesis by (simp add: le_maxGroupEpoch unat_Epoch)
qed

lemma Sequence_le [simp]: "Sequence g \<le> groupSeqMask"
  by (simp add: le_groupSeqMask unat_Sequence)

lemma NewGroupID_parts [simp]: "NewGroupID (Epoch g) (Sequence g) = g"
proof (rule GroupID.expand, rule unsigned_word_eqI [where ?'a = nat])
  show "unat (raw (NewGroupID (Epoch g) (Sequence g))) = unat (raw g)"
    using Epoch_le [of g] Sequence_le [of g]
    by (simp add: raw_split Epoch_NewGroupID Sequence_NewGroupID take_bit_u64_id
        le_maxGroupEpoch le_groupSeqMask del: Epoch_le Sequence_le)
qed

lemma Epoch_New [simp]: "epoch \<le> maxGroupEpoch \<Longrightarrow> Epoch (NewGroupID epoch sequence) = epoch"
  by (simp add: Epoch_NewGroupID le_maxGroupEpoch take_bit_u64_id)

lemma Sequence_New [simp]:
  "sequence \<le> groupSeqMask \<Longrightarrow> Sequence (NewGroupID epoch sequence) = sequence"
  by (simp add: Sequence_NewGroupID le_groupSeqMask take_bit_u64_id)

lemma less_GroupID_lex:
  "g < h \<longleftrightarrow> Epoch g < Epoch h \<or> Epoch g = Epoch h \<and> Sequence g < Sequence h"
proof -
  let ?e = "unat (Epoch g)" and ?s = "unat (Sequence g)"
  let ?e' = "unat (Epoch h)" and ?s' = "unat (Sequence h)"
  have s: "?s < 2 ^ 40" "?s' < 2 ^ 40"
    by (simp_all add: unat_Sequence)
  have "?e * 2 ^ 40 + ?s < ?e' * 2 ^ 40 + ?s' \<longleftrightarrow> ?e < ?e' \<or> ?e = ?e' \<and> ?s < ?s'"
    using s by auto
  then show ?thesis
    by (simp add: group_id_order word_less_nat_alt raw_split [of g] raw_split [of h] word_unat_eq_iff)
qed

section \<open>Properties\<close>

text \<open>
  An identity built from an epoch of at most 24 bits and a sequence of at most 40 bits gives
  both parts back, so neither field spills into the other.
\<close>

theorem new_group_id_parts:
  "epoch \<le> maxGroupEpoch \<Longrightarrow> sequence \<le> groupSeqMask \<Longrightarrow>
    Epoch (NewGroupID epoch sequence) = epoch \<and> Sequence (NewGroupID epoch sequence) = sequence"
  by simp

theorem new_group_id_parts_witness:
  "Epoch (NewGroupID 7 42) = 7 \<and> Sequence (NewGroupID 7 42) = 42"
  using new_group_id_parts [of 7 42]
  by (simp add: le_maxGroupEpoch le_groupSeqMask)

text \<open>
  \<open>Compare\<close> orders identities by epoch first and by sequence within an epoch: a later epoch
  is later however large its sequences are.
\<close>

theorem compare_lexicographic:
  "(Compare g h = - 1 \<longleftrightarrow> Epoch g < Epoch h \<or> Epoch g = Epoch h \<and> Sequence g < Sequence h) \<and>
   (Compare g h = 0 \<longleftrightarrow> g = h) \<and>
   (Compare g h = 1 \<longleftrightarrow> Compare h g = - 1)"
proof -
  have "Compare g h = - 1 \<longleftrightarrow> g < h"
    by (simp add: Compare_def group_id_order)
  then show ?thesis
    by (auto simp: less_GroupID_lex Compare_def GroupID.expand)
qed

text \<open>
  C38. The text form is read back to the identity it was printed from, for every identity, so a
  position a consumer saved as text resumes where it was saved.
\<close>

theorem parse_string_round_trip: "ParseGroupID (String_GroupID g) = Inr g"
proof -
  have c: "CHR ''-'' \<notin> set (Sprintf_0d 6 (unat (Epoch g)))"
    by (rule Sprintf_no_char) simp
  have "CutPrefix (String_GroupID g) ''e'' =
      Some (Sprintf_0d 6 (unat (Epoch g)) @ ''-g'' @ Sprintf_0d 8 (unat (Sequence g)))"
    by (simp add: String_GroupID_def CutPrefix_def)
  then show ?thesis
    using Epoch_le [of g] Sequence_le [of g] Cut_first_Cons [OF c, of "''g''"]
    by (simp add: ParseGroupID_def String_GroupID_def not_less del: Epoch_le Sequence_le)
qed

text \<open>
  Whatever text the parser accepts has an epoch and a sequence that fit their fields: the
  identity it answers carries exactly the two numbers that were written, never their low bits.
\<close>

theorem parse_accepts_only_fitting:
  assumes "ParseGroupID s = Inr g" and "s \<noteq> ''''"
  shows "\<exists>et st. s = ''e'' @ et @ ''-g'' @ st \<and> dec_val 0 et = unat (Epoch g)
    \<and> dec_val 0 st = unat (Sequence g)"
proof -
  obtain rest where rest: "CutPrefix s ''e'' = Some rest"
    using assms by (auto simp: ParseGroupID_def split: option.splits)
  obtain et st where cut: "Cut rest ''-g'' = (et, st, True)"
    using assms rest by (auto simp: ParseGroupID_def split: prod.splits if_splits)
  obtain e q where e: "ParseUint et = Inr e" and q: "ParseUint st = Inr q"
    and le: "e \<le> maxGroupEpoch" "q \<le> groupSeqMask" and g: "g = NewGroupID e q"
    using assms rest cut by (auto simp: ParseGroupID_def not_less split: sum.splits if_splits)
  have s: "s = ''e'' @ et @ ''-g'' @ st"
    using rest Cut_True [OF cut] by (auto simp: CutPrefix_def HasPrefix_iff split: if_splits)
  have "dec_val 0 et = unat e" and "dec_val 0 st = unat q"
    using e q by (auto simp: ParseUint_def unat_of_nat split: if_splits)
  with s le g show ?thesis by auto
qed

theorem parse_accepts_only_fitting_witness:
  "\<exists>et st. ''e1-g42'' = ''e'' @ et @ ''-g'' @ st \<and> dec_val 0 et = unat (Epoch (NewGroupID 1 42))
    \<and> dec_val 0 st = unat (Sequence (NewGroupID 1 42))"
proof (rule parse_accepts_only_fitting)
  show "ParseGroupID ''e1-g42'' = Inr (NewGroupID 1 42)"
    by (simp add: ParseGroupID_def CutPrefix_def ParseUint_def is_digit_def maxGroupEpoch_def
        groupEpochBits_def groupSeqBits_def groupSeqMask_def push_bit_eq_mult)
qed simp

end
