(* ===== verification/Group_Info.thy ===== *)
theory Group_Info
  imports Group_Id
begin

text \<open>
  A group's manifest row (\<open>GroupInfo\<close> of \<open>ledger/group.go\<close>): its anchors on the two timelines, the
  conversion between them, the window tests of the range queries, and the checks an append makes on
  a row alone.
\<close>

section \<open>Definitions\<close>

record GroupInfo =
  ID :: GroupID
  MediaTime :: int
  Duration :: int
  Wallclock :: int
  ObjectCount :: u64
  ObjectKey :: string
  Size :: int
  MIME :: string
  Encoding :: string

text \<open>The zero value of the struct.\<close>

definition zero_GroupInfo :: GroupInfo where
  "zero_GroupInfo = \<lparr>ID = GroupID 0, MediaTime = 0, Duration = 0, Wallclock = 0, ObjectCount = 0,
     ObjectKey = '''', Size = 0, MIME = '''', Encoding = ''''\<rparr>"

definition hasDuration :: "GroupInfo \<Rightarrow> bool" where
  "hasDuration m \<longleftrightarrow> Duration m > 0"

definition hasWallclock :: "GroupInfo \<Rightarrow> bool" where
  "hasWallclock m \<longleftrightarrow> Wallclock m \<noteq> 0"

definition mediaEnd :: "GroupInfo \<Rightarrow> int" where
  "mediaEnd m = i64 (MediaTime m + Duration m)"

definition nanosPerSecond :: int where
  "nanosPerSecond = 1000000000"

text \<open>
  The quotient and remainder are of non-negative numbers, where Go's truncating division agrees
  with \<open>div\<close> and \<open>mod\<close>. Every product and sum is wrapped to an \<open>int64\<close>.
\<close>

definition mediaToNanos :: "int \<Rightarrow> u32 \<Rightarrow> int option" where
  "mediaToNanos units timescale =
     (if timescale = 0 \<or> units < 0 then None
      else let scale = uint timescale;
               seconds = units div scale;
               remainder = units mod scale
           in if seconds > MaxInt64 div nanosPerSecond then None
              else let whole = i64 (seconds * nanosPerSecond);
                       fraction = i64 (remainder * nanosPerSecond) div scale
                   in if whole > i64 (MaxInt64 - fraction) then None
                      else Some (i64 (whole + fraction)))"

definition wallclockEnd :: "GroupInfo \<Rightarrow> u32 \<Rightarrow> int option" where
  "wallclockEnd m timescale =
     (if \<not> hasWallclock m \<or> \<not> hasDuration m then None
      else case mediaToNanos (Duration m) timescale of
        None \<Rightarrow> None
      | Some nanos \<Rightarrow>
          if Wallclock m > i64 (MaxInt64 - nanos) then None
          else Some (i64 (Wallclock m + nanos)))"

definition overlapsMedia :: "GroupInfo \<Rightarrow> int \<Rightarrow> int \<Rightarrow> bool" where
  "overlapsMedia m from to =
     (if \<not> hasDuration m then MediaTime m \<ge> from \<and> MediaTime m < to
      else MediaTime m < to \<and> mediaEnd m > from)"

definition overlapsWallclock :: "GroupInfo \<Rightarrow> int \<Rightarrow> int \<Rightarrow> u32 \<Rightarrow> bool" where
  "overlapsWallclock m from to timescale =
     (if \<not> hasWallclock m then False
      else case wallclockEnd m timescale of
        None \<Rightarrow> Wallclock m \<ge> from \<and> Wallclock m < to
      | Some e \<Rightarrow> Wallclock m < to \<and> e > from)"

definition validate_GroupInfo :: "GroupInfo \<Rightarrow> error option" where
  "validate_GroupInfo m =
     (if Epoch (ID m) = 0 then Some [ErrInvalidGroup]
      else if Duration m < 0 then Some [ErrInvalidGroup]
      else if Wallclock m < 0 then Some [ErrInvalidGroup]
      else if Size m < 0 then Some [ErrInvalidGroup]
      else if Duration m > 0 \<and> MediaTime m > i64 (MaxInt64 - Duration m) then Some [ErrInvalidGroup]
      else None)"

text \<open>The fields hold values of their Go types.\<close>

definition typed_GroupInfo :: "GroupInfo \<Rightarrow> bool" where
  "typed_GroupInfo m \<longleftrightarrow>
     is_i64 (MediaTime m) \<and> is_i64 (Duration m) \<and> is_i64 (Wallclock m) \<and> is_i64 (Size m)"

section \<open>Lemmas\<close>

lemma validate_GroupInfo_None:
  assumes "typed_GroupInfo m"
  shows "validate_GroupInfo m = None \<longleftrightarrow>
    Epoch (ID m) \<noteq> 0 \<and> 0 \<le> Duration m \<and> 0 \<le> Wallclock m \<and> 0 \<le> Size m \<and>
    MediaTime m + Duration m \<le> MaxInt64"
proof -
  have "i64 (MaxInt64 - Duration m) = MaxInt64 - Duration m" if "0 < Duration m"
    using assms that by (intro i64_id) (auto simp: typed_GroupInfo_def i64_bounds)
  then show ?thesis
    using assms by (auto simp: validate_GroupInfo_def typed_GroupInfo_def i64_bounds)
qed

lemma mediaEnd_valid:
  assumes "typed_GroupInfo m" and "validate_GroupInfo m = None"
  shows "mediaEnd m = MediaTime m + Duration m" and "MediaTime m \<le> mediaEnd m"
proof -
  have "is_i64 (MediaTime m + Duration m)" and "0 \<le> Duration m"
    using assms validate_GroupInfo_None [OF assms(1)]
    by (auto simp: typed_GroupInfo_def i64_bounds)
  then show "mediaEnd m = MediaTime m + Duration m" and "MediaTime m \<le> mediaEnd m"
    by (simp_all add: mediaEnd_def i64_id)
qed

lemma div_split_scale:
  fixes u s k :: int
  assumes "0 < s"
  shows "u * k div s = (u div s) * k + (u mod s) * k div s"
proof -
  have "u * k = (u mod s) * k + s * ((u div s) * k)"
    by (metis add.commute div_mult_mod_eq distrib_right mult.assoc mult.commute)
  then have "u * k div s = ((u mod s) * k + s * ((u div s) * k)) div s"
    by simp
  also have "\<dots> = (u div s) * k + (u mod s) * k div s"
    using assms by simp
  finally show ?thesis .
qed

lemma mediaToNanos_cases:
  assumes "is_i64 units" and "timescale \<noteq> 0" and "0 \<le> units"
  shows "mediaToNanos units timescale =
    (let n = units * nanosPerSecond div uint timescale
     in if n \<le> MaxInt64 then Some n else None)"
proof -
  define s where "s = uint timescale"
  define q where "q = units div s"
  define r where "r = units mod s"
  define f where "f = r * nanosPerSecond div s"
  have s: "0 < s" "s < 2 ^ 32"
    using assms(2) unsigned_less [of timescale, where ?'a = int]
    by (auto simp: s_def uint_pos)
  have r: "0 \<le> r" "r < s" using s by (auto simp: r_def)
  have q: "0 \<le> q" using assms(3) s by (simp add: q_def pos_imp_zdiv_nonneg_iff)
  have rn: "is_i64 (r * nanosPerSecond)"
    using r s by (simp add: i64_bounds nanosPerSecond_def)
  have f: "0 \<le> f" "f < nanosPerSecond"
  proof -
    show "0 \<le> f" using r s by (simp add: f_def nanosPerSecond_def pos_imp_zdiv_nonneg_iff)
    have "f * s \<le> r * nanosPerSecond"
      using s by (simp add: f_def minus_mod_eq_div_mult [symmetric])
    also have "\<dots> < nanosPerSecond * s"
      using r by (simp add: nanosPerSecond_def)
    finally show "f < nanosPerSecond"
      using s by simp
  qed
  have n: "units * nanosPerSecond div s = q * nanosPerSecond + f"
    unfolding q_def r_def f_def by (rule div_split_scale [OF s(1)])
  have mf: "i64 (MaxInt64 - f) = MaxInt64 - f"
    using f by (intro i64_id) (simp add: i64_bounds nanosPerSecond_def)
  show ?thesis
  proof (cases "q > MaxInt64 div nanosPerSecond")
    case True
    then have "MaxInt64 < q * nanosPerSecond"
      by (simp add: MaxInt64_def nanosPerSecond_def)
    then show ?thesis
      using True assms f n by (simp add: mediaToNanos_def Let_def s_def [symmetric] q_def [symmetric])
  next
    case False
    then have qn: "is_i64 (q * nanosPerSecond)"
      using q by (simp add: i64_bounds nanosPerSecond_def)
    have "is_i64 (q * nanosPerSecond + f)" if "q * nanosPerSecond + f \<le> MaxInt64"
      using that q f by (simp add: i64_bounds nanosPerSecond_def)
    then show ?thesis
      using False assms mf i64_id [OF qn] i64_id [OF rn] n
      by (auto simp: mediaToNanos_def Let_def s_def [symmetric] q_def [symmetric]
          r_def [symmetric] f_def [symmetric] i64_id)
  qed
qed

section \<open>Properties\<close>

text \<open>
  C39. Converting a media extent to nanoseconds is exact: it answers the rounded-down quotient
  \<open>units * 10^9 / timescale\<close> whenever that fits an \<open>int64\<close>, and refuses exactly when it does not
  (or when the timescale is zero or the extent negative). No intermediate product wraps.
\<close>

theorem media_to_nanos_exact:
  assumes "is_i64 units"
  shows "mediaToNanos units timescale =
    (if timescale = 0 \<or> units < 0 then None
     else let n = units * nanosPerSecond div uint timescale
          in if n \<le> MaxInt64 then Some n else None)"
proof (cases "timescale = 0 \<or> units < 0")
  case True
  then show ?thesis by (auto simp: mediaToNanos_def)
next
  case False
  then show ?thesis using mediaToNanos_cases [OF assms] by simp
qed

theorem media_to_nanos_exact_witness:
  "mediaToNanos 180000 90000 = Some 2000000000 \<and> mediaToNanos 9300000000 1 = None"
  using media_to_nanos_exact [of 180000 90000] media_to_nanos_exact [of 9300000000 1]
  by (simp add: i64_bounds nanosPerSecond_def)

text \<open>
  C40. The checks on a row alone accept exactly the rows with an epoch, no negative duration,
  wallclock or size, and a media range that ends within an \<open>int64\<close>; the end of an accepted row is
  then the true sum, never a wrapped one before its own start.
\<close>

theorem validate_accepts_iff:
  assumes "typed_GroupInfo m"
  shows "(validate_GroupInfo m = None \<longleftrightarrow>
      Epoch (ID m) \<noteq> 0 \<and> 0 \<le> Duration m \<and> 0 \<le> Wallclock m \<and> 0 \<le> Size m \<and>
      MediaTime m + Duration m \<le> MaxInt64)
    \<and> (validate_GroupInfo m = None \<longrightarrow>
        mediaEnd m = MediaTime m + Duration m \<and> MediaTime m \<le> mediaEnd m)"
  using validate_GroupInfo_None [OF assms] mediaEnd_valid [OF assms] by blast

theorem validate_accepts_iff_witness:
  "validate_GroupInfo (zero_GroupInfo\<lparr>ID := NewGroupID 1 0, MediaTime := 5, Duration := 7\<rparr>) = None"
proof -
  let ?m = "zero_GroupInfo\<lparr>ID := NewGroupID 1 0, MediaTime := 5, Duration := 7\<rparr>"
  have "typed_GroupInfo ?m"
    by (simp add: typed_GroupInfo_def zero_GroupInfo_def i64_bounds)
  from validate_accepts_iff [OF this] show ?thesis
    by (simp add: zero_GroupInfo_def MaxInt64_def le_maxGroupEpoch)
qed

text \<open>
  The media window test of an accepted row is the intersection of the half-open window with
  the row's extent, the extent of a row with no duration being its anchor alone.
\<close>

theorem overlaps_media_iff_intersects:
  assumes "typed_GroupInfo m" and "validate_GroupInfo m = None" and "from < to"
  shows "overlapsMedia m from to \<longleftrightarrow>
    {from..<to} \<inter> (if Duration m > 0 then {MediaTime m..<MediaTime m + Duration m} else {MediaTime m}) \<noteq> {}"
  using assms mediaEnd_valid [OF assms(1,2)]
  by (auto simp: overlapsMedia_def hasDuration_def)

theorem overlaps_media_iff_intersects_witness:
  "overlapsMedia (zero_GroupInfo\<lparr>ID := NewGroupID 1 0, MediaTime := 5, Duration := 7\<rparr>) 11 20"
proof -
  let ?m = "zero_GroupInfo\<lparr>ID := NewGroupID 1 0, MediaTime := 5, Duration := 7\<rparr>"
  have "typed_GroupInfo ?m" and "validate_GroupInfo ?m = None"
    by (simp_all add: typed_GroupInfo_def zero_GroupInfo_def i64_def i64_bounds validate_GroupInfo_def
        le_maxGroupEpoch)
  from overlaps_media_iff_intersects [OF this, of 11 20] show ?thesis
    by (simp add: zero_GroupInfo_def)
qed

text \<open>
  The wallclock window test of an accepted row: a row with no anchor never matches, and any
  other matches when the window meets the extent that starts at its anchor and lasts its duration
  in nanoseconds. A row with no duration, or whose end does not fit an \<open>int64\<close>, is its anchor alone.
\<close>

theorem overlaps_wallclock_iff_intersects:
  assumes "typed_GroupInfo m" and "validate_GroupInfo m = None" and "from < to" and "timescale \<noteq> 0"
  defines "nanos \<equiv> Duration m * nanosPerSecond div uint timescale"
  shows "overlapsWallclock m from to timescale \<longleftrightarrow>
    Wallclock m \<noteq> 0 \<and>
    (if Duration m > 0 \<and> Wallclock m + nanos \<le> MaxInt64
     then Wallclock m < to \<and> from < Wallclock m + nanos
     else from \<le> Wallclock m \<and> Wallclock m < to)"
proof -
  have v: "0 \<le> Duration m" "0 \<le> Wallclock m" and t: "is_i64 (Duration m)" "is_i64 (Wallclock m)"
    using assms(1,2) validate_GroupInfo_None [OF assms(1)] by (auto simp: typed_GroupInfo_def)
  have "0 < uint timescale"
    using assms(4) by (rule uint_pos)
  then have n0: "0 \<le> nanos"
    using v by (simp add: nanos_def nanosPerSecond_def pos_imp_zdiv_nonneg_iff)
  have mn: "mediaToNanos (Duration m) timescale = (if nanos \<le> MaxInt64 then Some nanos else None)"
    using mediaToNanos_cases [OF t(1) assms(4) v(1)] by (simp add: nanos_def Let_def)
  have "wallclockEnd m timescale =
      (if Wallclock m \<noteq> 0 \<and> Duration m > 0 \<and> Wallclock m + nanos \<le> MaxInt64
       then Some (Wallclock m + nanos) else None)"
    using v t n0 mn
    by (auto simp: wallclockEnd_def hasWallclock_def hasDuration_def i64_id i64_bounds)
  then show ?thesis
    by (auto simp: overlapsWallclock_def hasWallclock_def)
qed

theorem overlaps_wallclock_iff_intersects_witness:
  "overlapsWallclock (zero_GroupInfo\<lparr>ID := NewGroupID 1 0, Duration := 2000, Wallclock := 100\<rparr>)
     2000000050 2000000060 1000"
proof -
  let ?m = "zero_GroupInfo\<lparr>ID := NewGroupID 1 0, Duration := 2000, Wallclock := 100\<rparr>"
  have "typed_GroupInfo ?m" and "validate_GroupInfo ?m = None"
    by (simp_all add: typed_GroupInfo_def zero_GroupInfo_def i64_def i64_bounds validate_GroupInfo_def
        le_maxGroupEpoch)
  from overlaps_wallclock_iff_intersects [OF this, of 2000000050 2000000060 1000] show ?thesis
    by (simp add: zero_GroupInfo_def nanosPerSecond_def MaxInt64_def)
qed

end
