(* ===== verification/Json.thy ===== *)
theory Json
  imports Go_Text
begin

text \<open>
  The text layer of Go's \<open>encoding/json\<close> as the ledger uses it: compact output with HTML-safe
  string escapes (\<open>json.Marshal\<close>), and a parser of complete JSON texts (the scanner and string
  unquoting behind \<open>json.Unmarshal\<close> and \<open>json.Valid\<close>). Numbers are kept as their literal, as the
  decoder keeps them until it knows the target type. The round trip of the two is proved for every
  document whose strings are UTF-8.
\<close>

section \<open>UTF-8\<close>

abbreviation byte :: "char \<Rightarrow> nat" where
  "byte c \<equiv> of_char c"

definition is_cont :: "char \<Rightarrow> bool" where
  "is_cont c \<longleftrightarrow> 128 \<le> byte c \<and> byte c \<le> 191"

text \<open>How many bytes a rune starting with this byte has, 0 when no rune starts so.\<close>

definition rune_width :: "nat \<Rightarrow> nat" where
  "rune_width x =
     (if x < 128 then 1
      else if 194 \<le> x \<and> x \<le> 223 then 2
      else if 224 \<le> x \<and> x \<le> 239 then 3
      else if 240 \<le> x \<and> x \<le> 244 then 4
      else 0)"

text \<open>Continuation bytes follow the first; the second is narrower after some first bytes.\<close>

definition rune_ok :: "string \<Rightarrow> bool" where
  "rune_ok p \<longleftrightarrow> list_all is_cont (tl p) \<and>
     (case p of a # b # _ \<Rightarrow>
        (byte a = 224 \<longrightarrow> 160 \<le> byte b) \<and> (byte a = 237 \<longrightarrow> byte b \<le> 159) \<and>
        (byte a = 240 \<longrightarrow> 144 \<le> byte b) \<and> (byte a = 244 \<longrightarrow> byte b \<le> 143)
      | _ \<Rightarrow> True)"

text \<open>
  The number of bytes of the rune a string starts with, or 0 when its bytes are not UTF-8 there
  (\<open>utf8.DecodeRune\<close> answering \<open>RuneError\<close> with width 1).
\<close>

definition utf8_len :: "string \<Rightarrow> nat" where
  "utf8_len s = (case s of [] \<Rightarrow> 0 | a # t \<Rightarrow>
     (let n = rune_width (byte a)
      in if length s < n \<or> \<not> rune_ok (take n s) then 0 else n))"

text \<open>\<open>utf8.Valid\<close>.\<close>

function valid_utf8 :: "string \<Rightarrow> bool" where
  "valid_utf8 s = (if s = [] then True
     else if utf8_len s = 0 then False else valid_utf8 (drop (utf8_len s) s))"
  by pat_completeness auto
termination
  by (relation "measure length") auto

declare valid_utf8.simps [simp del]

text \<open>\<open>utf8.EncodeRune\<close> of a code point.\<close>

definition encode_rune :: "nat \<Rightarrow> string" where
  "encode_rune r =
     (if r < 128 then [char_of r]
      else if r < 2048 then [char_of (192 + r div 64), char_of (128 + r mod 64)]
      else if 1114111 < r \<or> 55296 \<le> r \<and> r \<le> 57343 then map char_of [239, 191, 189 :: nat]
      else if r < 65536 then
        [char_of (224 + r div 4096), char_of (128 + r div 64 mod 64), char_of (128 + r mod 64)]
      else [char_of (240 + r div 262144), char_of (128 + r div 4096 mod 64),
            char_of (128 + r div 64 mod 64), char_of (128 + r mod 64)])"

section \<open>Writing\<close>

datatype json = JNull | JBool bool | JNum string | JStr string | JArr "json list"
  | JObj "(string \<times> json) list"

definition hexdig :: "nat \<Rightarrow> char" where
  "hexdig n = (if n < 10 then char_of (48 + n) else char_of (87 + n))"

text \<open>How one ASCII byte of a string is written (\<open>appendString\<close> with HTML escaping).\<close>

definition escape_ascii :: "char \<Rightarrow> string" where
  "escape_ascii c =
     (if c = CHR 0x22 \<or> c = CHR 0x5C then [CHR 0x5C, c]
      else if c = CHR 0x08 then [CHR 0x5C, CHR ''b'']
      else if c = CHR 0x0C then [CHR 0x5C, CHR ''f'']
      else if c = CHR 0x0A then [CHR 0x5C, CHR ''n'']
      else if c = CHR 0x0D then [CHR 0x5C, CHR ''r'']
      else if c = CHR 0x09 then [CHR 0x5C, CHR ''t'']
      else if byte c < 32 \<or> c \<in> {CHR ''<'', CHR ''>'', CHR ''&''} then
        [CHR 0x5C, CHR ''u'', CHR ''0'', CHR ''0'', hexdig (byte c div 16), hexdig (byte c mod 16)]
      else [c])"

definition line_sep :: string where "line_sep = map char_of [226, 128, 168 :: nat]"
definition para_sep :: string where "para_sep = map char_of [226, 128, 169 :: nat]"

function quote_body :: "string \<Rightarrow> string" where
  "quote_body s =
     (if s = [] then []
      else if byte (hd s) < 128 then escape_ascii (hd s) @ quote_body (tl s)
      else if utf8_len s = 0 then CHR 0x5C # ''ufffd'' @ quote_body (tl s)
      else if take 3 s = line_sep then CHR 0x5C # ''u2028'' @ quote_body (drop 3 s)
      else if take 3 s = para_sep then CHR 0x5C # ''u2029'' @ quote_body (drop 3 s)
      else take (utf8_len s) s @ quote_body (drop (utf8_len s) s))"
  by pat_completeness auto
termination
  by (relation "measure length") auto

declare quote_body.simps [simp del]

definition quote :: "string \<Rightarrow> string" where
  "quote s = CHR 0x22 # quote_body s @ [CHR 0x22]"

fun join :: "string list \<Rightarrow> string" where
  "join [] = []"
| "join [x] = x"
| "join (x # y # xs) = x @ CHR '','' # join (y # xs)"

fun json_text :: "json \<Rightarrow> string" where
  "json_text JNull = ''null''"
| "json_text (JBool b) = (if b then ''true'' else ''false'')"
| "json_text (JNum l) = l"
| "json_text (JStr s) = quote s"
| "json_text (JArr xs) = CHR ''['' # join (map json_text xs) @ '']''"
| "json_text (JObj ms) =
     CHR ''{'' # join (map (\<lambda>m. quote (fst m) @ CHR '':'' # json_text (snd m)) ms) @ ''}''"

section \<open>Reading\<close>

definition is_ws :: "char \<Rightarrow> bool" where
  "is_ws c \<longleftrightarrow> c = CHR '' '' \<or> c = CHR 0x09 \<or> c = CHR 0x0A \<or> c = CHR 0x0D"

definition skip_ws :: "string \<Rightarrow> string" where
  "skip_ws s = dropWhile is_ws s"

definition hexval :: "char \<Rightarrow> nat option" where
  "hexval c =
     (if is_digit c then Some (byte c - 48)
      else if 97 \<le> byte c \<and> byte c \<le> 102 then Some (byte c - 87)
      else if 65 \<le> byte c \<and> byte c \<le> 70 then Some (byte c - 55)
      else None)"

text \<open>The value of four hex digits, and what follows them.\<close>

fun hex4 :: "string \<Rightarrow> (nat \<times> string) option" where
  "hex4 (a # b # c # d # s) =
     (case (hexval a, hexval b, hexval c, hexval d) of
        (Some w, Some x, Some y, Some z) \<Rightarrow> Some (4096 * w + 256 * x + 16 * y + z, s)
      | _ \<Rightarrow> None)"
| "hex4 _ = None"

text \<open>
  The rune a \<open>\u\<close> escape stands for and what follows it: a surrogate is joined with the escape
  after it when the two make a pair, and is the replacement character otherwise.
\<close>

definition u_escape :: "string \<Rightarrow> (nat \<times> string) option" where
  "u_escape s = (case hex4 s of
     None \<Rightarrow> None
   | Some (r, t) \<Rightarrow>
       if 55296 \<le> r \<and> r \<le> 57343 then
         (case (if take 2 t = [CHR 0x5C, CHR ''u''] then hex4 (drop 2 t) else None) of
            Some (r2, t2) \<Rightarrow>
              if r \<le> 56319 \<and> 56320 \<le> r2 \<and> r2 \<le> 57343
              then Some (65536 + (r - 55296) * 1024 + (r2 - 56320), t2)
              else Some (65533, t)
          | None \<Rightarrow> Some (65533, t))
       else Some (r, t))"

lemma hex4_length: "hex4 s = Some (r, t) \<Longrightarrow> length t < length s"
  by (induction s rule: hex4.induct) (auto split: option.splits)

lemma u_escape_length: "u_escape s = Some (r, t) \<Longrightarrow> length t < length s"
  by (auto simp: u_escape_def split: option.splits prod.splits if_splits dest!: hex4_length)

definition simple_escape :: "char \<Rightarrow> char option" where
  "simple_escape e =
     (if e = CHR 0x22 \<or> e = CHR 0x5C \<or> e = CHR ''/'' then Some e
      else if e = CHR ''b'' then Some (CHR 0x08)
      else if e = CHR ''f'' then Some (CHR 0x0C)
      else if e = CHR ''n'' then Some (CHR 0x0A)
      else if e = CHR ''r'' then Some (CHR 0x0D)
      else if e = CHR ''t'' then Some (CHR 0x09)
      else None)"

definition prepend :: "string \<Rightarrow> (string \<times> string) option \<Rightarrow> (string \<times> string) option" where
  "prepend p r = map_option (\<lambda>(t, u). (p @ t, u)) r"

text \<open>The contents of a string literal after its opening quote, and what follows it.\<close>

function parse_str :: "string \<Rightarrow> (string \<times> string) option" where
  "parse_str [] = None"
| "parse_str (c # s) =
     (if c = CHR 0x22 then Some ([], s)
      else if byte c < 32 then None
      else if c = CHR 0x5C then
        (case s of
           [] \<Rightarrow> None
         | e # t \<Rightarrow>
             if e = CHR ''u'' then
               (case u_escape t of
                  None \<Rightarrow> None
                | Some (r, u) \<Rightarrow> prepend (encode_rune r) (parse_str u))
             else (case simple_escape e of
                     None \<Rightarrow> None
                   | Some x \<Rightarrow> prepend [x] (parse_str t)))
      else if byte c < 128 then prepend [c] (parse_str s)
      else if utf8_len (c # s) = 0 then prepend (encode_rune 65533) (parse_str s)
      else prepend (take (utf8_len (c # s)) (c # s)) (parse_str (drop (utf8_len (c # s)) (c # s))))"
  by pat_completeness auto
termination
  by (relation "measure length") (auto dest: u_escape_length)

declare parse_str.simps(2) [simp del]

definition digits_of :: "string \<Rightarrow> string \<times> string" where
  "digits_of s = (takeWhile is_digit s, dropWhile is_digit s)"

text \<open>The integer part of a number: a lone zero, or a run of digits that does not start with one.\<close>

definition int_part :: "string \<Rightarrow> string \<times> string" where
  "int_part s = (if HasPrefix s ''0'' then (''0'', drop 1 s) else digits_of s)"

definition frac_part :: "string \<Rightarrow> string \<times> string" where
  "frac_part s =
     (if HasPrefix s ''.'' then (case digits_of (drop 1 s) of (f, t) \<Rightarrow> (CHR ''.'' # f, t)) else ([], s))"

definition exp_part :: "string \<Rightarrow> (string \<times> string) option" where
  "exp_part s =
     (if s \<noteq> [] \<and> (hd s = CHR ''e'' \<or> hd s = CHR ''E'') then
        (let sg = (if HasPrefix (tl s) ''+'' then ''+'' else if HasPrefix (tl s) ''-'' then ''-'' else []);
             (es, t) = digits_of (drop (length sg) (tl s))
         in if es = [] then None else Some (hd s # sg @ es, t))
      else Some ([], s))"

text \<open>A number literal and what follows it, by the grammar of RFC 8259.\<close>

definition parse_number :: "string \<Rightarrow> (string \<times> string) option" where
  "parse_number s =
     (let neg = (if HasPrefix s ''-'' then ''-'' else [])
      in case int_part (drop (length neg) s) of (ds, s1) \<Rightarrow>
           if ds = [] then None
           else case frac_part s1 of (fs, s2) \<Rightarrow>
             if fs = ''.'' then None
             else case exp_part s2 of
               None \<Rightarrow> None
             | Some (es, s3) \<Rightarrow> Some (neg @ ds @ fs @ es, s3))"

text \<open>
  A value and what follows it. The first argument bounds the calls made (twice the length of the
  text is enough), the second is how many more arrays and objects may nest.
\<close>

fun parse_value :: "nat \<Rightarrow> nat \<Rightarrow> string \<Rightarrow> (json \<times> string) option"
and parse_elems :: "nat \<Rightarrow> nat \<Rightarrow> string \<Rightarrow> (json list \<times> string) option"
and parse_members :: "nat \<Rightarrow> nat \<Rightarrow> string \<Rightarrow> ((string \<times> json) list \<times> string) option"
where
  "parse_value 0 d s = None"
| "parse_value (Suc f) d s =
     (case skip_ws s of
        [] \<Rightarrow> None
      | c # r \<Rightarrow>
          if c = CHR 0x22 then map_option (\<lambda>(t, u). (JStr t, u)) (parse_str r)
          else if c = CHR ''['' then
            (if d = 0 then None
             else if HasPrefix (skip_ws r) '']'' then Some (JArr [], drop 1 (skip_ws r))
             else map_option (\<lambda>(xs, u). (JArr xs, u)) (parse_elems f (d - 1) r))
          else if c = CHR ''{'' then
            (if d = 0 then None
             else if HasPrefix (skip_ws r) ''}'' then Some (JObj [], drop 1 (skip_ws r))
             else map_option (\<lambda>(ms, u). (JObj ms, u)) (parse_members f (d - 1) r))
          else if HasPrefix (c # r) ''null'' then Some (JNull, drop 4 (c # r))
          else if HasPrefix (c # r) ''true'' then Some (JBool True, drop 4 (c # r))
          else if HasPrefix (c # r) ''false'' then Some (JBool False, drop 5 (c # r))
          else map_option (\<lambda>(l, u). (JNum l, u)) (parse_number (c # r)))"
| "parse_elems 0 d s = None"
| "parse_elems (Suc f) d s =
     (case parse_value f d s of
        None \<Rightarrow> None
      | Some (x, r) \<Rightarrow>
          (case skip_ws r of
             [] \<Rightarrow> None
           | c # u \<Rightarrow>
               if c = CHR '','' then map_option (\<lambda>(xs, w). (x # xs, w)) (parse_elems f d u)
               else if c = CHR '']'' then Some ([x], u) else None))"
| "parse_members 0 d s = None"
| "parse_members (Suc f) d s =
     (case skip_ws s of
        [] \<Rightarrow> None
      | q # s1 \<Rightarrow>
          if q \<noteq> CHR 0x22 then None
          else (case parse_str s1 of
             None \<Rightarrow> None
           | Some (k, s2) \<Rightarrow>
               if \<not> HasPrefix (skip_ws s2) '':'' then None
               else (case parse_value f d (drop 1 (skip_ws s2)) of
                  None \<Rightarrow> None
                | Some (x, r) \<Rightarrow>
                    (case skip_ws r of
                       [] \<Rightarrow> None
                     | c # u \<Rightarrow>
                         if c = CHR '','' then map_option (\<lambda>(ms, w). ((k, x) # ms, w)) (parse_members f d u)
                         else if c = CHR ''}'' then Some ([(k, x)], u) else None))))"

definition maxNestingDepth :: nat where
  "maxNestingDepth = 10000"

definition parse_json :: "string \<Rightarrow> json option" where
  "parse_json s =
     (case parse_value (2 * length s + 2) maxNestingDepth s of
        None \<Rightarrow> None
      | Some (v, r) \<Rightarrow> if skip_ws r = [] then Some v else None)"

section \<open>Strings are read back\<close>

lemma utf8_len_le: "utf8_len s \<le> length s"
  by (auto simp: utf8_len_def Let_def split: list.splits)

lemma utf8_len_take:
  assumes "utf8_len s \<noteq> 0"
  shows "utf8_len (take (utf8_len s) s @ t) = utf8_len s"
proof -
  obtain a r where s: "s = a # r"
    using assms by (cases s) (auto simp: utf8_len_def)
  define n where "n = rune_width (byte a)"
  have n: "utf8_len s = n" "n \<le> length s" "rune_ok (take n s)"
    using assms by (auto simp: utf8_len_def s n_def Let_def split: if_splits)
  have "n \<noteq> 0" using assms n by simp
  then obtain k where k: "n = Suc k" by (cases n) auto
  have "utf8_len (a # take k r @ t) = n"
    using n by (simp add: utf8_len_def n_def [symmetric] s k)
  then show ?thesis by (simp add: n(1)) (simp add: s k)
qed

lemma hexval_hexdig: "n < 16 \<Longrightarrow> hexval (hexdig n) = Some n"
  by (auto simp: hexval_def hexdig_def is_digit_def)

lemma prepend_simps [simp]:
  "prepend p None = None" "prepend p (Some (t, u)) = Some (p @ t, u)"
  by (simp_all add: prepend_def)

lemma parse_str_quote [simp]: "parse_str (CHR 0x22 # s) = Some ([], s)"
  by (simp add: parse_str.simps)

lemma parse_str_u:
  "parse_str (CHR 0x5C # CHR ''u'' # s) =
    (case u_escape s of None \<Rightarrow> None | Some (r, u) \<Rightarrow> prepend (encode_rune r) (parse_str u))"
  by (simp add: parse_str.simps)

lemma parse_str_escape_ascii:
  assumes "byte c < 128"
  shows "parse_str (escape_ascii c @ t) = prepend [c] (parse_str t)"
proof -
  have d: "byte c div 16 < 16" "byte c mod 16 < 16"
    using assms by auto
  have z: "hexval (CHR ''0'') = Some 0"
    by (simp add: hexval_def is_digit_def)
  have "parse_str (CHR 0x5C # CHR ''u'' # CHR ''0'' # CHR ''0'' # hexdig (byte c div 16) #
      hexdig (byte c mod 16) # t) = prepend [c] (parse_str t)"
    using assms d
    by (simp add: parse_str_u u_escape_def z hexval_hexdig encode_rune_def
        del: parse_str.simps)
  then show ?thesis
    using assms by (auto simp: escape_ascii_def parse_str.simps simple_escape_def)
qed

lemma parse_str_separators:
  "parse_str (CHR 0x5C # ''u2028'' @ t) = prepend line_sep (parse_str t)"
  "parse_str (CHR 0x5C # ''u2029'' @ t) = prepend para_sep (parse_str t)"
  by (simp_all add: parse_str_u u_escape_def hexval_def is_digit_def encode_rune_def
      line_sep_def para_sep_def)

lemma parse_str_rune:
  assumes "s \<noteq> []" and "\<not> byte (hd s) < 128" and "utf8_len s \<noteq> 0"
  shows "parse_str (take (utf8_len s) s @ t) = prepend (take (utf8_len s) s) (parse_str t)"
proof -
  obtain c r where s: "s = c # r" using assms(1) by (cases s) auto
  obtain n where n: "utf8_len s = Suc n" using assms(3) by (cases "utf8_len s") auto
  have len: "utf8_len (c # take n r @ t) = Suc n"
    using utf8_len_take [OF assms(3), of t] by (simp add: s [symmetric] n) (simp add: s)
  have l: "length (take n r) = n" using utf8_len_le [of s] n s by simp
  have c: "c \<noteq> CHR 0x22" "c \<noteq> CHR 0x5C" "\<not> byte c < 32" "\<not> byte c < 128"
    using assms(2) s by auto
  show ?thesis
    using c len l by (simp add: parse_str.simps(2) n [unfolded s] s)
qed

theorem parse_str_quote_body:
  "valid_utf8 s \<Longrightarrow> parse_str (quote_body s @ CHR 0x22 # rest) = Some (s, rest)"
proof (induction s rule: quote_body.induct)
  case (1 s)
  show ?case
  proof (cases "s = []")
    case True
    then show ?thesis by (simp add: quote_body.simps)
  next
    case ne: False
    have u: "utf8_len s \<noteq> 0" "valid_utf8 (drop (utf8_len s) s)"
      using 1(6) ne by (simp_all add: valid_utf8.simps [of s] split: if_splits)
    show ?thesis
    proof (cases "byte (hd s) < 128")
      case True
      then have "utf8_len s = 1" using ne by (cases s) (simp_all add: utf8_len_def rune_width_def rune_ok_def)
      then show ?thesis
        using True ne u 1(1) parse_str_escape_ascii [OF True]
        by (cases s) (simp_all add: quote_body.simps [of "_ # _"])
    next
      case False
      have sep: "utf8_len s = 3"
        if "take 3 s = line_sep \<or> take 3 s = para_sep"
      proof -
        have "hd (take 3 s) = char_of (226 :: nat)"
          using that by (elim disjE) (simp_all only: line_sep_def para_sep_def list.map list.sel)
        then have "rune_width (byte (hd s)) = 3" using ne by (simp add: rune_width_def hd_take)
        then show ?thesis using u ne by (auto simp: utf8_len_def split: list.splits if_splits)
      qed
      consider "take 3 s = line_sep" | "take 3 s \<noteq> line_sep" "take 3 s = para_sep"
        | "take 3 s \<noteq> line_sep" "take 3 s \<noteq> para_sep" by blast
      then show ?thesis
      proof cases
        case 1
        have "parse_str (quote_body s @ CHR 0x22 # rest) = Some (line_sep @ drop 3 s, rest)"
          using 1 ne False u sep "1.IH"(3) parse_str_separators(1)
          by (simp add: quote_body.simps [of s])
        then show ?thesis using 1 append_take_drop_id [of 3 s] by simp
      next
        case 2
        have "parse_str (quote_body s @ CHR 0x22 # rest) = Some (para_sep @ drop 3 s, rest)"
          using 2 ne False u sep "1.IH"(4) parse_str_separators(2)
          by (simp add: quote_body.simps [of s])
        then show ?thesis using 2 append_take_drop_id [of 3 s] by simp
      next
        case 3
        then show ?thesis
          using ne False u "1.IH"(5) parse_str_rune [OF ne False u(1)]
          by (simp add: quote_body.simps [of s])
      qed
    qed
  qed
qed

lemmas parse_quoted = parse_str_quote_body

section \<open>Documents are read back\<close>

text \<open>A text after which a value is complete: nothing, or one of the closing characters.\<close>

definition delim :: "string \<Rightarrow> bool" where
  "delim r \<longleftrightarrow> r = [] \<or> hd r \<in> {CHR '','', CHR '']'', CHR ''}''}"

lemma delim_simps [simp]:
  "delim []" "delim (CHR '','' # r)" "delim (CHR '']'' # r)" "delim (CHR ''}'' # r)"
  by (simp_all add: delim_def)

lemma char_eqI: "(of_char c :: nat) = of_char d \<Longrightarrow> c = d"
  by (metis char_of_char)

lemma dec_leading: "0 < n \<Longrightarrow> hd (dec n) \<noteq> CHR ''0''"
proof (induction n rule: dec.induct)
  case (1 n)
  have "digit n \<noteq> CHR ''0''" if "n < 10"
    using of_char_digit [OF that] "1.prems" by auto
  with 1 show ?case by (subst dec.simps) simp
qed

lemma dec_zero: "dec 0 = ''0''"
proof -
  have "digit 0 = CHR ''0''"
    using of_char_digit [of 0] by (intro char_eqI) simp
  then show ?thesis by (simp add: dec.simps)
qed

lemma takeWhile_digits:
  assumes "list_all is_digit ds" and "delim r"
  shows "takeWhile is_digit (ds @ r) = ds" and "dropWhile is_digit (ds @ r) = r"
proof -
  have "takeWhile is_digit r = [] \<and> dropWhile is_digit r = r"
    using assms(2) by (cases r) (auto simp: delim_def is_digit_def)
  moreover have "\<forall>x\<in>set ds. is_digit x"
    using assms(1) by (simp add: list_all_iff)
  ultimately show "takeWhile is_digit (ds @ r) = ds" and "dropWhile is_digit (ds @ r) = r"
    by (simp_all add: takeWhile_append2 dropWhile_append2)
qed

lemma delim_not_number [simp]:
  assumes "delim r"
  shows "\<not> HasPrefix r ''.''" and "r \<noteq> [] \<Longrightarrow> hd r \<noteq> CHR ''e''" and "r \<noteq> [] \<Longrightarrow> hd r \<noteq> CHR ''E''"
  using assms by (cases r; auto simp: delim_def)+

lemma int_part_dec:
  assumes "delim r"
  shows "int_part (dec n @ r) = (dec n, r)"
proof (cases "n = 0")
  case True
  then show ?thesis by (simp add: dec_zero int_part_def)
next
  case False
  then have "\<not> HasPrefix (dec n @ r) ''0''"
    using dec_leading [of n] by (cases "dec n") auto
  then show ?thesis
    by (simp add: int_part_def digits_of_def takeWhile_digits [OF dec_digits assms])
qed

lemma frac_exp_delim [simp]: "delim r \<Longrightarrow> frac_part r = ([], r)" "delim r \<Longrightarrow> exp_part r = Some ([], r)"
  by (auto simp: frac_part_def exp_part_def)

lemma parse_number_dec:
  assumes "delim r"
  shows "parse_number (dec n @ r) = Some (dec n, r)"
    and "parse_number (CHR ''-'' # dec n @ r) = Some (CHR ''-'' # dec n, r)"
proof -
  have "\<not> HasPrefix (dec n @ r) ''-''"
    using dec_no_char [of "CHR ''-''" n] by (cases "dec n") auto
  then show "parse_number (dec n @ r) = Some (dec n, r)"
    using assms by (simp add: parse_number_def int_part_dec)
  show "parse_number (CHR ''-'' # dec n @ r) = Some (CHR ''-'' # dec n, r)"
    using assms by (simp add: parse_number_def int_part_dec)
qed

lemma parse_number_FormatInt: "delim r \<Longrightarrow> parse_number (FormatInt v @ r) = Some (FormatInt v, r)"
  by (simp add: FormatInt_def parse_number_dec)

text \<open>Documents the ledger writes: integer literals, strings in UTF-8.\<close>

fun wf_json :: "json \<Rightarrow> bool" where
  "wf_json (JNum l) \<longleftrightarrow> (\<exists>v. l = FormatInt v)"
| "wf_json (JStr s) \<longleftrightarrow> valid_utf8 s"
| "wf_json (JArr xs) \<longleftrightarrow> (\<forall>x\<in>set xs. wf_json x)"
| "wf_json (JObj ms) \<longleftrightarrow> (\<forall>m\<in>set ms. valid_utf8 (fst m) \<and> wf_json (snd m))"
| "wf_json _ \<longleftrightarrow> True"

fun depth :: "json \<Rightarrow> nat" where
  "depth (JArr xs) = Suc (Max (insert 0 (depth ` set xs)))"
| "depth (JObj ms) = Suc (Max (insert 0 ((\<lambda>m. depth (snd m)) ` set ms)))"
| "depth _ = 0"

fun need :: "json \<Rightarrow> nat" where
  "need (JArr xs) = Suc (Suc (sum_list (map (\<lambda>x. Suc (need x)) xs)))"
| "need (JObj ms) = Suc (Suc (sum_list (map (\<lambda>m. Suc (need (snd m))) ms)))"
| "need _ = 1"

lemma skip_ws_simps [simp]:
  "\<not> is_ws c \<Longrightarrow> skip_ws (c # s) = c # s" "skip_ws [] = []"
  by (simp_all add: skip_ws_def)

lemma not_ws [simp]:
  "\<not> is_ws (CHR 0x22)" "\<not> is_ws (CHR ''['')" "\<not> is_ws (CHR '']'')" "\<not> is_ws (CHR ''{'')"
  "\<not> is_ws (CHR ''}'')" "\<not> is_ws (CHR '','')" "\<not> is_ws (CHR '':'')" "\<not> is_ws (CHR ''n'')"
  "\<not> is_ws (CHR ''t'')" "\<not> is_ws (CHR ''f'')" "\<not> is_ws (CHR ''-'')"
  by (simp_all add: is_ws_def)

lemma not_ws_digit: "is_digit c \<Longrightarrow> \<not> is_ws c"
  by (auto simp: is_ws_def is_digit_def)

lemma FormatInt_head:
  "\<exists>c t. FormatInt v = c # t \<and> \<not> is_ws c \<and> c \<notin> {CHR 0x22, CHR ''['', CHR ''{'', CHR '']'', CHR ''n'', CHR ''t'', CHR ''f''}"
proof (cases "v < 0")
  case True
  then show ?thesis by (simp add: FormatInt_def)
next
  case False
  obtain c t where ct: "dec (nat v) = c # t" by (cases "dec (nat v)") auto
  have "is_digit c" using dec_digits [of "nat v"] by (simp add: ct)
  then show ?thesis using False ct not_ws_digit [of c] by (auto simp: FormatInt_def is_digit_def)
qed

text \<open>No value starts with white space or a closing bracket.\<close>

lemma json_text_head:
  "wf_json v \<Longrightarrow> \<exists>c t. json_text v = c # t \<and> \<not> is_ws c \<and> c \<noteq> CHR '']''"
  using FormatInt_head by (cases v) (auto simp: quote_def, blast)

lemma depth_elem: "x \<in> set xs \<Longrightarrow> depth (JArr xs) \<le> d \<Longrightarrow> depth x \<le> d - 1"
  by (auto simp: Suc_le_eq less_Suc_eq_le dest!: Max_ge [rotated, of "depth x"])

lemma parse_elems_join:
  assumes "\<And>x f r. x \<in> set xs \<Longrightarrow> need x \<le> f \<Longrightarrow> delim r \<Longrightarrow>
      parse_value f d (json_text x @ r) = Some (x, r)"
    and "xs \<noteq> []" and "sum_list (map (\<lambda>x. Suc (need x)) xs) \<le> f"
  shows "parse_elems f d (join (map json_text xs) @ CHR '']'' # r) = Some (xs, r)"
  using assms
proof (induction xs arbitrary: f rule: induct_list012)
  case (2 x)
  then show ?case by (cases f) auto
next
  case (3 x y zs)
  obtain g where f: "f = Suc g" using 3(5) by (cases f) auto
  have "parse_elems g d (join (map json_text (y # zs)) @ CHR '']'' # r) = Some (y # zs, r)"
    using 3(3,5) by (intro 3(2)) (auto simp: f)
  moreover have "parse_value g d (json_text x @ CHR '','' # t) = Some (x, CHR '','' # t)" for t
    using 3(3,5) by (auto simp: f)
  ultimately show ?case by (simp add: f)
qed simp

lemma parse_members_join:
  assumes "\<And>m f r. m \<in> set ms \<Longrightarrow> need (snd m) \<le> f \<Longrightarrow> delim r \<Longrightarrow>
      parse_value f d (json_text (snd m) @ r) = Some (snd m, r)"
    and "ms \<noteq> []" and "sum_list (map (\<lambda>m. Suc (need (snd m))) ms) \<le> f"
    and "\<forall>m\<in>set ms. valid_utf8 (fst m)"
  shows "parse_members f d
      (join (map (\<lambda>m. quote (fst m) @ CHR '':'' # json_text (snd m)) ms) @ CHR ''}'' # r) = Some (ms, r)"
  using assms
proof (induction ms arbitrary: f rule: induct_list012)
  case (2 x)
  then show ?case by (cases f) (auto simp: quote_def parse_str_quote_body)
next
  case (3 x y zs)
  obtain g where f: "f = Suc g" using 3(5) by (cases f) auto
  have "parse_members g d (join (map (\<lambda>m. quote (fst m) @ CHR '':'' # json_text (snd m)) (y # zs)) @ CHR ''}'' # r)
      = Some (y # zs, r)"
    using 3(3,5,6) by (intro 3(2)) (auto simp: f)
  moreover have "parse_value g d (json_text (snd x) @ CHR '','' # t) = Some (snd x, CHR '','' # t)" for t
    using 3(3,5) by (auto simp: f)
  ultimately show ?case using 3(6) by (simp add: f quote_def parse_str_quote_body)
qed simp

lemma snd_in_snds: "snd m \<in> Basic_BNFs.snds m"
  by (rule snds.intros)

lemma depth_member: "m \<in> set ms \<Longrightarrow> depth (JObj ms) \<le> d \<Longrightarrow> depth (snd m) \<le> d - 1"
  by (auto simp: Suc_le_eq less_Suc_eq_le dest!: Max_ge [rotated, of "depth (snd m)"])

lemma join_head:
  assumes "xs \<noteq> []" and "hd xs = c # t"
  shows "\<exists>u. join xs = c # u"
  using assms by (cases xs rule: join.cases) auto

lemma parse_value_text:
  "wf_json v \<Longrightarrow> depth v \<le> d \<Longrightarrow> need v \<le> f \<Longrightarrow> delim r \<Longrightarrow>
    parse_value f d (json_text v @ r) = Some (v, r)"
proof (induction v arbitrary: f d r)
  case (JNum l)
  then obtain v where l: "l = FormatInt v" by auto
  obtain c t where ct: "FormatInt v = c # t" "\<not> is_ws c"
      "c \<notin> {CHR 0x22, CHR ''['', CHR ''{'', CHR '']'', CHR ''n'', CHR ''t'', CHR ''f''}"
    using FormatInt_head by blast
  show ?case
    using JNum l ct parse_number_FormatInt [of r v] by (cases f) auto
next
  case (JStr s)
  then show ?case by (cases f) (auto simp: quote_def parse_str_quote_body)
next
  case (JArr xs)
  obtain g where f: "f = Suc (Suc g)"
    using JArr.prems(3) by (cases f rule: nat.exhaust [case_product nat.exhaust]) (auto simp: numeral_2_eq_2, metis Suc_le_D Suc_le_mono)
  show ?case
  proof (cases "xs = []")
    case True
    then show ?thesis using JArr.prems by (simp add: f)
  next
    case False
    obtain c t where "json_text (hd xs) = c # t" "\<not> is_ws c" "c \<noteq> CHR '']''"
      using json_text_head [of "hd xs"] False JArr.prems(1) by auto
    then obtain u where u: "join (map json_text xs) = c # u" "\<not> is_ws c" "c \<noteq> CHR '']''"
      using join_head [of "map json_text xs" c t] False by (auto simp: hd_map)
    have "parse_elems (Suc g) (d - 1) (join (map json_text xs) @ CHR '']'' # r) = Some (xs, r)"
    proof (rule parse_elems_join)
      show "parse_value f' (d - 1) (json_text x @ r') = Some (x, r')"
        if "x \<in> set xs" "need x \<le> f'" "delim r'" for x f' r'
        using that JArr.prems JArr.IH depth_elem [OF that(1) JArr.prems(2)] by simp
    qed (use False JArr.prems(3) f in auto)
    then show ?thesis using u JArr.prems(2) by (simp add: f)
  qed
next
  case (JObj ms)
  obtain g where f: "f = Suc (Suc g)"
    using JObj.prems(3) by (cases f rule: nat.exhaust [case_product nat.exhaust]) (auto simp: numeral_2_eq_2, metis Suc_le_D Suc_le_mono)
  show ?case
  proof (cases "ms = []")
    case True
    then show ?thesis using JObj.prems by (simp add: f)
  next
    case False
    have "\<exists>u. join (map (\<lambda>m. quote (fst m) @ CHR '':'' # json_text (snd m)) ms) = CHR 0x22 # u"
      using False by (intro join_head) (auto simp: hd_map quote_def)
    then obtain u where u: "join (map (\<lambda>m. quote (fst m) @ CHR '':'' # json_text (snd m)) ms) = CHR 0x22 # u"
      by blast
    have "parse_members (Suc g) (d - 1)
        (join (map (\<lambda>m. quote (fst m) @ CHR '':'' # json_text (snd m)) ms) @ CHR ''}'' # r) = Some (ms, r)"
    proof (rule parse_members_join)
      show "parse_value f' (d - 1) (json_text (snd m) @ r') = Some (snd m, r')"
        if "m \<in> set ms" "need (snd m) \<le> f'" "delim r'" for m f' r'
        using that JObj.prems(1) JObj.IH [OF that(1) snd_in_snds] depth_member [OF that(1) JObj.prems(2)]
        by simp
    qed (use False JObj.prems(1,3) f in auto)
    then show ?thesis using u JObj.prems(2) by (simp add: f)
  qed
qed (auto simp: gr0_conv_Suc Suc_le_eq)

lemma length_join: "length (join xs) = sum_list (map length xs) + (length xs - 1)"
  by (induction xs rule: join.induct) auto

lemma need_le_length: "wf_json v \<Longrightarrow> need v \<le> 2 * length (json_text v)"
proof (induction v)
  case (JNum l)
  then show ?case using FormatInt_head by (auto simp: Suc_le_eq) (metis list.distinct(1))
next
  case (JArr xs)
  have "sum_list (map (\<lambda>x. Suc (need x)) xs) \<le> sum_list (map (\<lambda>x. Suc (2 * length (json_text x))) xs)"
    using JArr by (intro sum_list_mono) auto
  also have "\<dots> = 2 * sum_list (map (\<lambda>x. length (json_text x)) xs) + length xs"
    by (induction xs) auto
  finally show ?case by (simp add: length_join comp_def)
next
  case (JObj ms)
  have "sum_list (map (\<lambda>m. Suc (need (snd m))) ms)
      \<le> sum_list (map (\<lambda>m. Suc (2 * length (json_text (snd m)))) ms)"
    using JObj.prems JObj.IH [OF _ snd_in_snds] by (intro sum_list_mono) simp
  also have "\<dots> \<le> 2 * sum_list (map (\<lambda>m. length (quote (fst m) @ CHR '':'' # json_text (snd m))) ms)"
    by (induction ms) (auto simp: quote_def)
  finally show ?case by (simp add: length_join comp_def)
qed (auto simp: quote_def)

theorem parse_json_text:
  assumes "wf_json v" and "depth v \<le> maxNestingDepth"
  shows "parse_json (json_text v) = Some v"
proof -
  have "parse_value (2 * length (json_text v) + 2) maxNestingDepth (json_text v @ []) = Some (v, [])"
    using assms need_le_length [OF assms(1)] by (intro parse_value_text) auto
  then show ?thesis by (simp add: parse_json_def)
qed

end
