(* ===== verification/Manifest.thy ===== *)
theory Manifest
  imports Group_Info Json
begin

text \<open>
  Manifests (\<open>ledger/manifest.go\<close>): the object-key layout, the five wire structs, the summary of a
  sealed run, and the JSON encoding of each struct with its field names, order and omitted zero
  fields. Decoding follows \<open>json.Unmarshal\<close>: members are matched without regard to case, unknown
  ones are ignored, absent ones keep their zero value, and a value of the wrong kind or out of range
  is an error. \<open>json.Marshal\<close> cannot fail on these types, so encoding is total.

  A \<open>nil\<close> slice and an empty one are not told apart: the ledger only ever encodes an empty list of
  sealed runs as the \<open>nil\<close> slice, which \<open>json.Marshal\<close> writes as \<open>null\<close>.
\<close>

section \<open>Object keys\<close>

type_synonym TrackPath = string

definition manifestVersion :: int where
  "manifestVersion = 1"

definition rootObject :: string where "rootObject = ''root.manifest''"
definition logObject :: string where "logObject = ''log.manifest''"
definition headObject :: string where "headObject = ''delta/head''"
definition openPrefix :: string where "openPrefix = ''delta/open/''"
definition sealedPrefix :: string where "sealedPrefix = ''delta/sealed-''"
definition groupPrefix :: string where "groupPrefix = ''groups/''"
definition redactedPrefix :: string where "redactedPrefix = ''redacted/''"

definition epochDir :: "u64 \<Rightarrow> string" where
  "epochDir epoch = ''e'' @ Sprintf_0d 6 (unat epoch)"

definition rootKey :: "TrackPath \<Rightarrow> string" where
  "rootKey track = track @ ''/'' @ rootObject"

definition epochLogKey :: "TrackPath \<Rightarrow> u64 \<Rightarrow> string" where
  "epochLogKey track epoch = track @ ''/'' @ epochDir epoch @ ''/'' @ logObject"

definition headKey :: "TrackPath \<Rightarrow> u64 \<Rightarrow> string" where
  "headKey track epoch = track @ ''/'' @ epochDir epoch @ ''/'' @ headObject"

definition deltaKey :: "TrackPath \<Rightarrow> u64 \<Rightarrow> u64 \<Rightarrow> string" where
  "deltaKey track epoch n =
     track @ ''/'' @ epochDir epoch @ ''/'' @ openPrefix @ Sprintf_0d 8 (unat n) @ ''.manifest''"

definition sealedKey :: "TrackPath \<Rightarrow> u64 \<Rightarrow> u64 \<Rightarrow> u64 \<Rightarrow> string" where
  "sealedKey track epoch first_n last_n =
     track @ ''/'' @ epochDir epoch @ ''/'' @ sealedPrefix @ Sprintf_0d 8 (unat first_n) @ ''-'' @
       Sprintf_0d 8 (unat last_n) @ ''.manifest''"

definition groupKey :: "TrackPath \<Rightarrow> GroupID \<Rightarrow> string" where
  "groupKey track i =
     track @ ''/'' @ epochDir (Epoch i) @ ''/'' @ groupPrefix @ ''g'' @ Sprintf_0d 8 (unat (Sequence i))"

section \<open>The wire structs\<close>

type_synonym TimeSource = string

record TrackSchema =
  Timescale :: u32
  TimeSource :: TimeSource
  ts_MIME :: string
  ts_Encoding :: string

record trackRoot =
  tr_Version :: int
  tr_Track :: TrackPath
  tr_Timescale :: u32
  tr_TimeSource :: TimeSource
  tr_MIME :: string
  tr_Encoding :: string
  LatestEpoch :: u64
  tr_CreatedAt :: int

record sealedRef =
  Key :: string
  FirstDelta :: u64
  LastDelta :: u64
  Groups :: int
  MediaStart :: int
  MediaEnd :: int
  WallclockStart :: int
  WallclockEnd :: int
  First :: GroupID
  Last :: GroupID

record epochLogRoot =
  lr_Version :: int
  lr_Track :: TrackPath
  lr_Epoch :: u64
  Sealed :: "sealedRef list"
  OpenFrom :: u64
  lr_CreatedAt :: int

record deltaManifest =
  dm_Version :: int
  dm_Seq :: u64
  dm_Groups :: "GroupInfo list"
  CommittedAt :: int

record sealedManifest =
  sm_Version :: int
  sm_Track :: TrackPath
  sm_Epoch :: u64
  sm_Seq :: u64
  sm_FirstDelta :: u64
  sm_LastDelta :: u64
  sm_Groups :: "GroupInfo list"
  SealedAt :: int

record head =
  h_Version :: int
  h_Delta :: u64
  h_Latest :: GroupID
  UpdatedAt :: int

definition schema :: "trackRoot \<Rightarrow> TrackSchema" where
  "schema m = \<lparr>Timescale = tr_Timescale m, TimeSource = tr_TimeSource m, ts_MIME = tr_MIME m,
     ts_Encoding = tr_Encoding m\<rparr>"

section \<open>Summaries of sealed runs\<close>

definition zero_sealedRef :: sealedRef where
  "zero_sealedRef = \<lparr>Key = '''', FirstDelta = 0, LastDelta = 0, Groups = 0, MediaStart = 0, MediaEnd = 0,
     WallclockStart = 0, WallclockEnd = 0, First = GroupID 0, Last = GroupID 0\<rparr>"

text \<open>The loop over the groups of the run that widens the wallclock bounds.\<close>

fun wallclock_bounds :: "GroupInfo list \<Rightarrow> int \<times> int \<Rightarrow> int \<times> int" where
  "wallclock_bounds [] b = b"
| "wallclock_bounds (g # gs) (lo, hi) =
     (if \<not> hasWallclock g then wallclock_bounds gs (lo, hi)
      else wallclock_bounds gs
        (if lo = 0 \<or> Wallclock g < lo then Wallclock g else lo, max hi (Wallclock g)))"

definition summarize :: "sealedManifest \<Rightarrow> string \<Rightarrow> sealedRef" where
  "summarize m key =
     (let ref = zero_sealedRef\<lparr>Key := key, FirstDelta := sm_FirstDelta m, LastDelta := sm_LastDelta m,
            Groups := int (length (sm_Groups m))\<rparr>
      in if sm_Groups m = [] then ref
         else let g_first = hd (sm_Groups m); g_last = last (sm_Groups m);
                  (lo, hi) = wallclock_bounds (sm_Groups m) (0, 0)
              in ref\<lparr>First := ID g_first, Last := ID g_last, MediaStart := MediaTime g_first,
                   MediaEnd := mediaEnd g_last, WallclockStart := lo, WallclockEnd := hi\<rparr>)"

section \<open>Encoding\<close>

definition num_int :: "int \<Rightarrow> json" where
  "num_int v = JNum (FormatInt v)"

definition num_u64 :: "u64 \<Rightarrow> json" where
  "num_u64 x = JNum (dec (unat x))"

text \<open>A member tagged \<open>omitempty\<close>.\<close>

definition omit :: "bool \<Rightarrow> string \<times> json \<Rightarrow> (string \<times> json) list" where
  "omit b m = (if b then [] else [m])"

definition enc_list :: "('a \<Rightarrow> json) \<Rightarrow> 'a list \<Rightarrow> json" where
  "enc_list f xs = (if xs = [] then JNull else JArr (map f xs))"

definition enc_GroupInfo :: "GroupInfo \<Rightarrow> json" where
  "enc_GroupInfo g = JObj (
     [(''id'', num_u64 (raw (ID g))), (''mediaTime'', num_int (MediaTime g))] @
     omit (Duration g = 0) (''duration'', num_int (Duration g)) @
     omit (Wallclock g = 0) (''wallclock'', num_int (Wallclock g)) @
     omit (ObjectCount g = 0) (''objectCount'', num_u64 (ObjectCount g)) @
     [(''objectKey'', JStr (ObjectKey g)), (''size'', num_int (Size g))] @
     omit (MIME g = '''') (''mime'', JStr (MIME g)) @
     omit (Encoding g = '''') (''encoding'', JStr (Encoding g)))"

definition enc_trackRoot :: "trackRoot \<Rightarrow> json" where
  "enc_trackRoot r = JObj (
     [(''version'', num_int (tr_Version r)), (''track'', JStr (tr_Track r)),
      (''timescale'', JNum (dec (unat (tr_Timescale r)))), (''timeSource'', JStr (tr_TimeSource r))] @
     omit (tr_MIME r = '''') (''mime'', JStr (tr_MIME r)) @
     omit (tr_Encoding r = '''') (''encoding'', JStr (tr_Encoding r)) @
     [(''latestEpoch'', num_u64 (LatestEpoch r)), (''createdAt'', num_int (tr_CreatedAt r))])"

definition enc_sealedRef :: "sealedRef \<Rightarrow> json" where
  "enc_sealedRef r = JObj (
     [(''key'', JStr (Key r)), (''firstDelta'', num_u64 (FirstDelta r)),
      (''lastDelta'', num_u64 (LastDelta r)), (''groups'', num_int (Groups r)),
      (''mediaStart'', num_int (MediaStart r)), (''mediaEnd'', num_int (MediaEnd r))] @
     omit (WallclockStart r = 0) (''wallclockStart'', num_int (WallclockStart r)) @
     omit (WallclockEnd r = 0) (''wallclockEnd'', num_int (WallclockEnd r)) @
     [(''first'', num_u64 (raw (First r))), (''last'', num_u64 (raw (Last r)))])"

definition enc_epochLogRoot :: "epochLogRoot \<Rightarrow> json" where
  "enc_epochLogRoot r = JObj
     [(''version'', num_int (lr_Version r)), (''track'', JStr (lr_Track r)),
      (''epoch'', num_u64 (lr_Epoch r)), (''sealed'', enc_list enc_sealedRef (Sealed r)),
      (''openFrom'', num_u64 (OpenFrom r)), (''createdAt'', num_int (lr_CreatedAt r))]"

definition enc_deltaManifest :: "deltaManifest \<Rightarrow> json" where
  "enc_deltaManifest d = JObj
     [(''version'', num_int (dm_Version d)), (''seq'', num_u64 (dm_Seq d)),
      (''groups'', enc_list enc_GroupInfo (dm_Groups d)), (''committedAt'', num_int (CommittedAt d))]"

definition enc_sealedManifest :: "sealedManifest \<Rightarrow> json" where
  "enc_sealedManifest m = JObj
     [(''version'', num_int (sm_Version m)), (''track'', JStr (sm_Track m)),
      (''epoch'', num_u64 (sm_Epoch m)), (''seq'', num_u64 (sm_Seq m)),
      (''firstDelta'', num_u64 (sm_FirstDelta m)), (''lastDelta'', num_u64 (sm_LastDelta m)),
      (''groups'', enc_list enc_GroupInfo (sm_Groups m)), (''sealedAt'', num_int (SealedAt m))]"

definition enc_head :: "head \<Rightarrow> json" where
  "enc_head h = JObj
     [(''version'', num_int (h_Version h)), (''delta'', num_u64 (h_Delta h)),
      (''latest'', num_u64 (raw (h_Latest h))), (''updatedAt'', num_int (UpdatedAt h))]"

definition encodeManifest :: "('a \<Rightarrow> json) \<Rightarrow> 'a \<Rightarrow> bytes" where
  "encodeManifest enc v = json_text (enc v)"

section \<open>Decoding\<close>

definition upper :: "char \<Rightarrow> char" where
  "upper c = (if 97 \<le> byte c \<and> byte c \<le> 122 then char_of (byte c - 32) else c)"

text \<open>
  The case folding of member names: ASCII letters, and the two other runes that fold to an ASCII
  letter, the long s and the Kelvin sign.
\<close>

fun fold_name :: "string \<Rightarrow> string" where
  "fold_name [] = []"
| "fold_name (c # s) =
     (if byte c = 197 \<and> map byte (take 1 s) = [191] then CHR ''S'' # fold_name (drop 1 s)
      else if byte c = 226 \<and> map byte (take 2 s) = [132, 170] then CHR ''K'' # fold_name (drop 2 s)
      else upper c # fold_name s)"

fun dec_fields :: "(string \<Rightarrow> json \<Rightarrow> 'a \<Rightarrow> 'a option) \<Rightarrow> (string \<times> json) list \<Rightarrow> 'a \<Rightarrow> 'a option" where
  "dec_fields put [] x = Some x"
| "dec_fields put ((k, v) # ms) x =
     (case put (fold_name k) v x of None \<Rightarrow> None | Some y \<Rightarrow> dec_fields put ms y)"

definition dec_struct :: "(string \<Rightarrow> json \<Rightarrow> 'a \<Rightarrow> 'a option) \<Rightarrow> 'a \<Rightarrow> json \<Rightarrow> 'a option" where
  "dec_struct put zero j =
     (case j of JObj ms \<Rightarrow> dec_fields put ms zero | JNull \<Rightarrow> Some zero | _ \<Rightarrow> None)"

definition dec_int :: "json \<Rightarrow> int \<Rightarrow> int option" where
  "dec_int j old = (case j of JNull \<Rightarrow> Some old
     | JNum l \<Rightarrow> (case ParseInt l of Inr v \<Rightarrow> Some v | Inl _ \<Rightarrow> None) | _ \<Rightarrow> None)"

definition dec_u64 :: "json \<Rightarrow> u64 \<Rightarrow> u64 option" where
  "dec_u64 j old = (case j of JNull \<Rightarrow> Some old
     | JNum l \<Rightarrow> (case ParseUint l of Inr v \<Rightarrow> Some v | Inl _ \<Rightarrow> None) | _ \<Rightarrow> None)"

definition dec_u32 :: "json \<Rightarrow> u32 \<Rightarrow> u32 option" where
  "dec_u32 j old = (case j of JNull \<Rightarrow> Some old
     | JNum l \<Rightarrow> (case ParseUint l of
         Inr v \<Rightarrow> if unat v < 2 ^ 32 then Some (of_nat (unat v)) else None | Inl _ \<Rightarrow> None)
     | _ \<Rightarrow> None)"

definition dec_string :: "json \<Rightarrow> string \<Rightarrow> string option" where
  "dec_string j old = (case j of JNull \<Rightarrow> Some old | JStr s \<Rightarrow> Some s | _ \<Rightarrow> None)"

definition dec_list :: "(json \<Rightarrow> 'a option) \<Rightarrow> json \<Rightarrow> 'a list option" where
  "dec_list f j = (case j of JNull \<Rightarrow> Some [] | JArr xs \<Rightarrow> those (map f xs) | _ \<Rightarrow> None)"

definition put_GroupInfo :: "string \<Rightarrow> json \<Rightarrow> GroupInfo \<Rightarrow> GroupInfo option" where
  "put_GroupInfo k j g =
     (if k = ''ID'' then map_option (\<lambda>v. g\<lparr>ID := GroupID v\<rparr>) (dec_u64 j (raw (ID g)))
      else if k = ''MEDIATIME'' then map_option (\<lambda>v. g\<lparr>MediaTime := v\<rparr>) (dec_int j (MediaTime g))
      else if k = ''DURATION'' then map_option (\<lambda>v. g\<lparr>Duration := v\<rparr>) (dec_int j (Duration g))
      else if k = ''WALLCLOCK'' then map_option (\<lambda>v. g\<lparr>Wallclock := v\<rparr>) (dec_int j (Wallclock g))
      else if k = ''OBJECTCOUNT'' then map_option (\<lambda>v. g\<lparr>ObjectCount := v\<rparr>) (dec_u64 j (ObjectCount g))
      else if k = ''OBJECTKEY'' then map_option (\<lambda>v. g\<lparr>ObjectKey := v\<rparr>) (dec_string j (ObjectKey g))
      else if k = ''SIZE'' then map_option (\<lambda>v. g\<lparr>Size := v\<rparr>) (dec_int j (Size g))
      else if k = ''MIME'' then map_option (\<lambda>v. g\<lparr>MIME := v\<rparr>) (dec_string j (MIME g))
      else if k = ''ENCODING'' then map_option (\<lambda>v. g\<lparr>Encoding := v\<rparr>) (dec_string j (Encoding g))
      else Some g)"

definition dec_GroupInfo :: "json \<Rightarrow> GroupInfo option" where
  "dec_GroupInfo = dec_struct put_GroupInfo zero_GroupInfo"

definition put_trackRoot :: "string \<Rightarrow> json \<Rightarrow> trackRoot \<Rightarrow> trackRoot option" where
  "put_trackRoot k j r =
     (if k = ''VERSION'' then map_option (\<lambda>v. r\<lparr>tr_Version := v\<rparr>) (dec_int j (tr_Version r))
      else if k = ''TRACK'' then map_option (\<lambda>v. r\<lparr>tr_Track := v\<rparr>) (dec_string j (tr_Track r))
      else if k = ''TIMESCALE'' then map_option (\<lambda>v. r\<lparr>tr_Timescale := v\<rparr>) (dec_u32 j (tr_Timescale r))
      else if k = ''TIMESOURCE'' then map_option (\<lambda>v. r\<lparr>tr_TimeSource := v\<rparr>) (dec_string j (tr_TimeSource r))
      else if k = ''MIME'' then map_option (\<lambda>v. r\<lparr>tr_MIME := v\<rparr>) (dec_string j (tr_MIME r))
      else if k = ''ENCODING'' then map_option (\<lambda>v. r\<lparr>tr_Encoding := v\<rparr>) (dec_string j (tr_Encoding r))
      else if k = ''LATESTEPOCH'' then map_option (\<lambda>v. r\<lparr>LatestEpoch := v\<rparr>) (dec_u64 j (LatestEpoch r))
      else if k = ''CREATEDAT'' then map_option (\<lambda>v. r\<lparr>tr_CreatedAt := v\<rparr>) (dec_int j (tr_CreatedAt r))
      else Some r)"

definition zero_trackRoot :: trackRoot where
  "zero_trackRoot = \<lparr>tr_Version = 0, tr_Track = '''', tr_Timescale = 0, tr_TimeSource = '''',
     tr_MIME = '''', tr_Encoding = '''', LatestEpoch = 0, tr_CreatedAt = 0\<rparr>"

definition dec_trackRoot :: "json \<Rightarrow> trackRoot option" where
  "dec_trackRoot = dec_struct put_trackRoot zero_trackRoot"

definition put_sealedRef :: "string \<Rightarrow> json \<Rightarrow> sealedRef \<Rightarrow> sealedRef option" where
  "put_sealedRef k j r =
     (if k = ''KEY'' then map_option (\<lambda>v. r\<lparr>Key := v\<rparr>) (dec_string j (Key r))
      else if k = ''FIRSTDELTA'' then map_option (\<lambda>v. r\<lparr>FirstDelta := v\<rparr>) (dec_u64 j (FirstDelta r))
      else if k = ''LASTDELTA'' then map_option (\<lambda>v. r\<lparr>LastDelta := v\<rparr>) (dec_u64 j (LastDelta r))
      else if k = ''GROUPS'' then map_option (\<lambda>v. r\<lparr>Groups := v\<rparr>) (dec_int j (Groups r))
      else if k = ''MEDIASTART'' then map_option (\<lambda>v. r\<lparr>MediaStart := v\<rparr>) (dec_int j (MediaStart r))
      else if k = ''MEDIAEND'' then map_option (\<lambda>v. r\<lparr>MediaEnd := v\<rparr>) (dec_int j (MediaEnd r))
      else if k = ''WALLCLOCKSTART'' then
        map_option (\<lambda>v. r\<lparr>WallclockStart := v\<rparr>) (dec_int j (WallclockStart r))
      else if k = ''WALLCLOCKEND'' then map_option (\<lambda>v. r\<lparr>WallclockEnd := v\<rparr>) (dec_int j (WallclockEnd r))
      else if k = ''FIRST'' then map_option (\<lambda>v. r\<lparr>First := GroupID v\<rparr>) (dec_u64 j (raw (First r)))
      else if k = ''LAST'' then map_option (\<lambda>v. r\<lparr>Last := GroupID v\<rparr>) (dec_u64 j (raw (Last r)))
      else Some r)"

definition dec_sealedRef :: "json \<Rightarrow> sealedRef option" where
  "dec_sealedRef = dec_struct put_sealedRef zero_sealedRef"

definition put_epochLogRoot :: "string \<Rightarrow> json \<Rightarrow> epochLogRoot \<Rightarrow> epochLogRoot option" where
  "put_epochLogRoot k j r =
     (if k = ''VERSION'' then map_option (\<lambda>v. r\<lparr>lr_Version := v\<rparr>) (dec_int j (lr_Version r))
      else if k = ''TRACK'' then map_option (\<lambda>v. r\<lparr>lr_Track := v\<rparr>) (dec_string j (lr_Track r))
      else if k = ''EPOCH'' then map_option (\<lambda>v. r\<lparr>lr_Epoch := v\<rparr>) (dec_u64 j (lr_Epoch r))
      else if k = ''SEALED'' then map_option (\<lambda>v. r\<lparr>Sealed := v\<rparr>) (dec_list dec_sealedRef j)
      else if k = ''OPENFROM'' then map_option (\<lambda>v. r\<lparr>OpenFrom := v\<rparr>) (dec_u64 j (OpenFrom r))
      else if k = ''CREATEDAT'' then map_option (\<lambda>v. r\<lparr>lr_CreatedAt := v\<rparr>) (dec_int j (lr_CreatedAt r))
      else Some r)"

definition zero_epochLogRoot :: epochLogRoot where
  "zero_epochLogRoot = \<lparr>lr_Version = 0, lr_Track = '''', lr_Epoch = 0, Sealed = [], OpenFrom = 0,
     lr_CreatedAt = 0\<rparr>"

definition dec_epochLogRoot :: "json \<Rightarrow> epochLogRoot option" where
  "dec_epochLogRoot = dec_struct put_epochLogRoot zero_epochLogRoot"

definition put_deltaManifest :: "string \<Rightarrow> json \<Rightarrow> deltaManifest \<Rightarrow> deltaManifest option" where
  "put_deltaManifest k j d =
     (if k = ''VERSION'' then map_option (\<lambda>v. d\<lparr>dm_Version := v\<rparr>) (dec_int j (dm_Version d))
      else if k = ''SEQ'' then map_option (\<lambda>v. d\<lparr>dm_Seq := v\<rparr>) (dec_u64 j (dm_Seq d))
      else if k = ''GROUPS'' then map_option (\<lambda>v. d\<lparr>dm_Groups := v\<rparr>) (dec_list dec_GroupInfo j)
      else if k = ''COMMITTEDAT'' then map_option (\<lambda>v. d\<lparr>CommittedAt := v\<rparr>) (dec_int j (CommittedAt d))
      else Some d)"

definition zero_deltaManifest :: deltaManifest where
  "zero_deltaManifest = \<lparr>dm_Version = 0, dm_Seq = 0, dm_Groups = [], CommittedAt = 0\<rparr>"

definition dec_deltaManifest :: "json \<Rightarrow> deltaManifest option" where
  "dec_deltaManifest = dec_struct put_deltaManifest zero_deltaManifest"

definition put_sealedManifest :: "string \<Rightarrow> json \<Rightarrow> sealedManifest \<Rightarrow> sealedManifest option" where
  "put_sealedManifest k j m =
     (if k = ''VERSION'' then map_option (\<lambda>v. m\<lparr>sm_Version := v\<rparr>) (dec_int j (sm_Version m))
      else if k = ''TRACK'' then map_option (\<lambda>v. m\<lparr>sm_Track := v\<rparr>) (dec_string j (sm_Track m))
      else if k = ''EPOCH'' then map_option (\<lambda>v. m\<lparr>sm_Epoch := v\<rparr>) (dec_u64 j (sm_Epoch m))
      else if k = ''SEQ'' then map_option (\<lambda>v. m\<lparr>sm_Seq := v\<rparr>) (dec_u64 j (sm_Seq m))
      else if k = ''FIRSTDELTA'' then map_option (\<lambda>v. m\<lparr>sm_FirstDelta := v\<rparr>) (dec_u64 j (sm_FirstDelta m))
      else if k = ''LASTDELTA'' then map_option (\<lambda>v. m\<lparr>sm_LastDelta := v\<rparr>) (dec_u64 j (sm_LastDelta m))
      else if k = ''GROUPS'' then map_option (\<lambda>v. m\<lparr>sm_Groups := v\<rparr>) (dec_list dec_GroupInfo j)
      else if k = ''SEALEDAT'' then map_option (\<lambda>v. m\<lparr>SealedAt := v\<rparr>) (dec_int j (SealedAt m))
      else Some m)"

definition zero_sealedManifest :: sealedManifest where
  "zero_sealedManifest = \<lparr>sm_Version = 0, sm_Track = '''', sm_Epoch = 0, sm_Seq = 0, sm_FirstDelta = 0,
     sm_LastDelta = 0, sm_Groups = [], SealedAt = 0\<rparr>"

definition dec_sealedManifest :: "json \<Rightarrow> sealedManifest option" where
  "dec_sealedManifest = dec_struct put_sealedManifest zero_sealedManifest"

definition put_head :: "string \<Rightarrow> json \<Rightarrow> head \<Rightarrow> head option" where
  "put_head k j h =
     (if k = ''VERSION'' then map_option (\<lambda>v. h\<lparr>h_Version := v\<rparr>) (dec_int j (h_Version h))
      else if k = ''DELTA'' then map_option (\<lambda>v. h\<lparr>h_Delta := v\<rparr>) (dec_u64 j (h_Delta h))
      else if k = ''LATEST'' then map_option (\<lambda>v. h\<lparr>h_Latest := GroupID v\<rparr>) (dec_u64 j (raw (h_Latest h)))
      else if k = ''UPDATEDAT'' then map_option (\<lambda>v. h\<lparr>UpdatedAt := v\<rparr>) (dec_int j (UpdatedAt h))
      else Some h)"

definition zero_head :: head where
  "zero_head = \<lparr>h_Version = 0, h_Delta = 0, h_Latest = GroupID 0, UpdatedAt = 0\<rparr>"

definition dec_head :: "json \<Rightarrow> head option" where
  "dec_head = dec_struct put_head zero_head"

definition decodeManifest :: "(json \<Rightarrow> 'a option) \<Rightarrow> ('a \<Rightarrow> int) \<Rightarrow> bytes \<Rightarrow> error + 'a" where
  "decodeManifest unmarshal version d =
     (case parse_json d of
        None \<Rightarrow> Inl []
      | Some j \<Rightarrow>
          (case unmarshal j of
             None \<Rightarrow> Inl []
           | Some out \<Rightarrow> if version out > manifestVersion then Inl [ErrUnsupportedVersion] else Inr out))"

abbreviation "encode_trackRoot \<equiv> encodeManifest enc_trackRoot"
abbreviation "encode_logRoot \<equiv> encodeManifest enc_epochLogRoot"
abbreviation "encode_delta \<equiv> encodeManifest enc_deltaManifest"
abbreviation "encode_sealed \<equiv> encodeManifest enc_sealedManifest"
abbreviation "encode_head \<equiv> encodeManifest enc_head"
abbreviation "decode_trackRoot \<equiv> decodeManifest dec_trackRoot tr_Version"
abbreviation "decode_logRoot \<equiv> decodeManifest dec_epochLogRoot lr_Version"
abbreviation "decode_delta \<equiv> decodeManifest dec_deltaManifest dm_Version"
abbreviation "decode_sealed \<equiv> decodeManifest dec_sealedManifest sm_Version"
abbreviation "decode_head \<equiv> decodeManifest dec_head h_Version"

end
