(* ===== verification/Manifest_Keys.thy ===== *)
theory Manifest_Keys
  imports Manifest
begin

text \<open>
  The object-key layout has no collisions: a key determines the kind of object it names, its track,
  its epoch and its numbers, over all tracks of a store. The key is cut at its slashes; the last
  segment starts with a character of its own for every kind of object. The collection \<open>key_simps\<close>
  decides every equation between two keys.
\<close>

section \<open>Segments of a slash-separated string\<close>

text \<open>\<open>strings.Split\<close> at the slashes, and its inverse.\<close>

fun segments :: "string \<Rightarrow> string list" where
  "segments [] = [[]]"
| "segments (c # s) = (if c = CHR ''/'' then [] # segments s
     else (c # hd (segments s)) # tl (segments s))"

fun join_slash :: "string list \<Rightarrow> string" where
  "join_slash [] = []"
| "join_slash [x] = x"
| "join_slash (x # y # ys) = x @ ''/'' @ join_slash (y # ys)"

lemma segments_nonempty [simp]: "segments s \<noteq> []"
  by (cases s) auto

lemma join_slash_Cons: "xs \<noteq> [] \<Longrightarrow> join_slash ((c # x) # xs) = c # join_slash (x # xs)"
  by (cases xs) auto

lemma join_slash_add: "join_slash ((c # x) # xs) = c # join_slash (x # xs)"
  by (cases xs) auto

lemma join_segments [simp]: "join_slash (segments s) = s"
proof (induction s)
  case (Cons c s)
  then show ?case
  proof (cases "c = CHR ''/''")
    case True
    with Cons show ?thesis by (cases "segments s") auto
  next
    case False
    with Cons show ?thesis by (simp add: join_slash_add)
  qed
qed simp

lemma segments_inject: "segments s = segments t \<longleftrightarrow> s = t"
  by (metis join_segments)

lemma segments_slash: "segments (a @ CHR ''/'' # b) = segments a @ segments b"
  by (induction a) auto

lemma segments_plain: "CHR ''/'' \<notin> set s \<Longrightarrow> segments s = [s]"
  by (induction s) auto

lemma segments_no_slash: "x \<in> set (segments s) \<Longrightarrow> CHR ''/'' \<notin> set x"
proof (induction s arbitrary: x)
  case (Cons c s)
  obtain y ys where s: "segments s = y # ys" by (cases "segments s") auto
  have "CHR ''/'' \<notin> set y" and "\<And>z. z \<in> set ys \<Longrightarrow> CHR ''/'' \<notin> set z"
    using Cons.IH s by auto
  with Cons.prems s show ?case by (auto split: if_splits)
qed simp

section \<open>Every kind of object, with its key\<close>

datatype obj =
    ORoot TrackPath
  | OLog TrackPath u64
  | OHead TrackPath u64
  | ODelta TrackPath u64 u64
  | OSealed TrackPath u64 u64 u64
  | OGroup TrackPath GroupID
  | OMarker TrackPath GroupID

text \<open>The marker of a redacted group; the code derives it from the group's key.\<close>

definition markerKey :: "TrackPath \<Rightarrow> GroupID \<Rightarrow> string" where
  "markerKey track i =
     track @ ''/'' @ epochDir (Epoch i) @ ''/'' @ redactedPrefix @ ''g'' @ Sprintf_0d 8 (unat (Sequence i))"

fun obj_key :: "obj \<Rightarrow> string" where
  "obj_key (ORoot t) = rootKey t"
| "obj_key (OLog t e) = epochLogKey t e"
| "obj_key (OHead t e) = headKey t e"
| "obj_key (ODelta t e n) = deltaKey t e n"
| "obj_key (OSealed t e a b) = sealedKey t e a b"
| "obj_key (OGroup t i) = groupKey t i"
| "obj_key (OMarker t i) = markerKey t i"

section \<open>The segments of a key\<close>

lemma slash_free [simp]:
  "CHR ''/'' \<notin> set (Sprintf_0d w n)" "CHR ''/'' \<notin> set (epochDir e)"
  by (simp_all add: Sprintf_no_char epochDir_def)

lemma segments_two: "segments (t @ ''/'' @ s) = segments t @ segments s"
  by (simp add: segments_slash)

lemma obj_key_segments:
  "segments (rootKey t) = segments t @ [''root.manifest'']"
  "segments (epochLogKey t e) = segments t @ [epochDir e, ''log.manifest'']"
  "segments (headKey t e) = segments t @ [epochDir e, ''delta'', ''head'']"
  "segments (deltaKey t e n) =
    segments t @ [epochDir e, ''delta'', ''open'', Sprintf_0d 8 (unat n) @ ''.manifest'']"
  "segments (sealedKey t e a b) = segments t @ [epochDir e, ''delta'',
    ''sealed-'' @ Sprintf_0d 8 (unat a) @ ''-'' @ Sprintf_0d 8 (unat b) @ ''.manifest'']"
  "segments (groupKey t i) = segments t @
    [epochDir (Epoch i), ''groups'', ''g'' @ Sprintf_0d 8 (unat (Sequence i))]"
  "segments (markerKey t i) = segments t @
    [epochDir (Epoch i), ''redacted'', ''g'' @ Sprintf_0d 8 (unat (Sequence i))]"
  by (simp_all add: rootKey_def epochLogKey_def headKey_def deltaKey_def sealedKey_def groupKey_def
      markerKey_def rootObject_def logObject_def headObject_def openPrefix_def sealedPrefix_def
      groupPrefix_def redactedPrefix_def segments_slash segments_plain)

lemma unat_inject [simp]: "unat (x :: u64) = unat y \<longleftrightarrow> x = y"
  by (metis unsigned_word_eqI)

lemma epochDir_inject [simp]: "epochDir e = epochDir f \<longleftrightarrow> e = f"
  by (simp add: epochDir_def)

lemma Sprintf_head: "Sprintf_0d w n = c # s \<Longrightarrow> is_digit c"
  using Sprintf_digits [of w n] by simp

lemma Sprintf_append_head [simp]:
  "\<not> is_digit c \<Longrightarrow> Sprintf_0d w n @ r \<noteq> c # s" "\<not> is_digit c \<Longrightarrow> c # s \<noteq> Sprintf_0d w n @ r"
  by (metis Sprintf_head Sprintf_nonempty append_eq_Cons_conv)+

lemma append_sep_eq: "c \<notin> set x \<Longrightarrow> c \<notin> set y \<Longrightarrow> x @ c # r = y @ c # s \<longleftrightarrow> x = y \<and> r = s"
  by (auto simp: append_eq_append_conv2 append_eq_Cons_conv Cons_eq_append_conv)

lemma sealed_name_inject [simp]:
  "Sprintf_0d 8 a @ CHR ''-'' # Sprintf_0d 8 b @ r = Sprintf_0d 8 c @ CHR ''-'' # Sprintf_0d 8 d @ r
    \<longleftrightarrow> a = c \<and> b = d"
  by (subst append_sep_eq) (auto simp: Sprintf_no_char)

lemma GroupID_parts_eq: "Epoch i = Epoch j \<and> Sequence i = Sequence j \<longleftrightarrow> i = j"
  by (metis NewGroupID_parts)

section \<open>No two objects share a key\<close>

lemma Sprintf_Cons [simp]:
  "\<not> is_digit c \<Longrightarrow> Sprintf_0d w n \<noteq> c # s" "\<not> is_digit c \<Longrightarrow> c # s \<noteq> Sprintf_0d w n"
  using Sprintf_head by metis+

lemma obj_key_inject: "obj_key x = obj_key y \<longleftrightarrow> x = y"
proof -
  have "rev (segments (obj_key x)) = rev (segments (obj_key y)) \<Longrightarrow> x = y"
    by (cases x; cases y)
       (auto simp: obj_key_segments segments_inject simp del: rev_is_rev_conv append_same_eq
          simp flip: GroupID_parts_eq)
  then show ?thesis by auto
qed

lemma key_eq [simp, key_simps]:
  "rootKey t = rootKey t' \<longleftrightarrow> t = t'"
  "epochLogKey t e = epochLogKey t' e' \<longleftrightarrow> t = t' \<and> e = e'"
  "headKey t e = headKey t' e' \<longleftrightarrow> t = t' \<and> e = e'"
  "deltaKey t e n = deltaKey t' e' n' \<longleftrightarrow> t = t' \<and> e = e' \<and> n = n'"
  "sealedKey t e a b = sealedKey t' e' a' b' \<longleftrightarrow> t = t' \<and> e = e' \<and> a = a' \<and> b = b'"
  "groupKey t i = groupKey t' i' \<longleftrightarrow> t = t' \<and> i = i'"
  "markerKey t i = markerKey t' i' \<longleftrightarrow> t = t' \<and> i = i'"
  by (simp_all add: obj_key_inject flip: obj_key.simps)

lemma key_neq [simp, key_simps]:
  "rootKey t \<noteq> epochLogKey t' e'" "rootKey t \<noteq> headKey t' e'" "rootKey t \<noteq> deltaKey t' e' n'"
  "rootKey t \<noteq> sealedKey t' e' a' b'" "rootKey t \<noteq> groupKey t' i'" "rootKey t \<noteq> markerKey t' i'"
  "epochLogKey t e \<noteq> rootKey t'" "epochLogKey t e \<noteq> headKey t' e'" "epochLogKey t e \<noteq> deltaKey t' e' n'"
  "epochLogKey t e \<noteq> sealedKey t' e' a' b'" "epochLogKey t e \<noteq> groupKey t' i'" "epochLogKey t e \<noteq> markerKey t' i'"
  "headKey t e \<noteq> rootKey t'" "headKey t e \<noteq> epochLogKey t' e'" "headKey t e \<noteq> deltaKey t' e' n'"
  "headKey t e \<noteq> sealedKey t' e' a' b'" "headKey t e \<noteq> groupKey t' i'" "headKey t e \<noteq> markerKey t' i'"
  "deltaKey t e n \<noteq> rootKey t'" "deltaKey t e n \<noteq> epochLogKey t' e'" "deltaKey t e n \<noteq> headKey t' e'"
  "deltaKey t e n \<noteq> sealedKey t' e' a' b'" "deltaKey t e n \<noteq> groupKey t' i'" "deltaKey t e n \<noteq> markerKey t' i'"
  "sealedKey t e a b \<noteq> rootKey t'" "sealedKey t e a b \<noteq> epochLogKey t' e'" "sealedKey t e a b \<noteq> headKey t' e'"
  "sealedKey t e a b \<noteq> deltaKey t' e' n'" "sealedKey t e a b \<noteq> groupKey t' i'" "sealedKey t e a b \<noteq> markerKey t' i'"
  "groupKey t i \<noteq> rootKey t'" "groupKey t i \<noteq> epochLogKey t' e'" "groupKey t i \<noteq> headKey t' e'"
  "groupKey t i \<noteq> deltaKey t' e' n'" "groupKey t i \<noteq> sealedKey t' e' a' b'" "groupKey t i \<noteq> markerKey t' i'"
  "markerKey t i \<noteq> rootKey t'" "markerKey t i \<noteq> epochLogKey t' e'" "markerKey t i \<noteq> headKey t' e'"
  "markerKey t i \<noteq> deltaKey t' e' n'" "markerKey t i \<noteq> sealedKey t' e' a' b'" "markerKey t i \<noteq> groupKey t' i'"
  by (simp_all add: obj_key_inject flip: obj_key.simps)

text \<open>
  C36. The object layout has no collisions: over all tracks, epochs, deltas, delta ranges and groups, two
  objects with the same key are the same object.
\<close>

theorem object_keys_never_collide: "obj_key x = obj_key y \<longleftrightarrow> x = y"
  by (rule obj_key_inject)

end
