(* ===== verification/Manifest_Codec.thy ===== *)
theory Manifest_Codec
  imports Manifest_Keys
begin

text \<open>
  Every manifest the ledger encodes is decoded to itself, provided its strings are UTF-8 and its
  numbers are values of their Go types. The facts are collected in \<open>codec_simps\<close>.
\<close>

section \<open>What a manifest must satisfy\<close>

definition row_ok :: "GroupInfo \<Rightarrow> bool" where
  "row_ok g \<longleftrightarrow> typed_GroupInfo g \<and> valid_utf8 (ObjectKey g) \<and> valid_utf8 (MIME g) \<and> valid_utf8 (Encoding g)"

definition trackRoot_ok :: "trackRoot \<Rightarrow> bool" where
  "trackRoot_ok r \<longleftrightarrow> is_i64 (tr_Version r) \<and> valid_utf8 (tr_Track r) \<and> valid_utf8 (tr_TimeSource r) \<and>
     valid_utf8 (tr_MIME r) \<and> valid_utf8 (tr_Encoding r) \<and> is_i64 (tr_CreatedAt r)"

definition sealedRef_ok :: "sealedRef \<Rightarrow> bool" where
  "sealedRef_ok r \<longleftrightarrow> valid_utf8 (Key r) \<and> is_i64 (Groups r) \<and> is_i64 (MediaStart r) \<and> is_i64 (MediaEnd r) \<and>
     is_i64 (WallclockStart r) \<and> is_i64 (WallclockEnd r)"

definition logRoot_ok :: "epochLogRoot \<Rightarrow> bool" where
  "logRoot_ok r \<longleftrightarrow> is_i64 (lr_Version r) \<and> valid_utf8 (lr_Track r) \<and> list_all sealedRef_ok (Sealed r) \<and>
     is_i64 (lr_CreatedAt r)"

definition delta_ok :: "deltaManifest \<Rightarrow> bool" where
  "delta_ok d \<longleftrightarrow> is_i64 (dm_Version d) \<and> list_all row_ok (dm_Groups d) \<and> is_i64 (CommittedAt d)"

definition sealed_ok :: "sealedManifest \<Rightarrow> bool" where
  "sealed_ok m \<longleftrightarrow> is_i64 (sm_Version m) \<and> valid_utf8 (sm_Track m) \<and> list_all row_ok (sm_Groups m) \<and>
     is_i64 (SealedAt m)"

definition head_ok :: "head \<Rightarrow> bool" where
  "head_ok h \<longleftrightarrow> is_i64 (h_Version h) \<and> is_i64 (UpdatedAt h)"

section \<open>Scalars and lists\<close>

lemma dec_FormatInt: "dec n = FormatInt (int n)"
  by (simp add: FormatInt_def)

lemma dec_num_int [simp]: "is_i64 v \<Longrightarrow> dec_int (num_int v) old = Some v"
  by (simp add: dec_int_def num_int_def)

lemma dec_num_u64 [simp]: "dec_u64 (num_u64 x) old = Some x"
  by (simp add: dec_u64_def num_u64_def)

lemma dec_u32_num [simp]: "dec_u32 (JNum (dec (unat (x :: u32)))) old = Some x"
proof -
  have u: "unat x < 2 ^ 32" using unsigned_less [of x, where ?'a = nat] by simp
  then have "unat (of_nat (unat x) :: u64) = unat x"
    by (simp add: unsigned_ucast_eq take_bit_nat_eq_self)
  with u show ?thesis
    using ParseUint_dec [of "of_nat (unat x)"] by (simp add: dec_u32_def)
qed

lemma dec_JStr [simp]: "dec_string (JStr s) old = Some s"
  by (simp add: dec_string_def)

lemma those_map: "(\<And>x. x \<in> set xs \<Longrightarrow> f (g x) = Some x) \<Longrightarrow> those (map f (map g xs)) = Some xs"
  by (induction xs) auto

lemma dec_enc_list: "(\<And>x. x \<in> set xs \<Longrightarrow> f (g x) = Some x) \<Longrightarrow> dec_list f (enc_list g xs) = Some xs"
  using those_map [of xs f g] by (auto simp: dec_list_def enc_list_def)

lemma dec_fields_append:
  "dec_fields put (ms @ ns) x = (case dec_fields put ms x of None \<Rightarrow> None | Some y \<Rightarrow> dec_fields put ns y)"
  by (induction put ms x rule: dec_fields.induct) (auto split: option.splits)

lemma dec_fields_omit:
  "dec_fields put (omit b (k, v) @ ms) x =
    (if b then dec_fields put ms x
     else case put (fold_name k) v x of None \<Rightarrow> None | Some y \<Rightarrow> dec_fields put ms y)"
  "dec_fields put (omit b (k, v)) x = (if b then Some x else put (fold_name k) v x)"
  by (auto simp: omit_def split: option.splits)

lemma wf_num [simp]: "wf_json (num_int v)" "wf_json (num_u64 x)" "wf_json (JNum (dec n))"
  by (auto simp: num_int_def num_u64_def dec_FormatInt)

lemma dec_is_FormatInt [simp]: "\<exists>v. dec n = FormatInt v"
  using dec_FormatInt by blast

lemma depth_num [simp]: "depth (num_int v) = 0" "depth (num_u64 x) = 0"
  by (simp_all add: num_int_def num_u64_def)

lemma wf_enc_list: "(\<And>x. x \<in> set xs \<Longrightarrow> wf_json (f x)) \<Longrightarrow> wf_json (enc_list f xs)"
  by (simp add: enc_list_def)

lemma depth_enc_list: "(\<And>x. x \<in> set xs \<Longrightarrow> depth (f x) \<le> d) \<Longrightarrow> depth (enc_list f xs) \<le> Suc d"
  by (auto simp: enc_list_def)

lemma depth_JObj: "(\<And>m. m \<in> set ms \<Longrightarrow> depth (snd m) \<le> d) \<Longrightarrow> depth (JObj ms) \<le> Suc d"
  by auto

lemma set_omit: "m \<in> set (omit b x) \<Longrightarrow> m = x"
  by (simp add: omit_def split: if_splits)

lemma wf_omit: "wf_json (JObj (omit b m @ ms)) \<longleftrightarrow>
    (\<not> b \<longrightarrow> valid_utf8 (fst m) \<and> wf_json (snd m)) \<and> wf_json (JObj ms)"
  "wf_json (JObj (omit b m)) \<longleftrightarrow> (\<not> b \<longrightarrow> valid_utf8 (fst m) \<and> wf_json (snd m))"
  by (auto simp: omit_def)

section \<open>Member names\<close>

lemma fold_names [simp]:
  "fold_name ''id'' = ''ID''" "fold_name ''mediaTime'' = ''MEDIATIME''" "fold_name ''duration'' = ''DURATION''"
  "fold_name ''wallclock'' = ''WALLCLOCK''" "fold_name ''objectCount'' = ''OBJECTCOUNT''"
  "fold_name ''objectKey'' = ''OBJECTKEY''" "fold_name ''size'' = ''SIZE''" "fold_name ''mime'' = ''MIME''"
  "fold_name ''encoding'' = ''ENCODING''" "fold_name ''version'' = ''VERSION''" "fold_name ''track'' = ''TRACK''"
  "fold_name ''timescale'' = ''TIMESCALE''" "fold_name ''timeSource'' = ''TIMESOURCE''"
  "fold_name ''latestEpoch'' = ''LATESTEPOCH''" "fold_name ''createdAt'' = ''CREATEDAT''"
  "fold_name ''key'' = ''KEY''" "fold_name ''firstDelta'' = ''FIRSTDELTA''"
  "fold_name ''lastDelta'' = ''LASTDELTA''" "fold_name ''groups'' = ''GROUPS''"
  "fold_name ''mediaStart'' = ''MEDIASTART''" "fold_name ''mediaEnd'' = ''MEDIAEND''"
  "fold_name ''wallclockStart'' = ''WALLCLOCKSTART''" "fold_name ''wallclockEnd'' = ''WALLCLOCKEND''"
  "fold_name ''first'' = ''FIRST''" "fold_name ''last'' = ''LAST''" "fold_name ''epoch'' = ''EPOCH''"
  "fold_name ''sealed'' = ''SEALED''" "fold_name ''openFrom'' = ''OPENFROM''" "fold_name ''seq'' = ''SEQ''"
  "fold_name ''committedAt'' = ''COMMITTEDAT''" "fold_name ''sealedAt'' = ''SEALEDAT''"
  "fold_name ''delta'' = ''DELTA''" "fold_name ''latest'' = ''LATEST''" "fold_name ''updatedAt'' = ''UPDATEDAT''"
  by code_simp+

declare fold_name.simps [simp del]

lemma valid_utf8_ascii: "\<forall>c\<in>set s. byte c < 128 \<Longrightarrow> valid_utf8 s"
proof (induction s)
  case Nil
  then show ?case by (simp add: valid_utf8.simps)
next
  case (Cons c s)
  then have "utf8_len (c # s) = 1" by (simp add: utf8_len_def rune_width_def rune_ok_def)
  with Cons show ?case by (subst valid_utf8.simps) simp
qed

lemma valid_utf8_Nil [simp]: "valid_utf8 []"
  by (simp add: valid_utf8.simps)

lemma valid_utf8_append: "valid_utf8 s \<Longrightarrow> valid_utf8 t \<Longrightarrow> valid_utf8 (s @ t)"
proof (induction s rule: valid_utf8.induct)
  case (1 s)
  show ?case
  proof (cases "s = []")
    case False
    then have u: "utf8_len s \<noteq> 0" "valid_utf8 (drop (utf8_len s) s)"
      using 1(2) by (simp_all add: valid_utf8.simps [of s] split: if_splits)
    have "utf8_len (s @ t) = utf8_len s"
      using utf8_len_take [OF u(1), of "drop (utf8_len s) s @ t"]
      by (simp only: append_assoc [symmetric] append_take_drop_id)
    then show ?thesis
      using 1(1) [OF False u(1) u(2) 1(3)] u False utf8_len_le [of s]
      by (subst valid_utf8.simps) simp
  qed (use 1 in simp)
qed

lemma valid_utf8_digits [simp]: "valid_utf8 (Sprintf_0d w n)"
  using Sprintf_digits [of w n] by (intro valid_utf8_ascii) (auto simp: list_all_iff is_digit_def)

lemma valid_utf8_key_parts [simp]:
  "valid_utf8 ''/''" "valid_utf8 ''e''" "valid_utf8 ''g''" "valid_utf8 ''-''" "valid_utf8 ''groups/''"
  "valid_utf8 ''delta/sealed-''" "valid_utf8 ''.manifest''"
  by (rule valid_utf8_ascii, simp)+

lemma valid_utf8_groupKey [simp]: "valid_utf8 t \<Longrightarrow> valid_utf8 (groupKey t i)"
  unfolding groupKey_def epochDir_def groupPrefix_def
  by (intro valid_utf8_append valid_utf8_digits) simp_all

lemma valid_utf8_sealedKey [simp]: "valid_utf8 t \<Longrightarrow> valid_utf8 (sealedKey t e a b)"
  unfolding sealedKey_def epochDir_def sealedPrefix_def
  by (intro valid_utf8_append valid_utf8_digits) simp_all

section \<open>Structs are read back\<close>

lemma dec_enc_GroupInfo: "row_ok g \<Longrightarrow> dec_GroupInfo (enc_GroupInfo g) = Some g"
  by (cases g)
     (simp add: dec_GroupInfo_def enc_GroupInfo_def dec_struct_def dec_fields_omit put_GroupInfo_def
        row_ok_def typed_GroupInfo_def zero_GroupInfo_def)

lemma dec_enc_trackRoot: "trackRoot_ok r \<Longrightarrow> dec_trackRoot (enc_trackRoot r) = Some r"
  by (cases r)
     (simp add: dec_trackRoot_def enc_trackRoot_def dec_struct_def dec_fields_omit put_trackRoot_def
        trackRoot_ok_def zero_trackRoot_def)

lemma dec_enc_sealedRef: "sealedRef_ok r \<Longrightarrow> dec_sealedRef (enc_sealedRef r) = Some r"
  by (cases r)
     (simp add: dec_sealedRef_def enc_sealedRef_def dec_struct_def dec_fields_omit put_sealedRef_def
        sealedRef_ok_def zero_sealedRef_def)

lemma dec_enc_logRoot: "logRoot_ok r \<Longrightarrow> dec_epochLogRoot (enc_epochLogRoot r) = Some r"
  using dec_enc_list [of "Sealed r" dec_sealedRef enc_sealedRef] dec_enc_sealedRef
  by (cases r)
     (simp add: dec_epochLogRoot_def enc_epochLogRoot_def dec_struct_def put_epochLogRoot_def
        logRoot_ok_def zero_epochLogRoot_def list_all_iff)

lemma dec_enc_delta: "delta_ok d \<Longrightarrow> dec_deltaManifest (enc_deltaManifest d) = Some d"
  using dec_enc_list [of "dm_Groups d" dec_GroupInfo enc_GroupInfo] dec_enc_GroupInfo
  by (cases d)
     (simp add: dec_deltaManifest_def enc_deltaManifest_def dec_struct_def put_deltaManifest_def
        delta_ok_def zero_deltaManifest_def list_all_iff)

lemma dec_enc_sealed: "sealed_ok m \<Longrightarrow> dec_sealedManifest (enc_sealedManifest m) = Some m"
  using dec_enc_list [of "sm_Groups m" dec_GroupInfo enc_GroupInfo] dec_enc_GroupInfo
  by (cases m)
     (simp add: dec_sealedManifest_def enc_sealedManifest_def dec_struct_def put_sealedManifest_def
        sealed_ok_def zero_sealedManifest_def list_all_iff)

lemma dec_enc_head: "head_ok h \<Longrightarrow> dec_head (enc_head h) = Some h"
  by (cases h)
     (simp add: dec_head_def enc_head_def dec_struct_def put_head_def head_ok_def zero_head_def)

section \<open>Texts are read back\<close>

lemma valid_utf8_names [simp]:
  "valid_utf8 ''id''" "valid_utf8 ''mediaTime''" "valid_utf8 ''duration''" "valid_utf8 ''wallclock''"
  "valid_utf8 ''objectCount''" "valid_utf8 ''objectKey''" "valid_utf8 ''size''" "valid_utf8 ''mime''"
  "valid_utf8 ''encoding''" "valid_utf8 ''version''" "valid_utf8 ''track''" "valid_utf8 ''timescale''"
  "valid_utf8 ''timeSource''" "valid_utf8 ''latestEpoch''" "valid_utf8 ''createdAt''" "valid_utf8 ''key''"
  "valid_utf8 ''firstDelta''" "valid_utf8 ''lastDelta''" "valid_utf8 ''groups''" "valid_utf8 ''mediaStart''"
  "valid_utf8 ''mediaEnd''" "valid_utf8 ''wallclockStart''" "valid_utf8 ''wallclockEnd''"
  "valid_utf8 ''first''" "valid_utf8 ''last''" "valid_utf8 ''epoch''" "valid_utf8 ''sealed''"
  "valid_utf8 ''openFrom''" "valid_utf8 ''seq''" "valid_utf8 ''committedAt''" "valid_utf8 ''sealedAt''"
  "valid_utf8 ''delta''" "valid_utf8 ''latest''" "valid_utf8 ''updatedAt''"
  by (rule valid_utf8_ascii, simp)+

lemma wf_members: "wf_json (JObj ms) \<longleftrightarrow> list_all (\<lambda>m. valid_utf8 (fst m) \<and> wf_json (snd m)) ms"
  by (simp add: list_all_iff)

lemma depth_members: "depth (JObj ms) \<le> Suc d \<longleftrightarrow> list_all (\<lambda>m. depth (snd m) \<le> d) ms"
  by (auto simp: list_all_iff)

lemma list_all_omit [simp]: "list_all P (omit b m) \<longleftrightarrow> b \<or> P m"
  by (simp add: omit_def)

declare wf_json.simps(4) [simp del] depth.simps(2) [simp del]

lemma enc_GroupInfo_json: "row_ok g \<Longrightarrow> wf_json (enc_GroupInfo g) \<and> depth (enc_GroupInfo g) \<le> Suc 0"
  by (simp add: enc_GroupInfo_def row_ok_def wf_members depth_members)

lemma enc_sealedRef_json: "sealedRef_ok r \<Longrightarrow> wf_json (enc_sealedRef r) \<and> depth (enc_sealedRef r) \<le> Suc 0"
  by (simp add: enc_sealedRef_def sealedRef_ok_def wf_members depth_members)

lemma enc_trackRoot_json: "trackRoot_ok r \<Longrightarrow> wf_json (enc_trackRoot r) \<and> depth (enc_trackRoot r) \<le> Suc 0"
  by (simp add: enc_trackRoot_def trackRoot_ok_def wf_members depth_members)

lemma enc_head_json: "head_ok h \<Longrightarrow> wf_json (enc_head h) \<and> depth (enc_head h) \<le> Suc 0"
  by (simp add: enc_head_def head_ok_def wf_members depth_members)

lemma enc_list_json:
  assumes "list_all P xs" and "\<And>x. P x \<Longrightarrow> wf_json (f x) \<and> depth (f x) \<le> Suc 0"
  shows "wf_json (enc_list f xs)" and "depth (enc_list f xs) \<le> Suc (Suc 0)"
  using assms wf_enc_list [of xs f] depth_enc_list [of xs f "Suc 0"]
  by (auto simp: list_all_iff)

lemma enc_logRoot_json: "logRoot_ok r \<Longrightarrow> wf_json (enc_epochLogRoot r) \<and> depth (enc_epochLogRoot r) \<le> Suc (Suc (Suc 0))"
  using enc_list_json [where P = sealedRef_ok and f = enc_sealedRef and xs = "Sealed r", OF _ enc_sealedRef_json]
  by (simp add: enc_epochLogRoot_def logRoot_ok_def wf_members depth_members)

lemma enc_delta_json: "delta_ok d \<Longrightarrow> wf_json (enc_deltaManifest d) \<and> depth (enc_deltaManifest d) \<le> Suc (Suc (Suc 0))"
  using enc_list_json [where P = row_ok and f = enc_GroupInfo and xs = "dm_Groups d", OF _ enc_GroupInfo_json]
  by (simp add: enc_deltaManifest_def delta_ok_def wf_members depth_members)

lemma enc_sealed_json: "sealed_ok m \<Longrightarrow> wf_json (enc_sealedManifest m) \<and> depth (enc_sealedManifest m) \<le> Suc (Suc (Suc 0))"
  using enc_list_json [where P = row_ok and f = enc_GroupInfo and xs = "sm_Groups m", OF _ enc_GroupInfo_json]
  by (simp add: enc_sealedManifest_def sealed_ok_def wf_members depth_members)

declare wf_json.simps(4) [simp] depth.simps(2) [simp]

text \<open>One lemma carries every round trip: a text that parses back, and a struct that is read back.\<close>

lemma decode_encode:
  assumes "wf_json (enc v) \<and> depth (enc v) \<le> Suc d" and "d \<le> 2" and "unmarshal (enc v) = Some v"
  shows "decodeManifest unmarshal version (encodeManifest enc v) =
    (if version v > manifestVersion then Inl [ErrUnsupportedVersion] else Inr v)"
proof -
  have "parse_json (json_text (enc v)) = Some (enc v)"
    using assms by (intro parse_json_text) (auto simp: maxNestingDepth_def)
  with assms show ?thesis by (simp add: decodeManifest_def encodeManifest_def)
qed

lemma decode_encode_trackRoot [codec_simps]:
  "trackRoot_ok r \<Longrightarrow> decode_trackRoot (encode_trackRoot r) =
    (if tr_Version r > manifestVersion then Inl [ErrUnsupportedVersion] else Inr r)"
  by (rule decode_encode [where d = 0]) (simp_all add: enc_trackRoot_json dec_enc_trackRoot)

lemma decode_encode_logRoot [codec_simps]:
  "logRoot_ok r \<Longrightarrow> decode_logRoot (encode_logRoot r) =
    (if lr_Version r > manifestVersion then Inl [ErrUnsupportedVersion] else Inr r)"
  by (rule decode_encode [where d = "Suc (Suc 0)"]) (simp_all add: enc_logRoot_json dec_enc_logRoot)

lemma decode_encode_delta [codec_simps]:
  "delta_ok d \<Longrightarrow> decode_delta (encode_delta d) =
    (if dm_Version d > manifestVersion then Inl [ErrUnsupportedVersion] else Inr d)"
  by (rule decode_encode [where d = "Suc (Suc 0)"]) (simp_all add: enc_delta_json dec_enc_delta)

lemma decode_encode_sealed [codec_simps]:
  "sealed_ok m \<Longrightarrow> decode_sealed (encode_sealed m) =
    (if sm_Version m > manifestVersion then Inl [ErrUnsupportedVersion] else Inr m)"
  by (rule decode_encode [where d = "Suc (Suc 0)"]) (simp_all add: enc_sealed_json dec_enc_sealed)

lemma decode_encode_head [codec_simps]:
  "head_ok h \<Longrightarrow> decode_head (encode_head h) =
    (if h_Version h > manifestVersion then Inl [ErrUnsupportedVersion] else Inr h)"
  by (rule decode_encode [where d = 0]) (simp_all add: enc_head_json dec_enc_head)

text \<open>
  C37. What the ledger writes it reads back: every root, log root, delta, sealed manifest and head with
  UTF-8 strings and numbers of their Go types decodes from its encoding to itself, and one of a newer
  version is refused with \<open>ErrUnsupportedVersion\<close>.
\<close>

theorem manifests_are_read_back:
  "(trackRoot_ok r \<longrightarrow> decode_trackRoot (encode_trackRoot r) =
      (if tr_Version r > manifestVersion then Inl [ErrUnsupportedVersion] else Inr r)) \<and>
   (logRoot_ok l \<longrightarrow> decode_logRoot (encode_logRoot l) =
      (if lr_Version l > manifestVersion then Inl [ErrUnsupportedVersion] else Inr l)) \<and>
   (delta_ok d \<longrightarrow> decode_delta (encode_delta d) =
      (if dm_Version d > manifestVersion then Inl [ErrUnsupportedVersion] else Inr d)) \<and>
   (sealed_ok m \<longrightarrow> decode_sealed (encode_sealed m) =
      (if sm_Version m > manifestVersion then Inl [ErrUnsupportedVersion] else Inr m)) \<and>
   (head_ok h \<longrightarrow> decode_head (encode_head h) =
      (if h_Version h > manifestVersion then Inl [ErrUnsupportedVersion] else Inr h))"
  by (simp add: codec_simps)

theorem manifests_are_read_back_witness:
  "decode_delta (encode_delta \<lparr>dm_Version = 1, dm_Seq = 3, dm_Groups = [zero_GroupInfo\<lparr>MIME := ''a/b''\<rparr>], CommittedAt = 9\<rparr>) =
     Inr \<lparr>dm_Version = 1, dm_Seq = 3, dm_Groups = [zero_GroupInfo\<lparr>MIME := ''a/b''\<rparr>], CommittedAt = 9\<rparr> \<and>
   decode_head (encode_head (zero_head\<lparr>h_Version := 2\<rparr>)) = Inl [ErrUnsupportedVersion]"
proof -
  have "valid_utf8 ''a/b''" by (rule valid_utf8_ascii) simp
  then show ?thesis
    using manifests_are_read_back [of zero_trackRoot zero_epochLogRoot
        "\<lparr>dm_Version = 1, dm_Seq = 3, dm_Groups = [zero_GroupInfo\<lparr>MIME := ''a/b''\<rparr>], CommittedAt = 9\<rparr>"
        zero_sealedManifest "zero_head\<lparr>h_Version := 2\<rparr>"]
    by (simp add: delta_ok_def head_ok_def zero_head_def row_ok_def typed_GroupInfo_def zero_GroupInfo_def i64_bounds
        manifestVersion_def)
qed

end
