(* ===== verification/Store.thy ===== *)
theory Store
  imports Go_Text
begin

text \<open>
  The storage contract (\<open>ledger/store/store.go\<close>).

  A store is a record of its four operations over a state type \<open>'s\<close> of the backend's own, as the Go
  interface is a table of methods over a receiver. The locale \<open>store_contract\<close> states what every
  backend promises through a view of its state as a partial map from keys to data and version: what
  a success means, and that a failed call leaves the object as it was or takes the write whole (a
  reply can be lost). The locale \<open>reliable_store\<close> adds that a call with a live context does not
  fail for other reasons. The ledger's components are verified against these laws alone.
\<close>

section \<open>The interface\<close>

type_synonym version = string

definition NoVersion :: version where
  "NoVersion = ''''"

record 's store =
  Get :: "ctx \<Rightarrow> string \<Rightarrow> 's \<Rightarrow> (error + bytes \<times> version) \<times> 's"
  Create :: "ctx \<Rightarrow> string \<Rightarrow> bytes \<Rightarrow> 's \<Rightarrow> (error + version) \<times> 's"
  Swap :: "ctx \<Rightarrow> string \<Rightarrow> bytes \<Rightarrow> version \<Rightarrow> 's \<Rightarrow> (error + version) \<times> 's"
  Delete :: "ctx \<Rightarrow> string \<Rightarrow> 's \<Rightarrow> error option \<times> 's"

section \<open>The contract\<close>

type_synonym view = "string \<Rightarrow> (bytes \<times> version) option"

text \<open>The sentinels a backend's errors may wrap: none of the ledger's own.\<close>

definition store_error :: "error \<Rightarrow> bool" where
  "store_error e \<longleftrightarrow> set e \<subseteq> {ErrNotExist, ErrExist, ErrVersionMismatch, Canceled, ErrInvalidKey, fs_ErrNotExist, fs_ErrExist}"

text \<open>The version condition of a swap: \<open>NoVersion\<close> asks for an absent object.\<close>

definition swap_matches :: "(bytes \<times> version) option \<Rightarrow> version \<Rightarrow> bool" where
  "swap_matches cur expect =
     (case cur of None \<Rightarrow> expect = NoVersion | Some (_, v) \<Rightarrow> v = expect)"

text \<open>
  Versions are opaque: a caller hands back one it was given. A backend owes nothing for a text that no
  object of it can have as its version, and one of them accepts other spellings of a version it issued.
\<close>

definition issued :: "('s \<Rightarrow> view) \<Rightarrow> ('s \<Rightarrow> bool) \<Rightarrow> version \<Rightarrow> bool" where
  "issued view I v \<longleftrightarrow> v = NoVersion \<or> (\<exists>s k d. I s \<and> view s k = Some (d, v))"

lemma issuedI: "I s \<Longrightarrow> view s k = Some (d, v) \<Longrightarrow> issued view I v"
  by (auto simp: issued_def)

locale store_contract =
  fixes S :: "'s store"
    and view :: "'s \<Rightarrow> view"
    and inv :: "'s \<Rightarrow> bool"
  assumes version_nonempty: "inv s \<Longrightarrow> view s k = Some (d, v) \<Longrightarrow> v \<noteq> NoVersion"
    and get_view: "inv s \<Longrightarrow> Get S c k s = (r, s') \<Longrightarrow> inv s' \<and> view s' = view s"
    and get_Inr: "inv s \<Longrightarrow> Get S c k s = (Inr x, s') \<Longrightarrow> view s k = Some x"
    and get_Inl: "inv s \<Longrightarrow> Get S c k s = (Inl e, s') \<Longrightarrow>
      store_error e \<and> (errors_Is e ErrNotExist \<longrightarrow> view s k = None)"
    and create_inv: "inv s \<Longrightarrow> Create S c k d s = (rc, s') \<Longrightarrow> inv s'"
    and create_Inr: "inv s \<Longrightarrow> Create S c k d s = (Inr v, s') \<Longrightarrow>
      view s k = None \<and> view s' = (view s)(k \<mapsto> (d, v))"
    and create_Inl: "inv s \<Longrightarrow> Create S c k d s = (Inl e, s') \<Longrightarrow>
      store_error e \<and> (errors_Is e ErrExist \<longrightarrow> view s' k \<noteq> None) \<and>
      (view s' = view s \<or> view s k = None \<and> (\<exists>v. view s' = (view s)(k \<mapsto> (d, v))))"
    and swap_inv: "inv s \<Longrightarrow> Swap S c k d expect s = (rc, s') \<Longrightarrow> inv s'"
    and swap_Inr: "inv s \<Longrightarrow> Swap S c k d expect s = (Inr v, s') \<Longrightarrow>
      (issued view inv expect \<longrightarrow> swap_matches (view s k) expect) \<and> view s' = (view s)(k \<mapsto> (d, v))"
    and swap_Inl: "inv s \<Longrightarrow> Swap S c k d expect s = (Inl e, s') \<Longrightarrow>
      store_error e \<and>
      (view s' = view s \<or>
       (issued view inv expect \<longrightarrow> swap_matches (view s k) expect) \<and> (\<exists>v. view s' = (view s)(k \<mapsto> (d, v))))"
    and delete_inv: "inv s \<Longrightarrow> Delete S c k s = (rd, s') \<Longrightarrow> inv s'"
    and delete_view: "inv s \<Longrightarrow> Delete S c k s = (rd, s') \<Longrightarrow>
      view s' = (view s)(k := None) \<or> rd \<noteq> None \<and> view s' = view s"

locale reliable_store = store_contract +
  assumes get_absent: "inv s \<Longrightarrow> view s k = None \<Longrightarrow>
      \<exists>e s'. Get S Live k s = (Inl e, s') \<and> errors_Is e ErrNotExist"
    and get_present: "inv s \<Longrightarrow> view s k = Some x \<Longrightarrow> \<exists>s'. Get S Live k s = (Inr x, s')"
    and create_absent: "inv s \<Longrightarrow> view s k = None \<Longrightarrow> \<exists>v s'. Create S Live k d s = (Inr v, s')"
    and create_present: "inv s \<Longrightarrow> view s k \<noteq> None \<Longrightarrow>
      \<exists>e s'. Create S Live k d s = (Inl e, s') \<and> errors_Is e ErrExist"
    and swap_ok: "inv s \<Longrightarrow> swap_matches (view s k) expect \<Longrightarrow> \<exists>v s'. Swap S Live k d expect s = (Inr v, s')"
    and swap_refused: "inv s \<Longrightarrow> issued view inv expect \<Longrightarrow> \<not> swap_matches (view s k) expect \<Longrightarrow>
      \<exists>e s'. Swap S Live k d expect s = (Inl e, s') \<and>
        (if view s k = None then errors_Is e ErrNotExist else errors_Is e ErrVersionMismatch)"
    and delete_ok: "inv s \<Longrightarrow> \<exists>s'. Delete S Live k s = (None, s')"

end
