(* ===== verification/Mem_Store.thy ===== *)
theory Mem_Store
  imports Store "HOL-Library.Mapping" "HOL-Library.Char_ord" "HOL-Library.List_Lexorder"
begin

text \<open>
  The in-memory backend (\<open>ledger/store/mem/mem.go\<close>), the reference implementation of the store
  contract: a map of objects and a counter that makes versions unique across the whole store. It is
  shown to be a \<open>reliable_store\<close>.
\<close>

section \<open>Definitions\<close>

record object =
  data :: bytes
  obj_version :: version

record mem =
  objects :: "(string, object) mapping"
  nextVersion :: u64

definition mem_New :: mem where
  "mem_New = \<lparr>objects = Mapping.empty, nextVersion = 0\<rparr>"

definition storeLocked :: "string \<Rightarrow> bytes \<Rightarrow> mem \<Rightarrow> version \<times> mem" where
  "storeLocked key d s =
     (let n = nextVersion s + 1;
          v = dec (unat n)
      in (v, s\<lparr>nextVersion := n, objects := Mapping.update key \<lparr>data = d, obj_version = v\<rparr> (objects s)\<rparr>))"

definition mem_Get :: "ctx \<Rightarrow> string \<Rightarrow> mem \<Rightarrow> (error + bytes \<times> version) \<times> mem" where
  "mem_Get c key s =
     (case ctx_Err c of Some e \<Rightarrow> (Inl e, s)
      | None \<Rightarrow> (case Mapping.lookup (objects s) key of
          None \<Rightarrow> (Inl [ErrNotExist], s)
        | Some obj \<Rightarrow> (Inr (data obj, obj_version obj), s)))"

definition mem_Create :: "ctx \<Rightarrow> string \<Rightarrow> bytes \<Rightarrow> mem \<Rightarrow> (error + version) \<times> mem" where
  "mem_Create c key d s =
     (case ctx_Err c of Some e \<Rightarrow> (Inl e, s)
      | None \<Rightarrow> (case Mapping.lookup (objects s) key of
          Some _ \<Rightarrow> (Inl [ErrExist], s)
        | None \<Rightarrow> (case storeLocked key d s of (v, s') \<Rightarrow> (Inr v, s'))))"

definition mem_Swap :: "ctx \<Rightarrow> string \<Rightarrow> bytes \<Rightarrow> version \<Rightarrow> mem \<Rightarrow> (error + version) \<times> mem" where
  "mem_Swap c key d expect s =
     (case ctx_Err c of Some e \<Rightarrow> (Inl e, s)
      | None \<Rightarrow>
          (let found = Mapping.lookup (objects s) key
           in if found = None \<and> expect \<noteq> NoVersion then (Inl [ErrNotExist], s)
              else if found \<noteq> None \<and> obj_version (the found) \<noteq> expect
                then (Inl [ErrVersionMismatch], s)
              else case storeLocked key d s of (v, s') \<Rightarrow> (Inr v, s')))"

definition mem_Delete :: "ctx \<Rightarrow> string \<Rightarrow> mem \<Rightarrow> error option \<times> mem" where
  "mem_Delete c key s =
     (case ctx_Err c of Some e \<Rightarrow> (Some e, s)
      | None \<Rightarrow> (None, s\<lparr>objects := Mapping.delete key (objects s)\<rparr>))"

text \<open>
  Listing: the keys under the prefix, sorted, as the iteration with a live context yields them; a
  context that is done yields its error first and nothing else.
\<close>

definition mem_List :: "ctx \<Rightarrow> string \<Rightarrow> mem \<Rightarrow> (error + string) list" where
  "mem_List c prfx s =
     (let keys = Mapping.ordered_keys (objects s)
      in case ctx_Err c of
           None \<Rightarrow> map Inr (filter (\<lambda>key. HasPrefix key prfx) keys)
         | Some e \<Rightarrow> (if keys = [] then [] else [Inl e]))"

definition mem_Len :: "mem \<Rightarrow> nat" where
  "mem_Len s = Mapping.size (objects s)"

definition mem_store :: "mem store" where
  "mem_store = \<lparr>Get = mem_Get, Create = mem_Create, Swap = mem_Swap, Delete = mem_Delete\<rparr>"

section \<open>The contract holds\<close>

definition mem_view :: "mem \<Rightarrow> view" where
  "mem_view s = (\<lambda>k. map_option (\<lambda>obj. (data obj, obj_version obj)) (Mapping.lookup (objects s) k))"

text \<open>Every stored version was issued by the counter, so none is the empty version.\<close>

definition mem_inv :: "mem \<Rightarrow> bool" where
  "mem_inv s \<longleftrightarrow> (\<forall>k obj. Mapping.lookup (objects s) k = Some obj \<longrightarrow> obj_version obj \<noteq> NoVersion)"

lemma lookup_delete_if: "Mapping.lookup (Mapping.delete k m) k' = (if k = k' then None else Mapping.lookup m k')"
  by simp

lemmas mem_defs = mem_store_def mem_Get_def mem_Create_def mem_Swap_def mem_Delete_def storeLocked_def

lemma mem_view_update [simp]:
  "mem_view (s\<lparr>nextVersion := n, objects := Mapping.update k obj (objects s)\<rparr>) =
    (mem_view s)(k \<mapsto> (data obj, obj_version obj))"
  by (auto simp: mem_view_def fun_eq_iff lookup_update')

lemma mem_view_delete [simp]:
  "mem_view (s\<lparr>objects := Mapping.delete k (objects s)\<rparr>) = (mem_view s)(k := None)"
  by (auto simp: mem_view_def fun_eq_iff lookup_delete_if)

lemma mem_view_None: "mem_view s k = None \<longleftrightarrow> Mapping.lookup (objects s) k = None"
  by (simp add: mem_view_def)


lemma mem_viewD: "mem_view s k = Some (d, v) \<Longrightarrow>
    Mapping.lookup (objects s) k = Some \<lparr>data = d, obj_version = v\<rparr>"
  by (auto simp: mem_view_def)

lemma mem_inv_update [simp]: "mem_inv s \<Longrightarrow> obj_version obj \<noteq> NoVersion \<Longrightarrow>
    mem_inv (s\<lparr>nextVersion := n, objects := Mapping.update k obj (objects s)\<rparr>)"
  by (simp add: mem_inv_def lookup_update')

lemma mem_inv_delete [simp]: "mem_inv s \<Longrightarrow> mem_inv (s\<lparr>objects := Mapping.delete k (objects s)\<rparr>)"
  by (auto simp: mem_inv_def lookup_delete_if)

lemma mem_inv_New [simp]: "mem_inv mem_New"
  by (simp add: mem_inv_def mem_New_def)

lemma mem_view_New [simp]: "mem_view mem_New = (\<lambda>_. None)"
  by (simp add: mem_view_def mem_New_def fun_eq_iff)

lemma dec_not_NoVersion [simp]: "dec n \<noteq> NoVersion"
  by (simp add: NoVersion_def)

lemma ctx_Err_store_error [simp]: "ctx_Err c = Some e \<Longrightarrow> store_error e \<and> \<not> errors_Is e ErrNotExist
    \<and> \<not> errors_Is e ErrExist"
  by (auto simp: ctx_Err_def store_error_def split: ctx.splits)

lemma store_error_sentinels [simp]:
  "store_error [ErrNotExist]" "store_error [ErrExist]" "store_error [ErrVersionMismatch]"
  by (simp_all add: store_error_def)

interpretation mem: reliable_store mem_store mem_view mem_inv
proof unfold_locales
  show "v \<noteq> NoVersion" if "mem_inv s" "mem_view s k = Some (d, v)" for s k d v
    using that by (auto simp: mem_inv_def mem_view_def)
qed (auto simp: mem_defs swap_matches_def mem_view_None mem_view_def ctx_Err_def Let_def
      split: option.splits ctx.splits prod.splits if_splits)

end
