(* ===== verification/Track.thy ===== *)
theory Track
  imports Manifest_Codec Mem_Store
begin

text \<open>
  The track handle (\<open>ledger/track.go\<close>, and the three fetches of \<open>ledger/reader.go\<close>): the checks on a
  track's path and schema, the deployment settings, and how a track is created, opened, reloaded and
  given a new epoch.

  An operation takes the store \<open>S\<close>, the context of the call, the state it changes, and returns its
  result with the new state. The world an operation that writes runs in is the store's state and the
  number of clock readings so far; a clock is the function from that number to the Unix nanoseconds
  read. A method of \<open>Track\<close> takes the handle and returns it updated; its lock makes each method one
  step.
\<close>

section \<open>The world\<close>

record 's world =
  objs :: 's
  ticks :: nat

type_synonym clock = "nat \<Rightarrow> int"

definition now :: "clock \<Rightarrow> 's world \<Rightarrow> int \<times> 's world" where
  "now clk W = (clk (ticks W), W\<lparr>ticks := Suc (ticks W)\<rparr>)"

text \<open>A store call made in the world.\<close>

definition on_store :: "('s \<Rightarrow> 'r \<times> 's) \<Rightarrow> 's world \<Rightarrow> 'r \<times> 's world" where
  "on_store f W = (case f (objs W) of (r, s) \<Rightarrow> (r, W\<lparr>objs := s\<rparr>))"

section \<open>Track paths\<close>

text \<open>
  \<open>path.Clean\<close> on the segments of a path: empty and dot segments go, a parent segment removes the
  segment before it, and is kept only at the front of a relative path. The stack holds the segments
  kept so far, the last one first.
\<close>

fun clean_segments :: "bool \<Rightarrow> string list \<Rightarrow> string list \<Rightarrow> string list" where
  "clean_segments rooted [] stk = rev stk"
| "clean_segments rooted (x # xs) stk =
     clean_segments rooted xs
       (if x = '''' \<or> x = ''.'' then stk
        else if x = ''..'' then
          (case stk of [] \<Rightarrow> if rooted then [] else [''..'']
           | y # ys \<Rightarrow> if y = ''..'' then ''..'' # stk else ys)
        else x # stk)"

definition path_Clean :: "string \<Rightarrow> string" where
  "path_Clean s =
     (let rooted = HasPrefix s ''/'';
          out = clean_segments rooted (segments s) []
      in if rooted then ''/'' @ join_slash out
         else if out = [] then ''.'' else join_slash out)"

definition validate_TrackPath :: "TrackPath \<Rightarrow> error option" where
  "validate_TrackPath s =
     (if s = '''' then Some [ErrInvalidTrackPath]
      else if HasPrefix s ''/'' then Some [ErrInvalidTrackPath]
      else if HasSuffix s ''/'' then Some [ErrInvalidTrackPath]
      else if CHR 0x5C \<in> set s then Some [ErrInvalidTrackPath]
      else if path_Clean s \<noteq> s then Some [ErrInvalidTrackPath]
      else if s = ''..'' \<or> HasPrefix s ''../'' then Some [ErrInvalidTrackPath]
      else None)"

section \<open>Schemas and settings\<close>

definition TimeSourceFrame :: TimeSource where
  "TimeSourceFrame = ''frame''"

definition TimeSourceIngest :: TimeSource where
  "TimeSourceIngest = ''ingest''"

definition valid_TimeSource :: "TimeSource \<Rightarrow> bool" where
  "valid_TimeSource s \<longleftrightarrow> s = TimeSourceFrame \<or> s = TimeSourceIngest"

definition validate_TrackSchema :: "TrackSchema \<Rightarrow> error option" where
  "validate_TrackSchema c =
     (if Timescale c = 0 then Some [ErrInvalidGroup]
      else if \<not> valid_TimeSource (TimeSource c) then Some [ErrInvalidGroup]
      else None)"

record TrackInfo =
  ti_TrackSchema :: TrackSchema
  ti_Track :: TrackPath
  ti_LatestEpoch :: u64

text \<open>The settings; a nil clock is \<open>None\<close>. The logger has no effect on what the code does.\<close>

record Config =
  SealThreshold :: int
  Clock :: "clock option"

definition DefaultSealThreshold :: int where
  "DefaultSealThreshold = 64 * 1024"

record Track =
  t_path :: TrackPath
  t_sealThreshold :: int
  t_clock :: clock
  t_root :: trackRoot
  t_rootVersion :: version

text \<open>The system clock \<open>time.Now\<close> is a parameter.\<close>

definition resolveConfig :: "clock \<Rightarrow> TrackPath \<Rightarrow> Config \<Rightarrow> Track" where
  "resolveConfig time_Now path cfg =
     \<lparr>t_path = path,
      t_sealThreshold = (if SealThreshold cfg \<le> 0 then DefaultSealThreshold else SealThreshold cfg),
      t_clock = (case Clock cfg of None \<Rightarrow> time_Now | Some clk \<Rightarrow> clk),
      t_root = zero_trackRoot,
      t_rootVersion = NoVersion\<rparr>"

section \<open>Fetching manifests\<close>

definition fetchTrackRoot ::
  "'s store \<Rightarrow> ctx \<Rightarrow> TrackPath \<Rightarrow> 's \<Rightarrow> (error + trackRoot \<times> version) \<times> 's" where
  "fetchTrackRoot S c track s =
     (case Get S c (rootKey track) s of
        (Inl err, s) \<Rightarrow>
          if errors_Is err ErrNotExist then (Inl [ErrTrackNotFound], s) else (Inl (wrap [] err), s)
      | (Inr (d, version), s) \<Rightarrow>
          (case decode_trackRoot d of
             Inl err \<Rightarrow> (Inl err, s)
           | Inr root \<Rightarrow>
               if tr_Track root \<noteq> track then (Inl [ErrManifestMismatch], s)
               else (Inr (root, version), s)))"

definition fetchEpochLog ::
  "'s store \<Rightarrow> ctx \<Rightarrow> TrackPath \<Rightarrow> u64 \<Rightarrow> 's \<Rightarrow> (error + epochLogRoot \<times> version) \<times> 's" where
  "fetchEpochLog S c track epoch s =
     (case Get S c (epochLogKey track epoch) s of
        (Inl err, s) \<Rightarrow>
          if errors_Is err ErrNotExist then (Inl [ErrEpochNotFound], s) else (Inl (wrap [] err), s)
      | (Inr (d, version), s) \<Rightarrow>
          (case decode_logRoot d of
             Inl err \<Rightarrow> (Inl err, s)
           | Inr root \<Rightarrow>
               if lr_Track root \<noteq> track then (Inl [ErrManifestMismatch], s)
               else if lr_Epoch root \<noteq> epoch then (Inl [ErrManifestMismatch], s)
               else (Inr (root, version), s)))"

definition fetchHead ::
  "'s store \<Rightarrow> ctx \<Rightarrow> TrackPath \<Rightarrow> u64 \<Rightarrow> 's \<Rightarrow> (error + head \<times> version) \<times> 's" where
  "fetchHead S c track epoch s =
     (case Get S c (headKey track epoch) s of
        (Inl err, s) \<Rightarrow> (Inl err, s)
      | (Inr (d, version), s) \<Rightarrow>
          (case decode_head d of
             Inl err \<Rightarrow> (Inl err, s)
           | Inr h \<Rightarrow> (Inr (h, version), s)))"

section \<open>Epochs\<close>

text \<open>The local function \<open>bump\<close>: swap in the root with the epoch as its latest.\<close>

definition bump_root ::
  "'s store \<Rightarrow> ctx \<Rightarrow> TrackPath \<Rightarrow> u64 \<Rightarrow> trackRoot \<Rightarrow> version \<Rightarrow> 's world \<Rightarrow>
     (error + trackRoot \<times> version) \<times> 's world" where
  "bump_root S c path epoch base version W =
     (let root = base\<lparr>LatestEpoch := epoch\<rparr>
      in case on_store (Swap S c (rootKey path) (encode_trackRoot root) version) W of
           (Inl err, W) \<Rightarrow> (Inl err, W)
         | (Inr v, W) \<Rightarrow> (Inr (root, v), W))"

text \<open>Bumping the root and taking the new one into the handle, with what follows a failure.\<close>

definition take_bump ::
  "'s store \<Rightarrow> ctx \<Rightarrow> u64 \<Rightarrow> (error \<Rightarrow> 's world \<Rightarrow> error option \<times> Track \<times> 's world) \<Rightarrow>
     Track \<Rightarrow> 's world \<Rightarrow> error option \<times> Track \<times> 's world" where
  "take_bump S c epoch failed t W =
     (case bump_root S c (t_path t) epoch (t_root t) (t_rootVersion t) W of
        (Inr (root, version), W) \<Rightarrow> (None, t\<lparr>t_root := root, t_rootVersion := version\<rparr>, W)
      | (Inl err, W) \<Rightarrow> failed err W)"

text \<open>After a version mismatch: adopt the stored root, and bump it once more if it is still behind.\<close>

definition refetch_and_bump ::
  "'s store \<Rightarrow> ctx \<Rightarrow> u64 \<Rightarrow> Track \<Rightarrow> 's world \<Rightarrow> error option \<times> Track \<times> 's world" where
  "refetch_and_bump S c epoch t W =
     (case on_store (fetchTrackRoot S c (t_path t)) W of
        (Inl getErr, W) \<Rightarrow> (Some getErr, t, W)
      | (Inr (current, curVersion), W) \<Rightarrow>
          let t = t\<lparr>t_root := current, t_rootVersion := curVersion\<rparr>
          in if LatestEpoch current \<ge> epoch then (None, t, W)
             else take_bump S c epoch (\<lambda>err W. (Some (wrap [] err), t, W)) t W)"

definition advanceTrackRootLocked ::
  "'s store \<Rightarrow> ctx \<Rightarrow> u64 \<Rightarrow> Track \<Rightarrow> 's world \<Rightarrow> error option \<times> Track \<times> 's world" where
  "advanceTrackRootLocked S c epoch t W =
     (if LatestEpoch (t_root t) \<ge> epoch then (None, t, W)
      else take_bump S c epoch
        (\<lambda>err W. if errors_Is err ErrVersionMismatch \<or> errors_Is err ErrNotExist
           then refetch_and_bump S c epoch t W
           else (Some (wrap [] err), t, W)) t W)"

definition new_log :: "TrackPath \<Rightarrow> u64 \<Rightarrow> int \<Rightarrow> epochLogRoot" where
  "new_log path epoch at = \<lparr>lr_Version = manifestVersion, lr_Track = path, lr_Epoch = epoch, Sealed = [],
     OpenFrom = 0, lr_CreatedAt = at\<rparr>"

definition createEpochLog ::
  "'s store \<Rightarrow> ctx \<Rightarrow> u64 \<Rightarrow> Track \<Rightarrow> 's world \<Rightarrow> error option \<times> Track \<times> 's world" where
  "createEpochLog S c epoch t W =
     (let (at, W) = now (t_clock t) W;
          root = new_log (t_path t) epoch at
      in case on_store (Create S c (epochLogKey (t_path t) epoch) (encode_logRoot root)) W of
           (Inl err, W) \<Rightarrow>
             if \<not> errors_Is err ErrExist then (Some (wrap [] err), t, W)
             else advanceTrackRootLocked S c epoch t W
         | (Inr _, W) \<Rightarrow> advanceTrackRootLocked S c epoch t W)"

section \<open>Creating and opening tracks\<close>

definition new_root :: "TrackPath \<Rightarrow> TrackSchema \<Rightarrow> int \<Rightarrow> trackRoot" where
  "new_root path sch at = \<lparr>tr_Version = manifestVersion, tr_Track = path, tr_Timescale = Timescale sch,
     tr_TimeSource = TimeSource sch, tr_MIME = ts_MIME sch, tr_Encoding = ts_Encoding sch, LatestEpoch = 1,
     tr_CreatedAt = at\<rparr>"

definition Create_Track ::
  "'s store \<Rightarrow> clock \<Rightarrow> ctx \<Rightarrow> TrackPath \<Rightarrow> TrackSchema \<Rightarrow> Config \<Rightarrow> 's world \<Rightarrow> (error + Track) \<times> 's world" where
  "Create_Track S time_Now c path sch cfg W =
     (case validate_TrackPath path of Some err \<Rightarrow> (Inl err, W) | None \<Rightarrow>
      case validate_TrackSchema sch of Some err \<Rightarrow> (Inl err, W) | None \<Rightarrow>
        let t = resolveConfig time_Now path cfg;
            (at, W) = now (t_clock t) W;
            root = new_root path sch at
        in case on_store (Create S c (rootKey path) (encode_trackRoot root)) W of
             (Inl err, W) \<Rightarrow>
               if errors_Is err ErrExist then (Inl [ErrTrackExists], W) else (Inl (wrap [] err), W)
           | (Inr version, W) \<Rightarrow>
               (case createEpochLog S c 1 (t\<lparr>t_root := root, t_rootVersion := version\<rparr>) W of
                  (Some err, _, W) \<Rightarrow> (Inl (wrap [] err), W)
                | (None, t, W) \<Rightarrow> (Inr t, W)))"

definition Open_Track ::
  "'s store \<Rightarrow> clock \<Rightarrow> ctx \<Rightarrow> TrackPath \<Rightarrow> Config \<Rightarrow> 's \<Rightarrow> (error + Track) \<times> 's" where
  "Open_Track S time_Now c path cfg s =
     (case validate_TrackPath path of Some err \<Rightarrow> (Inl err, s) | None \<Rightarrow>
      case fetchTrackRoot S c path s of
        (Inl err, s) \<Rightarrow> (Inl err, s)
      | (Inr (root, version), s) \<Rightarrow>
          (Inr ((resolveConfig time_Now path cfg)\<lparr>t_root := root, t_rootVersion := version\<rparr>), s))"

definition LatestEpoch_Track :: "Track \<Rightarrow> u64" where
  "LatestEpoch_Track t = LatestEpoch (t_root t)"

definition Root_Track :: "Track \<Rightarrow> TrackInfo" where
  "Root_Track t = \<lparr>ti_TrackSchema = schema (t_root t), ti_Track = t_path t,
     ti_LatestEpoch = LatestEpoch (t_root t)\<rparr>"

definition Reload :: "'s store \<Rightarrow> ctx \<Rightarrow> Track \<Rightarrow> 's \<Rightarrow> error option \<times> Track \<times> 's" where
  "Reload S c t s =
     (case fetchTrackRoot S c (t_path t) s of
        (Inl err, s) \<Rightarrow> (Some err, t, s)
      | (Inr (root, version), s) \<Rightarrow> (None, t\<lparr>t_root := root, t_rootVersion := version\<rparr>, s))"

section \<open>Which paths are accepted\<close>

definition plain_segment :: "string \<Rightarrow> bool" where
  "plain_segment x \<longleftrightarrow> x \<noteq> '''' \<and> x \<noteq> ''.'' \<and> x \<noteq> ''..''"

lemma segments_join:
  "xs \<noteq> [] \<Longrightarrow> \<forall>x\<in>set xs. CHR ''/'' \<notin> set x \<Longrightarrow> segments (join_slash xs) = xs"
proof (induction xs rule: join_slash.induct)
  case (3 x y ys)
  then have "segments (x @ CHR ''/'' # join_slash (y # ys)) = [x] @ (y # ys)"
    by (subst segments_slash) (simp add: segments_plain)
  then show ?case by simp
qed (auto simp: segments_plain)

lemma clean_plain: "list_all plain_segment xs \<Longrightarrow> clean_segments rooted xs stk = rev stk @ xs"
  by (induction xs arbitrary: stk) (auto simp: plain_segment_def)

text \<open>What the stack holds of a relative path: plain segments above some parent segments.\<close>

lemma clean_shape:
  assumes "list_all plain_segment ns"
  shows "\<exists>k ms. clean_segments False xs (ns @ replicate j ''..'') = replicate k ''..'' @ ms \<and>
    list_all plain_segment ms \<and> set ms \<subseteq> set xs \<union> set ns"
  using assms
proof (induction xs arbitrary: ns j)
  case Nil
  then show ?case
    by (intro exI [of _ j] exI [of _ "rev ns"]) (auto simp: list_all_iff)
next
  case (Cons x xs)
  let ?stk = "ns @ replicate j ''..''"
  consider "x = '''' \<or> x = ''.''" | "x = ''..''" "ns = []" | y ys where "x = ''..''" "ns = y # ys"
    | "plain_segment x" by (cases ns) (auto simp: plain_segment_def)
  then show ?case
  proof cases
    case 1
    then show ?thesis using Cons.IH [OF Cons.prems, of j] by auto
  next
    case 2
    then have "clean_segments False (x # xs) ?stk = clean_segments False xs ([] @ replicate (Suc j) ''..'')"
      by (cases j) auto
    then show ?thesis using Cons.IH [of "[]" "Suc j"] 2 by auto
  next
    case 3
    then have "clean_segments False (x # xs) ?stk = clean_segments False xs (ys @ replicate j ''..'')"
      using Cons.prems by (simp add: plain_segment_def)
    then show ?thesis using Cons.IH [of ys j] Cons.prems 3 by fastforce
  next
    case 4
    then have "clean_segments False (x # xs) ?stk = clean_segments False xs ((x # ns) @ replicate j ''..'')"
      by (simp add: plain_segment_def)
    then show ?thesis using Cons.IH [of "x # ns" j] Cons.prems 4 by fastforce
  qed
qed

lemma HasPrefix_slash_segments: "HasPrefix s ''/'' \<Longrightarrow> hd (segments s) = '''' \<and> s \<noteq> ''''"
  by (cases s) auto

lemma HasSuffix_slash_segments: "HasSuffix s ''/'' \<Longrightarrow> '''' \<in> set (segments s)"
  by (auto simp: HasSuffix_iff segments_slash)

lemma parent_prefix: "hd (segments s) = ''..'' \<Longrightarrow> s = ''..'' \<or> HasPrefix s ''../''"
proof -
  assume h: "hd (segments s) = ''..''"
  have "s = join_slash (segments s)" by simp
  with h show ?thesis by (cases "segments s" rule: join_slash.cases) (auto simp: HasPrefix_iff)
qed

lemma clean_relative:
  assumes "\<not> HasPrefix s ''/''" and "path_Clean s = s" and "\<not> (s = ''..'' \<or> HasPrefix s ''../'')"
    and "s \<noteq> ''.''"
  shows "list_all plain_segment (segments s)"
proof -
  obtain k ms where out: "clean_segments False (segments s) [] = replicate k ''..'' @ ms"
    and ms: "list_all plain_segment ms" "set ms \<subseteq> set (segments s)"
    using clean_shape [of "[]" "segments s" 0] by auto
  let ?out = "replicate k ''..'' @ ms"
  have ne: "?out \<noteq> []" and s: "join_slash ?out = s"
    using assms out by (auto simp: path_Clean_def Let_def split: if_splits)
  have "\<forall>x\<in>set ?out. CHR ''/'' \<notin> set x" using ms segments_no_slash by auto
  with ne s have seg: "segments s = ?out" using segments_join by metis
  have "k = 0"
    using seg parent_prefix [of s] assms(3) by (cases k) auto
  with seg ms show ?thesis by simp
qed

lemma parent_segment: "s = ''..'' \<or> HasPrefix s ''../'' \<Longrightarrow> ''..'' \<in> set (segments s)"
  by (auto simp: HasPrefix_iff)

lemma plain_path:
  assumes "list_all plain_segment (segments s)"
  shows "path_Clean s = s" and "\<not> HasPrefix s ''/''" and "\<not> HasSuffix s ''/''" and "s \<noteq> ''''"
    and "\<not> (s = ''..'' \<or> HasPrefix s ''../'')"
proof -
  have pl: "'''' \<notin> set (segments s)" "''..'' \<notin> set (segments s)"
    using assms by (auto simp: list_all_iff plain_segment_def)
  have "hd (segments s) \<in> set (segments s)" by simp
  with pl show pre: "\<not> HasPrefix s ''/''" and "\<not> HasSuffix s ''/''" and "s \<noteq> ''''"
    and "\<not> (s = ''..'' \<or> HasPrefix s ''../'')"
    using HasPrefix_slash_segments [of s] HasSuffix_slash_segments [of s] parent_segment [of s] by fastforce+
  show "path_Clean s = s"
    using assms pre by (simp add: path_Clean_def clean_plain)
qed

text \<open>
  \<open>TrackPath.validate\<close> accepts exactly the paths without a backslash whose segments are all
  plain: none empty, none a dot, none a parent. The one exception is the path of a single dot, which
  it accepts as well.
\<close>

theorem track_path_accepted_iff:
  "validate_TrackPath s = None \<longleftrightarrow>
    CHR 0x5C \<notin> set s \<and> (s = ''.'' \<or> list_all plain_segment (segments s))"
proof
  assume v: "validate_TrackPath s = None"
  then have "\<not> HasPrefix s ''/''" "CHR 0x5C \<notin> set s" "path_Clean s = s"
    "\<not> (s = ''..'' \<or> HasPrefix s ''../'')"
    by (auto simp: validate_TrackPath_def split: if_splits)
  then show "CHR 0x5C \<notin> set s \<and> (s = ''.'' \<or> list_all plain_segment (segments s))"
    using clean_relative by blast
next
  assume r: "CHR 0x5C \<notin> set s \<and> (s = ''.'' \<or> list_all plain_segment (segments s))"
  show "validate_TrackPath s = None"
  proof (cases "s = ''.''")
    case True
    then show ?thesis by (simp add: validate_TrackPath_def path_Clean_def HasSuffix_def)
  next
    case False
    with r have pl: "list_all plain_segment (segments s)" by blast
    note p = plain_path [OF pl]
    from r p show ?thesis by (simp add: validate_TrackPath_def)
  qed
qed

section \<open>Manifests in a store\<close>

text \<open>The store holds this root, or this epoch log, under its key, at this version.\<close>

definition root_at :: "view \<Rightarrow> TrackPath \<Rightarrow> trackRoot \<Rightarrow> version \<Rightarrow> bool" where
  "root_at v p R ver \<longleftrightarrow> (\<exists>d. v (rootKey p) = Some (d, ver) \<and> decode_trackRoot d = Inr R) \<and>
     tr_Track R = p \<and> trackRoot_ok R \<and> tr_Version R \<le> manifestVersion"

definition log_at :: "view \<Rightarrow> TrackPath \<Rightarrow> u64 \<Rightarrow> epochLogRoot \<Rightarrow> version \<Rightarrow> bool" where
  "log_at v p e L ver \<longleftrightarrow> (\<exists>d. v (epochLogKey p e) = Some (d, ver) \<and> decode_logRoot d = Inr L) \<and>
     lr_Track L = p \<and> lr_Epoch L = e \<and> logRoot_ok L \<and> lr_Version L \<le> manifestVersion"

lemma root_at_encoded:
  "trackRoot_ok R \<Longrightarrow> tr_Version R \<le> manifestVersion \<Longrightarrow> v (rootKey (tr_Track R)) = Some (encode_trackRoot R, ver) \<Longrightarrow>
    root_at v (tr_Track R) R ver"
  by (simp add: root_at_def decode_encode_trackRoot)

lemma log_at_encoded:
  "logRoot_ok L \<Longrightarrow> lr_Version L \<le> manifestVersion \<Longrightarrow>
    v (epochLogKey (lr_Track L) (lr_Epoch L)) = Some (encode_logRoot L, ver) \<Longrightarrow>
    log_at v (lr_Track L) (lr_Epoch L) L ver"
  by (simp add: log_at_def decode_encode_logRoot)

lemma root_at_cong: "v (rootKey p) = v' (rootKey p) \<Longrightarrow> root_at v p R ver \<longleftrightarrow> root_at v' p R ver"
  by (simp add: root_at_def)

lemma log_at_cong: "v (epochLogKey p e) = v' (epochLogKey p e) \<Longrightarrow> log_at v p e L ver \<longleftrightarrow> log_at v' p e L ver"
  by (simp add: log_at_def)

lemma root_at_unique: "root_at v p R ver \<Longrightarrow> root_at v p R' ver' \<Longrightarrow> R = R' \<and> ver = ver'"
  unfolding root_at_def by (metis Pair_inject option.inject sum.inject(2))

lemma log_at_unique: "log_at v p e L ver \<Longrightarrow> log_at v p e L' ver' \<Longrightarrow> L = L' \<and> ver = ver'"
  unfolding log_at_def by (metis Pair_inject option.inject sum.inject(2))

lemma decode_error: "decodeManifest um ver d = Inl e \<Longrightarrow> set e \<subseteq> {ErrUnsupportedVersion}"
  by (auto simp: decodeManifest_def split: option.splits if_splits)

lemma store_error_foreign [simp]:
  "store_error e \<Longrightarrow> \<not> errors_Is e ErrEpochNotFound" "store_error e \<Longrightarrow> \<not> errors_Is e ErrTrackNotFound"
  "store_error e \<Longrightarrow> \<not> errors_Is e ErrNotCommitted" "store_error e \<Longrightarrow> \<not> errors_Is e ErrGroupExists"
  "store_error e \<Longrightarrow> \<not> errors_Is e ErrGroupRedacted" "store_error e \<Longrightarrow> \<not> errors_Is e EOF"
  "store_error e \<Longrightarrow> \<not> errors_Is e ErrGroupNotFound"
  by (auto simp: store_error_def errors_Is_def)

lemma decode_error_foreign:
  "decodeManifest um ver d = Inl e \<Longrightarrow> x \<noteq> ErrUnsupportedVersion \<Longrightarrow> \<not> errors_Is e x"
  using decode_error [of um ver d e] by (auto simp: errors_Is_def)

lemma wrap_Nil [simp]: "wrap [] e = e"
  by (simp add: wrap_def)

lemmas fetch_defs = fetchTrackRoot_def fetchEpochLog_def fetchHead_def

context store_contract
begin

lemma fetchTrackRoot_view [dest]:
  "fetchTrackRoot S c p s = (r, s') \<Longrightarrow> inv s \<Longrightarrow> inv s' \<and> view s' = view s"
  unfolding fetchTrackRoot_def
  by (auto split: prod.splits sum.splits if_splits dest: get_view)

lemma fetchEpochLog_view:
  "fetchEpochLog S c p e s = (r, s') \<Longrightarrow> inv s \<Longrightarrow> inv s' \<and> view s' = view s"
  unfolding fetchEpochLog_def
  by (auto split: prod.splits sum.splits if_splits dest: get_view)

lemma fetchHead_view:
  "fetchHead S c p e s = (r, s') \<Longrightarrow> inv s \<Longrightarrow> inv s' \<and> view s' = view s"
  unfolding fetchHead_def
  by (auto split: prod.splits sum.splits if_splits dest: get_view)

lemma fetchTrackRoot_Inr:
  assumes "fetchTrackRoot S c p s = (Inr (R, ver), s')" and "inv s"
  shows "tr_Track R = p" and "\<exists>d. view s (rootKey p) = Some (d, ver) \<and> decode_trackRoot d = Inr R"
  using assms unfolding fetchTrackRoot_def
  by (auto split: prod.splits sum.splits if_splits dest: get_Inr)

lemma fetchTrackRoot_at:
  "fetchTrackRoot S c p s = (Inr (R, ver), s') \<Longrightarrow> inv s \<Longrightarrow> root_at (view s) p R' ver' \<Longrightarrow> R = R' \<and> ver = ver'"
  by (frule (1) fetchTrackRoot_Inr) (auto simp: root_at_def dest: fetchTrackRoot_Inr)

lemma fetchEpochLog_Inr:
  assumes "fetchEpochLog S c p e s = (Inr (L, ver), s')" and "inv s"
  shows "lr_Track L = p" and "lr_Epoch L = e"
    and "\<exists>d. view s (epochLogKey p e) = Some (d, ver) \<and> decode_logRoot d = Inr L"
  using assms unfolding fetchEpochLog_def
  by (auto split: prod.splits sum.splits if_splits dest: get_Inr)

lemma fetchEpochLog_at:
  "fetchEpochLog S c p e s = (Inr (L, ver), s') \<Longrightarrow> inv s \<Longrightarrow> log_at (view s) p e L' ver' \<Longrightarrow> L = L' \<and> ver = ver'"
  by (frule (1) fetchEpochLog_Inr) (auto simp: log_at_def dest: fetchEpochLog_Inr)

lemma fetchEpochLog_not_found:
  assumes "fetchEpochLog S c p e s = (Inl err, s')" and "inv s" and "errors_Is err ErrEpochNotFound"
  shows "view s (epochLogKey p e) = None"
  using assms unfolding fetchEpochLog_def
  by (auto split: prod.splits sum.splits if_splits dest: get_Inl decode_error_foreign)

lemma fetchHead_Inr:
  "fetchHead S c p e s = (Inr (h, ver), s') \<Longrightarrow> inv s \<Longrightarrow>
    \<exists>d. view s (headKey p e) = Some (d, ver) \<and> decode_head d = Inr h"
  unfolding fetchHead_def
  by (auto split: prod.splits sum.splits if_splits dest: get_Inr)

lemma fetchHead_not_exist:
  assumes "fetchHead S c p e s = (Inl err, s')" and "inv s" and "errors_Is err ErrNotExist"
  shows "view s (headKey p e) = None"
  using assms unfolding fetchHead_def
  by (auto split: prod.splits sum.splits if_splits dest: get_Inl decode_error_foreign)

end

context reliable_store
begin

lemma fetchTrackRoot_Live:
  assumes "inv s" and "root_at (view s) p R ver"
  shows "\<exists>s'. fetchTrackRoot S Live p s = (Inr (R, ver), s') \<and> inv s' \<and> view s' = view s"
proof -
  from assms obtain d where d: "view s (rootKey p) = Some (d, ver)" "decode_trackRoot d = Inr R"
    by (auto simp: root_at_def)
  with assms obtain s' where "Get S Live (rootKey p) s = (Inr (d, ver), s')"
    using get_present by blast
  with d assms get_view show ?thesis by (fastforce simp: fetchTrackRoot_def root_at_def)
qed

lemma fetchEpochLog_Live:
  assumes "inv s" and "log_at (view s) p e L ver"
  shows "\<exists>s'. fetchEpochLog S Live p e s = (Inr (L, ver), s') \<and> inv s' \<and> view s' = view s"
proof -
  from assms obtain d where d: "view s (epochLogKey p e) = Some (d, ver)" "decode_logRoot d = Inr L"
    by (auto simp: log_at_def)
  with assms obtain s' where "Get S Live (epochLogKey p e) s = (Inr (d, ver), s')"
    using get_present by blast
  with d assms get_view show ?thesis by (fastforce simp: fetchEpochLog_def log_at_def)
qed

end

section \<open>The track root only moves forward\<close>

text \<open>
  The cached root of a handle: not ahead of the stored one, and equal to it when the versions agree.
\<close>

definition root_sync :: "view \<Rightarrow> Track \<Rightarrow> bool" where
  "root_sync v t \<longleftrightarrow> (\<forall>R ver. root_at v (t_path t) R ver \<longrightarrow>
     LatestEpoch (t_root t) \<le> LatestEpoch R \<and> (ver = t_rootVersion t \<longrightarrow> R = t_root t))"

lemma root_sync_at:
  "root_at v (t_path t) (t_root t) (t_rootVersion t) \<Longrightarrow> root_sync v t"
  using root_at_unique unfolding root_sync_def by blast

lemma root_at_bumped:
  assumes "root_at v p R ver"
  shows "root_at (v(rootKey p \<mapsto> (encode_trackRoot (R\<lparr>LatestEpoch := e\<rparr>), ver'))) p (R\<lparr>LatestEpoch := e\<rparr>) ver'"
proof -
  have ok: "trackRoot_ok (R\<lparr>LatestEpoch := e\<rparr>)" and t: "tr_Track R = p" "tr_Version R \<le> manifestVersion"
    using assms by (auto simp: root_at_def trackRoot_ok_def)
  then show ?thesis
    using root_at_encoded [OF ok, of "v(rootKey p \<mapsto> (encode_trackRoot (R\<lparr>LatestEpoch := e\<rparr>), ver'))" ver']
    by simp
qed

text \<open>How a root may change while an epoch is opened: not at all, or to this epoch as its latest.\<close>

definition root_step ::
  "TrackPath \<Rightarrow> u64 \<Rightarrow> trackRoot \<Rightarrow> view \<Rightarrow> view \<Rightarrow> trackRoot \<Rightarrow> version \<Rightarrow> bool" where
  "root_step p e R v v' R' ver' \<longleftrightarrow> root_at v' p R' ver' \<and>
     (R' = R \<or> LatestEpoch R < e \<and> R' = R\<lparr>LatestEpoch := e\<rparr>) \<and> (\<forall>k. k \<noteq> rootKey p \<longrightarrow> v' k = v k)"

lemma root_step_refl: "root_at v p R ver \<Longrightarrow> root_step p e R v v R ver"
  by (simp add: root_step_def)

lemma root_step_bump:
  "root_at v p R ver \<Longrightarrow> LatestEpoch R < e \<Longrightarrow>
    root_step p e R v (v(rootKey p \<mapsto> (encode_trackRoot (R\<lparr>LatestEpoch := e\<rparr>), ver'))) (R\<lparr>LatestEpoch := e\<rparr>) ver'"
  using root_at_bumped by (simp add: root_step_def)

lemma root_step_trans:
  "root_step p e R v v1 R1 ver1 \<Longrightarrow> root_step p e R1 v1 v2 R2 ver2 \<Longrightarrow> root_step p e R v v2 R2 ver2"
  by (auto simp: root_step_def)

context store_contract
begin

lemma issued_root: "inv s \<Longrightarrow> root_at (view s) p R ver \<Longrightarrow> issued view inv ver"
  by (auto simp: root_at_def intro: issuedI)

lemma bump_root_step:
  assumes b: "bump_root S c p e R ver W = (r, W')" and i: "inv (objs W)"
    and at: "root_at (view (objs W)) p R0 ver0" and R: "ver0 = ver \<Longrightarrow> R = R0"
    and iss: "issued view inv ver" and lt: "LatestEpoch R < e"
  shows "inv (objs W') \<and> (\<exists>R' ver'. root_step p e R0 (view (objs W)) (view (objs W')) R' ver' \<and>
    (\<forall>x v. r = Inr (x, v) \<longrightarrow> R' = x \<and> ver' = v \<and> LatestEpoch x = e))"
proof -
  obtain rs s' where sw: "Swap S c (rootKey p) (encode_trackRoot (R\<lparr>LatestEpoch := e\<rparr>)) ver (objs W) = (rs, s')"
    by fastforce
  have W': "W' = W\<lparr>objs := s'\<rparr>" and r: "r = (case rs of Inl x \<Rightarrow> Inl x | Inr v \<Rightarrow> Inr (R\<lparr>LatestEpoch := e\<rparr>, v))"
    using b sw by (auto simp: bump_root_def on_store_def Let_def split: sum.splits)
  have m: "R = R0" if "swap_matches (view (objs W) (rootKey p)) ver"
    using that at R by (auto simp: root_at_def swap_matches_def)
  show ?thesis
  proof (cases rs)
    case (Inr v)
    with swap_Inr [OF i, of c "rootKey p"] sw m iss
    have "R = R0" "view s' = (view (objs W))(rootKey p \<mapsto> (encode_trackRoot (R\<lparr>LatestEpoch := e\<rparr>), v))"
      by auto
    with root_step_bump [OF at] lt swap_inv [OF i sw] r Inr W' show ?thesis by force
  next
    case (Inl x)
    with swap_Inl [OF i, of c "rootKey p"] sw m iss
    consider "view s' = view (objs W)" | v where "R = R0"
      "view s' = (view (objs W))(rootKey p \<mapsto> (encode_trackRoot (R\<lparr>LatestEpoch := e\<rparr>), v))"
      by blast
    then show ?thesis
    proof cases
      case 1
      with root_step_refl [OF at] swap_inv [OF i sw] r Inl W' show ?thesis by force
    next
      case 2
      with root_step_bump [OF at] lt swap_inv [OF i sw] r Inl W' show ?thesis by force
    qed
  qed
qed

lemma on_store_fetchTrackRoot:
  assumes "on_store (fetchTrackRoot S c p) W = (r, W')" and "inv (objs W)"
  shows "inv (objs W')" and "view (objs W') = view (objs W)"
    and "r = Inr (R, ver) \<Longrightarrow> root_at (view (objs W)) p R0 ver0 \<Longrightarrow> R = R0 \<and> ver = ver0"
proof -
  obtain x s' where f: "fetchTrackRoot S c p (objs W) = (x, s')" by fastforce
  then have "W' = W\<lparr>objs := s'\<rparr>" "r = x" using assms by (auto simp: on_store_def)
  with f assms fetchTrackRoot_view [OF f]
  show "inv (objs W')" and "view (objs W') = view (objs W)"
    and "r = Inr (R, ver) \<Longrightarrow> root_at (view (objs W)) p R0 ver0 \<Longrightarrow> R = R0 \<and> ver = ver0"
    using fetchTrackRoot_at by auto
qed

text \<open>What opening an epoch has done to the track, whatever it answered.\<close>

definition advanced ::
  "u64 \<Rightarrow> Track \<Rightarrow> trackRoot \<Rightarrow> view \<Rightarrow> error option \<times> Track \<times> 's world \<Rightarrow> bool" where
  "advanced e t R v x = (case x of (r, t', W') \<Rightarrow> inv (objs W') \<and> t_path t' = t_path t \<and>
    (\<exists>R' ver'. root_step (t_path t) e R v (view (objs W')) R' ver' \<and>
      (r = None \<longrightarrow> e \<le> LatestEpoch R' \<and> root_sync (view (objs W')) t')))"

lemma failed_advanced:
  "inv (objs W) \<Longrightarrow> root_step (t_path t) e R v (view (objs W)) R1 ver1 \<Longrightarrow> advanced e t R v (Some err, t, W)"
  by (auto simp: advanced_def)

lemma take_bump_advanced:
  assumes i: "inv (objs W)" and v: "root_step (t_path t) e R v (view (objs W)) R0 ver"
    and sy: "ver = t_rootVersion t \<Longrightarrow> t_root t = R0"
    and iss: "issued view inv (t_rootVersion t)" and lt: "LatestEpoch (t_root t) < e"
    and failed: "\<And>err W1 R1 ver1. inv (objs W1) \<Longrightarrow> root_step (t_path t) e R v (view (objs W1)) R1 ver1 \<Longrightarrow>
      advanced e t R v (failed err W1)"
  shows "advanced e t R v (take_bump S c e failed t W)"
proof -
  let ?p = "t_path t"
  obtain rb W1 where b: "bump_root S c ?p e (t_root t) (t_rootVersion t) W = (rb, W1)" by fastforce
  have "root_at (view (objs W)) ?p R0 ver" using v by (simp add: root_step_def)
  from bump_root_step [OF b i this sy iss lt] obtain R1 ver1 where i1: "inv (objs W1)"
    and s1: "root_step ?p e R0 (view (objs W)) (view (objs W1)) R1 ver1"
    and ok1: "\<And>x u. rb = Inr (x, u) \<Longrightarrow> R1 = x \<and> ver1 = u \<and> LatestEpoch x = e"
    by auto
  have s2: "root_step ?p e R v (view (objs W1)) R1 ver1" using root_step_trans v s1 by blast
  show ?thesis
  proof (cases rb)
    case (Inl err)
    with failed [OF i1 s2] b show ?thesis by (simp add: take_bump_def)
  next
    case (Inr x)
    obtain R' u where x: "x = (R', u)" by (cases x)
    let ?t = "t\<lparr>t_root := R', t_rootVersion := u\<rparr>"
    have "root_at (view (objs W1)) (t_path ?t) (t_root ?t) (t_rootVersion ?t)"
      using ok1 Inr x s2 by (simp add: root_step_def)
    with root_sync_at [OF this] ok1 Inr x s2 i1 b show ?thesis
      by (auto simp: take_bump_def advanced_def)
  qed
qed

lemma refetch_advanced:
  assumes i: "inv (objs W)" and v: "root_step (t_path t) e R v (view (objs W)) R0 ver"
  shows "advanced e t R v (refetch_and_bump S c e t W)"
proof -
  have at: "root_at (view (objs W)) (t_path t) R0 ver" using v by (simp add: root_step_def)
  obtain rf W1 where f: "on_store (fetchTrackRoot S c (t_path t)) W = (rf, W1)" by fastforce
  note fv = on_store_fetchTrackRoot [OF f i]
  show ?thesis
  proof (cases rf)
    case (Inl g)
    with f fv v show ?thesis by (auto simp: refetch_and_bump_def advanced_def)
  next
    case (Inr x)
    with fv(3) at have x: "x = (R0, ver)" by (cases x) auto
    let ?t = "t\<lparr>t_root := R0, t_rootVersion := ver\<rparr>"
    have same: "advanced e t R v y \<longleftrightarrow> advanced e ?t R v y" for y by (simp add: advanced_def)
    have v1: "root_step (t_path ?t) e R v (view (objs W1)) R0 ver" using v fv(2) by simp
    show ?thesis
    proof (cases "e \<le> LatestEpoch R0")
      case True
      with f Inr x v1 fv root_sync_at [of "view (objs W1)" ?t] show ?thesis
        by (auto simp: refetch_and_bump_def advanced_def root_step_def)
    next
      case False
      have "advanced e ?t R v (take_bump S c e (\<lambda>err W. (Some err, ?t, W)) ?t W1)"
        by (rule take_bump_advanced [OF fv(1) v1])
          (use False issued_root [OF i at] in \<open>auto simp: advanced_def\<close>)
      with f Inr x False same show ?thesis by (simp add: refetch_and_bump_def Let_def)
    qed
  qed
qed

lemma advance_advanced:
  assumes i: "inv (objs W)" and at: "root_at (view (objs W)) (t_path t) R ver"
    and sy: "root_sync (view (objs W)) t" and iss: "issued view inv (t_rootVersion t)"
  shows "advanced e t R (view (objs W)) (advanceTrackRootLocked S c e t W)"
proof (cases "e \<le> LatestEpoch (t_root t)")
  case True
  moreover from True sy at have "e \<le> LatestEpoch R" unfolding root_sync_def by (meson order_trans)
  ultimately show ?thesis
    using root_step_refl [OF at] i sy by (auto simp: advanceTrackRootLocked_def advanced_def)
next
  case False
  have "ver = t_rootVersion t \<Longrightarrow> t_root t = R" using sy at by (auto simp: root_sync_def)
  from take_bump_advanced [OF i root_step_refl [OF at] this iss] False
  show ?thesis
    unfolding advanceTrackRootLocked_def if_not_P [OF False]
    by (rule meta_mp) (auto intro: refetch_advanced failed_advanced)
qed

lemma createEpochLog_advanced:
  assumes i: "inv (objs W)" and at: "root_at (view (objs W)) (t_path t) R ver"
    and sy: "root_sync (view (objs W)) t" and iss: "issued view inv (t_rootVersion t)"
    and clk: "\<And>n. is_i64 (t_clock t n)" and p: "valid_utf8 (t_path t)"
    and r: "createEpochLog S c e t W = (r, t', W')"
  obtains v1 where "v1 = view (objs W) \<or> view (objs W) (epochLogKey (t_path t) e) = None \<and>
      (\<exists>n u. v1 = (view (objs W))(epochLogKey (t_path t) e \<mapsto> (encode_logRoot (new_log (t_path t) e (t_clock t n)), u)))"
    and "v1 (epochLogKey (t_path t) e) = None \<Longrightarrow> r \<noteq> None"
    and "advanced e t R v1 (r, t', W')"
proof -
  let ?L = "new_log (t_path t) e (t_clock t (ticks W))" and ?k = "epochLogKey (t_path t) e"
  let ?W = "W\<lparr>ticks := Suc (ticks W)\<rparr>"
  obtain rc s1 where cr: "Create S c ?k (encode_logRoot ?L) (objs W) = (rc, s1)" by fastforce
  let ?W1 = "?W\<lparr>objs := s1\<rparr>"
  have i1: "inv (objs ?W1)" using create_inv [OF i cr] by simp
  have v1: "view s1 = view (objs W) \<or> view (objs W) ?k = None \<and>
      (\<exists>u. view s1 = (view (objs W))(?k \<mapsto> (encode_logRoot ?L, u)))"
    using create_Inr [OF i] create_Inl [OF i] cr by (cases rc) blast+
  then have root: "root_at (view s1) (t_path t) R0 v0 \<longleftrightarrow> root_at (view (objs W)) (t_path t) R0 v0" for R0 v0
    by (intro root_at_cong) auto
  then have adv: "advanced e t R (view s1) (advanceTrackRootLocked S c e t ?W1)"
    using advance_advanced [OF i1, of t R ver e c] at sy iss by (simp add: root_sync_def)
  have def: "createEpochLog S c e t W =
    (case rc of Inl err \<Rightarrow> if \<not> errors_Is err ErrExist then (Some err, t, ?W1)
       else advanceTrackRootLocked S c e t ?W1 | Inr _ \<Rightarrow> advanceTrackRootLocked S c e t ?W1)"
    using cr by (simp add: createEpochLog_def now_def on_store_def Let_def split: sum.splits)
  have ex: "view s1 ?k \<noteq> None" if "\<And>err. rc = Inl err \<Longrightarrow> errors_Is err ErrExist"
    using that create_Inr [OF i] create_Inl [OF i] cr by (cases rc) fastforce+
  show thesis
  proof (rule that [of "view s1"])
    show "view s1 = view (objs W) \<or> view (objs W) ?k = None \<and>
        (\<exists>n u. view s1 = (view (objs W))(?k \<mapsto> (encode_logRoot (new_log (t_path t) e (t_clock t n)), u)))"
      using v1 by blast
    show "r \<noteq> None" if "view s1 ?k = None"
      using that ex def r by (cases rc) (auto split: if_splits)
    show "advanced e t R (view s1) (r, t', W')"
    proof (cases "\<exists>err. rc = Inl err \<and> \<not> errors_Is err ErrExist")
      case True
      with def r i1 at root_step_refl root show ?thesis by (fastforce simp: advanced_def)
    next
      case False
      with def r adv show ?thesis by (auto split: sum.splits if_splits)
    qed
  qed
qed

lemma createEpochLog_safe:
  assumes i: "inv (objs W)"
    and at: "root_at (view (objs W)) (t_path t) R ver" and sy: "root_sync (view (objs W)) t"
    and iss: "issued view inv (t_rootVersion t)"
    and clk: "\<And>n. is_i64 (t_clock t n)" and p: "valid_utf8 (t_path t)"
    and r: "createEpochLog S c e t W = (r, t', W')"
  shows "inv (objs W') \<and>
    (\<exists>R' ver'. root_at (view (objs W')) (t_path t) R' ver' \<and>
      (R' = R \<or> LatestEpoch R < e \<and> R' = R\<lparr>LatestEpoch := e\<rparr>) \<and>
      (r = None \<longrightarrow> e \<le> LatestEpoch R' \<and> view (objs W') (epochLogKey (t_path t) e) \<noteq> None)) \<and>
    (\<forall>k. k \<noteq> rootKey (t_path t) \<longrightarrow> view (objs W) k \<noteq> None \<or> k \<noteq> epochLogKey (t_path t) e \<longrightarrow>
      view (objs W') k = view (objs W) k)"
proof -
  obtain v1 where v1: "v1 = view (objs W) \<or> view (objs W) (epochLogKey (t_path t) e) = None \<and>
      (\<exists>n u. v1 = (view (objs W))(epochLogKey (t_path t) e \<mapsto> (encode_logRoot (new_log (t_path t) e (t_clock t n)), u)))"
    and no: "v1 (epochLogKey (t_path t) e) = None \<Longrightarrow> r \<noteq> None" and adv: "advanced e t R v1 (r, t', W')"
    using createEpochLog_advanced [OF i at sy iss clk p r] by blast
  from adv obtain R' ver' where s: "root_step (t_path t) e R v1 (view (objs W')) R' ver'"
    and i': "inv (objs W')" and ok: "r = None \<longrightarrow> e \<le> LatestEpoch R'"
    by (auto simp: advanced_def)
  have same: "view (objs W') k = v1 k" if "k \<noteq> rootKey (t_path t)" for k
    using s that by (simp add: root_step_def)
  have "view (objs W') (epochLogKey (t_path t) e) \<noteq> None" if "r = None"
    using no that same by fastforce
  moreover have "view (objs W') k = view (objs W) k"
    if "k \<noteq> rootKey (t_path t)" "view (objs W) k \<noteq> None \<or> k \<noteq> epochLogKey (t_path t) e" for k
    using same [OF that(1)] that(2) v1 by auto
  ultimately show ?thesis using s i' ok unfolding root_step_def by blast
qed

end

lemma schema_new_root [simp]: "schema (new_root p sch at) = sch"
  by (simp add: schema_def new_root_def)

lemma valid_schema_source: "validate_TrackSchema sch = None \<Longrightarrow> valid_utf8 (TimeSource sch)"
proof -
  have "valid_utf8 ''frame''" "valid_utf8 ''ingest''" by (rule valid_utf8_ascii, simp)+
  then show "validate_TrackSchema sch = None \<Longrightarrow> valid_utf8 (TimeSource sch)"
    by (auto simp: validate_TrackSchema_def valid_TimeSource_def TimeSourceFrame_def TimeSourceIngest_def
        split: if_splits)
qed

lemma manifestVersion_i64 [simp]: "is_i64 manifestVersion"
  by (simp add: manifestVersion_def i64_bounds)

lemma new_root_ok:
  "validate_TrackSchema sch = None \<Longrightarrow> valid_utf8 p \<Longrightarrow> valid_utf8 (ts_MIME sch) \<Longrightarrow> valid_utf8 (ts_Encoding sch) \<Longrightarrow>
    is_i64 at \<Longrightarrow> trackRoot_ok (new_root p sch at)"
  by (simp add: trackRoot_ok_def new_root_def valid_schema_source)

lemma new_log_ok: "valid_utf8 p \<Longrightarrow> is_i64 at \<Longrightarrow> logRoot_ok (new_log p e at)"
  by (simp add: logRoot_ok_def new_log_def)

lemma new_root_at:
  "trackRoot_ok (new_root p sch at) \<Longrightarrow> v (rootKey p) = Some (encode_trackRoot (new_root p sch at), ver) \<Longrightarrow>
    root_at v p (new_root p sch at) ver"
  using root_at_encoded [of "new_root p sch at" v ver] by (simp add: new_root_def)

lemma new_log_at:
  "logRoot_ok (new_log p e at) \<Longrightarrow> v (epochLogKey p e) = Some (encode_logRoot (new_log p e at), ver) \<Longrightarrow>
    log_at v p e (new_log p e at) ver"
  using log_at_encoded [of "new_log p e at" v ver] by (simp add: new_log_def)

context reliable_store
begin

lemma create_Live:
  assumes "inv s" and "view s k = None"
  obtains v s' where "Create S Live k d s = (Inr v, s')" "inv s'" "view s' = (view s)(k \<mapsto> (d, v))"
  using assms create_absent create_inv create_Inr by metis

lemma Create_Track_fresh:
  assumes i: "inv (objs W)" and path: "validate_TrackPath p = None" "valid_utf8 p"
    and sch: "validate_TrackSchema sch = None" "valid_utf8 (ts_MIME sch)" "valid_utf8 (ts_Encoding sch)"
    and clk: "\<And>n. is_i64 (t_clock (resolveConfig tn p cfg) n)"
    and fresh: "view (objs W) (rootKey p) = None" "view (objs W) (epochLogKey p 1) = None"
  shows "\<exists>t W' at1 at2 u1 u2. Create_Track S tn Live p sch cfg W = (Inr t, W') \<and> inv (objs W') \<and>
    Root_Track t = \<lparr>ti_TrackSchema = sch, ti_Track = p, ti_LatestEpoch = 1\<rparr> \<and>
    view (objs W') = (view (objs W))(rootKey p \<mapsto> (encode_trackRoot (new_root p sch at1), u1),
      epochLogKey p 1 \<mapsto> (encode_logRoot (new_log p 1 at2), u2)) \<and>
    root_at (view (objs W')) p (t_root t) (t_rootVersion t) \<and> log_at (view (objs W')) p 1 (new_log p 1 at2) u2"
proof -
  let ?t = "resolveConfig tn p cfg"
  let ?R = "new_root p sch (t_clock ?t (ticks W))" and ?L = "new_log p 1 (t_clock ?t (Suc (ticks W)))"
  obtain u1 s1 where c1: "Create S Live (rootKey p) (encode_trackRoot ?R) (objs W) = (Inr u1, s1)"
    and i1: "inv s1" and v1: "view s1 = (view (objs W))(rootKey p \<mapsto> (encode_trackRoot ?R, u1))"
    using create_Live [OF i fresh(1)] .
  have k2: "view s1 (epochLogKey p 1) = None" using fresh v1 by simp
  obtain u2 s2 where c2: "Create S Live (epochLogKey p 1) (encode_logRoot ?L) s1 = (Inr u2, s2)"
    and i2: "inv s2" and v2: "view s2 = (view s1)(epochLogKey p 1 \<mapsto> (encode_logRoot ?L, u2))"
    using create_Live [OF i1 k2] .
  let ?T = "?t\<lparr>t_root := ?R, t_rootVersion := u1\<rparr>"
  let ?W = "\<lparr>objs = s2, ticks = Suc (Suc (ticks W))\<rparr>"
  have path_t: "t_path ?t = p" by (simp add: resolveConfig_def)
  have run: "Create_Track S tn Live p sch cfg W = (Inr ?T, W\<lparr>objs := s2, ticks := Suc (Suc (ticks W))\<rparr>)"
    using path sch c1 c2 path_t
    by (simp add: Create_Track_def now_def on_store_def createEpochLog_def advanceTrackRootLocked_def
        Let_def new_root_def)
  have R: "root_at (view s2) p ?R u1"
    by (rule new_root_at) (use new_root_ok path sch clk v1 v2 in auto)
  have L: "log_at (view s2) p 1 ?L u2"
    by (rule new_log_at) (use new_log_ok path clk v2 in auto)
  have "Root_Track ?T = \<lparr>ti_TrackSchema = sch, ti_Track = p, ti_LatestEpoch = 1\<rparr>"
    using path_t by (simp add: Root_Track_def) (simp add: new_root_def)
  with run R L i2 v1 v2 show ?thesis
    by (intro exI [of _ ?T] exI conjI) (rule refl | simp)+
qed

end

section \<open>A track to run the properties on\<close>

definition demo_schema :: TrackSchema where
  "demo_schema = \<lparr>Timescale = 1000, TimeSource = TimeSourceFrame, ts_MIME = '''', ts_Encoding = ''''\<rparr>"

definition demo_root :: trackRoot where
  "demo_root = new_root ''cam'' demo_schema 7"

definition demo_world :: "mem world" where
  "demo_world = \<lparr>objs = snd (mem_Create Live (rootKey ''cam'') (encode_trackRoot demo_root) mem_New), ticks = 0\<rparr>"

definition demo_track :: Track where
  "demo_track = (resolveConfig int ''cam'' \<lparr>SealThreshold = 0, Clock = Some (\<lambda>n. 7)\<rparr>)
     \<lparr>t_root := demo_root, t_rootVersion := ''1''\<rparr>"

lemma demo_utf8 [simp]: "valid_utf8 ''cam''"
  by (rule valid_utf8_ascii) simp

lemma demo_schema_valid [simp]: "validate_TrackSchema demo_schema = None"
  "valid_utf8 (ts_MIME demo_schema)" "valid_utf8 (ts_Encoding demo_schema)"
  by (simp_all add: demo_schema_def validate_TrackSchema_def valid_TimeSource_def)

lemma seven_i64 [simp]: "is_i64 7"
  by (simp add: i64_bounds)

lemma dec_one [simp]: "dec (Suc 0) = ''1''"
  by code_simp

lemma demo_view:
  "mem_view (objs demo_world) = [rootKey ''cam'' \<mapsto> (encode_trackRoot demo_root, ''1'')]"
  by (auto simp: demo_world_def mem_view_def mem_Create_def ctx_Err_def storeLocked_def mem_New_def fun_eq_iff Let_def
      lookup_update')

lemma demo_inv: "mem_inv (objs demo_world)"
proof -
  have "mem_inv (snd (Create mem_store Live k d mem_New))" for k d
    using mem.create_inv [OF mem_inv_New] by (metis prod.collapse)
  then show ?thesis by (simp add: demo_world_def mem_store_def)
qed

lemma demo_root_at: "root_at (mem_view (objs demo_world)) ''cam'' demo_root ''1''"
  unfolding demo_root_def
  by (rule new_root_at) (simp_all add: demo_view demo_root_def new_root_ok)

lemma demo_track_fields [simp]: "t_path demo_track = ''cam''" "t_root demo_track = demo_root"
  "t_rootVersion demo_track = ''1''" "t_clock demo_track n = 7"
  by (simp_all add: demo_track_def resolveConfig_def)

section \<open>Properties\<close>

text \<open>
  C33. Opening an epoch never takes a track back. Whatever the store does, with any failure and any
  lost reply, the stored root keeps its schema and identity and its latest epoch is what it was or
  the one opened, if that is later; no other object but the epoch's log changes, and a log that
  existed stays as it was. An answer without error means that the log exists and the root has
  reached the epoch.
\<close>

theorem epoch_opening_only_advances:
  assumes S: "store_contract S view I" and i: "I (objs W)"
    and at: "root_at (view (objs W)) (t_path t) R ver" and sy: "root_sync (view (objs W)) t"
    and iss: "issued view I (t_rootVersion t)"
    and clk: "\<And>n. is_i64 (t_clock t n)" and p: "valid_utf8 (t_path t)"
    and r: "createEpochLog S c e t W = (r, t', W')"
  shows "I (objs W') \<and>
    (\<exists>R' ver'. root_at (view (objs W')) (t_path t) R' ver' \<and>
      (R' = R \<or> LatestEpoch R < e \<and> R' = R\<lparr>LatestEpoch := e\<rparr>) \<and>
      (r = None \<longrightarrow> e \<le> LatestEpoch R' \<and> view (objs W') (epochLogKey (t_path t) e) \<noteq> None)) \<and>
    (\<forall>k. k \<noteq> rootKey (t_path t) \<longrightarrow> view (objs W) k \<noteq> None \<or> k \<noteq> epochLogKey (t_path t) e \<longrightarrow>
      view (objs W') k = view (objs W) k)"
  by (rule store_contract.createEpochLog_safe [OF assms])

theorem epoch_opening_only_advances_witness:
  "\<exists>r t' W' R' ver'. createEpochLog mem_store Live 2 demo_track demo_world = (r, t', W') \<and>
    root_at (mem_view (objs W')) ''cam'' R' ver' \<and> (R' = demo_root \<or> R' = demo_root\<lparr>LatestEpoch := 2\<rparr>)"
proof -
  obtain r t' W' where x: "createEpochLog mem_store Live 2 demo_track demo_world = (r, t', W')"
    using prod_cases3 by blast
  have "root_sync (mem_view (objs demo_world)) demo_track"
    using root_sync_at [of _ demo_track] demo_root_at by simp
  moreover have "issued mem_view mem_inv (t_rootVersion demo_track)"
    using mem.issued_root [OF demo_inv demo_root_at] by simp
  ultimately show ?thesis using epoch_opening_only_advances [OF mem.store_contract_axioms demo_inv, of demo_track demo_root "''1''" Live 2 r t' W']
      x demo_root_at by fastforce
qed

text \<open>
  C34. Creating a track that does not exist, on a store that answers, succeeds: it adds the root
  manifest with the given schema and the log of epoch 1, and nothing else; the handle describes that
  track, and so does every handle \<open>Open\<close> gives from then on.
\<close>

theorem create_track_then_open:
  assumes S: "reliable_store S view I" and i: "I (objs W)"
    and path: "validate_TrackPath p = None" "valid_utf8 p"
    and sch: "validate_TrackSchema sch = None" "valid_utf8 (ts_MIME sch)" "valid_utf8 (ts_Encoding sch)"
    and clk: "\<And>n. is_i64 (t_clock (resolveConfig tn p cfg) n)"
    and fresh: "view (objs W) (rootKey p) = None" "view (objs W) (epochLogKey p 1) = None"
  shows "\<exists>t W'. Create_Track S tn Live p sch cfg W = (Inr t, W') \<and>
    Root_Track t = \<lparr>ti_TrackSchema = sch, ti_Track = p, ti_LatestEpoch = 1\<rparr> \<and>
    (\<forall>k. k \<noteq> rootKey p \<and> k \<noteq> epochLogKey p 1 \<longrightarrow> view (objs W') k = view (objs W) k) \<and>
    (\<exists>L u. log_at (view (objs W')) p 1 L u \<and> Sealed L = [] \<and> OpenFrom L = 0) \<and>
    (\<exists>t2 s. Open_Track S tn Live p cfg (objs W') = (Inr t2, s) \<and> Root_Track t2 = Root_Track t \<and> view s = view (objs W'))"
proof -
  obtain t W' at1 at2 u1 u2 where t: "Create_Track S tn Live p sch cfg W = (Inr t, W')" "I (objs W')"
      "Root_Track t = \<lparr>ti_TrackSchema = sch, ti_Track = p, ti_LatestEpoch = 1\<rparr>"
    and v: "view (objs W') = (view (objs W))(rootKey p \<mapsto> (encode_trackRoot (new_root p sch at1), u1),
        epochLogKey p 1 \<mapsto> (encode_logRoot (new_log p 1 at2), u2))"
    and R: "root_at (view (objs W')) p (t_root t) (t_rootVersion t)"
    and L: "log_at (view (objs W')) p 1 (new_log p 1 at2) u2"
    using reliable_store.Create_Track_fresh [OF S i path sch clk fresh] by blast
  obtain s where "fetchTrackRoot S Live p (objs W') = (Inr (t_root t, t_rootVersion t), s)" "view s = view (objs W')"
    using reliable_store.fetchTrackRoot_Live [OF S t(2) R] by blast
  then have "\<exists>t2 s. Open_Track S tn Live p cfg (objs W') = (Inr t2, s) \<and> Root_Track t2 = Root_Track t \<and>
      view s = view (objs W')"
    using path t(3) by (auto simp: Open_Track_def Root_Track_def resolveConfig_def)
  with t v L show ?thesis by (fastforce simp: new_log_def)
qed

theorem create_track_then_open_witness:
  "\<exists>t W'. Create_Track mem_store int Live ''cam'' demo_schema \<lparr>SealThreshold = 0, Clock = Some (\<lambda>n. 7)\<rparr>
      \<lparr>objs = mem_New, ticks = 0\<rparr> = (Inr t, W') \<and>
    Root_Track t = \<lparr>ti_TrackSchema = demo_schema, ti_Track = ''cam'', ti_LatestEpoch = 1\<rparr>"
proof -
  have "validate_TrackPath ''cam'' = None" by code_simp
  then show ?thesis
    using create_track_then_open [OF mem.reliable_store_axioms, of "\<lparr>objs = mem_New, ticks = 0\<rparr>" "''cam''"
        demo_schema int "\<lparr>SealThreshold = 0, Clock = Some (\<lambda>n. 7)\<rparr>"]
    by (force simp: resolveConfig_def)
qed

end
