(* ===== verification/Redact.thy ===== *)
theory Redact
  imports Track
begin

text \<open>
  Redaction (\<open>ledger/redact.go\<close>) and the payload read that honours it (\<open>Reader.ReadGroup\<close> of
  \<open>ledger/reader.go\<close>): a marker object beside the epoch's groups is created first, then the payload
  is deleted; manifests are never touched.
\<close>

section \<open>Definitions\<close>

definition redactedKey :: "string \<Rightarrow> string option" where
  "redactedKey objectKey =
     (case Cut objectKey (''/'' @ groupPrefix) of
        (dir, name, ok) \<Rightarrow>
          if \<not> ok \<or> name = '''' \<or> Contains name ''/'' then None
          else Some (dir @ ''/'' @ redactedPrefix @ name))"

definition redactedKey_Track :: "Track \<Rightarrow> GroupInfo \<Rightarrow> error + string" where
  "redactedKey_Track t g =
     (case redactedKey (ObjectKey g) of
        None \<Rightarrow> Inl [ErrInvalidGroup]
      | Some marker \<Rightarrow>
          if \<not> HasPrefix (ObjectKey g) (t_path t @ ''/'') then Inl [ErrInvalidGroup] else Inr marker)"

definition markerExists :: "'s store \<Rightarrow> ctx \<Rightarrow> string \<Rightarrow> 's \<Rightarrow> (error + bool) \<times> 's" where
  "markerExists S c key s =
     (case Get S c key s of
        (Inr _, s) \<Rightarrow> (Inr True, s)
      | (Inl err, s) \<Rightarrow> if errors_Is err ErrNotExist then (Inr False, s) else (Inl (wrap [] err), s))"

definition Redact :: "'s store \<Rightarrow> ctx \<Rightarrow> Track \<Rightarrow> GroupInfo \<Rightarrow> 's \<Rightarrow> error option \<times> 's" where
  "Redact S c t g s =
     (case redactedKey_Track t g of
        Inl err \<Rightarrow> (Some err, s)
      | Inr marker \<Rightarrow>
          (case Create S c marker [] s of
             (r, s) \<Rightarrow>
               (case r of
                  Inl err \<Rightarrow> if \<not> errors_Is err ErrExist then (Some (wrap [] err), s)
                    else (case Delete S c (ObjectKey g) s of
                            (Some err, s) \<Rightarrow> (Some (wrap [] err), s) | (None, s) \<Rightarrow> (None, s))
                | Inr _ \<Rightarrow> (case Delete S c (ObjectKey g) s of
                            (Some err, s) \<Rightarrow> (Some (wrap [] err), s) | (None, s) \<Rightarrow> (None, s)))))"

definition Redacted :: "'s store \<Rightarrow> ctx \<Rightarrow> Track \<Rightarrow> GroupInfo \<Rightarrow> 's \<Rightarrow> (error + bool) \<times> 's" where
  "Redacted S c t g s =
     (case redactedKey_Track t g of Inl err \<Rightarrow> (Inl err, s) | Inr marker \<Rightarrow> markerExists S c marker s)"

definition ReadGroup :: "'s store \<Rightarrow> ctx \<Rightarrow> string \<Rightarrow> 's \<Rightarrow> (error + bytes) \<times> 's" where
  "ReadGroup S c objectKey s =
     (case Get S c objectKey s of
        (Inr (d, _), s) \<Rightarrow> (Inr d, s)
      | (Inl err, s) \<Rightarrow>
          if errors_Is err ErrNotExist then
            (case redactedKey objectKey of
               None \<Rightarrow> (Inl (wrap [] err), s)
             | Some marker \<Rightarrow>
                 (case markerExists S c marker s of
                    (Inl merr, s) \<Rightarrow> (Inl merr, s)
                  | (Inr redacted, s) \<Rightarrow>
                      if redacted then (Inl [ErrGroupRedacted], s) else (Inl (wrap [] err), s)))
          else (Inl (wrap [] err), s))"

section \<open>The marker of a group\<close>

lemma Cut_skip_segment:
  assumes "CHR ''/'' \<notin> set x"
  shows "Cut (x @ CHR ''/'' # r) (CHR ''/'' # sep) =
    (if HasPrefix r sep then (x, drop (length sep) r, True)
     else case Cut r (CHR ''/'' # sep) of (a, b, ok) \<Rightarrow> (x @ CHR ''/'' # a, b, ok))"
  using assms
proof (induction x)
  case Nil
  then show ?case by (auto split: prod.splits)
next
  case (Cons c x)
  then show ?case by (auto split: prod.splits)
qed

lemma HasPrefix_segment:
  assumes "CHR ''/'' \<notin> set y" "CHR ''/'' \<notin> set sep"
  shows "HasPrefix (y @ CHR ''/'' # r) (sep @ ''/'') \<longleftrightarrow> y = sep"
  using assms append_sep_eq [of "CHR ''/''" y sep] by (auto simp: HasPrefix_iff)

text \<open>The cut finds the epoch's own directory when no later segment of the track is \<open>groups\<close>.\<close>

lemma Cut_groups:
  assumes "xs \<noteq> []" and "\<forall>x\<in>set xs. CHR ''/'' \<notin> set x" and "''groups'' \<notin> set (tl xs)" and "CHR ''/'' \<notin> set n"
  shows "Cut (join_slash (xs @ [''groups'', n])) ''/groups/'' = (join_slash xs, n, True)"
  using assms
proof (induction xs rule: join_slash.induct)
  case (2 x)
  then show ?case using Cut_skip_segment [of x "''groups/'' @ n" "''groups/''"] by simp
next
  case (3 x y ys)
  have ih: "Cut (join_slash ((y # ys) @ [''groups'', n])) ''/groups/'' = (join_slash (y # ys), n, True)"
    using 3 by (cases ys) auto
  obtain z zs where z: "ys @ [''groups'', n] = z # zs" by (cases ys) auto
  let ?r = "y @ CHR ''/'' # join_slash (z # zs)"
  have r: "join_slash ((y # ys) @ [''groups'', n]) = ?r" using z by simp
  have "\<not> HasPrefix ?r ''groups/''"
    using 3 HasPrefix_segment [of y "''groups''" "join_slash (z # zs)"] by auto
  then show ?case
    using Cut_skip_segment [of x ?r "''groups/''"] 3 ih r z by simp
qed simp

lemma join_segments_append: "xs \<noteq> [] \<Longrightarrow> join_slash (xs @ ys) = (if ys = [] then join_slash xs else join_slash xs @ ''/'' @ join_slash ys)"
  by (induction xs rule: join_slash.induct) (auto simp: neq_Nil_conv)

lemma redactedKey_group:
  assumes "''groups'' \<notin> set (tl (segments t))"
  shows "redactedKey (groupKey t i) = Some (markerKey t i)"
proof -
  let ?xs = "segments t @ [epochDir (Epoch i)]" and ?n = "''g'' @ Sprintf_0d 8 (unat (Sequence i))"
  have g: "groupKey t i = join_slash (?xs @ [''groups'', ?n])"
    using arg_cong [OF obj_key_segments(6) [of t i], of join_slash] by simp
  have m: "join_slash ?xs @ ''/redacted/'' @ ?n = markerKey t i"
    by (simp add: join_segments_append markerKey_def redactedPrefix_def)
  have "''groups'' \<notin> set (tl ?xs)"
    using assms by (auto simp: tl_append epochDir_def split: list.splits)
  then have "Cut (groupKey t i) ''/groups/'' = (join_slash ?xs, ?n, True)"
    unfolding g using segments_no_slash by (intro Cut_groups) (auto simp: Sprintf_no_char)
  moreover have "\<not> Contains ?n ''/''"
    by (auto simp: Contains_iff append_eq_Cons_conv Cons_eq_append_conv)
      (metis in_set_conv_decomp slash_free(1))
  ultimately show ?thesis
    using m by (simp add: redactedKey_def groupPrefix_def redactedPrefix_def)
qed

lemma HasPrefix_groupKey: "HasPrefix (groupKey t i) (t @ ''/'')"
  by (simp add: HasPrefix_iff groupKey_def)

lemma redactedKey_Track_group:
  "ObjectKey g = groupKey (t_path t) i \<Longrightarrow> ''groups'' \<notin> set (tl (segments (t_path t))) \<Longrightarrow>
    redactedKey_Track t g = Inr (markerKey (t_path t) i)"
  by (simp add: redactedKey_Track_def redactedKey_group HasPrefix_groupKey)


lemma Redact_group:
  assumes "ObjectKey g = groupKey (t_path t) i" and "''groups'' \<notin> set (tl (segments (t_path t)))"
  shows "Redact S c t g s = (case Create S c (markerKey (t_path t) i) [] s of (r, s1) \<Rightarrow>
    if (\<exists>v. r = Inr v) \<or> errors_Is (projl r) ErrExist then Delete S c (groupKey (t_path t) i) s1
    else (Some (projl r), s1))"
  using assms
  by (auto simp: Redact_def redactedKey_Track_group split: prod.splits sum.splits option.splits)

context store_contract
begin

lemma Redact_safe:
  assumes i: "inv s" and g: "ObjectKey g = groupKey (t_path t) i" "''groups'' \<notin> set (tl (segments (t_path t)))"
    and r: "Redact S c t g s = (r, s')"
  shows "inv s' \<and>
    (\<forall>k. k \<noteq> groupKey (t_path t) i \<and> k \<noteq> markerKey (t_path t) i \<longrightarrow> view s' k = view s k) \<and>
    (view s' (groupKey (t_path t) i) = view s (groupKey (t_path t) i) \<or>
      view s' (groupKey (t_path t) i) = None \<and> view s' (markerKey (t_path t) i) \<noteq> None) \<and>
    (r = None \<longrightarrow> view s' (groupKey (t_path t) i) = None \<and> view s' (markerKey (t_path t) i) \<noteq> None)"
proof -
  let ?m = "markerKey (t_path t) i" and ?k = "groupKey (t_path t) i"
  obtain rc s1 where c: "Create S c ?m [] s = (rc, s1)" by fastforce
  have i1: "inv s1" using create_inv [OF i c] .
  have v1: "k \<noteq> ?m \<Longrightarrow> view s1 k = view s k" for k
    using create_Inr [OF i] create_Inl [OF i] c by (cases rc) (metis fun_upd_other)+
  show ?thesis
  proof (cases "(\<exists>v. rc = Inr v) \<or> errors_Is (projl rc) ErrExist")
    case True
    then have m: "view s1 ?m \<noteq> None"
      using create_Inr [OF i] create_Inl [OF i] c by (cases rc) fastforce+
    from True have d: "Delete S c ?k s1 = (r, s')"
      using r c g by (simp add: Redact_group)
    have v2: "view s' = (view s1)(?k := None) \<or> r \<noteq> None \<and> view s' = view s1"
      using delete_view [OF i1 d] .
    show ?thesis using delete_inv [OF i1 d] v2 v1 m by auto
  next
    case False
    then have "r \<noteq> None" "s' = s1" using r c g by (auto simp: Redact_group)
    with i1 v1 show ?thesis by auto
  qed
qed

end

context reliable_store
begin

lemma markerExists_Live:
  assumes "inv s"
  shows "\<exists>s'. markerExists S Live k s = (Inr (view s k \<noteq> None), s')"
proof (cases "view s k")
  case None
  then show ?thesis using get_absent [OF assms None] by (fastforce simp: markerExists_def)
next
  case (Some x)
  then show ?thesis using get_present [OF assms Some] by (fastforce simp: markerExists_def)
qed

lemma ReadGroup_redacted:
  assumes "inv s" and "view s k = None" and "redactedKey k = Some m" and "view s m \<noteq> None"
  shows "\<exists>s'. ReadGroup S Live k s = (Inl [ErrGroupRedacted], s')"
proof -
  obtain e s1 where g: "Get S Live k s = (Inl e, s1)" "errors_Is e ErrNotExist"
    using get_absent assms by blast
  moreover obtain s2 where "markerExists S Live m s1 = (Inr True, s2)"
    using markerExists_Live [of s1 m] get_view [OF assms(1) g(1)] assms(4) by auto
  ultimately show ?thesis using assms by (auto simp: ReadGroup_def)
qed

lemma ReadGroup_lost:
  assumes "inv s" and "view s k = None" and "redactedKey k = Some m" and "view s m = None"
  shows "\<exists>e s'. ReadGroup S Live k s = (Inl e, s') \<and> errors_Is e ErrNotExist \<and> \<not> errors_Is e ErrGroupRedacted"
proof -
  obtain e s1 where g: "Get S Live k s = (Inl e, s1)" "errors_Is e ErrNotExist"
    using get_absent assms by blast
  moreover obtain s2 where "markerExists S Live m s1 = (Inr False, s2)"
    using markerExists_Live [of s1 m] get_view [OF assms(1) g(1)] assms(4) by auto
  ultimately show ?thesis using assms get_Inl [OF assms(1) g(1)] by (auto simp: ReadGroup_def)
qed

lemma Redact_Live:
  assumes i: "inv s" and g: "ObjectKey g = groupKey (t_path t) i" "''groups'' \<notin> set (tl (segments (t_path t)))"
  shows "\<exists>s'. Redact S Live t g s = (None, s')"
proof -
  let ?m = "markerKey (t_path t) i"
  obtain rc s1 where c: "Create S Live ?m [] s = (rc, s1)" by fastforce
  have ok: "(\<exists>v. rc = Inr v) \<or> errors_Is (projl rc) ErrExist"
  proof (cases "view s ?m = None")
    case True
    obtain v s2 where "Create S Live ?m [] s = (Inr v, s2)" using create_absent [OF i True] by blast
    with c show ?thesis by auto
  next
    case False
    obtain e s2 where "Create S Live ?m [] s = (Inl e, s2)" "errors_Is e ErrExist"
      using create_present [OF i False] by blast
    with c show ?thesis by auto
  qed
  then show ?thesis
    using delete_ok [OF create_inv [OF i c]] c g by (simp add: Redact_group)
qed

end

section \<open>Properties\<close>

text \<open>
  C35. Redaction is safe on any store, whatever fails: only the group's payload and its marker can
  change, the payload never goes away without its marker, and an answer without error means that the
  marker stands and the payload is gone.
\<close>

theorem redact_marks_before_it_deletes:
  assumes "store_contract S view I" and "I s" and "ObjectKey g = groupKey (t_path t) i"
    and "''groups'' \<notin> set (tl (segments (t_path t)))" and "Redact S c t g s = (r, s')"
  shows "I s' \<and>
    (\<forall>k. k \<noteq> groupKey (t_path t) i \<and> k \<noteq> markerKey (t_path t) i \<longrightarrow> view s' k = view s k) \<and>
    (view s' (groupKey (t_path t) i) = view s (groupKey (t_path t) i) \<or>
      view s' (groupKey (t_path t) i) = None \<and> view s' (markerKey (t_path t) i) \<noteq> None) \<and>
    (r = None \<longrightarrow> view s' (groupKey (t_path t) i) = None \<and> view s' (markerKey (t_path t) i) \<noteq> None)"
  by (rule store_contract.Redact_safe [OF assms])

text \<open>The row of a group of the track \<open>cam\<close>, for the witnesses.\<close>

definition demo_row :: GroupInfo where
  "demo_row = zero_GroupInfo\<lparr>ID := NewGroupID 1 4, ObjectKey := groupKey ''cam'' (NewGroupID 1 4)\<rparr>"

theorem redact_marks_before_it_deletes_witness:
  "\<exists>r s'. Redact mem_store Live demo_track demo_row mem_New = (r, s') \<and>
    (r = None \<longrightarrow> mem_view s' (markerKey ''cam'' (NewGroupID 1 4)) \<noteq> None)"
proof -
  obtain r s' where "Redact mem_store Live demo_track demo_row mem_New = (r, s')" by fastforce
  then show ?thesis
    using redact_marks_before_it_deletes [OF mem.store_contract_axioms mem_inv_New,
        of demo_row demo_track "NewGroupID 1 4" Live r s']
    by (simp add: demo_row_def)
qed

text \<open>
  On a store that answers, redacting a group succeeds and its payload is from then on answered
  with \<open>ErrGroupRedacted\<close>; a payload missing without a marker is answered with the store's
  \<open>ErrNotExist\<close> instead, so a lost object is never taken for a redaction.
\<close>

theorem redacted_group_answers_redacted:
  assumes S: "reliable_store S view I" and i: "I s" and g: "ObjectKey g = groupKey (t_path t) i"
    and seg: "''groups'' \<notin> set (tl (segments (t_path t)))"
  shows "(\<exists>s' s2. Redact S Live t g s = (None, s') \<and> ReadGroup S Live (ObjectKey g) s' = (Inl [ErrGroupRedacted], s2)) \<and>
    (view s (ObjectKey g) = None \<and> view s (markerKey (t_path t) i) = None \<longrightarrow>
      (\<exists>e s2. ReadGroup S Live (ObjectKey g) s = (Inl e, s2) \<and> errors_Is e ErrNotExist \<and> \<not> errors_Is e ErrGroupRedacted))"
proof -
  obtain s' where r: "Redact S Live t g s = (None, s')"
    using reliable_store.Redact_Live [OF S i g seg] by blast
  have k: "redactedKey (ObjectKey g) = Some (markerKey (t_path t) i)"
    using g seg by (simp add: redactedKey_group)
  have "I s'" "view s' (ObjectKey g) = None" "view s' (markerKey (t_path t) i) \<noteq> None"
    using store_contract.Redact_safe [OF reliable_store.axioms(1) [OF S] i g seg r] g by auto
  then have "\<exists>s2. ReadGroup S Live (ObjectKey g) s' = (Inl [ErrGroupRedacted], s2)"
    by (rule reliable_store.ReadGroup_redacted [OF S _ _ k])
  with r reliable_store.ReadGroup_lost [OF S i _ k] show ?thesis by blast
qed

theorem redacted_group_answers_redacted_witness:
  "\<exists>s' s2. Redact mem_store Live demo_track demo_row mem_New = (None, s') \<and>
    ReadGroup mem_store Live (groupKey ''cam'' (NewGroupID 1 4)) s' = (Inl [ErrGroupRedacted], s2)"
  using redacted_group_answers_redacted [OF mem.reliable_store_axioms mem_inv_New,
      of demo_row demo_track "NewGroupID 1 4"]
  by (simp add: demo_row_def)

text \<open>
  A group of a track that has \<open>groups\<close> among its later segments cannot be redacted: the marker
  key is cut at the first such segment, and the code answers \<open>ErrInvalidGroup\<close> for a row it committed
  itself, without touching the store.
\<close>

theorem groups_segment_blocks_redaction:
  assumes "t_path t = a @ ''/groups/'' @ b" and "CHR ''/'' \<notin> set a" and "ObjectKey g = groupKey (t_path t) i"
  shows "Redact S c t g s = (Some [ErrInvalidGroup], s)"
proof -
  let ?n = "b @ ''/'' @ epochDir (Epoch i) @ ''/groups/g'' @ Sprintf_0d 8 (unat (Sequence i))"
  have "Cut (ObjectKey g) ''/groups/'' = (a, ?n, True)"
    using assms Cut_first_Cons [of "CHR ''/''" a "''groups/''" ?n] by (simp add: groupKey_def groupPrefix_def)
  moreover have "Contains ?n ''/''" by (simp add: Contains_append_right)
  ultimately have "redactedKey (ObjectKey g) = None"
    by (simp add: redactedKey_def groupPrefix_def)
  then show ?thesis by (simp add: Redact_def redactedKey_Track_def)
qed

theorem groups_segment_blocks_redaction_witness:
  "Redact mem_store Live (demo_track\<lparr>t_path := ''a/groups/b''\<rparr>)
     (demo_row\<lparr>ObjectKey := groupKey ''a/groups/b'' (NewGroupID 1 4)\<rparr>) mem_New = (Some [ErrInvalidGroup], mem_New)"
  by (rule groups_segment_blocks_redaction [of _ "''a''" "''b''"]) simp_all

end
