(* ===== verification/Fs_Store.thy ===== *)
theory Fs_Store
  imports Track "HOL-Library.Sublist"
begin

text \<open>
  The file-system backend (\<open>ledger/store/fs/fs.go\<close>, and the directory a URI names in its \<open>open.go\<close>): an
  object is a file under a root directory, its version a hash of its content.

  The file system is not part of the repository. It is a parameter: a record of the calls of \<open>os\<close> the
  backend makes, over a state of its own; an open file is referred to by its name. The locale
  \<open>file_tree\<close> states what is documented of these calls: exclusive creation, atomic renaming, and that a
  write that fails may have written a part. The backend's lock makes a swap one step.
\<close>

section \<open>Paths\<close>

text \<open>\<open>filepath.Join\<close> of two elements, \<open>filepath.Dir\<close>, \<open>filepath.IsLocal\<close> on Unix, where slashes separate.\<close>

definition filepath_Join :: "string \<Rightarrow> string \<Rightarrow> string" where
  "filepath_Join a b =
     (if a \<noteq> '''' then path_Clean (a @ ''/'' @ b) else if b \<noteq> '''' then path_Clean b else '''')"

definition filepath_Dir :: "string \<Rightarrow> string" where
  "filepath_Dir name = path_Clean (rev (dropWhile (\<lambda>ch. ch \<noteq> CHR ''/'') (rev name)))"

definition IsLocal :: "string \<Rightarrow> bool" where
  "IsLocal p \<longleftrightarrow> \<not> HasPrefix p ''/'' \<and> p \<noteq> '''' \<and> (let q = path_Clean p in q \<noteq> ''..'' \<and> \<not> HasPrefix q ''../'')"

text \<open>The segments of a cleaned path, a single dot being none, and \<open>filepath.Rel\<close>.\<close>

definition clean_parts :: "string \<Rightarrow> string list" where
  "clean_parts p = clean_segments (HasPrefix p ''/'') (segments p) []"

fun strip_common :: "string list \<Rightarrow> string list \<Rightarrow> string list \<times> string list" where
  "strip_common (x # xs) (y # ys) = (if x = y then strip_common xs ys else (x # xs, y # ys))"
| "strip_common xs ys = (xs, ys)"

definition filepath_Rel :: "string \<Rightarrow> string \<Rightarrow> error + string" where
  "filepath_Rel base targ =
     (if path_Clean base = path_Clean targ then Inr ''.''
      else if HasPrefix base ''/'' \<noteq> HasPrefix targ ''/'' then Inl []
      else case strip_common (clean_parts base) (clean_parts targ) of
        ([], ts) \<Rightarrow> Inr (join_slash ts)
      | (b # bs, ts) \<Rightarrow> if b = ''..'' then Inl [] else Inr (join_slash (replicate (length (b # bs)) ''..'' @ ts)))"

section \<open>The file system\<close>

record 'f os =
  ReadFile :: "string \<Rightarrow> 'f \<Rightarrow> (error + bytes) \<times> 'f"
  MkdirAll :: "string \<Rightarrow> 'f \<Rightarrow> error option \<times> 'f"
  OpenExcl :: "string \<Rightarrow> 'f \<Rightarrow> error option \<times> 'f"
  CreateTemp :: "string \<Rightarrow> string \<Rightarrow> 'f \<Rightarrow> (error + string) \<times> 'f"
  Write :: "string \<Rightarrow> bytes \<Rightarrow> 'f \<Rightarrow> error option \<times> 'f"
  Sync :: "string \<Rightarrow> 'f \<Rightarrow> error option \<times> 'f"
  Close :: "string \<Rightarrow> 'f \<Rightarrow> error option \<times> 'f"
  Rename :: "string \<Rightarrow> string \<Rightarrow> 'f \<Rightarrow> error option \<times> 'f"
  Remove :: "string \<Rightarrow> 'f \<Rightarrow> error option \<times> 'f"
  WalkDir :: "string \<Rightarrow> 'f \<Rightarrow> (error + string \<times> bool) list \<times> 'f"

text \<open>
  \<open>OpenExcl\<close> is \<open>os.OpenFile\<close> with the flags for writing and exclusive creation; \<open>WalkDir\<close> gives the calls
  a walk makes of its function: an error, or a name and whether it is a directory.
\<close>

section \<open>The backend\<close>

record fs_Store =
  fs_root :: string

definition fs_New :: "'f os \<Rightarrow> string \<Rightarrow> 'f \<Rightarrow> (error + fs_Store) \<times> 'f" where
  "fs_New os dir s =
     (case MkdirAll os dir s of
        (Some e, s) \<Rightarrow> (Inl (wrap [] e), s)
      | (None, s) \<Rightarrow> (Inr \<lparr>fs_root = dir\<rparr>, s))"

definition fs_String :: "fs_Store option \<Rightarrow> string" where
  "fs_String st = (case st of
       None \<Rightarrow> ''<nil>''
     | Some st \<Rightarrow> if HasPrefix (fs_root st) ''/'' then ''file://'' @ fs_root st else ''file:'' @ fs_root st)"

definition resolve :: "fs_Store \<Rightarrow> string \<Rightarrow> error + string" where
  "resolve st key =
     (if key = '''' then Inl [ErrInvalidKey]
      else if CHR 0x5C \<in> set key then Inl [ErrInvalidKey]
      else if path_Clean key \<noteq> key then Inl [ErrInvalidKey]
      else if \<not> IsLocal key then Inl [ErrInvalidKey]
      else Inr (filepath_Join (fs_root st) key))"

text \<open>The content hash: 64-bit FNV-1a, printed in hexadecimal.\<close>

definition fnv1a :: "bytes \<Rightarrow> u64" where
  "fnv1a d = fold (\<lambda>ch h. xor h (of_nat (of_char ch)) * 1099511628211) d 14695981039346656037"

fun hex :: "nat \<Rightarrow> string" where
  "hex n = (if n < 16 then [''0123456789abcdef'' ! n] else hex (n div 16) @ [''0123456789abcdef'' ! (n mod 16)])"

declare hex.simps [simp del]

definition fs_version :: "bytes \<Rightarrow> version" where
  "fs_version d = hex (unat (fnv1a d))"

definition fs_Get :: "'f os \<Rightarrow> fs_Store \<Rightarrow> ctx \<Rightarrow> string \<Rightarrow> 'f \<Rightarrow> (error + bytes \<times> version) \<times> 'f" where
  "fs_Get os st c key s =
     (case ctx_Err c of Some e \<Rightarrow> (Inl e, s) | None \<Rightarrow>
      case resolve st key of Inl e \<Rightarrow> (Inl e, s) | Inr name \<Rightarrow>
      (case ReadFile os name s of
         (Inl e, s) \<Rightarrow> if errors_Is e fs_ErrNotExist then (Inl [ErrNotExist], s) else (Inl (wrap [] e), s)
       | (Inr d, s) \<Rightarrow> (Inr (d, fs_version d), s)))"

text \<open>The part of \<open>Create\<close> with the file open, whose close is deferred to every return.\<close>

definition fs_fill :: "'f os \<Rightarrow> string \<Rightarrow> bytes \<Rightarrow> 'f \<Rightarrow> (error + version) \<times> 'f" where
  "fs_fill os name d s =
     (case Write os name d s of
        (Some e, s) \<Rightarrow> (Inl (wrap [] e), snd (Close os name s))
      | (None, s) \<Rightarrow>
          (case Sync os name s of
             (Some e, s) \<Rightarrow> (Inl (wrap [] e), snd (Close os name s))
           | (None, s) \<Rightarrow> (Inr (fs_version d), snd (Close os name s))))"

definition fs_Create :: "'f os \<Rightarrow> fs_Store \<Rightarrow> ctx \<Rightarrow> string \<Rightarrow> bytes \<Rightarrow> 'f \<Rightarrow> (error + version) \<times> 'f" where
  "fs_Create os st c key d s =
     (case ctx_Err c of Some e \<Rightarrow> (Inl e, s) | None \<Rightarrow>
      case resolve st key of Inl e \<Rightarrow> (Inl e, s) | Inr name \<Rightarrow>
      (case MkdirAll os (filepath_Dir name) s of
         (Some e, s) \<Rightarrow> (Inl (wrap [] e), s)
       | (None, s) \<Rightarrow>
           (case OpenExcl os name s of
              (Some e, s) \<Rightarrow> if errors_Is e fs_ErrExist then (Inl [ErrExist], s) else (Inl (wrap [] e), s)
            | (None, s) \<Rightarrow> fs_fill os name d s)))"

text \<open>The part of \<open>Swap\<close> with the temporary file made, whose removal is deferred to every return.\<close>

definition fs_replace :: "'f os \<Rightarrow> string \<Rightarrow> string \<Rightarrow> bytes \<Rightarrow> 'f \<Rightarrow> (error + version) \<times> 'f" where
  "fs_replace os tmp name d s =
     (let removed = (\<lambda>s. snd (Remove os tmp s))
      in case Write os tmp d s of
           (Some e, s) \<Rightarrow> (Inl (wrap [] e), removed (snd (Close os tmp s)))
         | (None, s) \<Rightarrow>
             (case Sync os tmp s of
                (Some e, s) \<Rightarrow> (Inl (wrap [] e), removed (snd (Close os tmp s)))
              | (None, s) \<Rightarrow>
                  (case Close os tmp s of
                     (Some e, s) \<Rightarrow> (Inl (wrap [] e), removed s)
                   | (None, s) \<Rightarrow>
                       (case Rename os tmp name s of
                          (Some e, s) \<Rightarrow> (Inl (wrap [] e), removed s)
                        | (None, s) \<Rightarrow> (Inr (fs_version d), removed s)))))"

definition fs_Swap :: "'f os \<Rightarrow> fs_Store \<Rightarrow> ctx \<Rightarrow> string \<Rightarrow> bytes \<Rightarrow> version \<Rightarrow> 'f \<Rightarrow> (error + version) \<times> 'f" where
  "fs_Swap os st c key d expect s =
     (case ctx_Err c of Some e \<Rightarrow> (Inl e, s) | None \<Rightarrow>
      case resolve st key of Inl e \<Rightarrow> (Inl e, s) | Inr name \<Rightarrow>
      (case ReadFile os name s of
         (current, s) \<Rightarrow>
           (case (case current of
                    Inl e \<Rightarrow> if errors_Is e fs_ErrNotExist then (if expect \<noteq> NoVersion then Some [ErrNotExist] else None)
                             else Some (wrap [] e)
                  | Inr cur \<Rightarrow> if fs_version cur \<noteq> expect then Some [ErrVersionMismatch] else None) of
              Some e \<Rightarrow> (Inl e, s)
            | None \<Rightarrow>
                (case MkdirAll os (filepath_Dir name) s of
                   (Some e, s) \<Rightarrow> (Inl (wrap [] e), s)
                 | (None, s) \<Rightarrow>
                     (case CreateTemp os (filepath_Dir name) ''.swap-*'' s of
                        (Inl e, s) \<Rightarrow> (Inl (wrap [] e), s)
                      | (Inr tmp, s) \<Rightarrow> fs_replace os tmp name d s)))))"

definition fs_Delete :: "'f os \<Rightarrow> fs_Store \<Rightarrow> ctx \<Rightarrow> string \<Rightarrow> 'f \<Rightarrow> error option \<times> 'f" where
  "fs_Delete os st c key s =
     (case ctx_Err c of Some e \<Rightarrow> (Some e, s) | None \<Rightarrow>
      case resolve st key of Inl e \<Rightarrow> (Some e, s) | Inr name \<Rightarrow>
      (case Remove os name s of
         (Some e, s) \<Rightarrow> if \<not> errors_Is e fs_ErrNotExist then (Some (wrap [] e), s) else (None, s)
       | (None, s) \<Rightarrow> (None, s)))"

text \<open>The function a listing's walk calls, over the calls the walk makes.\<close>

fun list_walk :: "ctx \<Rightarrow> string \<Rightarrow> string \<Rightarrow> (error + string \<times> bool) list \<Rightarrow> (error + string) list" where
  "list_walk c root prfx [] = []"
| "list_walk c root prfx (Inl e # es) = [Inl (wrap [] e)]"
| "list_walk c root prfx (Inr (name, isDir) # es) =
     (case ctx_Err c of
        Some e \<Rightarrow> [Inl (wrap [] e)]
      | None \<Rightarrow>
          if isDir then list_walk c root prfx es
          else case filepath_Rel root name of
            Inl e \<Rightarrow> [Inl (wrap [] e)]
          | Inr key \<Rightarrow> if \<not> HasPrefix key prfx then list_walk c root prfx es else Inr key # list_walk c root prfx es)"

definition fs_List :: "'f os \<Rightarrow> fs_Store \<Rightarrow> ctx \<Rightarrow> string \<Rightarrow> 'f \<Rightarrow> (error + string) list \<times> 'f" where
  "fs_List os st c prfx s =
     (case WalkDir os (fs_root st) s of (calls, s) \<Rightarrow> (list_walk c (fs_root st) prfx calls, s))"

definition fs_store :: "'f os \<Rightarrow> fs_Store \<Rightarrow> 'f store" where
  "fs_store os st = \<lparr>Get = fs_Get os st, Create = fs_Create os st, Swap = fs_Swap os st, Delete = fs_Delete os st\<rparr>"

section \<open>Where keys lead\<close>

text \<open>The path with these segments, as \<open>path.Clean\<close> writes it.\<close>

definition of_parts :: "bool \<Rightarrow> string list \<Rightarrow> string" where
  "of_parts rooted out = (if rooted then ''/'' @ join_slash out else if out = [] then ''.'' else join_slash out)"

definition key_parts :: "string \<Rightarrow> string list" where
  "key_parts key = (if key = ''.'' then [] else segments key)"

lemma clean_append: "clean_segments r (xs @ ys) stk = clean_segments r ys (rev (clean_segments r xs stk))"
  by (induction xs arbitrary: stk) auto

lemma clean_no_slash:
  "\<forall>x \<in> set xs \<union> set stk. CHR ''/'' \<notin> set x \<Longrightarrow> \<forall>x \<in> set (clean_segments r xs stk). CHR ''/'' \<notin> set x"
proof (induction xs arbitrary: stk)
  case (Cons x xs)
  let ?stk = "if x = '''' \<or> x = ''.'' then stk
        else if x = ''..'' then (case stk of [] \<Rightarrow> if r then [] else [''..''] | y # ys \<Rightarrow> if y = ''..'' then ''..'' # stk else ys)
        else x # stk"
  have "\<forall>x \<in> set xs \<union> set ?stk. CHR ''/'' \<notin> set x" using Cons.prems by (auto split: list.splits if_splits)
  from Cons.IH [OF this] show ?case by simp
qed auto

lemma clean_parts_no_slash: "\<forall>x \<in> set (clean_parts p). CHR ''/'' \<notin> set x"
  unfolding clean_parts_def by (rule clean_no_slash) (simp add: segments_no_slash)

lemma resolve_parts:
  assumes "resolve st key = Inr name"
  shows "name = of_parts (HasPrefix (fs_root st) ''/'') (clean_parts (fs_root st) @ key_parts key)"
    and "key = ''.'' \<or> list_all plain_segment (segments key)" and "CHR 0x5C \<notin> set key"
proof -
  have k: "key \<noteq> ''''" "CHR 0x5C \<notin> set key" "path_Clean key = key" "IsLocal key"
    and name: "name = filepath_Join (fs_root st) key"
    using assms by (auto simp: resolve_def split: if_splits)
  then show "CHR 0x5C \<notin> set key" by simp
  have l: "\<not> HasPrefix key ''/''" "\<not> (key = ''..'' \<or> HasPrefix key ''../'')"
    using k by (auto simp: IsLocal_def Let_def)
  with clean_relative k show p: "key = ''.'' \<or> list_all plain_segment (segments key)" by blast
  have c: "clean_segments r (segments key) stk = rev stk @ key_parts key" for r stk
    using p clean_plain by (auto simp: key_parts_def plain_segment_def)
  show "name = of_parts (HasPrefix (fs_root st) ''/'') (clean_parts (fs_root st) @ key_parts key)"
  proof (cases "fs_root st = ''''")
    case True
    have "name = path_Clean key" using name True k(1) by (simp add: filepath_Join_def)
    then show ?thesis using True c [of False "[]"] l(1)
      by (simp add: path_Clean_def of_parts_def clean_parts_def Let_def)
  next
    case False
    let ?p = "fs_root st @ ''/'' @ key"
    have "segments ?p = segments (fs_root st) @ segments key" by (simp add: segments_slash)
    moreover have "HasPrefix ?p ''/'' = HasPrefix (fs_root st) ''/''" using False by (cases "fs_root st") auto
    ultimately have "path_Clean ?p = of_parts (HasPrefix (fs_root st) ''/'') (clean_parts (fs_root st) @ key_parts key)"
      unfolding path_Clean_def of_parts_def clean_parts_def Let_def by (simp add: clean_append c)
    then show ?thesis using name False by (simp add: filepath_Join_def)
  qed
qed

lemma resolve_accepts:
  assumes "CHR 0x5C \<notin> set key" and "key = ''.'' \<or> list_all plain_segment (segments key)"
  shows "resolve st key = Inr (filepath_Join (fs_root st) key)"
proof (cases "key = ''.''")
  case True
  have "path_Clean ''.'' = ''.''" by (simp add: path_Clean_def)
  with True show ?thesis by (simp add: resolve_def IsLocal_def)
next
  case False
  with assms(2) plain_path [of key] assms(1) show ?thesis by (simp add: resolve_def IsLocal_def)
qed

lemma join_slash_inject:
  assumes "\<forall>x \<in> set xs. CHR ''/'' \<notin> set x" "\<forall>x \<in> set ys. CHR ''/'' \<notin> set x" "xs \<noteq> []" "ys \<noteq> []"
    and "join_slash xs = join_slash ys"
  shows "xs = ys"
  using segments_join assms by metis

lemma of_parts_inject:
  assumes s: "\<forall>x \<in> set (P @ X). CHR ''/'' \<notin> set x" "\<forall>x \<in> set (P @ Y). CHR ''/'' \<notin> set x"
    and pl: "list_all plain_segment X" "list_all plain_segment Y"
    and eq: "of_parts r (P @ X) = of_parts r (P @ Y)"
  shows "X = Y"
proof -
  have empty: "join_slash xs = '''' \<Longrightarrow> xs = [] \<or> xs = ['''']" for xs by (cases xs rule: join_slash.cases) auto
  have dot: "join_slash xs = ''.'' \<Longrightarrow> \<forall>x \<in> set xs. CHR ''/'' \<notin> set x \<Longrightarrow> xs = [''.'']" for xs
    using segments_join [of xs] by (cases "xs = []") (auto simp: segments_plain)
  consider "P @ X = []" | "P @ Y = []" | "P @ X \<noteq> []" "P @ Y \<noteq> []" by blast
  then show ?thesis
  proof cases
    case 1
    then have "P @ Y = [] \<or> P @ Y = [''''] \<or> P @ Y = [''.'']"
      using eq empty [of "P @ Y"] dot [of "P @ Y"] s by (auto simp: of_parts_def split: if_splits)
    with 1 pl show ?thesis by (auto simp: plain_segment_def)
  next
    case 2
    then have "P @ X = [] \<or> P @ X = [''''] \<or> P @ X = [''.'']"
      using eq empty [of "P @ X"] dot [of "P @ X"] s by (auto simp: of_parts_def split: if_splits)
    with 2 pl show ?thesis by (auto simp: plain_segment_def)
  next
    case 3
    then have "join_slash (P @ X) = join_slash (P @ Y)" using eq by (auto simp: of_parts_def split: if_splits)
    from join_slash_inject [OF s 3 this] show ?thesis by simp
  qed
qed

lemma key_parts_plain: "key = ''.'' \<or> list_all plain_segment (segments key) \<Longrightarrow>
    list_all plain_segment (key_parts key) \<and> (\<forall>x \<in> set (key_parts key). CHR ''/'' \<notin> set x)"
  by (auto simp: key_parts_def segments_no_slash)

lemma key_parts_inject:
  assumes "key_parts k = key_parts k'"
  shows "k = k'"
  using assms by (metis key_parts_def join_segments segments_nonempty)

lemma resolve_inject:
  assumes "resolve st k = Inr n" "resolve st k' = Inr n"
  shows "k = k'"
proof -
  note a = resolve_parts [OF assms(1)] and b = resolve_parts [OF assms(2)]
  note ka = key_parts_plain [OF a(2)] and kb = key_parts_plain [OF b(2)]
  have "key_parts k = key_parts k'"
    by (rule of_parts_inject [of "clean_parts (fs_root st)" _ _ "HasPrefix (fs_root st) ''/''"])
      (use ka kb clean_parts_no_slash a(1) b(1) in auto)
  then show ?thesis by (rule key_parts_inject)
qed

section \<open>What the file system does\<close>

type_synonym file_map = "string \<Rightarrow> bytes option"

definition os_error :: "error \<Rightarrow> bool" where
  "os_error e \<longleftrightarrow> set e \<subseteq> {fs_ErrNotExist, fs_ErrExist}"

text \<open>The names \<open>os.CreateTemp\<close> makes for the backend's pattern.\<close>

definition temp_file :: "string \<Rightarrow> bool" where
  "temp_file name \<longleftrightarrow> HasPrefix (last (segments name)) ''.swap-''"

text \<open>
  The regular files, by name. A call that fails has no effect on them, but for a write, which may have
  written a part; directories are not seen, and making one changes no file.
\<close>

locale file_tree =
  fixes os :: "'f os" and files :: "'f \<Rightarrow> file_map" and ok :: "'f \<Rightarrow> bool"
  assumes read_ok: "ok s \<Longrightarrow> ReadFile os n s = (r, s') \<Longrightarrow> ok s' \<and> files s' = files s \<and>
      (case r of Inr d \<Rightarrow> files s n = Some d
       | Inl e \<Rightarrow> os_error e \<and> (errors_Is e fs_ErrNotExist \<longrightarrow> files s n = None))"
    and mkdir_ok: "ok s \<Longrightarrow> MkdirAll os n s = (x, s') \<Longrightarrow> ok s' \<and> files s' = files s \<and> (\<forall>e. x = Some e \<longrightarrow> os_error e)"
    and open_ok: "ok s \<Longrightarrow> OpenExcl os n s = (x, s') \<Longrightarrow> ok s' \<and>
      (case x of None \<Rightarrow> files s n = None \<and> files s' = (files s)(n \<mapsto> []) | Some e \<Rightarrow> os_error e \<and> files s' = files s)"
    and temp_ok: "ok s \<Longrightarrow> CreateTemp os dir ''.swap-*'' s = (y, s') \<Longrightarrow> ok s' \<and>
      (case y of Inr n \<Rightarrow> temp_file n \<and> files s n = None \<and> files s' = (files s)(n \<mapsto> []) | Inl e \<Rightarrow> os_error e \<and> files s' = files s)"
    and write_ok: "ok s \<Longrightarrow> files s n = Some [] \<Longrightarrow> Write os n d s = (x, s') \<Longrightarrow> ok s' \<and>
      (case x of None \<Rightarrow> files s' = (files s)(n \<mapsto> d)
       | Some e \<Rightarrow> os_error e \<and> (\<exists>d'. prefix d' d \<and> files s' = (files s)(n \<mapsto> d')))"
    and sync_ok: "ok s \<Longrightarrow> Sync os n s = (x, s') \<Longrightarrow> ok s' \<and> files s' = files s \<and> (\<forall>e. x = Some e \<longrightarrow> os_error e)"
    and close_ok: "ok s \<Longrightarrow> Close os n s = (x, s') \<Longrightarrow> ok s' \<and> files s' = files s \<and> (\<forall>e. x = Some e \<longrightarrow> os_error e)"
    and rename_ok: "ok s \<Longrightarrow> files s n = Some d \<Longrightarrow> n \<noteq> m \<Longrightarrow> Rename os n m s = (x, s') \<Longrightarrow> ok s' \<and>
      (case x of None \<Rightarrow> files s' = (files s)(m \<mapsto> d, n := None) | Some e \<Rightarrow> os_error e \<and> files s' = files s)"
    and remove_ok: "ok s \<Longrightarrow> Remove os n s = (x, s') \<Longrightarrow> ok s' \<and>
      (case x of None \<Rightarrow> files s' = (files s)(n := None)
       | Some e \<Rightarrow> os_error e \<and> files s' = files s \<and> (errors_Is e fs_ErrNotExist \<longrightarrow> files s n = None))"

text \<open>The objects of a tree: the files keys lead to, less the backend's own temporary ones.\<close>

definition fs_view :: "fs_Store \<Rightarrow> ('f \<Rightarrow> file_map) \<Rightarrow> 'f \<Rightarrow> view" where
  "fs_view st files s = (\<lambda>k. case resolve st k of
       Inl _ \<Rightarrow> None
     | Inr name \<Rightarrow> if temp_file name then None else map_option (\<lambda>d. (d, fs_version d)) (files s name))"

lemma fs_view_at: "resolve st k = Inr n \<Longrightarrow> \<not> temp_file n \<Longrightarrow>
    fs_view st files s k = map_option (\<lambda>d. (d, fs_version d)) (files s n)"
  by (simp add: fs_view_def)

lemma fs_view_upd:
  assumes "resolve st k = Inr n" "\<not> temp_file n" "\<And>m. \<not> temp_file m \<Longrightarrow> files s' m = (if m = n then Some d else files s m)"
  shows "fs_view st files s' = (fs_view st files s)(k \<mapsto> (d, fs_version d))"
  using assms resolve_inject [of st] by (fastforce simp: fs_view_def fun_eq_iff split: sum.splits)

lemma fs_view_del:
  assumes "resolve st k = Inr n" "\<not> temp_file n" "files s' = (files s)(n := None)"
  shows "fs_view st files s' = (fs_view st files s)(k := None)"
  using assms resolve_inject [of st] by (fastforce simp: fs_view_def fun_eq_iff split: sum.splits)

lemma fs_view_same: "(\<And>m. \<not> temp_file m \<Longrightarrow> files s' m = files s m) \<Longrightarrow> fs_view st files s' = fs_view st files s"
  by (auto simp: fs_view_def fun_eq_iff split: sum.splits)

lemma fs_version_nonempty [simp]: "fs_version d \<noteq> NoVersion"
  by (simp add: fs_version_def NoVersion_def hex.simps [of "unat (fnv1a d)"])

lemma os_error_store: "os_error e \<Longrightarrow> store_error e \<and> \<not> errors_Is e ErrNotExist \<and> \<not> errors_Is e ErrExist"
  by (auto simp: os_error_def store_error_def errors_Is_def)

lemma resolve_error: "resolve st k = Inl e \<Longrightarrow> e = [ErrInvalidKey]"
  by (auto simp: resolve_def split: if_splits)

context file_tree
begin

text \<open>What a swap does once its temporary file is made: every other file but the one replaced keeps its content.\<close>

lemma replace_files:
  assumes s: "ok s" "files s tmp = Some []" "temp_file tmp" "\<not> temp_file n"
    and r: "fs_replace os tmp n d s = (r, s')"
  shows "ok s' \<and> (case r of
      Inr v \<Rightarrow> v = fs_version d \<and> (\<forall>m. \<not> temp_file m \<longrightarrow> files s' m = (if m = n then Some d else files s m))
    | Inl e \<Rightarrow> os_error e \<and> (\<forall>m. \<not> temp_file m \<longrightarrow> files s' m = files s m))"
proof -
  have ne: "tmp \<noteq> n" using s(3,4) by auto
  have rm: "ok (snd (Remove os tmp u)) \<and> (\<forall>m. \<not> temp_file m \<longrightarrow> files (snd (Remove os tmp u)) m = files u m)" if "ok u" for u
  proof -
    obtain x u' where x: "Remove os tmp u = (x, u')" by fastforce
    from remove_ok [OF that x] s(3) x show ?thesis by (auto split: option.splits)
  qed
  have cl: "ok (snd (Close os tmp u)) \<and> files (snd (Close os tmp u)) = files u" if "ok u" for u
    using close_ok [OF that] by (metis prod.collapse)
  obtain x1 s1 where w: "Write os tmp d s = (x1, s1)" by fastforce
  note w1 = write_ok [OF s(1,2) w]
  show ?thesis
  proof (cases x1)
    case (Some e)
    then have "r = Inl e" "s' = snd (Remove os tmp (snd (Close os tmp s1)))"
      using r w by (auto simp: fs_replace_def wrap_def Let_def)
    moreover have "\<forall>m. \<not> temp_file m \<longrightarrow> files s1 m = files s m" using w1 Some s(3) by auto
    ultimately show ?thesis using w1 Some rm [of "snd (Close os tmp s1)"] cl [of s1] by simp
  next
    case None
    with w1 have o1: "ok s1" "files s1 = (files s)(tmp \<mapsto> d)" by auto
    then have f1: "\<forall>m. \<not> temp_file m \<longrightarrow> files s1 m = files s m" using s(3) by auto
    obtain x2 s2 where y: "Sync os tmp s1 = (x2, s2)" by fastforce
    note y2 = sync_ok [OF o1(1) y]
    show ?thesis
    proof (cases x2)
      case (Some e)
      then have "r = Inl e" "s' = snd (Remove os tmp (snd (Close os tmp s2)))"
        using r w None y by (auto simp: fs_replace_def wrap_def Let_def)
      then show ?thesis using y2 Some f1 rm [of "snd (Close os tmp s2)"] cl [of s2] by simp
    next
      case n2: None
      obtain x3 s3 where z: "Close os tmp s2 = (x3, s3)" by fastforce
      note z3 = close_ok [OF conjunct1 [OF y2] z]
      show ?thesis
      proof (cases x3)
        case (Some e)
        then have "r = Inl e" "s' = snd (Remove os tmp s3)"
          using r w None y n2 z by (auto simp: fs_replace_def wrap_def Let_def)
        then show ?thesis using y2 z3 Some f1 rm [of s3] by simp
      next
        case n3: None
        obtain x4 s4 where v: "Rename os tmp n s3 = (x4, s4)" by fastforce
        have "files s3 tmp = Some d" using z3 y2 o1(2) by simp
        note v4 = rename_ok [OF conjunct1 [OF z3] this ne v]
        have e: "r = (case x4 of None \<Rightarrow> Inr (fs_version d) | Some e \<Rightarrow> Inl e) \<and> s' = snd (Remove os tmp s4)"
          using r w None y n2 z n3 v by (cases x4) (auto simp: fs_replace_def wrap_def Let_def)
        show ?thesis
        proof (cases x4)
          case (Some e4)
          with e v4 z3 y2 f1 rm [of s4] show ?thesis by simp
        next
          case n4: None
          then have "\<forall>m. \<not> temp_file m \<longrightarrow> files s4 m = (if m = n then Some d else files s m)"
            using v4 z3 y2 o1(2) s(3) by auto
          with e n4 v4 rm [of s4] show ?thesis by simp
        qed
      qed
    qed
  qed
qed

lemma fs_get:
  assumes s: "ok s" and k: "\<And>n. resolve st k = Inr n \<Longrightarrow> \<not> temp_file n" and r: "fs_Get os st c k s = (r, s')"
  shows "ok s' \<and> fs_view st files s' = fs_view st files s \<and>
    (case r of Inr x \<Rightarrow> fs_view st files s k = Some x
     | Inl e \<Rightarrow> store_error e \<and> (errors_Is e ErrNotExist \<longrightarrow> fs_view st files s k = None))"
proof (cases "ctx_Err c")
  case (Some e)
  with r s show ?thesis by (auto simp: fs_Get_def)
next
  case None
  show ?thesis
  proof (cases "resolve st k")
    case (Inl e)
    with r s None resolve_error [OF Inl] show ?thesis by (auto simp: fs_Get_def store_error_def)
  next
    case (Inr n)
    obtain x s1 where x: "ReadFile os n s = (x, s1)" by fastforce
    note rd = read_ok [OF s x] and v = fs_view_at [OF Inr k [OF Inr], of files s]
    have same: "fs_view st files s1 = fs_view st files s" using rd by (intro fs_view_same) simp
    show ?thesis
    proof (cases x)
      case e: (Inl e)
      with os_error_store [of e] rd have "store_error e" "\<not> errors_Is e ErrNotExist" by auto
      with e r rd x None Inr same v show ?thesis by (auto simp: fs_Get_def wrap_def split: if_splits)
    next
      case d: (Inr d)
      with r rd x None Inr same v show ?thesis by (auto simp: fs_Get_def)
    qed
  qed
qed

lemma fill_files:
  assumes s: "ok s" "files s n = Some []" and r: "fs_fill os n d s = (r, s')"
  shows "ok s' \<and> (case r of
      Inr v \<Rightarrow> v = fs_version d \<and> files s' = (files s)(n \<mapsto> d)
    | Inl e \<Rightarrow> os_error e \<and> (\<exists>d'. prefix d' d \<and> files s' = (files s)(n \<mapsto> d')))"
proof -
  have cl: "ok (snd (Close os n u)) \<and> files (snd (Close os n u)) = files u" if "ok u" for u
    using close_ok [OF that] by (metis prod.collapse)
  obtain x1 s1 where w: "Write os n d s = (x1, s1)" by fastforce
  note w1 = write_ok [OF s w]
  show ?thesis
  proof (cases x1)
    case (Some e)
    then have "r = Inl e" "s' = snd (Close os n s1)" using r w by (auto simp: fs_fill_def wrap_def)
    with w1 Some cl [of s1] show ?thesis by simp
  next
    case None
    obtain x2 s2 where y: "Sync os n s1 = (x2, s2)" by fastforce
    have "ok s1" "files s1 = (files s)(n \<mapsto> d)" using w1 None by auto
    note y2 = sync_ok [OF this(1) y] and f = this(2)
    have "r = (case x2 of None \<Rightarrow> Inr (fs_version d) | Some e \<Rightarrow> Inl e) \<and> s' = snd (Close os n s2)"
      using r w None y by (cases x2) (auto simp: fs_fill_def wrap_def)
    with y2 f cl [of s2] show ?thesis by (cases x2) auto
  qed
qed

lemma fs_create:
  assumes s: "ok s" and k: "\<And>n. resolve st k = Inr n \<Longrightarrow> \<not> temp_file n" and r: "fs_Create os st c k d s = (r, s')"
  shows "ok s' \<and> (case r of
      Inr v \<Rightarrow> fs_view st files s k = None \<and> fs_view st files s' = (fs_view st files s)(k \<mapsto> (d, v))
    | Inl e \<Rightarrow> store_error e \<and> (fs_view st files s' = fs_view st files s \<or> fs_view st files s k = None \<and>
        (\<exists>d'. prefix d' d \<and> fs_view st files s' = (fs_view st files s)(k \<mapsto> (d', fs_version d')))))"
proof (cases "ctx_Err c")
  case (Some e)
  with r s show ?thesis by (auto simp: fs_Create_def)
next
  case None
  show ?thesis
  proof (cases "resolve st k")
    case (Inl e)
    then have "r = Inl [ErrInvalidKey]" "s' = s" using r None resolve_error [OF Inl] by (auto simp: fs_Create_def)
    with s show ?thesis by (simp add: store_error_def)
  next
    case (Inr n)
    note t = k [OF Inr]
    obtain x1 s1 where x1: "MkdirAll os (filepath_Dir n) s = (x1, s1)" by fastforce
    note m = mkdir_ok [OF s x1]
    have v1: "fs_view st files s1 = fs_view st files s" using m by (intro fs_view_same) simp
    show ?thesis
    proof (cases x1)
      case e: (Some e)
      with r x1 None Inr m v1 os_error_store [of e] show ?thesis by (auto simp: fs_Create_def wrap_def)
    next
      case n1: None
      obtain x2 s2 where x2: "OpenExcl os n s1 = (x2, s2)" by fastforce
      note o2 = open_ok [OF conjunct1 [OF m] x2]
      show ?thesis
      proof (cases x2)
        case e: (Some e)
        then have "fs_view st files s2 = fs_view st files s1" using o2 by (intro fs_view_same) simp
        with e o2 r x1 x2 n1 None Inr v1 os_error_store [of e] show ?thesis
          by (auto simp: fs_Create_def wrap_def store_error_def split: if_splits)
      next
        case n2: None
        with o2 m have o: "ok s2" "files s n = None" "files s2 = (files s)(n \<mapsto> [])" by auto
        have f: "fs_fill os n d s2 = (r, s')" using r x1 x2 n1 n2 None Inr by (simp add: fs_Create_def)
        have "files s2 n = Some []" using o by simp
        note fl = fill_files [OF o(1) this f]
        have v: "fs_view st files s k = None" using o(2) fs_view_at [OF Inr t, of files s] by simp
        show ?thesis
        proof (cases r)
          case (Inl e)
          with fl o obtain d' where "os_error e" "prefix d' d" "files s' = (files s)(n \<mapsto> d')" by auto
          with fs_view_upd [OF Inr t, of files s' d' s] fl Inl v os_error_store [of e] show ?thesis by auto
        next
          case (Inr u)
          with fl o have "files s' = (files s)(n \<mapsto> d)" "u = fs_version d" by auto
          with fs_view_upd [OF \<open>resolve st k = Inr n\<close> t, of files s' d s] fl Inr v show ?thesis by auto
        qed
      qed
    qed
  qed
qed

text \<open>What follows the check of the version: the directory, the temporary file and its move into place.\<close>

lemma fs_swap_replaces:
  assumes s: "ok s" and n: "resolve st k = Inr n" and t: "\<not> temp_file n"
    and r: "(case MkdirAll os (filepath_Dir n) s of (Some e, s) \<Rightarrow> (Inl (wrap [] e), s) | (None, s) \<Rightarrow>
      (case CreateTemp os (filepath_Dir n) ''.swap-*'' s of (Inl e, s) \<Rightarrow> (Inl (wrap [] e), s) | (Inr tmp, s) \<Rightarrow> fs_replace os tmp n d s)) = (r, s')"
  shows "ok s' \<and> (case r of Inr v \<Rightarrow> fs_view st files s' = (fs_view st files s)(k \<mapsto> (d, v))
    | Inl e \<Rightarrow> store_error e \<and> fs_view st files s' = fs_view st files s)"
proof -
  obtain x2 s2 where x2: "MkdirAll os (filepath_Dir n) s = (x2, s2)" by fastforce
  note m = mkdir_ok [OF s x2]
  have v2: "fs_view st files s2 = fs_view st files s" using m by (intro fs_view_same) simp
  obtain x3 s3 where x3: "CreateTemp os (filepath_Dir n) ''.swap-*'' s2 = (x3, s3)" by fastforce
  note tm = temp_ok [OF conjunct1 [OF m] x3]
  consider (nodir) e where "x2 = Some e" | (notemp) e where "x2 = None" "x3 = Inl e" | (tmp) tmp where "x2 = None" "x3 = Inr tmp"
    by (cases x2; cases x3) auto
  then show ?thesis
  proof cases
    case nodir
    then show ?thesis using x2 r m v2 os_error_store by (auto simp: wrap_def)
  next
    case notemp
    then have "fs_view st files s3 = fs_view st files s2" using tm by (intro fs_view_same) simp
    then show ?thesis using notemp x2 x3 r tm v2 os_error_store by (auto simp: wrap_def)
  next
    case (tmp tmp)
    then have o: "ok s3" "files s3 tmp = Some []" "temp_file tmp" "\<And>m. \<not> temp_file m \<Longrightarrow> files s3 m = files s m" using tm m by auto
    have "fs_replace os tmp n d s3 = (r, s')" using x2 x3 tmp r by simp
    note fl = replace_files [OF o(1-3) t this]
    show ?thesis
    proof (cases r)
      case (Inl e)
      then have "fs_view st files s' = fs_view st files s" using fl o(4) by (intro fs_view_same) simp
      then show ?thesis using fl Inl os_error_store [of e] by simp
    next
      case (Inr u)
      then have "fs_view st files s' = (fs_view st files s)(k \<mapsto> (d, fs_version d))" using fl o(4) by (intro fs_view_upd [OF n t]) simp
      then show ?thesis using fl Inr by simp
    qed
  qed
qed

lemma fs_swap:
  assumes s: "ok s" and k: "\<And>n. resolve st k = Inr n \<Longrightarrow> \<not> temp_file n" and r: "fs_Swap os st c k d expect s = (r, s')"
  shows "ok s' \<and> (case r of
      Inr v \<Rightarrow> swap_matches (fs_view st files s k) expect \<and> fs_view st files s' = (fs_view st files s)(k \<mapsto> (d, v))
    | Inl e \<Rightarrow> store_error e \<and> fs_view st files s' = fs_view st files s)"
proof -
  consider (over) e where "ctx_Err c = Some e" | (bad) e where "ctx_Err c = None" "resolve st k = Inl e"
    | (name) n where "ctx_Err c = None" "resolve st k = Inr n" by (cases "ctx_Err c"; cases "resolve st k") auto
  then show ?thesis
  proof cases
    case over
    then show ?thesis using r s by (auto simp: fs_Swap_def)
  next
    case bad
    then have "r = Inl [ErrInvalidKey]" "s' = s" using r resolve_error [OF bad(2)] by (auto simp: fs_Swap_def)
    then show ?thesis using s by (simp add: store_error_def)
  next
    case (name n)
    note t = k [OF name(2)]
    obtain x1 s1 where x1: "ReadFile os n s = (x1, s1)" by fastforce
    note rd = read_ok [OF s x1]
    have v1: "fs_view st files s1 = fs_view st files s" using rd by (intro fs_view_same) simp
    define guard where "guard = (case x1 of
        Inl e \<Rightarrow> if errors_Is e fs_ErrNotExist then (if expect \<noteq> NoVersion then Some [ErrNotExist] else None) else Some (wrap [] e)
      | Inr cur \<Rightarrow> if fs_version cur \<noteq> expect then Some [ErrVersionMismatch] else None)"
    have def: "fs_Swap os st c k d expect s = (case guard of Some e \<Rightarrow> (Inl e, s1) | None \<Rightarrow>
        (case MkdirAll os (filepath_Dir n) s1 of (Some e, s) \<Rightarrow> (Inl (wrap [] e), s) | (None, s) \<Rightarrow>
          (case CreateTemp os (filepath_Dir n) ''.swap-*'' s of (Inl e, s) \<Rightarrow> (Inl (wrap [] e), s) | (Inr tmp, s) \<Rightarrow> fs_replace os tmp n d s)))"
      using x1 name by (simp add: fs_Swap_def guard_def)
    show ?thesis
    proof (cases guard)
      case (Some e)
      then have "store_error e" using rd os_error_store unfolding guard_def
        by (auto simp: store_error_def wrap_def split: sum.splits if_splits)
      with Some def r rd v1 show ?thesis by simp
    next
      case None
      then have "swap_matches (fs_view st files s k) expect"
        using rd unfolding guard_def fs_view_at [OF name(2) t] swap_matches_def by (auto split: sum.splits if_splits)
      moreover note fs_swap_replaces [OF conjunct1 [OF rd] name(2) t, of d r s']
      ultimately show ?thesis using def r None v1 by (auto split: sum.splits)
    qed
  qed
qed

lemma fs_delete:
  assumes s: "ok s" and k: "\<And>n. resolve st k = Inr n \<Longrightarrow> \<not> temp_file n" and r: "fs_Delete os st c k s = (r, s')"
  shows "ok s' \<and> (if r = None then fs_view st files s' = (fs_view st files s)(k := None) else fs_view st files s' = fs_view st files s)"
proof (cases "ctx_Err c = None \<and> (\<exists>n. resolve st k = Inr n)")
  case False
  with r s show ?thesis by (cases "resolve st k") (auto simp: fs_Delete_def split: option.splits)
next
  case True
  then obtain n where n: "ctx_Err c = None" "resolve st k = Inr n" by blast
  note t = k [OF n(2)]
  obtain x s1 where x: "Remove os n s = (x, s1)" by fastforce
  note rm = remove_ok [OF s x]
  have e: "s' = s1 \<and> r = (case x of None \<Rightarrow> None | Some e \<Rightarrow> if errors_Is e fs_ErrNotExist then None else Some e)"
    using r x n by (cases x) (auto simp: fs_Delete_def wrap_def split: if_splits)
  show ?thesis
  proof (cases x)
    case None
    with rm e fs_view_del [OF n(2) t, of files s1 s] show ?thesis by simp
  next
    case (Some y)
    then have same: "fs_view st files s1 = fs_view st files s" using rm by (intro fs_view_same) simp
    moreover have "fs_view st files s k = None" if "errors_Is y fs_ErrNotExist"
      using that rm Some fs_view_at [OF n(2) t, of files s] by simp
    ultimately show ?thesis using rm e Some by (auto simp: fun_upd_idem)
  qed
qed

end

section \<open>A disk\<close>

text \<open>
  A file system that holds its files in a map and has room for a number of bytes: a write that does not fit
  writes what fits and fails. The temporary file of a directory is named after the number of those made.
\<close>

record disk =
  dfiles :: file_map
  room :: nat
  made :: nat

definition disk_Write :: "string \<Rightarrow> bytes \<Rightarrow> disk \<Rightarrow> error option \<times> disk" where
  "disk_Write n d s =
     (let old = (case dfiles s n of None \<Rightarrow> [] | Some x \<Rightarrow> x); fit = take (room s) d
      in (if length d \<le> room s then None else Some [], s\<lparr>dfiles := (dfiles s)(n \<mapsto> old @ fit), room := room s - length fit\<rparr>))"

definition disk_CreateTemp :: "string \<Rightarrow> string \<Rightarrow> disk \<Rightarrow> (error + string) \<times> disk" where
  "disk_CreateTemp dir pat s =
     (let n = dir @ ''/.swap-'' @ dec (made s)
      in if dfiles s n = None then (Inr n, s\<lparr>dfiles := (dfiles s)(n \<mapsto> []), made := Suc (made s)\<rparr>)
         else (Inl [fs_ErrExist], s))"

definition disk_os :: "disk os" where
  "disk_os =
     \<lparr>ReadFile = (\<lambda>n s. (case dfiles s n of None \<Rightarrow> Inl [fs_ErrNotExist] | Some d \<Rightarrow> Inr d, s)),
      MkdirAll = (\<lambda>n s. (None, s)),
      OpenExcl = (\<lambda>n s. if dfiles s n = None then (None, s\<lparr>dfiles := (dfiles s)(n \<mapsto> [])\<rparr>) else (Some [fs_ErrExist], s)),
      CreateTemp = disk_CreateTemp, Write = disk_Write, Sync = (\<lambda>n s. (None, s)), Close = (\<lambda>n s. (None, s)),
      Rename = (\<lambda>n m s. case dfiles s n of None \<Rightarrow> (Some [fs_ErrNotExist], s)
        | Some d \<Rightarrow> (None, s\<lparr>dfiles := (dfiles s)(n := None, m \<mapsto> d)\<rparr>)),
      Remove = (\<lambda>n s. if dfiles s n = None then (Some [fs_ErrNotExist], s) else (None, s\<lparr>dfiles := (dfiles s)(n := None)\<rparr>)),
      WalkDir = (\<lambda>n s. ([], s))\<rparr>"

lemma temp_file_name: "temp_file (dir @ ''/.swap-'' @ dec n)"
proof -
  have "CHR ''/'' \<notin> set (''.swap-'' @ dec n)" using dec_no_char [of "CHR ''/''" n] by simp
  then have "segments (dir @ CHR ''/'' # (''.swap-'' @ dec n)) = segments dir @ [''.swap-'' @ dec n]"
    by (simp only: segments_slash segments_plain [OF \<open>CHR ''/'' \<notin> set (''.swap-'' @ dec n)\<close>])
  then show ?thesis by (simp add: temp_file_def HasPrefix_iff)
qed

interpretation disk: file_tree disk_os dfiles "\<lambda>s. True"
proof (unfold_locales, goal_cases)
  case 1 then show ?case by (auto simp: disk_os_def os_error_def errors_Is_def split: option.splits)
next
  case 4 then show ?case
    using temp_file_name by (auto simp: disk_os_def disk_CreateTemp_def os_error_def Let_def split: if_splits)
next
  case (5 s n d x s') then show ?case
    using take_is_prefix [of "room s" d] by (auto simp: disk_os_def disk_Write_def os_error_def Let_def split: if_splits)
next
  case (8 s n d m x s') then show ?case
    by (auto simp: disk_os_def fun_upd_twist)
qed (auto simp: disk_os_def os_error_def errors_Is_def split: if_splits)

section \<open>Properties\<close>

text \<open>
  C20. A key leads inside the root and to a file of its own. \<open>resolve\<close> accepts exactly the keys without a
  backslash whose segments are all plain, and the single dot; the path it gives is that of the root
  followed by the key's segments, so no key leaves the root, and two keys never share a path.
\<close>

theorem resolve_stays_inside_the_root:
  "((\<exists>name. resolve st key = Inr name) \<longleftrightarrow>
      CHR 0x5C \<notin> set key \<and> (key = ''.'' \<or> list_all plain_segment (segments key))) \<and>
   (\<forall>name. resolve st key = Inr name \<longrightarrow>
      name = of_parts (HasPrefix (fs_root st) ''/'') (clean_parts (fs_root st) @ key_parts key)) \<and>
   (\<forall>key' name. resolve st key = Inr name \<and> resolve st key' = Inr name \<longrightarrow> key' = key)"
  using resolve_parts resolve_accepts resolve_inject by blast

theorem resolve_stays_inside_the_root_witness:
  "resolve \<lparr>fs_root = ''/srv/''\<rparr> ''cam/root.json'' = Inr ''/srv/cam/root.json'' \<and>
   resolve \<lparr>fs_root = ''/srv/''\<rparr> ''x/../cam/root.json'' \<noteq> Inr ''/srv/cam/root.json''"
proof -
  have "resolve \<lparr>fs_root = ''/srv/''\<rparr> ''cam/root.json'' = Inr ''/srv/cam/root.json''" by code_simp
  with resolve_stays_inside_the_root [of "\<lparr>fs_root = ''/srv/''\<rparr>" "''cam/root.json''"] show ?thesis by fastforce
qed

text \<open>
  C19. On every file system that does what is documented of its calls, whatever calls fail, the backend's
  objects stay whole: a read gives an object as it is and reports it absent only when it is; a swap that
  succeeds found the version it was given and replaced exactly this object, and one that fails changed
  nothing, since a file half written is never the object's; a delete removes exactly the object; a create
  that succeeds found the key free. Only a create that fails may leave something: a prefix of its data.
\<close>

theorem fs_store_keeps_objects_whole:
  assumes S: "file_tree os files ok" and s: "ok s" and k: "\<And>n. resolve st k = Inr n \<Longrightarrow> \<not> temp_file n"
  defines "V \<equiv> fs_view st files"
  shows "(\<forall>r s'. fs_Get os st c k s = (r, s') \<longrightarrow> V s' = V s \<and>
      (case r of Inr x \<Rightarrow> V s k = Some x | Inl e \<Rightarrow> errors_Is e ErrNotExist \<longrightarrow> V s k = None)) \<and>
    (\<forall>r s'. fs_Swap os st c k d expect s = (r, s') \<longrightarrow>
      (case r of Inr v \<Rightarrow> swap_matches (V s k) expect \<and> V s' = (V s)(k \<mapsto> (d, v)) | Inl e \<Rightarrow> V s' = V s)) \<and>
    (\<forall>r s'. fs_Delete os st c k s = (r, s') \<longrightarrow> V s' = (if r = None then (V s)(k := None) else V s)) \<and>
    (\<forall>r s'. fs_Create os st c k d s = (r, s') \<longrightarrow>
      (case r of Inr v \<Rightarrow> V s k = None \<and> V s' = (V s)(k \<mapsto> (d, v))
       | Inl e \<Rightarrow> V s' = V s \<or> V s k = None \<and> (\<exists>d'. prefix d' d \<and> V s' = (V s)(k \<mapsto> (d', fs_version d')))))"
proof -
  have "V s' = V s \<and> (case r of Inr x \<Rightarrow> V s k = Some x | Inl e \<Rightarrow> errors_Is e ErrNotExist \<longrightarrow> V s k = None)"
    if "fs_Get os st c k s = (r, s')" for r s'
    using file_tree.fs_get [OF S s k that] unfolding V_def by (cases r) auto
  moreover have "case r of Inr v \<Rightarrow> swap_matches (V s k) expect \<and> V s' = (V s)(k \<mapsto> (d, v)) | Inl e \<Rightarrow> V s' = V s"
    if "fs_Swap os st c k d expect s = (r, s')" for r s'
    using file_tree.fs_swap [OF S s k that] unfolding V_def by (cases r) auto
  moreover have "V s' = (if r = None then (V s)(k := None) else V s)" if "fs_Delete os st c k s = (r, s')" for r s'
    using file_tree.fs_delete [OF S s k that] unfolding V_def by (simp split: if_splits)
  moreover have "case r of Inr v \<Rightarrow> V s k = None \<and> V s' = (V s)(k \<mapsto> (d, v))
       | Inl e \<Rightarrow> V s' = V s \<or> V s k = None \<and> (\<exists>d'. prefix d' d \<and> V s' = (V s)(k \<mapsto> (d', fs_version d')))"
    if "fs_Create os st c k d s = (r, s')" for r s'
    using file_tree.fs_create [OF S s k that] unfolding V_def by (cases r) auto
  ultimately show ?thesis by blast
qed

definition srv :: fs_Store where
  "srv = \<lparr>fs_root = ''/srv''\<rparr>"

lemma srv_key: "resolve srv ''head'' = Inr ''/srv/head''" "\<not> temp_file ''/srv/head''"
  by (code_simp, code_simp)

theorem fs_store_keeps_objects_whole_witness:
  "\<exists>v s'. fs_Swap disk_os srv Live ''head'' ''x'' NoVersion \<lparr>dfiles = Map.empty, room = 9, made = 0\<rparr> = (Inr v, s') \<and>
    fs_view srv dfiles s' = [''head'' \<mapsto> (''x'', v)]"
proof -
  let ?s = "\<lparr>dfiles = Map.empty, room = 9, made = 0\<rparr> :: disk"
  obtain r s' where x: "fs_Swap disk_os srv Live ''head'' ''x'' NoVersion ?s = (r, s')" by fastforce
  moreover from x have "\<exists>v. r = Inr v"
    by (auto simp: fs_Swap_def srv_key ctx_Err_def disk_os_def disk_CreateTemp_def disk_Write_def fs_replace_def Let_def)
  moreover have "fs_view srv dfiles ?s = Map.empty" by (auto simp: fs_view_def fun_eq_iff split: sum.splits)
  ultimately show ?thesis
    using fs_store_keeps_objects_whole [OF disk.file_tree_axioms, of srv "''head''" Live ?s "''x''" NoVersion] srv_key
    by auto
qed

text \<open>
  A failed create can leave a torn object that stays: when the disk has no room for the data, \<open>Create\<close>
  fails but leaves the part that fitted, and from then on the key is taken: reading it gives that part, and
  no create of it can succeed.
\<close>

theorem failed_create_leaves_a_torn_object:
  assumes n: "resolve st k = Inr n" and free: "dfiles s n = None" and full: "room s < length d"
  shows "\<exists>s'. fs_Create disk_os st Live k d s = (Inl [], s') \<and>
    fs_Get disk_os st Live k s' = (Inr (take (room s) d, fs_version (take (room s) d)), s') \<and>
    (\<forall>d'. fs_Create disk_os st Live k d' s' = (Inl [ErrExist], s'))"
  using assms
  by (simp add: fs_Create_def fs_Get_def fs_fill_def disk_os_def disk_Write_def ctx_Err_def wrap_def Let_def)

theorem failed_create_leaves_a_torn_object_witness:
  "\<exists>s'. fs_Create disk_os srv Live ''head'' ''data'' \<lparr>dfiles = Map.empty, room = 2, made = 0\<rparr> = (Inl [], s') \<and>
    fs_Get disk_os srv Live ''head'' s' = (Inr (''da'', fs_version ''da''), s')"
  using failed_create_leaves_a_torn_object [of srv "''head''" "''/srv/head''" "\<lparr>dfiles = Map.empty, room = 2, made = 0\<rparr>" "''data''"] srv_key
  by (auto simp: numeral_2_eq_2)

end
