(* ===== verification/Bucket_Sign.thy ===== *)
theory Bucket_Sign
  imports Mem_Store "HOL-Library.AList" "HOL-Library.Multiset"
begin

text \<open>
  The request signer of the bucket backend (\<open>ledger/store/bucket/sign.go\<close>): Signature Version 4 over the
  canonical form of a request. SHA-256 and its keyed form are arguments of the definitions (\<open>sha\<close> and
  \<open>mac\<close>), since nothing below depends on which hash they are; the rest, down to the escaping of paths and
  queries and the two date formats, is written out.
\<close>

section \<open>Requests\<close>

type_synonym http_Header = "(string \<times> string list) list"
type_synonym url_Values = "(string \<times> string list) list"

text \<open>
  What a request carries. The query of a request is kept as its names and values, which is what encoding it
  into the URL and reading it back gives; the two raw fields are the escaped forms the signer sets.
\<close>

record request =
  Method :: string
  URL_Scheme :: string
  URL_Host :: string
  URL_Path :: string
  URL_RawPath :: string
  URL_Query :: url_Values
  URL_RawQuery :: string
  Header :: http_Header
  Body :: bytes

text \<open>\<open>http.Header.Set\<close>, for names in canonical form as all here are.\<close>

definition header_Set :: "string \<Rightarrow> string \<Rightarrow> http_Header \<Rightarrow> http_Header" where
  "header_Set name v h = AList.update name [v] h"

text \<open>\<open>strings.Join\<close>, \<open>strings.TrimSpace\<close> and \<open>strings.ToLower\<close> for ASCII.\<close>

fun Join :: "string list \<Rightarrow> string \<Rightarrow> string" where
  "Join [] sep = ''''"
| "Join [x] sep = x"
| "Join (x # y # xs) sep = x @ sep @ Join (y # xs) sep"

definition is_space :: "char \<Rightarrow> bool" where
  "is_space ch \<longleftrightarrow> ch = CHR '' '' \<or> 9 \<le> (of_char ch :: nat) \<and> (of_char ch :: nat) \<le> 13"

definition TrimSpace :: "string \<Rightarrow> string" where
  "TrimSpace s = rev (dropWhile is_space (rev (dropWhile is_space s)))"

definition lower :: "char \<Rightarrow> char" where
  "lower ch = (let n = (of_char ch :: nat) in if 65 \<le> n \<and> n \<le> 90 then char_of (n + 32) else ch)"

definition ToLower :: "string \<Rightarrow> string" where
  "ToLower s = map lower s"

section \<open>Escaping\<close>

definition hexDigit :: "nat \<Rightarrow> char" where
  "hexDigit n = ''0123456789ABCDEF'' ! n"

definition is_upper :: "char \<Rightarrow> bool" where
  "is_upper ch \<longleftrightarrow> 65 \<le> (of_char ch :: nat) \<and> (of_char ch :: nat) \<le> 90"

definition is_lower :: "char \<Rightarrow> bool" where
  "is_lower ch \<longleftrightarrow> 97 \<le> (of_char ch :: nat) \<and> (of_char ch :: nat) \<le> 122"

definition escape_char :: "bool \<Rightarrow> char \<Rightarrow> string" where
  "escape_char encodeSlash ch =
     (if is_upper ch \<or> is_lower ch \<or> is_digit ch \<or> ch \<in> {CHR ''-'', CHR ''_'', CHR ''.'', CHR ''~''} \<or>
         ch = CHR ''/'' \<and> \<not> encodeSlash
      then [ch]
      else [CHR ''%'', hexDigit (of_char ch div 16), hexDigit (of_char ch mod 16)])"

definition escape :: "string \<Rightarrow> bool \<Rightarrow> string" where
  "escape s encodeSlash = concat (map (escape_char encodeSlash) s)"

definition escapePath :: "string \<Rightarrow> string" where
  "escapePath path = (if path = '''' then ''/'' else escape path False)"

definition canonicalQuery :: "url_Values \<Rightarrow> string" where
  "canonicalQuery query =
     Join (sort (concat (map (\<lambda>(name, vs). map (\<lambda>v. escape name True @ ''='' @ escape v True) vs) query))) ''&''"

section \<open>Times\<close>

text \<open>The civil date of a day counted from 1970-01-01, as year, month and day.\<close>

definition civil :: "int \<Rightarrow> int \<times> int \<times> int" where
  "civil days =
     (let z = days + 719468;
          era = z div 146097;
          doe = z mod 146097;
          yoe = (doe - doe div 1460 + doe div 36524 - doe div 146096) div 365;
          doy = doe - (365 * yoe + yoe div 4 - yoe div 100);
          mp = (5 * doy + 2) div 153;
          m = (if mp < 10 then mp + 3 else mp - 9)
      in (yoe + era * 400 + (if m \<le> 2 then 1 else 0), m, doy - (153 * mp + 2) div 5 + 1))"

text \<open>\<open>time.Time.Format\<close> with the layouts \<open>amzDay\<close> and \<open>amzDate\<close>, for a time in nanoseconds since 1970.\<close>

definition format_amzDay :: "int \<Rightarrow> string" where
  "format_amzDay t =
     (case civil (t div (86400 * 10 ^ 9)) of
        (y, m, d) \<Rightarrow> Sprintf_0d 4 (nat y) @ Sprintf_0d 2 (nat m) @ Sprintf_0d 2 (nat d))"

definition format_amzDate :: "int \<Rightarrow> string" where
  "format_amzDate t =
     (let sec = t div 10 ^ 9 mod 86400
      in format_amzDay t @ ''T'' @ Sprintf_0d 2 (nat (sec div 3600)) @ Sprintf_0d 2 (nat (sec div 60 mod 60)) @
         Sprintf_0d 2 (nat (sec mod 60)) @ ''Z'')"

section \<open>Signing\<close>

record signer =
  sg_region :: string
  sg_accessKeyID :: string
  sg_secretAccessKey :: string
  sg_sessionToken :: string

definition signAlgorithm :: string where
  "signAlgorithm = ''AWS4-HMAC-SHA256''"

definition signService :: string where
  "signService = ''s3''"

definition hex_byte :: "char \<Rightarrow> string" where
  "hex_byte ch = map lower [hexDigit (of_char ch div 16), hexDigit (of_char ch mod 16)]"

text \<open>\<open>hex.EncodeToString\<close>.\<close>

definition EncodeToString :: "bytes \<Rightarrow> string" where
  "EncodeToString b = concat (map hex_byte b)"

definition hashHex :: "(bytes \<Rightarrow> bytes) \<Rightarrow> bytes \<Rightarrow> string" where
  "hashHex sha d = EncodeToString (sha d)"

text \<open>The headers that are signed: the host and every header of the service's own, sorted by name.\<close>

definition signed_headers :: "string \<Rightarrow> http_Header \<Rightarrow> (string \<times> string) list" where
  "signed_headers host h =
     sort_key fst ((''host'', host) #
       map (\<lambda>(name, vs). (ToLower name, TrimSpace (Join vs '',''))) (filter (\<lambda>(name, vs). HasPrefix (ToLower name) ''x-amz-'') h))"

definition sign :: "(bytes \<Rightarrow> bytes) \<Rightarrow> (bytes \<Rightarrow> bytes \<Rightarrow> bytes) \<Rightarrow> signer \<Rightarrow> request \<Rightarrow> bytes \<Rightarrow> int \<Rightarrow> request" where
  "sign sha mac s req payload now =
     (let nl = [CHR 0x0A];
          payloadHash = hashHex sha payload;
          h = header_Set ''X-Amz-Date'' (format_amzDate now) (Header req);
          h = header_Set ''X-Amz-Content-Sha256'' payloadHash h;
          h = (if sg_sessionToken s \<noteq> '''' then header_Set ''X-Amz-Security-Token'' (sg_sessionToken s) h else h);
          path = escapePath (URL_Path req);
          query = canonicalQuery (URL_Query req);
          headers = signed_headers (URL_Host req) h;
          canonicalHeaders = concat (map (\<lambda>(name, v). name @ '':'' @ v @ nl) headers);
          signedHeaders = Join (map fst headers) '';'';
          canonicalRequest = Join [Method req, path, query, canonicalHeaders, signedHeaders, payloadHash] nl;
          scope = format_amzDay now @ ''/'' @ sg_region s @ ''/'' @ signService @ ''/aws4_request'';
          stringToSign = Join [signAlgorithm, format_amzDate now, scope, hashHex sha canonicalRequest] nl;
          key = mac (''AWS4'' @ sg_secretAccessKey s) (format_amzDay now);
          key = mac key (sg_region s);
          key = mac key signService;
          key = mac key ''aws4_request'';
          signature = EncodeToString (mac key stringToSign)
      in req\<lparr>URL_RawPath := path, URL_RawQuery := query,
           Header := header_Set ''Authorization''
             (signAlgorithm @ '' Credential='' @ sg_accessKeyID s @ ''/'' @ scope @ '', SignedHeaders='' @ signedHeaders @
              '', Signature='' @ signature) h\<rparr>)"

section \<open>The canonical form\<close>

text \<open>Escaping loses nothing: the reader of a URL gets the path back, byte by byte.\<close>

definition hex_value :: "char \<Rightarrow> nat" where
  "hex_value ch = (if is_digit ch then of_char ch - 48 else of_char ch - 55)"

fun unescape :: "string \<Rightarrow> string" where
  "unescape [] = []"
| "unescape (x # xs) =
     (if x = CHR ''%'' then
        (case xs of a # b # ys \<Rightarrow> char_of (16 * hex_value a + hex_value b) # unescape ys | _ \<Rightarrow> xs)
      else x # unescape xs)"

lemma hex_value_hexDigit: "n < 16 \<Longrightarrow> hex_value (hexDigit n) = n"
proof -
  assume "n < 16"
  then have "n \<in> set [0..<16]" by simp
  moreover have "\<forall>n \<in> set [0..<16]. hex_value (hexDigit n) = n" by code_simp
  ultimately show ?thesis by blast
qed

lemma unescape_escape_char: "unescape (escape_char b ch @ s) = ch # unescape s"
proof -
  have "of_char ch < (256 :: nat)" by (rule nat_of_char_less_256)
  then have n: "of_char ch div 16 < (16 :: nat)" "of_char ch mod 16 < (16 :: nat)"
    by (simp_all add: less_mult_imp_div_less)
  have "16 * (of_char ch div 16) + of_char ch mod 16 = (of_char ch :: nat)" by simp
  then have "char_of (16 * (of_char ch div 16) + of_char ch mod 16 :: nat) = ch" by simp
  then have c: "char_of (16 * hex_value (hexDigit (of_char ch div 16)) + hex_value (hexDigit (of_char ch mod 16))) = ch"
    using n by (simp add: hex_value_hexDigit)
  have p: "\<not> is_upper CHR ''%''" "\<not> is_lower CHR ''%''" "\<not> is_digit CHR ''%''"
    by (simp_all add: is_upper_def is_lower_def is_digit_def)
  show ?thesis using c p by (auto simp: escape_char_def)
qed

lemma unescape_escape [simp]: "unescape (escape s b) = s"
proof (induction s)
  case (Cons ch s)
  then show ?case by (simp add: escape_def unescape_escape_char)
qed (simp add: escape_def)

text \<open>
  The query's text does not depend on the order in which the names of the map are visited, which Go leaves
  open.
\<close>

lemma canonicalQuery_order: "mset q = mset q' \<Longrightarrow> canonicalQuery q = canonicalQuery q'"
proof -
  assume q: "mset q = mset q'"
  have "mset (concat (map f q)) = (\<Sum>x \<in># mset q. mset (f x))" for f :: "string \<times> string list \<Rightarrow> string list" and q
    by (induction q) auto
  with q have "mset (concat (map f q)) = mset (concat (map f q'))" for f :: "string \<times> string list \<Rightarrow> string list"
    by simp
  then have "sort (concat (map f q)) = sort (concat (map f q'))" for f :: "string \<times> string list \<Rightarrow> string list"
    by (intro properties_for_sort) simp_all
  then show ?thesis by (simp add: canonicalQuery_def)
qed

text \<open>Signing sets headers and the raw forms, and keeps what the request asks for.\<close>

lemma sign_request [simp]:
  "Method (sign sha mac s rq p t) = Method rq" "URL_Path (sign sha mac s rq p t) = URL_Path rq"
  "URL_Query (sign sha mac s rq p t) = URL_Query rq" "Body (sign sha mac s rq p t) = Body rq"
  "URL_Scheme (sign sha mac s rq p t) = URL_Scheme rq" "URL_Host (sign sha mac s rq p t) = URL_Host rq"
  by (simp_all add: sign_def Let_def)

lemma sign_header:
  "name \<notin> {''X-Amz-Date'', ''X-Amz-Content-Sha256'', ''X-Amz-Security-Token'', ''Authorization''} \<Longrightarrow>
    map_of (Header (sign sha mac s rq p t)) name = map_of (Header rq) name"
  by (simp add: sign_def Let_def header_Set_def update_conv')

end
