(* ===== verification/Bucket_Store.thy ===== *)
theory Bucket_Store
  imports Bucket_Sign
begin

text \<open>
  The bucket backend (\<open>ledger/store/bucket/bucket.go\<close>, and the configuration from a URI of its
  \<open>open.go\<close>): objects of an S3-compatible service under a key prefix, conditional PUTs, and the ETag as the
  version.

  The service is not part of the repository. It is a parameter, with the HTTP client that reaches it: a
  record of the calls the backend makes, over a state of its own. The locale \<open>object_service\<close> states what is
  documented of GET, DELETE and the two conditional PUTs, each of which may also fail or be refused, and a
  request whose reply is lost may have taken effect. From these the backend is shown to keep the contract
  of a store.
\<close>

section \<open>The service\<close>

text \<open>A response; reading the body can fail part way.\<close>

record response =
  StatusCode :: nat
  resp_Header :: http_Header
  resp_Body :: "error + bytes"

text \<open>\<open>http.Header.Get\<close>; the header's names are in canonical form, in which \<open>ETag\<close> is spelled \<open>Etag\<close>.\<close>

definition header_Get :: "http_Header \<Rightarrow> string \<Rightarrow> string" where
  "header_Get h name = (case map_of h name of Some (v # _) \<Rightarrow> v | _ \<Rightarrow> '''')"

record listResult =
  Contents :: "string list"
  IsTruncated :: bool
  NextContinuationToken :: string

text \<open>
  What lies outside: the construction of a request from its URL, which fails on a host that does not parse,
  the exchange with the service, the hash and keyed hash of the signer, the clock, and the XML decoder of
  a listing.
\<close>

record 'r transport =
  NewRequest :: "request \<Rightarrow> error option"
  Do :: "ctx \<Rightarrow> request \<Rightarrow> 'r \<Rightarrow> (error + response) \<times> 'r"
  tr_sha256 :: "bytes \<Rightarrow> bytes"
  tr_hmac :: "bytes \<Rightarrow> bytes \<Rightarrow> bytes"
  tr_time :: "nat \<Rightarrow> int"
  tr_decode :: "bytes \<Rightarrow> error + listResult"

text \<open>The service's state and the number of requests sent, which is what the clock's reading depends on.\<close>

record 'r link =
  service :: 'r
  sent :: nat

section \<open>Configuration\<close>

record url =
  u_Scheme :: string
  u_Opaque :: string
  u_User :: "string option"
  u_Host :: string
  u_Path :: string
  u_Query :: url_Values

record bucket_Config =
  cfg_Bucket :: string
  cfg_Prefix :: string
  cfg_Region :: string
  cfg_Endpoint :: string
  cfg_AccessKeyID :: string
  cfg_SecretAccessKey :: string
  cfg_SessionToken :: string

record bucket_Store =
  bs_bucket :: url
  bs_prefix :: string
  bs_signer :: signer
  bs_uri :: string

text \<open>\<open>strings.TrimPrefix\<close>.\<close>

definition TrimPrefix :: "string \<Rightarrow> string \<Rightarrow> string" where
  "TrimPrefix s p = (case CutPrefix s p of None \<Rightarrow> s | Some r \<Rightarrow> r)"

text \<open>\<open>New\<close>; the URL parser and \<open>JoinPath\<close> are arguments, and the client is one of every operation.\<close>

definition bucket_New ::
  "(string \<Rightarrow> error + url) \<Rightarrow> (url \<Rightarrow> string \<Rightarrow> url) \<Rightarrow> bucket_Config \<Rightarrow> error + bucket_Store" where
  "bucket_New url_Parse JoinPath cfg =
     (if cfg_Bucket cfg = '''' then Inl []
      else if cfg_Region cfg = '''' then Inl []
      else if cfg_AccessKeyID cfg = '''' \<or> cfg_SecretAccessKey cfg = '''' then Inl []
      else
        let store = (\<lambda>bucket.
              let pre = trim_slashes (cfg_Prefix cfg);
                  uriPrefix = (if pre \<noteq> '''' then ''/'' @ pre else '''');
                  pre = (if pre \<noteq> '''' then pre @ ''/'' else pre)
              in \<lparr>bs_bucket = bucket, bs_prefix = pre,
                  bs_signer = \<lparr>sg_region = cfg_Region cfg, sg_accessKeyID = cfg_AccessKeyID cfg,
                    sg_secretAccessKey = cfg_SecretAccessKey cfg, sg_sessionToken = cfg_SessionToken cfg\<rparr>,
                  bs_uri = ''s3://'' @ cfg_Bucket cfg @ uriPrefix\<rparr>)
        in if cfg_Endpoint cfg = '''' then
             Inr (store \<lparr>u_Scheme = ''https'', u_Opaque = '''', u_User = None,
               u_Host = cfg_Bucket cfg @ ''.s3.'' @ cfg_Region cfg @ ''.amazonaws.com'', u_Path = ''/'', u_Query = []\<rparr>)
           else case url_Parse (cfg_Endpoint cfg) of
             Inl _ \<Rightarrow> Inl []
           | Inr endpoint \<Rightarrow>
               if u_Host endpoint = '''' \<or> u_Scheme endpoint \<noteq> ''http'' \<and> u_Scheme endpoint \<noteq> ''https'' then Inl []
               else let bucket = JoinPath endpoint (cfg_Bucket cfg)
                    in Inr (store (bucket\<lparr>u_Path := ''/'' @ TrimPrefix (u_Path bucket) ''/'' @ ''/''\<rparr>)))"

definition bucket_String :: "bucket_Store option \<Rightarrow> string" where
  "bucket_String s = (case s of
       None \<Rightarrow> ''<nil>'' | Some s \<Rightarrow> if bs_uri s \<noteq> '''' then bs_uri s else ''s3'')"

text \<open>\<open>url.Values.Get\<close>.\<close>

definition values_Get :: "url_Values \<Rightarrow> string \<Rightarrow> string" where
  "values_Get q name = (case map_of q name of Some (v # _) \<Rightarrow> v | _ \<Rightarrow> '''')"

definition configFromURI :: "url \<Rightarrow> (string \<Rightarrow> string) \<Rightarrow> error + bucket_Config" where
  "configFromURI u getenv =
     (if u_Host u = '''' then Inl []
      else if u_User u \<noteq> None then Inl []
      else
        let region = values_Get (u_Query u) ''region'';
            region = (if region = '''' then getenv ''AWS_REGION'' else region);
            region = (if region = '''' then getenv ''AWS_DEFAULT_REGION'' else region)
        in Inr \<lparr>cfg_Bucket = u_Host u, cfg_Prefix = trim_slashes (u_Path u), cfg_Region = region,
             cfg_Endpoint = values_Get (u_Query u) ''endpoint'', cfg_AccessKeyID = getenv ''AWS_ACCESS_KEY_ID'',
             cfg_SecretAccessKey = getenv ''AWS_SECRET_ACCESS_KEY'', cfg_SessionToken = getenv ''AWS_SESSION_TOKEN''\<rparr>)"

section \<open>Operations\<close>

definition conflictAttempts :: nat where
  "conflictAttempts = 3"

definition bucket_request :: "bucket_Store \<Rightarrow> string \<Rightarrow> string \<Rightarrow> url_Values option \<Rightarrow> bytes \<Rightarrow> http_Header \<Rightarrow> request" where
  "bucket_request st method key query body hdr =
     \<lparr>Method = method, URL_Scheme = u_Scheme (bs_bucket st), URL_Host = u_Host (bs_bucket st),
      URL_Path = u_Path (bs_bucket st) @ key, URL_RawPath = '''',
      URL_Query = (case query of None \<Rightarrow> [] | Some q \<Rightarrow> q), URL_RawQuery = '''', Header = hdr, Body = body\<rparr>"

definition bucket_do ::
  "'r transport \<Rightarrow> bucket_Store \<Rightarrow> ctx \<Rightarrow> string \<Rightarrow> string \<Rightarrow> url_Values option \<Rightarrow> bytes \<Rightarrow> http_Header \<Rightarrow> 'r link \<Rightarrow>
     (error + response) \<times> 'r link" where
  "bucket_do T st c method key query body hdr W =
     (if key = '''' \<and> query = None then (Inl [], W)
      else
        let req = bucket_request st method key query body hdr
        in case NewRequest T req of
             Some err \<Rightarrow> (Inl err, W)
           | None \<Rightarrow>
               let req = sign (tr_sha256 T) (tr_hmac T) (bs_signer st) req body (tr_time T (sent W))
               in case Do T c req (service W) of (r, s) \<Rightarrow> (r, \<lparr>service = s, sent = Suc (sent W)\<rparr>))"

text \<open>The error made of an unexpected response wraps no sentinel.\<close>

definition responseError :: "response \<Rightarrow> error" where
  "responseError resp = []"

fun put_attempts ::
  "'r transport \<Rightarrow> bucket_Store \<Rightarrow> ctx \<Rightarrow> string \<Rightarrow> bytes \<Rightarrow> http_Header \<Rightarrow> nat \<Rightarrow> 'r link \<Rightarrow> (error + version \<times> nat) \<times> 'r link" where
  "put_attempts T st c key d hdr 0 W = (Inl [], W)"
| "put_attempts T st c key d hdr (Suc left) W =
     (case bucket_do T st c ''PUT'' (bs_prefix st @ key) None d hdr W of
        (Inl err, W) \<Rightarrow> (Inl err, W)
      | (Inr resp, W) \<Rightarrow>
          if StatusCode resp = 200 then (Inr (header_Get (resp_Header resp) ''Etag'', 200), W)
          else if StatusCode resp \<in> {412, 404} then (Inr (NoVersion, StatusCode resp), W)
          else if StatusCode resp = 409 \<and> left \<noteq> 0 then put_attempts T st c key d hdr left W
          else (Inl [], W))"

definition bucket_put ::
  "'r transport \<Rightarrow> bucket_Store \<Rightarrow> ctx \<Rightarrow> string \<Rightarrow> bytes \<Rightarrow> http_Header \<Rightarrow> 'r link \<Rightarrow> (error + version \<times> nat) \<times> 'r link" where
  "bucket_put T st c key d hdr W = put_attempts T st c key d hdr conflictAttempts W"

definition bucket_Get ::
  "'r transport \<Rightarrow> bucket_Store \<Rightarrow> ctx \<Rightarrow> string \<Rightarrow> 'r link \<Rightarrow> (error + bytes \<times> version) \<times> 'r link" where
  "bucket_Get T st c key W =
     (case bucket_do T st c ''GET'' (bs_prefix st @ key) None [] [] W of
        (Inl err, W) \<Rightarrow> (Inl (wrap [] err), W)
      | (Inr resp, W) \<Rightarrow>
          if StatusCode resp = 200 then
            (case resp_Body resp of
               Inl err \<Rightarrow> (Inl (wrap [] err), W)
             | Inr d \<Rightarrow> (Inr (d, header_Get (resp_Header resp) ''Etag''), W))
          else if StatusCode resp = 404 then (Inl [ErrNotExist], W)
          else (Inl (wrap [] (responseError resp)), W))"

definition bucket_Create ::
  "'r transport \<Rightarrow> bucket_Store \<Rightarrow> ctx \<Rightarrow> string \<Rightarrow> bytes \<Rightarrow> 'r link \<Rightarrow> (error + version) \<times> 'r link" where
  "bucket_Create T st c key d W =
     (case bucket_put T st c key d [(''If-None-Match'', [''*''])] W of
        (Inl err, W) \<Rightarrow> (Inl (wrap [] err), W)
      | (Inr (version, status), W) \<Rightarrow> if status = 412 then (Inl [ErrExist], W) else (Inr version, W))"

definition bucket_Swap ::
  "'r transport \<Rightarrow> bucket_Store \<Rightarrow> ctx \<Rightarrow> string \<Rightarrow> bytes \<Rightarrow> version \<Rightarrow> 'r link \<Rightarrow> (error + version) \<times> 'r link" where
  "bucket_Swap T st c key d expect W =
     (let hdr = (if expect = NoVersion then [(''If-None-Match'', [''*''])] else [(''If-Match'', [expect])])
      in case bucket_put T st c key d hdr W of
           (Inl err, W) \<Rightarrow> (Inl (wrap [] err), W)
         | (Inr (version, status), W) \<Rightarrow>
             if status = 412 then (Inl [ErrVersionMismatch], W)
             else if status = 404 then (Inl [ErrNotExist], W)
             else (Inr version, W))"

definition bucket_Delete :: "'r transport \<Rightarrow> bucket_Store \<Rightarrow> ctx \<Rightarrow> string \<Rightarrow> 'r link \<Rightarrow> error option \<times> 'r link" where
  "bucket_Delete T st c key W =
     (case bucket_do T st c ''DELETE'' (bs_prefix st @ key) None [] [] W of
        (Inl err, W) \<Rightarrow> (Some (wrap [] err), W)
      | (Inr resp, W) \<Rightarrow>
          if StatusCode resp \<in> {200, 204, 404} then (None, W) else (Some (wrap [] (responseError resp)), W))"

definition listPage ::
  "'r transport \<Rightarrow> bucket_Store \<Rightarrow> ctx \<Rightarrow> url_Values \<Rightarrow> 'r link \<Rightarrow> (error + listResult) \<times> 'r link" where
  "listPage T st c query W =
     (case bucket_do T st c ''GET'' '''' (Some query) [] [] W of
        (Inl err, W) \<Rightarrow> (Inl err, W)
      | (Inr resp, W) \<Rightarrow>
          if StatusCode resp \<noteq> 200 then (Inl (responseError resp), W)
          else (case resp_Body resp of Inl err \<Rightarrow> (Inl (wrap [] err), W) | Inr b \<Rightarrow> (tr_decode T b, W)))"

text \<open>The pages of a listing; the argument \<open>N\<close> bounds their number, which the service decides.\<close>

fun list_pages ::
  "'r transport \<Rightarrow> bucket_Store \<Rightarrow> ctx \<Rightarrow> nat \<Rightarrow> url_Values \<Rightarrow> 'r link \<Rightarrow> (error + string) list \<times> 'r link" where
  "list_pages T st c 0 query W = ([Inl [Unfinished]], W)"
| "list_pages T st c (Suc N) query W =
     (case listPage T st c query W of
        (Inl err, W) \<Rightarrow> ([Inl (wrap [] err)], W)
      | (Inr page, W) \<Rightarrow>
          let keys = map (\<lambda>k. Inr (TrimPrefix k (bs_prefix st))) (Contents page)
          in if \<not> IsTruncated page \<or> NextContinuationToken page = '''' then (keys, W)
             else case list_pages T st c N (AList.update ''continuation-token'' [NextContinuationToken page] query) W of
               (rest, W) \<Rightarrow> (keys @ rest, W))"

definition bucket_List :: "'r transport \<Rightarrow> bucket_Store \<Rightarrow> ctx \<Rightarrow> nat \<Rightarrow> string \<Rightarrow> 'r link \<Rightarrow> (error + string) list \<times> 'r link" where
  "bucket_List T st c N prfx W =
     list_pages T st c N [(''list-type'', [''2'']), (''prefix'', [bs_prefix st @ prfx])] W"

definition bucket_store :: "'r transport \<Rightarrow> bucket_Store \<Rightarrow> 'r link store" where
  "bucket_store T st = \<lparr>Get = bucket_Get T st, Create = bucket_Create T st, Swap = bucket_Swap T st, Delete = bucket_Delete T st\<rparr>"

section \<open>What the service does\<close>

type_synonym bucket_objects = "string \<Rightarrow> (bytes \<times> string) option"

text \<open>The request of a method for the object at a path of the backend's bucket.\<close>

definition addressed :: "bucket_Store \<Rightarrow> request \<Rightarrow> string \<Rightarrow> string \<Rightarrow> bool" where
  "addressed st rq method p \<longleftrightarrow> Method rq = method \<and> URL_Scheme rq = u_Scheme (bs_bucket st) \<and>
     URL_Host rq = u_Host (bs_bucket st) \<and> URL_Path rq = p \<and> URL_Query rq = []"

text \<open>
  The documented behaviour: what the answers 200, 204, 404, 409 and 412 mean, and that a request which
  fails or is answered otherwise either took effect or did not. The errors of the client wrap none of the
  store's sentinels. A PUT that asks for an absent object is never answered 404 by a bucket that exists.
\<close>

locale object_service =
  fixes T :: "'r transport" and st :: bucket_Store and held :: "'r \<Rightarrow> bucket_objects" and ok :: "'r \<Rightarrow> bool"
  assumes etag: "ok s \<Longrightarrow> held s p = Some (d, v) \<Longrightarrow> v \<noteq> ''''"
    and request_error: "NewRequest T rq = Some e \<Longrightarrow> set e \<subseteq> {Canceled}"
    and do_error: "ok s \<Longrightarrow> Do T c rq s = (Inl e, s') \<Longrightarrow> set e \<subseteq> {Canceled}"
    and body_error: "ok s \<Longrightarrow> Do T c rq s = (Inr resp, s') \<Longrightarrow> resp_Body resp = Inl e \<Longrightarrow> set e \<subseteq> {Canceled}"
    and get_ok: "ok s \<Longrightarrow> addressed st rq ''GET'' p \<Longrightarrow> Do T c rq s = (r, s') \<Longrightarrow>
      ok s' \<and> held s' = held s \<and>
      (\<forall>resp. r = Inr resp \<longrightarrow>
        (StatusCode resp = 200 \<longrightarrow> (\<exists>d v. held s p = Some (d, v) \<and> header_Get (resp_Header resp) ''Etag'' = v \<and>
          (\<forall>b. resp_Body resp = Inr b \<longrightarrow> b = d))) \<and>
        (StatusCode resp = 404 \<longrightarrow> held s p = None))"
    and put_ok: "ok s \<Longrightarrow> addressed st rq ''PUT'' p \<Longrightarrow> Do T c rq s = (r, s') \<Longrightarrow>
      ok s' \<and> (held s' = held s \<or> (\<exists>v. held s' = (held s)(p \<mapsto> (Body rq, v)))) \<and>
      (\<forall>resp. r = Inr resp \<longrightarrow>
        (StatusCode resp = 200 \<longrightarrow> held s' = (held s)(p \<mapsto> (Body rq, header_Get (resp_Header resp) ''Etag''))) \<and>
        (StatusCode resp \<in> {404, 409, 412} \<longrightarrow> held s' = held s))"
    and put_new: "ok s \<Longrightarrow> addressed st rq ''PUT'' p \<Longrightarrow> map_of (Header rq) ''If-None-Match'' = Some [''*''] \<Longrightarrow>
      map_of (Header rq) ''If-Match'' = None \<Longrightarrow> Do T c rq s = (r, s') \<Longrightarrow>
      (held s' \<noteq> held s \<longrightarrow> held s p = None) \<and>
      (\<forall>resp. r = Inr resp \<longrightarrow> StatusCode resp \<noteq> 404 \<and>
        (StatusCode resp = 200 \<longrightarrow> held s p = None) \<and> (StatusCode resp = 412 \<longrightarrow> held s p \<noteq> None))"
    and put_match: "ok s \<Longrightarrow> addressed st rq ''PUT'' p \<Longrightarrow> map_of (Header rq) ''If-Match'' = Some [tag] \<Longrightarrow>
      ok s0 \<Longrightarrow> held s0 p0 = Some (d0, tag) \<Longrightarrow> Do T c rq s = (r, s') \<Longrightarrow>
      (held s' \<noteq> held s \<or> (\<exists>resp. r = Inr resp \<and> StatusCode resp = 200) \<longrightarrow> (\<exists>d. held s p = Some (d, tag)))"
    and delete_ok: "ok s \<Longrightarrow> addressed st rq ''DELETE'' p \<Longrightarrow> Do T c rq s = (r, s') \<Longrightarrow>
      ok s' \<and> (held s' = held s \<or> held s' = (held s)(p := None)) \<and>
      (\<forall>resp. r = Inr resp \<longrightarrow> StatusCode resp \<in> {200, 204, 404} \<longrightarrow> held s' = (held s)(p := None))"

text \<open>The objects of the backend: those of the bucket under its prefix.\<close>

definition bucket_path :: "bucket_Store \<Rightarrow> string \<Rightarrow> string" where
  "bucket_path st k = u_Path (bs_bucket st) @ bs_prefix st @ k"

definition bucket_view :: "bucket_Store \<Rightarrow> ('r \<Rightarrow> bucket_objects) \<Rightarrow> 'r link \<Rightarrow> view" where
  "bucket_view st held W = (\<lambda>k. held (service W) (bucket_path st k))"

lemma bucket_path_eq [simp]: "bucket_path st k = bucket_path st k' \<longleftrightarrow> k = k'"
  by (simp add: bucket_path_def)

lemma bucket_view_upd: "held (service W') = (held (service W))(bucket_path st k \<mapsto> x) \<Longrightarrow>
    bucket_view st held W' = (bucket_view st held W)(k \<mapsto> x)"
  by (auto simp: bucket_view_def fun_eq_iff)

lemma bucket_view_del: "held (service W') = (held (service W))(bucket_path st k := None) \<Longrightarrow>
    bucket_view st held W' = (bucket_view st held W)(k := None)"
  by (auto simp: bucket_view_def fun_eq_iff)

lemma bucket_view_same: "held (service W') = held (service W) \<Longrightarrow> bucket_view st held W' = bucket_view st held W"
  by (simp add: bucket_view_def)

text \<open>A request either fails before it is sent or reaches the service as it was meant.\<close>

lemma bucket_do_cases:
  assumes "bucket_do T st c m (bs_prefix st @ k) None b hdr W = (r, W')"
  obtains (unsent) e where "r = Inl e" "W' = W" "e = [] \<or> (\<exists>rq. NewRequest T rq = Some e)"
  | (sent) rq where "addressed st rq m (bucket_path st k)" "Body rq = b"
      "\<And>name. name \<in> {''If-Match'', ''If-None-Match''} \<Longrightarrow> map_of (Header rq) name = map_of hdr name"
      "Do T c rq (service W) = (r, service W')"
proof -
  let ?rq = "bucket_request st m (bs_prefix st @ k) None b hdr"
  let ?sg = "sign (tr_sha256 T) (tr_hmac T) (bs_signer st) ?rq b (tr_time T (sent W))"
  show thesis
  proof (cases "(bs_prefix st @ k = '''') \<or> NewRequest T ?rq \<noteq> None")
    case True
    then obtain e where "r = Inl e" "W' = W" "e = [] \<or> NewRequest T ?rq = Some e"
      using assms by (auto simp: bucket_do_def Let_def split: if_splits)
    then show thesis using unsent by blast
  next
    case False
    then have "Do T c ?sg (service W) = (r, service W')"
      using assms by (auto simp: bucket_do_def Let_def split: if_splits prod.splits)
    moreover have "addressed st ?sg m (bucket_path st k)"
      by (simp add: addressed_def bucket_request_def bucket_path_def)
    ultimately show thesis by (intro sent [of ?sg]) (auto simp: bucket_request_def sign_header)
  qed
qed

text \<open>
  What the service grants for the headers of a conditional PUT: \<open>Q\<close> held of the objects when it wrote, \<open>R\<close>
  when it answered 412, and it may answer 404 only if \<open>U\<close>.
\<close>

definition put_grants ::
  "'r transport \<Rightarrow> bucket_Store \<Rightarrow> ('r \<Rightarrow> bucket_objects) \<Rightarrow> ('r \<Rightarrow> bool) \<Rightarrow> ctx \<Rightarrow> string \<Rightarrow> http_Header \<Rightarrow>
     (bucket_objects \<Rightarrow> bool) \<Rightarrow> (bucket_objects \<Rightarrow> bool) \<Rightarrow> bool \<Rightarrow> bool" where
  "put_grants T st held ok c k hdr Q R U \<longleftrightarrow>
     (\<forall>rq s r s'. ok s \<and> addressed st rq ''PUT'' (bucket_path st k) \<and>
        (\<forall>name \<in> {''If-Match'', ''If-None-Match''}. map_of (Header rq) name = map_of hdr name) \<and> Do T c rq s = (r, s') \<longrightarrow>
      (held s' \<noteq> held s \<or> (\<exists>resp. r = Inr resp \<and> StatusCode resp = 200) \<longrightarrow> Q (held s)) \<and>
      (\<forall>resp. r = Inr resp \<longrightarrow> (StatusCode resp = 412 \<longrightarrow> R (held s)) \<and> (StatusCode resp = 404 \<longrightarrow> U)))"

context object_service
begin

text \<open>A conditional PUT with its retries.\<close>

lemma put_attempts_view:
  assumes "ok (service W)" and "put_attempts T st c k b hdr n W = (r, W')"
    and cond: "put_grants T st held ok c k hdr Q R U"
  defines "p \<equiv> bucket_path st k" and "h \<equiv> held (service W)" and "h' \<equiv> held (service W')"
  shows "ok (service W') \<and> (h' = h \<or> Q h \<and> (\<exists>v. h' = h(p \<mapsto> (b, v)))) \<and>
    (case r of
       Inl e \<Rightarrow> set e \<subseteq> {Canceled}
     | Inr (v, status) \<Rightarrow>
         status = 200 \<and> Q h \<and> h' = h(p \<mapsto> (b, v)) \<or> status = 412 \<and> R h \<and> h' = h \<or> status = 404 \<and> U \<and> h' = h)"
  using assms(1,2) unfolding p_def h_def h'_def
proof (induction n arbitrary: W)
  case 0
  then show ?case by auto
next
  case (Suc n)
  obtain x W1 where x: "bucket_do T st c ''PUT'' (bs_prefix st @ k) None b hdr W = (x, W1)" by fastforce
  show ?case
  proof (cases rule: bucket_do_cases [OF x, case_names unsent sent])
    case (unsent e)
    with Suc.prems x request_error show ?thesis by auto
  next
    case (sent rq)
    note s = put_ok [OF Suc.prems(1) sent(1) sent(4)]
    have q: "(held (service W1) \<noteq> held (service W) \<or> (\<exists>resp. x = Inr resp \<and> StatusCode resp = 200) \<longrightarrow> Q (held (service W))) \<and>
      (\<forall>resp. x = Inr resp \<longrightarrow> (StatusCode resp = 412 \<longrightarrow> R (held (service W))) \<and> (StatusCode resp = 404 \<longrightarrow> U))"
      using cond Suc.prems(1) sent(1,3,4) unfolding put_grants_def by blast
    have o1: "ok (service W1)" using s by blast
    have h1: "held (service W1) = held (service W) \<or>
        Q (held (service W)) \<and> (\<exists>v. held (service W1) = (held (service W))(bucket_path st k \<mapsto> (b, v)))"
      using s q sent(2) by metis
    show ?thesis
    proof (cases x)
      case (Inl e)
      then have rW: "r = Inl e" "W' = W1" using Suc.prems(2) x by auto
      have "set e \<subseteq> {Canceled}" using do_error [OF Suc.prems(1)] sent(4) Inl by blast
      with o1 h1 show ?thesis unfolding rW sum.case by blast
    next
      case (Inr resp)
      consider "StatusCode resp = 200" | "StatusCode resp = 412" | "StatusCode resp = 404"
        | "StatusCode resp = 409" "n \<noteq> 0" | "StatusCode resp \<notin> {200, 404, 412}" "StatusCode resp = 409 \<longrightarrow> n = 0" by auto
      then show ?thesis
      proof cases
        case 4
        then have p1: "put_attempts T st c k b hdr n W1 = (r, W')" using Suc.prems(2) x Inr by simp
        have "held (service W1) = held (service W)" using s Inr 4 by simp
        from Suc.IH [OF o1 p1, unfolded this] show ?thesis .
      next
        case 5
        then have rW: "r = Inl []" "W' = W1" using Suc.prems(2) x Inr by auto
        have "set [] \<subseteq> {Canceled}" by simp
        with o1 h1 show ?thesis unfolding rW sum.case by blast
      qed (use Suc.prems(2) x Inr o1 h1 s q sent(2) in auto)
    qed
  qed
qed

lemma put_new_view:
  assumes "ok (service W)" and "bucket_put T st c k b [(''If-None-Match'', [''*''])] W = (r, W')"
  defines "p \<equiv> bucket_path st k" and "h \<equiv> held (service W)" and "h' \<equiv> held (service W')"
  shows "ok (service W') \<and> (h' = h \<or> h p = None \<and> (\<exists>v. h' = h(p \<mapsto> (b, v)))) \<and>
    (case r of
       Inl e \<Rightarrow> set e \<subseteq> {Canceled}
     | Inr (v, status) \<Rightarrow> status = 200 \<and> h p = None \<and> h' = h(p \<mapsto> (b, v)) \<or> status = 412 \<and> h p \<noteq> None \<and> h' = h)"
proof -
  have "put_grants T st held ok c k [(''If-None-Match'', [''*''])]
      (\<lambda>h. h (bucket_path st k) = None) (\<lambda>h. h (bucket_path st k) \<noteq> None) False"
    using put_new unfolding put_grants_def by fastforce
  from put_attempts_view [OF assms(1) assms(2) [unfolded bucket_put_def] this]
  show ?thesis unfolding p_def h_def h'_def by (cases r) auto
qed

lemma put_match_view:
  assumes "ok (service W)" and "bucket_put T st c k b [(''If-Match'', [tag])] W = (r, W')"
  defines "p \<equiv> bucket_path st k" and "h \<equiv> held (service W)" and "h' \<equiv> held (service W')"
    and "M \<equiv> \<lambda>h. (\<exists>s p d. ok s \<and> held s p = Some (d, tag)) \<longrightarrow> (\<exists>d. h (bucket_path st k) = Some (d, tag))"
  shows "ok (service W') \<and> (h' = h \<or> M h \<and> (\<exists>v. h' = h(p \<mapsto> (b, v)))) \<and>
    (case r of
       Inl e \<Rightarrow> set e \<subseteq> {Canceled}
     | Inr (v, status) \<Rightarrow> status = 200 \<and> M h \<and> h' = h(p \<mapsto> (b, v)) \<or> status \<in> {404, 412} \<and> h' = h)"
proof -
  have "put_grants T st held ok c k [(''If-Match'', [tag])] M (\<lambda>h. True) True"
    unfolding put_grants_def
  proof (intro allI impI conjI)
    fix rq s r s'
    assume a: "ok s \<and> addressed st rq ''PUT'' (bucket_path st k) \<and> (\<forall>name \<in> {''If-Match'', ''If-None-Match''}.
        map_of (Header rq) name = map_of [(''If-Match'', [tag])] name) \<and> Do T c rq s = (r, s')"
      and b: "held s' \<noteq> held s \<or> (\<exists>resp. r = Inr resp \<and> StatusCode resp = 200)"
    then have "map_of (Header rq) ''If-Match'' = Some [tag]" by simp
    with put_match [of s rq "bucket_path st k" tag _ _ _ c r s'] a b show "M (held s)" unfolding M_def by blast
  qed simp_all
  from put_attempts_view [OF assms(1) assms(2) [unfolded bucket_put_def] this]
  show ?thesis unfolding p_def h_def h'_def by (cases r) auto
qed

lemma bucket_get:
  assumes d: "ok (service W)" and g: "Get (bucket_store T st) c k W = (r, W')"
  shows "ok (service W')" and "held (service W') = held (service W)"
    and "case r of Inr y \<Rightarrow> bucket_view st held W k = Some y
      | Inl e \<Rightarrow> store_error e \<and> (errors_Is e ErrNotExist \<longrightarrow> bucket_view st held W k = None)"
proof -
  obtain x W1 where x: "bucket_do T st c ''GET'' (bs_prefix st @ k) None [] [] W = (x, W1)" by fastforce
  have r: "(r, W') = (case x of Inl e \<Rightarrow> (Inl e, W1) | Inr resp \<Rightarrow>
      if StatusCode resp = 200 then
        (case resp_Body resp of Inl e \<Rightarrow> (Inl e, W1) | Inr d \<Rightarrow> (Inr (d, header_Get (resp_Header resp) ''Etag''), W1))
      else if StatusCode resp = 404 then (Inl [ErrNotExist], W1) else (Inl [], W1))"
    using g x by (simp add: bucket_store_def bucket_Get_def wrap_def responseError_def cong: if_cong sum.case_cong)
  then have W': "W' = W1" by (auto split: sum.splits if_splits)
  have "ok (service W1) \<and> held (service W1) = held (service W) \<and>
      (case r of Inr y \<Rightarrow> bucket_view st held W k = Some y
       | Inl e \<Rightarrow> store_error e \<and> (errors_Is e ErrNotExist \<longrightarrow> bucket_view st held W k = None))"
  proof (cases rule: bucket_do_cases [OF x, case_names unsent sent])
    case (unsent e)
    then have "set e \<subseteq> {Canceled}" using request_error by auto
    then have "store_error e \<and> \<not> errors_Is e ErrNotExist" by (auto simp: store_error_def errors_Is_def)
    with unsent d r show ?thesis by simp
  next
    case (sent rq)
    note s = get_ok [OF d sent(1) sent(4)]
    show ?thesis
    proof (cases x)
      case (Inl e)
      then have "set e \<subseteq> {Canceled}" using do_error [OF d] sent(4) by blast
      then have "store_error e \<and> \<not> errors_Is e ErrNotExist" by (auto simp: store_error_def errors_Is_def)
      with s r Inl show ?thesis by simp
    next
      case (Inr resp)
      have "store_error e \<and> \<not> errors_Is e ErrNotExist" if "resp_Body resp = Inl e" for e
        using body_error [OF d] sent(4) Inr that by (fastforce simp: store_error_def errors_Is_def)
      with s r Inr show ?thesis
        by (auto simp: bucket_view_def store_error_def split: if_splits sum.splits)
    qed
  qed
  with W' show "ok (service W')" and "held (service W') = held (service W)"
    and "case r of Inr y \<Rightarrow> bucket_view st held W k = Some y
      | Inl e \<Rightarrow> store_error e \<and> (errors_Is e ErrNotExist \<longrightarrow> bucket_view st held W k = None)" by auto
qed

lemma bucket_create:
  assumes d: "ok (service W)" and g: "Create (bucket_store T st) c k b W = (r, W')"
  shows "ok (service W')" and "case r of
      Inr v \<Rightarrow> bucket_view st held W k = None \<and> bucket_view st held W' = (bucket_view st held W)(k \<mapsto> (b, v))
    | Inl e \<Rightarrow> store_error e \<and> (errors_Is e ErrExist \<longrightarrow> bucket_view st held W' k \<noteq> None) \<and>
        (bucket_view st held W' = bucket_view st held W \<or>
         bucket_view st held W k = None \<and> (\<exists>v. bucket_view st held W' = (bucket_view st held W)(k \<mapsto> (b, v))))"
proof -
  obtain x where x: "bucket_put T st c k b [(''If-None-Match'', [''*''])] W = (x, W')"
    and r: "r = (case x of Inl e \<Rightarrow> Inl e | Inr (v, status) \<Rightarrow> if status = 412 then Inl [ErrExist] else Inr v)"
    using g by (auto simp: bucket_store_def bucket_Create_def wrap_def split: sum.splits prod.splits if_splits)
  note p = put_new_view [OF d x]
  from p show "ok (service W')" by blast
  have v: "bucket_view st held W k = held (service W) (bucket_path st k)" by (simp add: bucket_view_def)
  note upd = bucket_view_upd [of held W' W st k] and same = bucket_view_same [of held W' W st]
  show "case r of
      Inr v \<Rightarrow> bucket_view st held W k = None \<and> bucket_view st held W' = (bucket_view st held W)(k \<mapsto> (b, v))
    | Inl e \<Rightarrow> store_error e \<and> (errors_Is e ErrExist \<longrightarrow> bucket_view st held W' k \<noteq> None) \<and>
        (bucket_view st held W' = bucket_view st held W \<or>
         bucket_view st held W k = None \<and> (\<exists>v. bucket_view st held W' = (bucket_view st held W)(k \<mapsto> (b, v))))"
  proof (cases x)
    case (Inl e)
    with p have "store_error e" "\<not> errors_Is e ErrExist" by (auto simp: store_error_def errors_Is_def)
    moreover have "bucket_view st held W' = bucket_view st held W \<or>
         bucket_view st held W k = None \<and> (\<exists>v. bucket_view st held W' = (bucket_view st held W)(k \<mapsto> (b, v)))"
      using p upd same v by metis
    ultimately show ?thesis using r Inl by simp
  next
    case (Inr y)
    obtain u status where y: "y = (u, status)" by (cases y)
    with p Inr consider "status = 200" "held (service W) (bucket_path st k) = None"
        "held (service W') = (held (service W))(bucket_path st k \<mapsto> (b, u))"
      | "status = 412" "held (service W) (bucket_path st k) \<noteq> None" "held (service W') = held (service W)" by auto
    then show ?thesis using r Inr y v upd same by cases (auto simp: store_error_def)
  qed
qed

lemma bucket_swap:
  assumes d: "ok (service W)" and g: "Swap (bucket_store T st) c k b expect W = (r, W')"
  defines "V \<equiv> bucket_view st held"
    and "M \<equiv> issued (bucket_view st held) (\<lambda>W. ok (service W)) expect \<longrightarrow> swap_matches (bucket_view st held W k) expect"
  shows "ok (service W') \<and> (case r of
      Inr v \<Rightarrow> M \<and> V W' = (V W)(k \<mapsto> (b, v))
    | Inl e \<Rightarrow> store_error e \<and> (V W' = V W \<or> M \<and> (\<exists>v. V W' = (V W)(k \<mapsto> (b, v)))))"
proof -
  define hdr where "hdr = (if expect = NoVersion then [(''If-None-Match'', [''*''])] else [(''If-Match'', [expect])])"
  obtain x where x: "bucket_put T st c k b hdr W = (x, W')"
    and r: "r = (case x of Inl e \<Rightarrow> Inl e | Inr (v, status) \<Rightarrow>
      if status = 412 then Inl [ErrVersionMismatch] else if status = 404 then Inl [ErrNotExist] else Inr v)"
    using g by (auto simp: bucket_store_def bucket_Swap_def wrap_def Let_def hdr_def split: sum.splits prod.splits if_splits)
  have put: "ok (service W') \<and> (held (service W') = held (service W) \<or>
      M \<and> (\<exists>v. held (service W') = (held (service W))(bucket_path st k \<mapsto> (b, v)))) \<and>
    (case x of
       Inl e \<Rightarrow> set e \<subseteq> {Canceled}
     | Inr (v, status) \<Rightarrow> status = 200 \<and> M \<and> held (service W') = (held (service W))(bucket_path st k \<mapsto> (b, v)) \<or>
         status \<in> {404, 412} \<and> held (service W') = held (service W))"
  proof (cases "expect = NoVersion")
    case True
    have "M" if "held (service W) (bucket_path st k) = None"
      using that True by (simp add: M_def swap_matches_def bucket_view_def)
    with put_new_view [OF d, of c k b x W'] x True show ?thesis by (cases x) (auto simp: hdr_def)
  next
    case False
    have "M" if "(\<exists>s p d. ok s \<and> held s p = Some (d, expect)) \<longrightarrow> (\<exists>d. held (service W) (bucket_path st k) = Some (d, expect))"
      using that False unfolding M_def issued_def bucket_view_def swap_matches_def by (auto split: option.splits)
    with put_match_view [OF d, of c k b expect x W'] x False show ?thesis by (cases x) (auto simp: hdr_def)
  qed
  have V: "V W' = V W \<or> M \<and> (\<exists>v. V W' = (V W)(k \<mapsto> (b, v)))"
    using put bucket_view_upd [of held W' W st k] bucket_view_same [of held W' W st] unfolding V_def by blast
  show ?thesis
  proof (cases x)
    case (Inl e)
    with put have "store_error e" by (auto simp: store_error_def)
    with Inl r put V show ?thesis by simp
  next
    case (Inr y)
    obtain u status where y: "y = (u, status)" by (cases y)
    with put Inr consider "status = 200" M "held (service W') = (held (service W))(bucket_path st k \<mapsto> (b, u))"
      | "status \<in> {404, 412}" "held (service W') = held (service W)" by auto
    then show ?thesis
    proof cases
      case 1
      with bucket_view_upd [OF 1(3)] Inr y r put show ?thesis by (simp add: V_def)
    next
      case 2
      with bucket_view_same [OF 2(2)] Inr y r put show ?thesis by (auto simp: V_def store_error_def)
    qed
  qed
qed

lemma bucket_delete:
  assumes d: "ok (service W)" and g: "Delete (bucket_store T st) c k W = (r, W')"
  shows "ok (service W') \<and> (bucket_view st held W' = (bucket_view st held W)(k := None) \<or>
    r \<noteq> None \<and> bucket_view st held W' = bucket_view st held W)"
proof -
  obtain x where x: "bucket_do T st c ''DELETE'' (bs_prefix st @ k) None [] [] W = (x, W')"
    and r: "r = (case x of Inl e \<Rightarrow> Some e | Inr resp \<Rightarrow> if StatusCode resp \<in> {200, 204, 404} then None else Some [])"
    using g by (auto simp: bucket_store_def bucket_Delete_def wrap_def responseError_def split: sum.splits prod.splits if_splits)
  show ?thesis
  proof (cases rule: bucket_do_cases [OF x, case_names unsent sent])
    case (unsent e)
    with d r show ?thesis by simp
  next
    case (sent rq)
    note s = delete_ok [OF d sent(1) sent(4)]
    with r bucket_view_del [of held W' W st k] bucket_view_same [of held W' W st] show ?thesis
      by (cases x) (auto split: if_splits)
  qed
qed

end

sublocale object_service \<subseteq> bucket: store_contract "bucket_store T st" "bucket_view st held" "\<lambda>W. ok (service W)"
proof (unfold_locales, goal_cases)
  case 1 then show ?case using etag by (auto simp: bucket_view_def NoVersion_def)
next
  case (2 s c k r s') from bucket_get(1,2) [OF this] show ?case using bucket_view_same [of held s' s st] by simp
next
  case 3 from bucket_get [OF this] show ?case by simp
next
  case 4 from bucket_get [OF this] show ?case by simp
next
  case 5 from bucket_create [OF this] show ?case by simp
next
  case 6 from bucket_create [OF this] show ?case by simp
next
  case 7 from bucket_create [OF this] show ?case by simp
next
  case 8 from bucket_swap [OF this] show ?case by simp
next
  case 9 from bucket_swap [OF this] show ?case by simp
next
  case 10 from bucket_swap [OF this] show ?case by simp
next
  case 11 from bucket_delete [OF this] show ?case by simp
next
  case 12 from bucket_delete [OF this] show ?case by simp
qed

context object_service
begin

lemma keeps_contract: "store_contract (bucket_store T st) (bucket_view st held) (\<lambda>W. ok (service W))"
  by (rule bucket.store_contract_axioms)

end

section \<open>A service\<close>

text \<open>
  A service with one bucket, kept as a map from paths; the tag of an object is its content behind a quote. A
  live request is answered as the documentation has it, the others are canceled.
\<close>

definition reply :: "nat \<Rightarrow> string \<Rightarrow> bytes \<Rightarrow> response" where
  "reply status tag b = \<lparr>StatusCode = status, resp_Header = [(''Etag'', [tag])], resp_Body = Inr b\<rparr>"

definition tag_of :: "bytes \<Rightarrow> string" where
  "tag_of b = CHR 0x22 # b"

definition one_put :: "request \<Rightarrow> bucket_objects \<Rightarrow> nat" where
  "one_put rq s =
     (if map_of (Header rq) ''If-None-Match'' = Some [''*''] \<and> s (URL_Path rq) \<noteq> None then 412
      else case map_of (Header rq) ''If-Match'' of
        Some [tag] \<Rightarrow> (case s (URL_Path rq) of None \<Rightarrow> 404 | Some (_, v) \<Rightarrow> if v = tag then 200 else 412)
      | _ \<Rightarrow> 200)"

definition one_Do :: "ctx \<Rightarrow> request \<Rightarrow> bucket_objects \<Rightarrow> (error + response) \<times> bucket_objects" where
  "one_Do c rq s =
     (if c \<noteq> Live then (Inl [Canceled], s)
      else if Method rq = ''GET'' then
        (case s (URL_Path rq) of None \<Rightarrow> (Inr (reply 404 '''' []), s) | Some (d, v) \<Rightarrow> (Inr (reply 200 v d), s))
      else if Method rq = ''DELETE'' then (Inr (reply 204 '''' []), s(URL_Path rq := None))
      else if Method rq = ''PUT'' then
        (if one_put rq s = 200
         then (Inr (reply 200 (tag_of (Body rq)) []), s(URL_Path rq \<mapsto> (Body rq, tag_of (Body rq))))
         else (Inr (reply (one_put rq s) '''' []), s))
      else (Inr (reply 400 '''' []), s))"

definition one_bucket :: "bucket_objects transport" where
  "one_bucket = \<lparr>NewRequest = (\<lambda>rq. None), Do = one_Do, tr_sha256 = (\<lambda>b. []), tr_hmac = (\<lambda>k b. []),
     tr_time = (\<lambda>n. 0), tr_decode = (\<lambda>b. Inl [])\<rparr>"

definition tags_ok :: "bucket_objects \<Rightarrow> bool" where
  "tags_ok s \<longleftrightarrow> (\<forall>p d v. s p = Some (d, v) \<longrightarrow> v \<noteq> '''')"

lemma header_Get_reply [simp]: "header_Get (resp_Header (reply status tag b)) ''Etag'' = tag"
  by (simp add: header_Get_def reply_def)

lemma reply_simps [simp]: "StatusCode (reply status tag b) = status" "resp_Body (reply status tag b) = Inr b"
  by (simp_all add: reply_def)

lemma one_put_status: "one_put rq s \<in> {200, 404, 412}"
  by (auto simp: one_put_def split: option.splits list.splits)

lemma one_put_new: "map_of (Header rq) ''If-None-Match'' = Some [''*''] \<Longrightarrow> map_of (Header rq) ''If-Match'' = None \<Longrightarrow>
    one_put rq s = (if s (URL_Path rq) = None then 200 else 412)"
  by (auto simp: one_put_def)

lemma one_put_match: "map_of (Header rq) ''If-Match'' = Some [tag] \<Longrightarrow> one_put rq s = 200 \<Longrightarrow>
    \<exists>d. s (URL_Path rq) = Some (d, tag)"
  by (auto simp: one_put_def split: if_splits option.splits)

lemma tags_ok_upd: "tags_ok s \<Longrightarrow> tags_ok (s(p \<mapsto> (b, tag_of b)))"
  by (simp add: tags_ok_def tag_of_def)

lemma tags_ok_del: "tags_ok s \<Longrightarrow> tags_ok (s(p := None))"
  by (simp add: tags_ok_def)

interpretation one_bucket: object_service one_bucket st "\<lambda>s. s" tags_ok for st
proof (unfold_locales, goal_cases)
  case 1 then show ?case by (simp add: tags_ok_def)
next
  case 2 then show ?case by (simp add: one_bucket_def)
next
  case 3 then show ?case by (auto simp: one_bucket_def one_Do_def split: if_splits option.splits)
next
  case 4 then show ?case by (auto simp: one_bucket_def one_Do_def split: if_splits option.splits)
next
  case (5 s rq p c r s') then show ?case
    by (auto simp: one_bucket_def one_Do_def addressed_def split: if_splits option.splits)
next
  case (6 s rq p c r s') then show ?case
    using one_put_status [of rq s] tags_ok_upd [of s p "Body rq"]
    by (auto simp: one_bucket_def one_Do_def addressed_def split: if_splits)
next
  case (7 s rq p c r s') then show ?case
    using one_put_new [of rq s] by (auto simp: one_bucket_def one_Do_def addressed_def split: if_splits)
next
  case (8 s rq p tag s0 p0 d0 c r s') then show ?case
    using one_put_match [of rq tag s] by (auto simp: one_bucket_def one_Do_def addressed_def split: if_splits)
next
  case (9 s rq p c r s') then show ?case
    using tags_ok_del [of s p] by (auto simp: one_bucket_def one_Do_def addressed_def split: if_splits)
qed

section \<open>Properties\<close>

text \<open>
  C18. The bucket backend keeps the contract of a store on every service that answers conditional requests
  as documented, through refusals, conflicts it retries, failures and lost replies: a successful create or
  swap stored exactly the object it named and found its condition, a failed one left the bucket as it was
  or took effect whole, no key touches an object outside the prefix, and an absent object is reported only
  when there is none.
\<close>

theorem bucket_store_keeps_the_contract:
  assumes "object_service T st held ok"
  shows "store_contract (bucket_store T st) (bucket_view st held) (\<lambda>W. ok (service W))"
  by (rule object_service.keeps_contract [OF assms])

definition demo_bucket :: bucket_Store where
  "demo_bucket = projr (bucket_New (\<lambda>s. Inl []) (\<lambda>u s. u) \<lparr>cfg_Bucket = ''media'', cfg_Prefix = ''/ledger/'',
     cfg_Region = ''eu'', cfg_Endpoint = '''', cfg_AccessKeyID = ''id'', cfg_SecretAccessKey = ''key'', cfg_SessionToken = ''''\<rparr>)"

theorem bucket_store_keeps_the_contract_witness:
  "bs_prefix demo_bucket = ''ledger/'' \<and>
   store_contract (bucket_store one_bucket demo_bucket) (bucket_view demo_bucket (\<lambda>s. s)) (\<lambda>W. tags_ok (service W))"
proof
  show "bs_prefix demo_bucket = ''ledger/''"
    by (simp add: demo_bucket_def bucket_New_def trim_slashes_def)
  show "store_contract (bucket_store one_bucket demo_bucket) (bucket_view demo_bucket (\<lambda>s. s)) (\<lambda>W. tags_ok (service W))"
    by (rule bucket_store_keeps_the_contract [OF one_bucket.object_service_axioms])
qed

text \<open>
  \<open>Create\<close> takes the answer 404, which a service gives for a bucket that does not exist, for success: it
  returns the empty version without an error, and nothing was stored.
\<close>

theorem bucket_create_takes_404_for_success:
  assumes "bs_prefix st @ k \<noteq> ''''" and "\<And>rq. NewRequest T rq = None"
    and "\<And>rq s. Do T c rq s = (Inr (reply 404 '''' []), s)"
  shows "bucket_Create T st c k d W = (Inr NoVersion, W\<lparr>sent := Suc (sent W)\<rparr>)"
  using assms by (simp add: bucket_Create_def bucket_put_def conflictAttempts_def numeral_3_eq_3 bucket_do_def Let_def)

theorem bucket_create_takes_404_for_success_witness:
  "bucket_Create (one_bucket\<lparr>Do := \<lambda>c rq s. (Inr (reply 404 '''' []), s)\<rparr>) demo_bucket Live ''k'' ''data'' \<lparr>service = Map.empty, sent = 0\<rparr>
     = (Inr NoVersion, \<lparr>service = Map.empty, sent = 1\<rparr>)"
  using bucket_create_takes_404_for_success [of demo_bucket "''k''" "one_bucket\<lparr>Do := \<lambda>c rq s. (Inr (reply 404 '''' []), s)\<rparr>" Live
    "''data''" "\<lparr>service = Map.empty, sent = 0\<rparr>"] by (simp add: one_bucket_def)

end
