(* ===== verification/Db_Store.thy ===== *)
theory Db_Store
  imports Mem_Store
begin

text \<open>
  The database backend (\<open>ledger/store/db/db.go\<close>): one row per object in a table of a PostgreSQL or
  CockroachDB database, with a counter the conditional writes compare.

  The database is not part of the repository. It is a parameter: a record with the calls of
  \<open>database/sql\<close> the backend makes, over a state of its own. What the statements do is stated by the
  locale \<open>sql_table\<close> for the very texts the backend sends: the documented effect of an insert with
  \<open>ON CONFLICT DO NOTHING\<close>, of a conditional update that returns a column, of a delete and of the two
  queries, each of which may also fail, before or after it took effect. From these the backend is shown to
  keep the contract of a store.
\<close>

section \<open>The database\<close>

datatype sql_value = Text string | Bytea bytes | BigInt int | Boolean bool

text \<open>
  \<open>ExecContext\<close> answers with the result's \<open>RowsAffected\<close>, which can fail by itself; \<open>QueryRowContext\<close>
  with the first row, or \<open>sql.ErrNoRows\<close>; \<open>QueryContext\<close> with the rows and the error that ended them.
\<close>

record 'd database =
  ExecContext :: "ctx \<Rightarrow> string \<Rightarrow> sql_value list \<Rightarrow> 'd \<Rightarrow> (error + error + int) \<times> 'd"
  QueryRowContext :: "ctx \<Rightarrow> string \<Rightarrow> sql_value list \<Rightarrow> 'd \<Rightarrow> (error + sql_value list) \<times> 'd"
  QueryContext :: "ctx \<Rightarrow> string \<Rightarrow> sql_value list \<Rightarrow> 'd \<Rightarrow> (error + sql_value list list \<times> error option) \<times> 'd"

text \<open>\<open>Scan\<close> into the destinations of a call: an error for a row of another shape.\<close>

definition scan_object :: "sql_value list \<Rightarrow> error + bytes \<times> int" where
  "scan_object row = (case row of [Bytea d, BigInt v] \<Rightarrow> Inr (d, v) | _ \<Rightarrow> Inl [])"

definition scan_int :: "sql_value list \<Rightarrow> error + int" where
  "scan_int row = (case row of [BigInt v] \<Rightarrow> Inr v | _ \<Rightarrow> Inl [])"

definition scan_bool :: "sql_value list \<Rightarrow> error + bool" where
  "scan_bool row = (case row of [Boolean b] \<Rightarrow> Inr b | _ \<Rightarrow> Inl [])"

definition scan_text :: "sql_value list \<Rightarrow> error + string" where
  "scan_text row = (case row of [Text k] \<Rightarrow> Inr k | _ \<Rightarrow> Inl [])"

text \<open>\<open>QueryRowContext(...).Scan(...)\<close>.\<close>

definition query_row ::
  "'d database \<Rightarrow> ctx \<Rightarrow> string \<Rightarrow> sql_value list \<Rightarrow> (sql_value list \<Rightarrow> error + 'a) \<Rightarrow> 'd \<Rightarrow> (error + 'a) \<times> 'd" where
  "query_row D c sql args scan d =
     (case QueryRowContext D c sql args d of (Inl e, d) \<Rightarrow> (Inl e, d) | (Inr row, d) \<Rightarrow> (scan row, d))"

section \<open>The statements\<close>

definition select_sql :: "string \<Rightarrow> string" where
  "select_sql table = ''SELECT data, version FROM '' @ table @ '' WHERE key = $1''"

definition insert_sql :: "string \<Rightarrow> string" where
  "insert_sql table =
     ''INSERT INTO '' @ table @ '' (key, data, version) VALUES ($1, $2, $3) ON CONFLICT (key) DO NOTHING''"

definition update_sql :: "string \<Rightarrow> string" where
  "update_sql table =
     ''UPDATE '' @ table @ '' SET data = $2, version = version + 1 WHERE key = $1 AND version = $3 RETURNING version''"

definition exists_sql :: "string \<Rightarrow> string" where
  "exists_sql table = ''SELECT EXISTS (SELECT 1 FROM '' @ table @ '' WHERE key = $1)''"

definition delete_sql :: "string \<Rightarrow> string" where
  "delete_sql table = ''DELETE FROM '' @ table @ '' WHERE key = $1''"

definition list_sql :: "string \<Rightarrow> string" where
  "list_sql table =
     ''SELECT key FROM '' @ table @ '' WHERE left(key, length($1::TEXT)) = $1::TEXT ORDER BY key''"

definition newline_tabs :: "nat \<Rightarrow> string" where
  "newline_tabs n = CHR 0x0A # replicate n (CHR 0x09)"

definition create_table_sql :: "string \<Rightarrow> string" where
  "create_table_sql table =
     ''CREATE TABLE IF NOT EXISTS '' @ table @ '' ('' @ newline_tabs 2 @
     ''key     TEXT   PRIMARY KEY,'' @ newline_tabs 2 @
     ''data    BYTEA  NOT NULL,'' @ newline_tabs 2 @
     ''version BIGINT NOT NULL'' @ newline_tabs 1 @ '')''"

section \<open>The backend\<close>

definition DefaultTable :: string where
  "DefaultTable = ''ledger_objects''"

definition is_letter :: "char \<Rightarrow> bool" where
  "is_letter ch \<longleftrightarrow> (let n = (of_char ch :: nat) in 65 \<le> n \<and> n \<le> 90 \<or> 97 \<le> n \<and> n \<le> 122)"

text \<open>The expression \<open>^[A-Za-z_][A-Za-z0-9_]*$\<close>.\<close>

definition tableName :: "string \<Rightarrow> bool" where
  "tableName t = (case t of [] \<Rightarrow> False
     | ch # cs \<Rightarrow> (is_letter ch \<or> ch = CHR ''_'') \<and> list_all (\<lambda>ch. is_letter ch \<or> is_digit ch \<or> ch = CHR ''_'') cs)"

record db_Store =
  db_table :: string
  db_uri :: string

definition db_String :: "db_Store option \<Rightarrow> string" where
  "db_String s = (case s of
       None \<Rightarrow> ''<nil>''
     | Some s \<Rightarrow> if db_uri s \<noteq> '''' then db_uri s
                 else if db_table s \<noteq> '''' then ''postgres:'' @ db_table s
                 else ''postgres:'' @ DefaultTable)"

text \<open>\<open>New\<close>; a nil database is \<open>None\<close>.\<close>

definition db_New :: "ctx \<Rightarrow> 'd database option \<Rightarrow> string \<Rightarrow> 'd \<Rightarrow> (error + db_Store) \<times> 'd" where
  "db_New c db table d =
     (case db of
        None \<Rightarrow> (Inl [], d)
      | Some D \<Rightarrow>
          let table = (if table = '''' then DefaultTable else table)
          in if \<not> tableName table then (Inl [], d)
             else case ExecContext D c (create_table_sql table) [] d of
               (Inl e, d) \<Rightarrow> (Inl (wrap [] e), d)
             | (Inr _, d) \<Rightarrow> (Inr \<lparr>db_table = table, db_uri = ''''\<rparr>, d))"

definition formatVersion :: "int \<Rightarrow> version" where
  "formatVersion v = FormatInt v"

definition firstVersion :: int where
  "firstVersion = 1"

text \<open>A nil slice and an empty one are both the empty list of bytes, so \<open>notNil\<close> is the identity.\<close>

definition notNil :: "bytes \<Rightarrow> bytes" where
  "notNil d = d"

definition db_insert :: "'d database \<Rightarrow> db_Store \<Rightarrow> ctx \<Rightarrow> string \<Rightarrow> bytes \<Rightarrow> 'd \<Rightarrow> (error + bool) \<times> 'd" where
  "db_insert D st c key b d =
     (case ExecContext D c (insert_sql (db_table st)) [Text key, Bytea (notNil b), BigInt firstVersion] d of
        (Inl e, d) \<Rightarrow> (Inl e, d)
      | (Inr (Inl e), d) \<Rightarrow> (Inl e, d)
      | (Inr (Inr n), d) \<Rightarrow> (Inr (n = 1), d))"

definition db_Get :: "'d database \<Rightarrow> db_Store \<Rightarrow> ctx \<Rightarrow> string \<Rightarrow> 'd \<Rightarrow> (error + bytes \<times> version) \<times> 'd" where
  "db_Get D st c key d =
     (case query_row D c (select_sql (db_table st)) [Text key] scan_object d of
        (Inl e, d) \<Rightarrow> if errors_Is e ErrNoRows then (Inl [ErrNotExist], d) else (Inl (wrap [] e), d)
      | (Inr (b, v), d) \<Rightarrow> (Inr (b, formatVersion v), d))"

definition db_Create :: "'d database \<Rightarrow> db_Store \<Rightarrow> ctx \<Rightarrow> string \<Rightarrow> bytes \<Rightarrow> 'd \<Rightarrow> (error + version) \<times> 'd" where
  "db_Create D st c key b d =
     (case db_insert D st c key b d of
        (Inl e, d) \<Rightarrow> (Inl (wrap [] e), d)
      | (Inr created, d) \<Rightarrow>
          if \<not> created then (Inl [ErrExist], d) else (Inr (formatVersion firstVersion), d))"

text \<open>The end of \<open>Swap\<close>, when nothing was replaced.\<close>

definition db_refused :: "'d database \<Rightarrow> db_Store \<Rightarrow> ctx \<Rightarrow> string \<Rightarrow> 'd \<Rightarrow> (error + version) \<times> 'd" where
  "db_refused D st c key d =
     (case query_row D c (exists_sql (db_table st)) [Text key] scan_bool d of
        (Inl e, d) \<Rightarrow> (Inl (wrap [] e), d)
      | (Inr present, d) \<Rightarrow> if \<not> present then (Inl [ErrNotExist], d) else (Inl [ErrVersionMismatch], d))"

definition db_Swap ::
  "'d database \<Rightarrow> db_Store \<Rightarrow> ctx \<Rightarrow> string \<Rightarrow> bytes \<Rightarrow> version \<Rightarrow> 'd \<Rightarrow> (error + version) \<times> 'd" where
  "db_Swap D st c key b expect d =
     (if expect = NoVersion then
        (case db_insert D st c key b d of
           (Inl e, d) \<Rightarrow> (Inl (wrap [] e), d)
         | (Inr created, d) \<Rightarrow>
             if \<not> created then (Inl [ErrVersionMismatch], d) else (Inr (formatVersion firstVersion), d))
      else case ParseInt expect of
        Inl _ \<Rightarrow> db_refused D st c key d
      | Inr want \<Rightarrow>
          (case query_row D c (update_sql (db_table st)) [Text key, Bytea (notNil b), BigInt want] scan_int d of
             (Inr nxt, d) \<Rightarrow> (Inr (formatVersion nxt), d)
           | (Inl e, d) \<Rightarrow> if \<not> errors_Is e ErrNoRows then (Inl (wrap [] e), d) else db_refused D st c key d))"

definition db_Delete :: "'d database \<Rightarrow> db_Store \<Rightarrow> ctx \<Rightarrow> string \<Rightarrow> 'd \<Rightarrow> error option \<times> 'd" where
  "db_Delete D st c key d =
     (case ExecContext D c (delete_sql (db_table st)) [Text key] d of
        (Inl e, d) \<Rightarrow> (Some (wrap [] e), d)
      | (Inr _, d) \<Rightarrow> (None, d))"

text \<open>The rows of a listing, up to one that does not scan, and the error that ended them.\<close>

fun list_rows :: "sql_value list list \<Rightarrow> error option \<Rightarrow> (error + string) list" where
  "list_rows [] e = (case e of None \<Rightarrow> [] | Some e \<Rightarrow> [Inl (wrap [] e)])"
| "list_rows (row # rows) e =
     (case scan_text row of Inl e' \<Rightarrow> [Inl (wrap [] e')] | Inr key \<Rightarrow> Inr key # list_rows rows e)"

definition db_List :: "'d database \<Rightarrow> db_Store \<Rightarrow> ctx \<Rightarrow> string \<Rightarrow> 'd \<Rightarrow> (error + string) list \<times> 'd" where
  "db_List D st c prfx d =
     (case QueryContext D c (list_sql (db_table st)) [Text prfx] d of
        (Inl e, d) \<Rightarrow> ([Inl (wrap [] e)], d)
      | (Inr (rows, e), d) \<Rightarrow> (list_rows rows e, d))"

definition db_store :: "'d database \<Rightarrow> db_Store \<Rightarrow> 'd store" where
  "db_store D st = \<lparr>Get = db_Get D st, Create = db_Create D st, Swap = db_Swap D st, Delete = db_Delete D st\<rparr>"

section \<open>What the statements do\<close>

type_synonym table_rows = "string \<Rightarrow> (bytes \<times> int) option"

text \<open>
  The errors of the driver and the database wrap none of the store's sentinels. A failed statement that
  writes either took effect or did not.
\<close>

locale sql_table =
  fixes D :: "'d database" and st :: db_Store and rows :: "'d \<Rightarrow> table_rows" and ok :: "'d \<Rightarrow> bool"
  assumes bigint: "ok d \<Longrightarrow> rows d k = Some (b, v) \<Longrightarrow> is_i64 v"
    and select_ok: "ok d \<Longrightarrow> QueryRowContext D c (select_sql (db_table st)) [Text k] d = (r, d') \<Longrightarrow>
      ok d' \<and> rows d' = rows d \<and>
      (case r of Inr row \<Rightarrow> (\<exists>b v. rows d k = Some (b, v) \<and> row = [Bytea b, BigInt v])
       | Inl e \<Rightarrow> set e \<subseteq> {Canceled, ErrNoRows} \<and> (errors_Is e ErrNoRows \<longrightarrow> rows d k = None))"
    and exists_ok: "ok d \<Longrightarrow> QueryRowContext D c (exists_sql (db_table st)) [Text k] d = (r, d') \<Longrightarrow>
      ok d' \<and> rows d' = rows d \<and>
      (case r of Inr row \<Rightarrow> row = [Boolean (rows d k \<noteq> None)] | Inl e \<Rightarrow> set e \<subseteq> {Canceled})"
    and insert_ok: "ok d \<Longrightarrow> is_i64 v \<Longrightarrow>
      ExecContext D c (insert_sql (db_table st)) [Text k, Bytea b, BigInt v] d = (re, d') \<Longrightarrow>
      ok d' \<and>
      (let after = (if rows d k = None then (rows d)(k \<mapsto> (b, v)) else rows d)
       in case re of
            Inl e \<Rightarrow> set e \<subseteq> {Canceled} \<and> (rows d' = rows d \<or> rows d' = after)
          | Inr (Inl e) \<Rightarrow> set e \<subseteq> {Canceled} \<and> rows d' = after
          | Inr (Inr n) \<Rightarrow> rows d' = after \<and> n = (if rows d k = None then 1 else 0))"
    and update_ok: "ok d \<Longrightarrow> is_i64 want \<Longrightarrow>
      QueryRowContext D c (update_sql (db_table st)) [Text k, Bytea b, BigInt want] d = (r, d') \<Longrightarrow>
      ok d' \<and>
      (let hit = (\<exists>b0. rows d k = Some (b0, want)); after = (rows d)(k \<mapsto> (b, want + 1))
       in case r of
            Inr row \<Rightarrow> hit \<and> rows d' = after \<and> row = [BigInt (want + 1)]
          | Inl e \<Rightarrow> set e \<subseteq> {Canceled, ErrNoRows} \<and>
              (rows d' = rows d \<or> \<not> errors_Is e ErrNoRows \<and> hit \<and> rows d' = after) \<and>
              (errors_Is e ErrNoRows \<longrightarrow> \<not> hit))"
    and delete_ok: "ok d \<Longrightarrow> ExecContext D c (delete_sql (db_table st)) [Text k] d = (re, d') \<Longrightarrow>
      ok d' \<and>
      (case re of Inl e \<Rightarrow> rows d' = rows d \<or> rows d' = (rows d)(k := None) | Inr _ \<Rightarrow> rows d' = (rows d)(k := None))"

text \<open>The objects a table holds, with the versions in the form the backend gives them.\<close>

definition table_view :: "('d \<Rightarrow> table_rows) \<Rightarrow> 'd \<Rightarrow> view" where
  "table_view rows d = (\<lambda>k. map_option (\<lambda>(b, v). (b, formatVersion v)) (rows d k))"

lemma FormatInt_nonempty [simp]: "FormatInt v \<noteq> NoVersion"
  by (simp add: FormatInt_def NoVersion_def)

lemma table_view_upd: "rows d' = (rows d)(k \<mapsto> (b, v)) \<Longrightarrow> table_view rows d' = (table_view rows d)(k \<mapsto> (b, formatVersion v))"
  by (auto simp: table_view_def fun_eq_iff)

lemma table_view_same: "rows d' = rows d \<Longrightarrow> table_view rows d' = table_view rows d"
  by (simp add: table_view_def)

lemma table_view_del: "rows d' = (rows d)(k := None) \<Longrightarrow> table_view rows d' = (table_view rows d)(k := None)"
  by (auto simp: table_view_def fun_eq_iff)

lemma table_view_None: "table_view rows d k = None \<longleftrightarrow> rows d k = None"
  by (simp add: table_view_def)

lemma is_i64_firstVersion [simp]: "is_i64 firstVersion"
  by (simp add: firstVersion_def i64_bounds)

context sql_table
begin

lemma issued_parses:
  assumes "issued (table_view rows) ok v" "v \<noteq> NoVersion"
  obtains n where "is_i64 n" "v = formatVersion n" "ParseInt v = Inr n"
proof -
  from assms obtain d k b n where "ok d" "rows d k = Some (b, n)" "v = formatVersion n"
    by (auto simp: issued_def table_view_def)
  with bigint that show thesis by (metis ParseInt_FormatInt formatVersion_def)
qed

lemma insert_view:
  assumes "ok d" and "db_insert D st c k b d = (r, d')"
  shows "ok d'" and "case r of
      Inl e \<Rightarrow> set e \<subseteq> {Canceled} \<and> (rows d' = rows d \<or> rows d k = None \<and> rows d' = (rows d)(k \<mapsto> (b, firstVersion)))
    | Inr created \<Rightarrow> (created \<longleftrightarrow> rows d k = None) \<and>
        rows d' = (if created then (rows d)(k \<mapsto> (b, firstVersion)) else rows d)"
proof -
  obtain x d1 where x: "ExecContext D c (insert_sql (db_table st)) [Text k, Bytea b, BigInt firstVersion] d = (x, d1)" by fastforce
  note e = insert_ok [OF assms(1) is_i64_firstVersion x]
  have d1: "d1 = d'" and r: "r = (case x of Inl e \<Rightarrow> Inl e | Inr (Inl e) \<Rightarrow> Inl e | Inr (Inr n) \<Rightarrow> Inr (n = 1))"
    using x assms(2) by (auto simp: db_insert_def notNil_def split: sum.splits)
  from e d1 show "ok d'" by blast
  show "case r of
      Inl e \<Rightarrow> set e \<subseteq> {Canceled} \<and> (rows d' = rows d \<or> rows d k = None \<and> rows d' = (rows d)(k \<mapsto> (b, firstVersion)))
    | Inr created \<Rightarrow> (created \<longleftrightarrow> rows d k = None) \<and>
        rows d' = (if created then (rows d)(k \<mapsto> (b, firstVersion)) else rows d)"
    using e d1 r by (cases "rows d k") (auto simp: Let_def split: sum.splits)
qed

lemma select_view:
  assumes "ok d" and "query_row D c (select_sql (db_table st)) [Text k] scan_object d = (r, d')"
  shows "ok d'" and "rows d' = rows d"
    and "case r of Inr x \<Rightarrow> rows d k = Some x
      | Inl e \<Rightarrow> set e \<subseteq> {Canceled, ErrNoRows} \<and> (errors_Is e ErrNoRows \<longrightarrow> rows d k = None)"
  using assms(2) select_ok [OF assms(1), of c k]
  by (auto simp: query_row_def scan_object_def split: sum.splits prod.splits)

lemma exists_view:
  assumes "ok d" and "query_row D c (exists_sql (db_table st)) [Text k] scan_bool d = (r, d')"
  shows "ok d'" and "rows d' = rows d"
    and "case r of Inr p \<Rightarrow> p \<longleftrightarrow> rows d k \<noteq> None | Inl e \<Rightarrow> set e \<subseteq> {Canceled}"
  using assms(2) exists_ok [OF assms(1), of c k]
  by (auto simp: query_row_def scan_bool_def split: sum.splits prod.splits)

lemma update_view:
  assumes "ok d" and "is_i64 want"
    and "query_row D c (update_sql (db_table st)) [Text k, Bytea b, BigInt want] scan_int d = (r, d')"
  shows "ok d'" and "case r of
      Inr n \<Rightarrow> n = want + 1 \<and> (\<exists>b0. rows d k = Some (b0, want)) \<and> rows d' = (rows d)(k \<mapsto> (b, want + 1))
    | Inl e \<Rightarrow> set e \<subseteq> {Canceled, ErrNoRows} \<and>
        (rows d' = rows d \<or>
         \<not> errors_Is e ErrNoRows \<and> (\<exists>b0. rows d k = Some (b0, want)) \<and> rows d' = (rows d)(k \<mapsto> (b, want + 1))) \<and>
        (errors_Is e ErrNoRows \<longrightarrow> (\<nexists>b0. rows d k = Some (b0, want)))"
  using assms(3) update_ok [OF assms(1,2), of c k b]
  by (auto simp: query_row_def scan_int_def Let_def split: sum.splits prod.splits)

lemma refused_view:
  assumes "ok d" and "db_refused D st c k d = (r, d')"
  shows "ok d'" and "rows d' = rows d"
    and "\<exists>e. r = Inl e \<and> store_error e \<and>
      (set e \<subseteq> {Canceled} \<or> (if rows d k = None then e = [ErrNotExist] else e = [ErrVersionMismatch]))"
proof -
  obtain x d1 where x: "query_row D c (exists_sql (db_table st)) [Text k] scan_bool d = (x, d1)" by fastforce
  note e = exists_view [OF assms(1) x]
  have r: "(r, d') = (case x of Inl e \<Rightarrow> (Inl e, d1) | Inr p \<Rightarrow> if \<not> p then (Inl [ErrNotExist], d1) else (Inl [ErrVersionMismatch], d1))"
    using x assms(2) by (cases x) (auto simp: db_refused_def wrap_def)
  show "ok d'" and "rows d' = rows d" using e(1,2) r by (auto split: sum.splits if_splits)
  show "\<exists>e. r = Inl e \<and> store_error e \<and>
      (set e \<subseteq> {Canceled} \<or> (if rows d k = None then e = [ErrNotExist] else e = [ErrVersionMismatch]))"
    using e(3) r by (auto simp: store_error_def split: sum.splits if_splits)
qed

lemma swap_new:
  assumes r: "db_Swap D st c k b NoVersion d = (r, d')" and d: "ok d"
  shows "ok d'"
    and "case r of
        Inr v \<Rightarrow> rows d k = None \<and> v = formatVersion firstVersion \<and> rows d' = (rows d)(k \<mapsto> (b, firstVersion))
      | Inl e \<Rightarrow> store_error e \<and> (rows d' = rows d \<or> rows d k = None \<and> rows d' = (rows d)(k \<mapsto> (b, firstVersion)))"
proof -
  obtain x d1 where x: "db_insert D st c k b d = (x, d1)" by fastforce
  note i = insert_view [OF d x]
  have e: "r = (case x of Inl e \<Rightarrow> Inl e | Inr n \<Rightarrow> if n then Inr (formatVersion firstVersion) else Inl [ErrVersionMismatch]) \<and> d1 = d'"
    using r x by (auto simp: db_Swap_def wrap_def split: sum.splits)
  then show "ok d'" using i(1) by simp
  show "case r of
        Inr v \<Rightarrow> rows d k = None \<and> v = formatVersion firstVersion \<and> rows d' = (rows d)(k \<mapsto> (b, firstVersion))
      | Inl e \<Rightarrow> store_error e \<and> (rows d' = rows d \<or> rows d k = None \<and> rows d' = (rows d)(k \<mapsto> (b, firstVersion)))"
    using i(2) e by (cases x) (auto simp: store_error_def)
qed

lemma swap_old:
  assumes r: "db_Swap D st c k b expect d = (r, d')" and d: "ok d" and ne: "expect \<noteq> NoVersion"
  shows "ok d'"
    and "case r of
        Inr v \<Rightarrow> \<exists>b0 n. ParseInt expect = Inr n \<and> rows d k = Some (b0, n) \<and>
          v = formatVersion (n + 1) \<and> rows d' = (rows d)(k \<mapsto> (b, n + 1))
      | Inl e \<Rightarrow> store_error e \<and> (rows d' = rows d \<or> (\<exists>b0 n. ParseInt expect = Inr n \<and> rows d k = Some (b0, n) \<and>
          rows d' = (rows d)(k \<mapsto> (b, n + 1))))"
proof -
  have "ok d' \<and> (case r of
        Inr v \<Rightarrow> \<exists>b0 n. ParseInt expect = Inr n \<and> rows d k = Some (b0, n) \<and>
          v = formatVersion (n + 1) \<and> rows d' = (rows d)(k \<mapsto> (b, n + 1))
      | Inl e \<Rightarrow> store_error e \<and> (rows d' = rows d \<or> (\<exists>b0 n. ParseInt expect = Inr n \<and> rows d k = Some (b0, n) \<and>
          rows d' = (rows d)(k \<mapsto> (b, n + 1)))))"
  proof (cases "ParseInt expect")
    case (Inl e)
    then have "db_refused D st c k d = (r, d')" using r ne by (simp add: db_Swap_def)
    from refused_view [OF d this] show ?thesis by auto
  next
    case (Inr want)
    then have w: "is_i64 want" by (auto simp: ParseInt_def Let_def split: if_splits)
    obtain x d1 where x: "query_row D c (update_sql (db_table st)) [Text k, Bytea b, BigInt want] scan_int d = (x, d1)"
      by fastforce
    note u = update_view [OF d w x]
    show ?thesis
    proof (cases "\<exists>e. x = Inl e \<and> errors_Is e ErrNoRows")
      case True
      then have rf: "db_refused D st c k d1 = (r, d')" using r ne Inr x by (auto simp: db_Swap_def notNil_def)
      have "rows d1 = rows d" using u(2) True by auto
      with refused_view [OF u(1) rf] show ?thesis by auto
    next
      case False
      then have "r = (case x of Inr n \<Rightarrow> Inr (formatVersion n) | Inl e \<Rightarrow> Inl e) \<and> d' = d1"
        using r ne Inr x by (cases x) (auto simp: db_Swap_def notNil_def wrap_def)
      with u False Inr show ?thesis by (cases x) (auto simp: store_error_def errors_Is_def)
    qed
  qed
  then show "ok d'" and "case r of
        Inr v \<Rightarrow> \<exists>b0 n. ParseInt expect = Inr n \<and> rows d k = Some (b0, n) \<and>
          v = formatVersion (n + 1) \<and> rows d' = (rows d)(k \<mapsto> (b, n + 1))
      | Inl e \<Rightarrow> store_error e \<and> (rows d' = rows d \<or> (\<exists>b0 n. ParseInt expect = Inr n \<and> rows d k = Some (b0, n) \<and>
          rows d' = (rows d)(k \<mapsto> (b, n + 1))))" by blast+
qed

text \<open>A version the backend issued is parsed to the number it was printed from, so the comparison is exact.\<close>

lemma issued_matches:
  assumes "issued (table_view rows) ok expect" "expect \<noteq> NoVersion" "ParseInt expect = Inr n" "rows d k = Some (b, n)"
  shows "swap_matches (table_view rows d k) expect"
proof -
  obtain m where "expect = formatVersion m" "ParseInt expect = Inr m" using issued_parses [OF assms(1,2)] .
  with assms(3,4) show ?thesis by (simp add: swap_matches_def table_view_def)
qed

lemma db_get:
  assumes d: "ok d" and g: "Get (db_store D st) c k d = (r, d')"
  shows "ok d'" and "rows d' = rows d"
    and "case r of Inr y \<Rightarrow> table_view rows d k = Some y
      | Inl e \<Rightarrow> store_error e \<and> (errors_Is e ErrNotExist \<longrightarrow> table_view rows d k = None)"
proof -
  obtain x d1 where x: "query_row D c (select_sql (db_table st)) [Text k] scan_object d = (x, d1)" by fastforce
  note s = select_view [OF d x]
  have e: "d' = d1 \<and> r = (case x of Inr (b, v) \<Rightarrow> Inr (b, formatVersion v)
      | Inl e \<Rightarrow> if errors_Is e ErrNoRows then Inl [ErrNotExist] else Inl e)"
    using g x by (cases x) (auto simp: db_store_def db_Get_def wrap_def)
  with s show "ok d'" "rows d' = rows d" by auto
  show "case r of Inr y \<Rightarrow> table_view rows d k = Some y
      | Inl e \<Rightarrow> store_error e \<and> (errors_Is e ErrNotExist \<longrightarrow> table_view rows d k = None)"
  proof (cases x)
    case (Inl y)
    with s(3) e show ?thesis by (auto simp: store_error_def errors_Is_def table_view_def)
  next
    case (Inr y)
    with s(3) e show ?thesis by (cases y) (auto simp: table_view_def)
  qed
qed

lemma db_create:
  assumes d: "ok d" and g: "Create (db_store D st) c k b d = (r, d')"
  shows "ok d'" and "case r of
      Inr v \<Rightarrow> rows d k = None \<and> v = formatVersion firstVersion \<and> rows d' = (rows d)(k \<mapsto> (b, firstVersion))
    | Inl e \<Rightarrow> store_error e \<and> (errors_Is e ErrExist \<longrightarrow> rows d' k \<noteq> None) \<and>
        (rows d' = rows d \<or> rows d k = None \<and> rows d' = (rows d)(k \<mapsto> (b, firstVersion)))"
proof -
  obtain x d1 where x: "db_insert D st c k b d = (x, d1)" by fastforce
  note i = insert_view [OF d x]
  have e: "r = (case x of Inl e \<Rightarrow> Inl e | Inr n \<Rightarrow> if n then Inr (formatVersion firstVersion) else Inl [ErrExist]) \<and> d1 = d'"
    using g x by (auto simp: db_store_def db_Create_def wrap_def split: sum.splits)
  then show "ok d'" using i(1) by simp
  show "case r of
      Inr v \<Rightarrow> rows d k = None \<and> v = formatVersion firstVersion \<and> rows d' = (rows d)(k \<mapsto> (b, firstVersion))
    | Inl e \<Rightarrow> store_error e \<and> (errors_Is e ErrExist \<longrightarrow> rows d' k \<noteq> None) \<and>
        (rows d' = rows d \<or> rows d k = None \<and> rows d' = (rows d)(k \<mapsto> (b, firstVersion)))"
    using i(2) e by (cases x) (auto simp: store_error_def errors_Is_def)
qed

lemma db_swap:
  assumes d: "ok d" and g: "Swap (db_store D st) c k b expect d = (r, d')"
  shows "ok d'" and "case r of
      Inr v \<Rightarrow> (issued (table_view rows) ok expect \<longrightarrow> swap_matches (table_view rows d k) expect) \<and>
        table_view rows d' = (table_view rows d)(k \<mapsto> (b, v))
    | Inl e \<Rightarrow> store_error e \<and> (table_view rows d' = table_view rows d \<or>
        (issued (table_view rows) ok expect \<longrightarrow> swap_matches (table_view rows d k) expect) \<and>
        (\<exists>v. table_view rows d' = (table_view rows d)(k \<mapsto> (b, v))))"
proof -
  have r: "db_Swap D st c k b expect d = (r, d')" using g by (simp add: db_store_def)
  have absent: "swap_matches (table_view rows d k) NoVersion" if "rows d k = None"
    using that by (simp add: swap_matches_def table_view_def)
  have "ok d' \<and> (case r of
      Inr v \<Rightarrow> (issued (table_view rows) ok expect \<longrightarrow> swap_matches (table_view rows d k) expect) \<and>
        table_view rows d' = (table_view rows d)(k \<mapsto> (b, v))
    | Inl e \<Rightarrow> store_error e \<and> (table_view rows d' = table_view rows d \<or>
        (issued (table_view rows) ok expect \<longrightarrow> swap_matches (table_view rows d k) expect) \<and>
        (\<exists>v. table_view rows d' = (table_view rows d)(k \<mapsto> (b, v)))))"
  proof (cases "expect = NoVersion")
    case True
    note s = swap_new [OF r [unfolded True] d]
    show ?thesis
    proof (cases r)
      case (Inl e)
      with s True absent table_view_same [of rows d' d] table_view_upd [of rows d' d k b firstVersion] show ?thesis
        by auto
    next
      case (Inr v)
      with s True absent table_view_upd [of rows d' d k b firstVersion] show ?thesis by auto
    qed
  next
    case False
    note s = swap_old [OF r d False]
    show ?thesis
    proof (cases r)
      case (Inl e)
      with s consider "rows d' = rows d"
        | b0 n where "ParseInt expect = Inr n" "rows d k = Some (b0, n)" "rows d' = (rows d)(k \<mapsto> (b, n + 1))"
        by auto
      then show ?thesis
      proof cases
        case 1
        with table_view_same [OF this] s Inl show ?thesis by simp
      next
        case 2
        with table_view_upd [OF 2(3)] issued_matches [OF _ False 2(1,2)] s Inl show ?thesis by auto
      qed
    next
      case (Inr v)
      with s obtain b0 n where n: "ParseInt expect = Inr n" "rows d k = Some (b0, n)" "v = formatVersion (n + 1)"
          "rows d' = (rows d)(k \<mapsto> (b, n + 1))" by auto
      with table_view_upd [OF n(4)] issued_matches [OF _ False n(1,2)] s Inr show ?thesis by auto
    qed
  qed
  then show "ok d'" and "case r of
      Inr v \<Rightarrow> (issued (table_view rows) ok expect \<longrightarrow> swap_matches (table_view rows d k) expect) \<and>
        table_view rows d' = (table_view rows d)(k \<mapsto> (b, v))
    | Inl e \<Rightarrow> store_error e \<and> (table_view rows d' = table_view rows d \<or>
        (issued (table_view rows) ok expect \<longrightarrow> swap_matches (table_view rows d k) expect) \<and>
        (\<exists>v. table_view rows d' = (table_view rows d)(k \<mapsto> (b, v))))" by blast+
qed

lemma db_delete:
  assumes d: "ok d" and g: "Delete (db_store D st) c k d = (r, d')"
  shows "ok d'" and "table_view rows d' = (table_view rows d)(k := None) \<or> r \<noteq> None \<and> table_view rows d' = table_view rows d"
proof -
  obtain x d1 where x: "ExecContext D c (delete_sql (db_table st)) [Text k] d = (x, d1)" by fastforce
  note e = delete_ok [OF d x]
  have "d' = d1 \<and> (r = None \<longleftrightarrow> (\<exists>y. x = Inr y))"
    using g x by (cases x) (auto simp: db_store_def db_Delete_def wrap_def)
  with e table_view_same [of rows d' d] table_view_del [of rows d' d k]
  show "ok d'" and "table_view rows d' = (table_view rows d)(k := None) \<or> r \<noteq> None \<and> table_view rows d' = table_view rows d"
    by (cases x; auto)+
qed

end

sublocale sql_table \<subseteq> db: store_contract "db_store D st" "table_view rows" ok
proof (unfold_locales, goal_cases)
  case 1 then show ?case by (auto simp: table_view_def formatVersion_def)
next
  case 2 from db_get(1,2) [OF this] show ?case using table_view_same by metis
next
  case 3 from db_get [OF this] show ?case by simp
next
  case 4 from db_get [OF this] show ?case by simp
next
  case 5 from db_create [OF this] show ?case by simp
next
  case (6 s c k d v s') from db_create(2) [OF this] show ?case
    using table_view_upd [of rows s' s k d firstVersion] by (simp add: table_view_None)
next
  case (7 s c k d e s') from db_create(2) [OF this] show ?case
    using table_view_same [of rows s' s] table_view_upd [of rows s' s k d firstVersion]
    by (auto simp: table_view_None)
next
  case 8 from db_swap [OF this] show ?case by simp
next
  case 9 from db_swap [OF this] show ?case by simp
next
  case 10 from db_swap [OF this] show ?case by simp
next
  case 11 from db_delete [OF this] show ?case by simp
next
  case 12 from db_delete [OF this] show ?case by simp
qed

context sql_table
begin

lemma keeps_contract: "store_contract (db_store D st) (table_view rows) ok"
  by (rule db.store_contract_axioms)

end

section \<open>A table\<close>

text \<open>
  A database with the one table of a backend, kept as a map: a live call does what the statement says, the
  others are canceled, and an update beyond the range of \<open>BIGINT\<close> is an error.
\<close>

definition one_exec :: "string \<Rightarrow> ctx \<Rightarrow> string \<Rightarrow> sql_value list \<Rightarrow> table_rows \<Rightarrow> (error + error + int) \<times> table_rows" where
  "one_exec table c sql args d =
     (if c \<noteq> Live then (Inl [Canceled], d)
      else if sql = insert_sql table then
        (case args of
           [Text k, Bytea b, BigInt v] \<Rightarrow> if d k = None then (Inr (Inr 1), d(k \<mapsto> (b, v))) else (Inr (Inr 0), d)
         | _ \<Rightarrow> (Inl [], d))
      else if sql = delete_sql table then
        (case args of [Text k] \<Rightarrow> (Inr (Inr (if d k = None then 0 else 1)), d(k := None)) | _ \<Rightarrow> (Inl [], d))
      else (Inl [], d))"

definition one_query_row :: "string \<Rightarrow> ctx \<Rightarrow> string \<Rightarrow> sql_value list \<Rightarrow> table_rows \<Rightarrow> (error + sql_value list) \<times> table_rows" where
  "one_query_row table c sql args d =
     (if c \<noteq> Live then (Inl [Canceled], d)
      else if sql = select_sql table then
        (case args of
           [Text k] \<Rightarrow> (case d k of None \<Rightarrow> (Inl [ErrNoRows], d) | Some (b, v) \<Rightarrow> (Inr [Bytea b, BigInt v], d))
         | _ \<Rightarrow> (Inl [], d))
      else if sql = exists_sql table then
        (case args of [Text k] \<Rightarrow> (Inr [Boolean (d k \<noteq> None)], d) | _ \<Rightarrow> (Inl [], d))
      else if sql = update_sql table then
        (case args of
           [Text k, Bytea b, BigInt want] \<Rightarrow>
             (case d k of
                None \<Rightarrow> (Inl [ErrNoRows], d)
              | Some (_, v) \<Rightarrow>
                  if v \<noteq> want then (Inl [ErrNoRows], d)
                  else if v = MaxInt64 then (Inl [], d)
                  else (Inr [BigInt (v + 1)], d(k \<mapsto> (b, v + 1))))
         | _ \<Rightarrow> (Inl [], d))
      else (Inl [], d))"

definition one_table :: "string \<Rightarrow> table_rows database" where
  "one_table table = \<lparr>ExecContext = one_exec table, QueryRowContext = one_query_row table,
     QueryContext = (\<lambda>c sql args d. (Inl [], d))\<rparr>"

definition rows_ok :: "table_rows \<Rightarrow> bool" where
  "rows_ok d \<longleftrightarrow> (\<forall>k b v. d k = Some (b, v) \<longrightarrow> is_i64 v)"

lemma statements_differ [simp]:
  "delete_sql t \<noteq> insert_sql t" "exists_sql t \<noteq> select_sql t" "update_sql t \<noteq> select_sql t" "update_sql t \<noteq> exists_sql t"
  by (simp_all add: delete_sql_def insert_sql_def exists_sql_def select_sql_def update_sql_def)

interpretation one: sql_table "one_table (db_table st)" st "\<lambda>d. d" rows_ok for st
proof (unfold_locales, goal_cases)
  case 1 then show ?case by (simp add: rows_ok_def)
next
  case (2 d c k r d') then show ?case
    by (auto simp: one_table_def one_query_row_def split: if_splits option.splits)
next
  case (3 d c k r d') then show ?case
    by (auto simp: one_table_def one_query_row_def split: if_splits option.splits)
next
  case (4 d v c k b re d') then show ?case
    by (auto simp: one_table_def one_exec_def rows_ok_def Let_def split: if_splits option.splits)
next
  case (5 d want c k b r d') 
  then have "is_i64 (want + 1)" if "want \<noteq> MaxInt64" using that by (auto simp: i64_bounds)
  with 5 show ?case
    by (auto simp: one_table_def one_query_row_def rows_ok_def Let_def split: if_splits option.splits)
next
  case (6 d c k re d') then show ?case
    by (auto simp: one_table_def one_exec_def rows_ok_def split: if_splits option.splits)
qed

section \<open>Properties\<close>

text \<open>
  C17. The database backend keeps the contract of a store on every database whose statements do what is
  documented of them, with any statement failing before or after it took effect: a successful create or swap
  replaced exactly the object it named and found the condition it was given, a failed one left the table as
  it was or took effect whole, an absent object is reported only when there is none, and a swap for a
  version the backend issued succeeds only on the object that still has it.
\<close>

theorem db_store_keeps_the_contract:
  assumes "sql_table D st rows ok"
  shows "store_contract (db_store D st) (table_view rows) ok"
  by (rule sql_table.keeps_contract [OF assms])

theorem db_store_keeps_the_contract_witness:
  "store_contract (db_store (one_table ''t'') \<lparr>db_table = ''t'', db_uri = ''''\<rparr>) (table_view (\<lambda>d. d)) rows_ok"
  using db_store_keeps_the_contract [OF one.sql_table_axioms [of "\<lparr>db_table = ''t'', db_uri = ''''\<rparr>"]] by simp

text \<open>
  The comparison of versions is one of numbers: a text the backend never issued, such as \<open>01\<close>, swaps the
  object whose version prints as \<open>1\<close>.
\<close>

lemma db_swap_takes_other_spellings:
  "db_Swap (one_table t) \<lparr>db_table = t, db_uri = u\<rparr> Live k b ''01'' (d(k \<mapsto> (b0, 1))) = (Inr ''2'', d(k \<mapsto> (b, 2)))"
proof -
  have "ParseInt ''01'' = Inr 1" by (simp add: ParseInt_def is_digit_def i64_bounds)
  moreover have "formatVersion 2 = ''2''" by code_simp
  ultimately show ?thesis
    by (simp add: db_Swap_def NoVersion_def query_row_def one_table_def one_query_row_def scan_int_def notNil_def MaxInt64_def)
qed

end
