(* ===== verification/Store_Open.thy ===== *)
theory Store_Open
  imports Fs_Store Bucket_Store Db_Store
begin

text \<open>
  Opening a store by URI (\<open>ledger/store/open.go\<close>, the \<open>open.go\<close> of each backend, and the imports of
  \<open>ledger/backends.go\<close>): the registry of openers by scheme, and the openers themselves.

  Go's URL parser and printer, the environment, the file system and the databases that can be connected to
  are arguments, gathered in a record. A registry is a map; a panic of \<open>Register\<close> is \<open>None\<close>.
\<close>

section \<open>The registry\<close>

record ('f, 'd) host =
  url_Parse :: "string \<Rightarrow> error + url"
  url_String :: "url \<Rightarrow> string"
  url_Redacted :: "url \<Rightarrow> string"
  url_JoinPath :: "url \<Rightarrow> string \<Rightarrow> url"
  getenv :: "string \<Rightarrow> string"
  host_os :: "'f os"
  sql_Open :: "string \<Rightarrow> string \<Rightarrow> error + 'd database"

record ('f, 'd) machine =
  m_files :: 'f
  m_db :: 'd

datatype backend = MemStore mem | FsStore fs_Store | BucketStore bucket_Store | DbStore db_Store

type_synonym ('f, 'd) opener = "ctx \<Rightarrow> url \<Rightarrow> ('f, 'd) machine \<Rightarrow> (error + backend) \<times> ('f, 'd) machine"
type_synonym ('f, 'd) registry = "(string, ('f, 'd) opener) mapping"

definition MemoryScheme :: string where
  "MemoryScheme = ''mem''"

definition Register :: "string \<Rightarrow> ('f, 'd) opener option \<Rightarrow> ('f, 'd) registry \<Rightarrow> ('f, 'd) registry option" where
  "Register scheme opn reg =
     (case opn of
        None \<Rightarrow> None
      | Some f \<Rightarrow> if Mapping.lookup reg scheme \<noteq> None then None else Some (Mapping.update scheme f reg))"

definition Schemes :: "('f, 'd) registry \<Rightarrow> string list" where
  "Schemes reg = Mapping.ordered_keys reg"

definition Open_Store ::
  "('f, 'd) host \<Rightarrow> ('f, 'd) registry \<Rightarrow> ctx \<Rightarrow> string \<Rightarrow> ('f, 'd) machine \<Rightarrow> (error + backend) \<times> ('f, 'd) machine" where
  "Open_Store H reg c uri m =
     (let uri = (if uri = '''' then MemoryScheme @ '':'' else uri)
      in case url_Parse H uri of
           Inl e \<Rightarrow> (Inl (wrap [] e), m)
         | Inr u \<Rightarrow>
             (case Mapping.lookup reg (u_Scheme u) of
                None \<Rightarrow> (Inl [ErrUnknownScheme], m)
              | Some f \<Rightarrow> f c u m))"

section \<open>The openers\<close>

definition mem_opener :: "('f, 'd) opener" where
  "mem_opener c u m = (Inr (MemStore mem_New), m)"

definition uriPath :: "url \<Rightarrow> error + string" where
  "uriPath u =
     (if u_Host u \<noteq> '''' \<and> u_Host u \<noteq> ''localhost'' then Inl []
      else
        let dir = (if u_Opaque u = '''' then u_Path u else u_Opaque u)
        in if dir = '''' then Inl []
           else Inr (if length dir \<ge> 3 \<and> dir ! 0 = CHR ''/'' \<and> dir ! 2 = CHR '':'' then drop 1 dir else dir))"

definition fs_opener :: "('f, 'd) host \<Rightarrow> ('f, 'd) opener" where
  "fs_opener H c u m =
     (case uriPath u of
        Inl e \<Rightarrow> (Inl (wrap [] e), m)
      | Inr dir \<Rightarrow>
          (case fs_New (host_os H) dir (m_files m) of
             (Inl e, f) \<Rightarrow> (Inl e, m\<lparr>m_files := f\<rparr>)
           | (Inr st, f) \<Rightarrow> (Inr (FsStore st), m\<lparr>m_files := f\<rparr>)))"

definition bucket_opener :: "('f, 'd) host \<Rightarrow> ('f, 'd) opener" where
  "bucket_opener H c u m =
     (case configFromURI u (getenv H) of
        Inl e \<Rightarrow> (Inl (wrap [] e), m)
      | Inr cfg \<Rightarrow>
          (case bucket_New (url_Parse H) (url_JoinPath H) cfg of
             Inl e \<Rightarrow> (Inl e, m)
           | Inr st \<Rightarrow> (Inr (BucketStore (st\<lparr>bs_uri := url_Redacted H u\<rparr>)), m)))"

definition splitTable :: "('f, 'd) host \<Rightarrow> string \<Rightarrow> error + string \<times> string" where
  "splitTable H uri =
     (case url_Parse H uri of
        Inl e \<Rightarrow> Inl (wrap [] e)
      | Inr u \<Rightarrow> Inr (url_String H (u\<lparr>u_Query := AList.delete ''table'' (u_Query u)\<rparr>), values_Get (u_Query u) ''table''))"

definition db_Open :: "('f, 'd) host \<Rightarrow> ctx \<Rightarrow> string \<Rightarrow> 'd \<Rightarrow> (error + db_Store) \<times> 'd" where
  "db_Open H c uri d =
     (case splitTable H uri of
        Inl e \<Rightarrow> (Inl e, d)
      | Inr (dsn, table) \<Rightarrow>
          (case sql_Open H ''pgx'' dsn of
             Inl e \<Rightarrow> (Inl (wrap [] e), d)
           | Inr D \<Rightarrow>
               (case db_New c (Some D) table d of
                  (Inl e, d) \<Rightarrow> (Inl e, d)
                | (Inr st, d) \<Rightarrow>
                    (Inr (case url_Parse H uri of Inl _ \<Rightarrow> st | Inr u \<Rightarrow> st\<lparr>db_uri := url_Redacted H u\<rparr>), d))))"

definition db_opener :: "('f, 'd) host \<Rightarrow> ('f, 'd) opener" where
  "db_opener H c u m =
     (case db_Open H c (url_String H u) (m_db m) of
        (Inl e, d) \<Rightarrow> (Inl e, m\<lparr>m_db := d\<rparr>)
      | (Inr st, d) \<Rightarrow> (Inr (DbStore st), m\<lparr>m_db := d\<rparr>))"

text \<open>The registrations of the backends' \<open>init\<close> functions, one after the other.\<close>

fun register_all :: "(string \<times> ('f, 'd) opener) list \<Rightarrow> ('f, 'd) registry \<Rightarrow> ('f, 'd) registry option" where
  "register_all [] reg = Some reg"
| "register_all ((scheme, f) # fs) reg =
     (case Register scheme (Some f) reg of None \<Rightarrow> None | Some reg \<Rightarrow> register_all fs reg)"

definition backends :: "('f, 'd) host \<Rightarrow> ('f, 'd) registry option" where
  "backends H = register_all
     [(''s3'', bucket_opener H), (''postgres'', db_opener H), (''postgresql'', db_opener H), (''file'', fs_opener H),
      (MemoryScheme, mem_opener)] Mapping.empty"

section \<open>What opening does\<close>

lemma Register_once: "Register scheme (Some f) reg = Some reg' \<Longrightarrow> Register scheme opn reg' = None"
  by (auto simp: Register_def split: if_splits option.splits)

lemma backends_lookup:
  obtains reg where "backends H = Some reg"
    and "Mapping.lookup reg = [''s3'' \<mapsto> bucket_opener H, ''postgres'' \<mapsto> db_opener H, ''postgresql'' \<mapsto> db_opener H,
      ''file'' \<mapsto> fs_opener H, ''mem'' \<mapsto> mem_opener]"
proof -
  have "\<exists>reg. backends H = Some reg \<and> Mapping.lookup reg = [''s3'' \<mapsto> bucket_opener H, ''postgres'' \<mapsto> db_opener H,
      ''postgresql'' \<mapsto> db_opener H, ''file'' \<mapsto> fs_opener H, ''mem'' \<mapsto> mem_opener]"
    by (simp add: backends_def Register_def MemoryScheme_def lookup_update' fun_eq_iff)
  then show thesis using that by blast
qed

text \<open>The empty URI is the memory store, and a scheme no backend registered is refused without any effect.\<close>

lemma Open_Store_mem:
  assumes "backends H = Some reg" "url_Parse H ''mem:'' = Inr u" "u_Scheme u = ''mem''"
  shows "Open_Store H reg c '''' m = (Inr (MemStore mem_New), m)"
proof -
  obtain reg' where "backends H = Some reg'" and "Mapping.lookup reg' = [''s3'' \<mapsto> bucket_opener H,
      ''postgres'' \<mapsto> db_opener H, ''postgresql'' \<mapsto> db_opener H, ''file'' \<mapsto> fs_opener H, ''mem'' \<mapsto> mem_opener]"
    by (rule backends_lookup)
  with assms show ?thesis by (simp add: Open_Store_def MemoryScheme_def mem_opener_def)
qed

lemma Open_Store_unknown:
  assumes "backends H = Some reg" "url_Parse H uri = Inr u" "uri \<noteq> ''''"
    and "u_Scheme u \<notin> {''s3'', ''postgres'', ''postgresql'', ''file'', ''mem''}"
  shows "Open_Store H reg c uri m = (Inl [ErrUnknownScheme], m)"
proof -
  obtain reg' where "backends H = Some reg'" and "Mapping.lookup reg' = [''s3'' \<mapsto> bucket_opener H,
      ''postgres'' \<mapsto> db_opener H, ''postgresql'' \<mapsto> db_opener H, ''file'' \<mapsto> fs_opener H, ''mem'' \<mapsto> mem_opener]"
    by (rule backends_lookup)
  with assms show ?thesis by (simp add: Open_Store_def)
qed

end
