(* ===== verification/Float64.thy ===== *)
theory Float64
  imports Complex_Main "HOL-Library.Log_Nat" "HOL-Library.Signed_Division" Prelude
begin

text \<open>
  Go's \<open>float64\<close>: the finite values are rationals, and every operation gives the binary64 value nearest to
  the exact result, ties to the even significand, with subnormals and overflow to an infinity. The two zeros
  are one value here: they differ only under division by zero, which the code never does. A conversion to
  \<open>int64\<close> cuts the fraction off; out of range the language leaves the result to the implementation, and the
  model takes that of amd64, the least \<open>int64\<close>. Products and sums are not fused, as on amd64.
\<close>

section \<open>Rounding\<close>

datatype float64 = NaN | Infty bool | Fin rat

text \<open>The exponent of the highest binary digit of a positive rational.\<close>

definition exponent :: "rat \<Rightarrow> int" where
  "exponent x = (if x \<ge> 1 then bitlen \<lfloor>x\<rfloor> - 1 else - bitlen (\<lceil>1 / x\<rceil> - 1))"

definition round_even :: "rat \<Rightarrow> int" where
  "round_even x =
     (let f = \<lfloor>x\<rfloor>; r = x - of_int f
      in if r < 1 / 2 then f else if r > 1 / 2 then f + 1 else if even f then f else f + 1)"

text \<open>The distance of neighbouring values around a positive rational: 53 digits, and none below \<open>2 ^ -1074\<close>.\<close>

definition quantum :: "rat \<Rightarrow> rat" where
  "quantum x = 2 powi (max (exponent x) (-1022) - 52)"

definition nearest :: "rat \<Rightarrow> rat" where
  "nearest x =
     (if x = 0 then 0 else sgn x * (of_int (round_even (\<bar>x\<bar> / quantum \<bar>x\<bar>)) * quantum \<bar>x\<bar>))"

definition round64 :: "rat \<Rightarrow> float64" where
  "round64 x = (if \<bar>nearest x\<bar> \<ge> 2 ^ 1024 then Infty (x < 0) else Fin (nearest x))"

section \<open>Operations\<close>

definition float_of_int :: "int \<Rightarrow> float64" where
  "float_of_int i = round64 (of_int i)"

fun fneg :: "float64 \<Rightarrow> float64" where
  "fneg NaN = NaN"
| "fneg (Infty s) = Infty (\<not> s)"
| "fneg (Fin x) = Fin (- x)"

fun fadd :: "float64 \<Rightarrow> float64 \<Rightarrow> float64" where
  "fadd (Fin x) (Fin y) = round64 (x + y)"
| "fadd (Infty s) (Fin y) = Infty s"
| "fadd (Fin x) (Infty s) = Infty s"
| "fadd (Infty s) (Infty s') = (if s = s' then Infty s else NaN)"
| "fadd NaN y = NaN"
| "fadd x NaN = NaN"

definition fsub :: "float64 \<Rightarrow> float64 \<Rightarrow> float64" where
  "fsub x y = fadd x (fneg y)"

fun fmul :: "float64 \<Rightarrow> float64 \<Rightarrow> float64" where
  "fmul (Fin x) (Fin y) = round64 (x * y)"
| "fmul (Infty s) (Fin y) = (if y = 0 then NaN else Infty (s \<noteq> (y < 0)))"
| "fmul (Fin x) (Infty s) = (if x = 0 then NaN else Infty (s \<noteq> (x < 0)))"
| "fmul (Infty s) (Infty s') = Infty (s \<noteq> s')"
| "fmul NaN y = NaN"
| "fmul x NaN = NaN"

fun fdiv :: "float64 \<Rightarrow> float64 \<Rightarrow> float64" where
  "fdiv (Fin x) (Fin y) = (if y = 0 then if x = 0 then NaN else Infty (x < 0) else round64 (x / y))"
| "fdiv (Infty s) (Fin y) = Infty (s \<noteq> (y < 0))"
| "fdiv (Fin x) (Infty s) = Fin 0"
| "fdiv (Infty s) (Infty s') = NaN"
| "fdiv NaN y = NaN"
| "fdiv x NaN = NaN"

text \<open>Comparisons: every one with a NaN is false.\<close>

fun fle :: "float64 \<Rightarrow> float64 \<Rightarrow> bool" where
  "fle (Fin x) (Fin y) \<longleftrightarrow> x \<le> y"
| "fle (Infty s) (Fin y) \<longleftrightarrow> s"
| "fle (Fin x) (Infty s) \<longleftrightarrow> \<not> s"
| "fle (Infty s) (Infty s') \<longleftrightarrow> s \<or> \<not> s'"
| "fle NaN y \<longleftrightarrow> False"
| "fle x NaN \<longleftrightarrow> False"

definition fless :: "float64 \<Rightarrow> float64 \<Rightarrow> bool" where
  "fless x y \<longleftrightarrow> fle x y \<and> \<not> fle y x"

text \<open>The built-in \<open>min\<close>: a NaN when one argument is.\<close>

definition fmin :: "float64 \<Rightarrow> float64 \<Rightarrow> float64" where
  "fmin x y = (if x = NaN \<or> y = NaN then NaN else if fle x y then x else y)"

fun int64_of_float :: "float64 \<Rightarrow> int" where
  "int64_of_float (Fin x) =
     (let i = (if x < 0 then \<lceil>x\<rceil> else \<lfloor>x\<rfloor>) in if - (2 ^ 63) \<le> i \<and> i < 2 ^ 63 then i else - (2 ^ 63))"
| "int64_of_float (Infty s) = - (2 ^ 63)"
| "int64_of_float NaN = - (2 ^ 63)"

section \<open>Durations\<close>

text \<open>\<open>time.Time.Sub\<close>: the difference in nanoseconds, held to the range of a \<open>time.Duration\<close>.\<close>

definition time_Sub :: "int \<Rightarrow> int \<Rightarrow> int" where
  "time_Sub t u = max (- (2 ^ 63)) (min (2 ^ 63 - 1) (t - u))"

text \<open>\<open>time.Duration.Seconds\<close>: whole seconds and the rest are converted each on its own.\<close>

definition Seconds :: "int \<Rightarrow> float64" where
  "Seconds d = fadd (float_of_int (d sdiv 10 ^ 9)) (fdiv (float_of_int (d smod 10 ^ 9)) (Fin (10 ^ 9)))"

section \<open>How far a rounded value is off\<close>

lemma two_powi_pos: "0 < (2 :: rat) powi k"
  by (simp add: power_int_def)

lemma quantum_pos: "0 < quantum x"
  by (simp add: quantum_def two_powi_pos)

lemma bitlen_positive: "0 < i \<Longrightarrow> 0 < bitlen i"
  using bitlen_nonneg [of "i div 2"] by (subst compute_bitlen) simp

lemma exponent_le:
  assumes "0 < x" shows "2 powi (exponent x) \<le> x"
proof (cases "x \<ge> 1")
  case True
  then have f: "0 < \<lfloor>x\<rfloor>" by simp
  have "2 ^ nat (bitlen \<lfloor>x\<rfloor> - 1) \<le> \<lfloor>x\<rfloor>" using bitlen_bounds [OF f] by simp
  then have "(of_int (2 ^ nat (bitlen \<lfloor>x\<rfloor> - 1)) :: rat) \<le> of_int \<lfloor>x\<rfloor>" by (rule of_int_le_iff [THEN iffD2])
  also have "\<dots> \<le> x" by simp
  finally have "2 ^ nat (bitlen \<lfloor>x\<rfloor> - 1) \<le> x" by simp
  moreover have "0 < bitlen \<lfloor>x\<rfloor>" using f by (rule bitlen_positive)
  ultimately show ?thesis using True by (simp add: exponent_def power_int_def)
next
  case False
  let ?c = "\<lceil>1 / x\<rceil> - 1"
  have "1 < 1 / x" using assms False by simp
  then have c: "0 < ?c" by simp
  have "?c < 2 ^ nat (bitlen ?c)" using bitlen_bounds [OF c] by simp
  then have "\<lceil>1 / x\<rceil> \<le> 2 ^ nat (bitlen ?c)" by simp
  then have i: "(of_int \<lceil>1 / x\<rceil> :: rat) \<le> of_int (2 ^ nat (bitlen ?c))" by (rule of_int_le_iff [THEN iffD2])
  have "1 / x \<le> of_int \<lceil>1 / x\<rceil>" by (rule le_of_int_ceiling)
  also note i
  finally have "1 / x \<le> 2 ^ nat (bitlen ?c)" by simp
  then have "1 / 2 ^ nat (bitlen ?c) \<le> x" using assms by (simp add: field_simps)
  moreover have "0 < bitlen ?c" using c by (rule bitlen_positive)
  ultimately show ?thesis using False by (simp add: exponent_def power_int_def power_one_over)
qed

lemma round_even_near: "\<bar>of_int (round_even x) - x\<bar> \<le> 1 / 2"
proof -
  have "of_int \<lfloor>x\<rfloor> \<le> x" "x < of_int \<lfloor>x\<rfloor> + 1" by linarith+
  then show ?thesis by (auto simp: round_even_def Let_def abs_le_iff)
qed

text \<open>The law all bounds rest on: half a unit in the last place, or half the least subnormal.\<close>

lemma nearest_error: "\<bar>nearest x - x\<bar> \<le> \<bar>x\<bar> / 2 ^ 53 + 1 / 2 ^ 1075"
proof (cases "x = 0")
  case True
  then show ?thesis by (simp add: nearest_def)
next
  case False
  let ?a = "\<bar>x\<bar>" and ?q = "quantum \<bar>x\<bar>"
  have a: "0 < ?a" using False by simp
  note q = quantum_pos [of ?a]
  have "nearest x - x = sgn x * (of_int (round_even (?a / ?q)) * ?q - ?a)"
    using False unfolding right_diff_distrib sgn_mult_abs by (simp add: nearest_def)
  then have "\<bar>nearest x - x\<bar> = \<bar>of_int (round_even (?a / ?q)) * ?q - ?a\<bar>"
    using False by (simp add: abs_mult abs_sgn_eq)
  also have "\<dots> = \<bar>of_int (round_even (?a / ?q)) - ?a / ?q\<bar> * ?q"
  proof -
    have "of_int (round_even (?a / ?q)) * ?q - ?a = (of_int (round_even (?a / ?q)) - ?a / ?q) * ?q"
      using q by (simp add: algebra_simps)
    then show ?thesis using q by (simp add: abs_mult)
  qed
  also have "\<dots> \<le> 1 / 2 * ?q" using round_even_near [of "?a / ?q"] q by (intro mult_right_mono) simp_all
  also have "\<dots> \<le> ?a / 2 ^ 53 + 1 / 2 ^ 1075"
  proof (cases "exponent ?a \<ge> -1022")
    case True
    then have "?q = 2 powi (exponent ?a) / 2 ^ 52" by (simp add: quantum_def power_int_diff)
    moreover have "2 powi (exponent ?a) \<le> ?a" using a by (rule exponent_le)
    ultimately have "1 / 2 * ?q \<le> ?a / 2 ^ 53" by simp
    then show ?thesis by (simp add: add_increasing2)
  next
    case False
    then have "?q = 2 powi (-1074)" by (simp add: quantum_def)
    also have "\<dots> = 1 / 2 ^ 1074" by (simp add: power_int_def power_one_over)
    finally have "1 / 2 * ?q = 1 / 2 ^ 1075" by simp
    then show ?thesis by simp
  qed
  finally show ?thesis .
qed

lemma round_even_nonneg: "0 \<le> x \<Longrightarrow> 0 \<le> round_even x"
  by (simp add: round_even_def Let_def)

lemma nearest_nonneg: "0 \<le> x \<Longrightarrow> 0 \<le> nearest x"
  using quantum_pos [of "\<bar>x\<bar>"] by (simp add: nearest_def round_even_nonneg)

lemma nearest_zero [simp]: "nearest 0 = 0"
  by (simp add: nearest_def)

text \<open>An operation whose exact result is far from the overflow gives the finite rounded value.\<close>

lemma round64_Fin:
  assumes "\<bar>x\<bar> \<le> 2 ^ 1000" shows "round64 x = Fin (nearest x)"
proof -
  have "\<bar>nearest x\<bar> \<le> \<bar>x\<bar> + (\<bar>x\<bar> / 2 ^ 53 + 1 / 2 ^ 1075)" using nearest_error [of x] by linarith
  also have "\<dots> \<le> 2 ^ 1000 + (2 ^ 1000 / 2 ^ 53 + 1 / 2 ^ 1075)"
    using assms by (intro add_mono divide_right_mono) simp_all
  also have "\<dots> < 2 ^ 1024" by simp
  finally show ?thesis by (simp add: round64_def)
qed

section \<open>Rounding is monotone\<close>

lemma exponent_gt:
  assumes "0 < x" shows "x < 2 powi (exponent x + 1)"
proof (cases "x \<ge> 1")
  case True
  then have f: "0 < \<lfloor>x\<rfloor>" by simp
  have "\<lfloor>x\<rfloor> < 2 ^ nat (bitlen \<lfloor>x\<rfloor>)" using bitlen_bounds [OF f] by simp
  then have "\<lfloor>x\<rfloor> + 1 \<le> 2 ^ nat (bitlen \<lfloor>x\<rfloor>)" by simp
  then have i: "(of_int (\<lfloor>x\<rfloor> + 1) :: rat) \<le> of_int (2 ^ nat (bitlen \<lfloor>x\<rfloor>))" by (rule of_int_le_iff [THEN iffD2])
  have "x < of_int (\<lfloor>x\<rfloor> + 1)" by linarith
  also note i
  finally have "x < 2 ^ nat (bitlen \<lfloor>x\<rfloor>)" by simp
  then show ?thesis using True bitlen_nonneg [of "\<lfloor>x\<rfloor>"] by (simp add: exponent_def power_int_def)
next
  case False
  let ?c = "\<lceil>1 / x\<rceil> - 1"
  have "1 < 1 / x" using assms False by simp
  then have c: "0 < ?c" by simp
  have "2 ^ nat (bitlen ?c - 1) \<le> ?c" using bitlen_bounds [OF c] by simp
  then have i: "(of_int (2 ^ nat (bitlen ?c - 1)) :: rat) \<le> of_int ?c" by (rule of_int_le_iff [THEN iffD2])
  have "of_int ?c < 1 / x" by linarith
  with i have "2 ^ nat (bitlen ?c - 1) < 1 / x" by simp
  then have "x < 1 / 2 ^ nat (bitlen ?c - 1)" using assms by (simp add: field_simps)
  also have "\<dots> = 2 powi (exponent x + 1)"
    using False bitlen_positive [OF c] by (cases "bitlen ?c = 1") (simp_all add: exponent_def power_int_def power_one_over)
  finally show ?thesis .
qed

lemma two_powi_less: "(2 :: rat) powi a < 2 powi b \<longleftrightarrow> a < b"
  using power_int_strict_increasing [of a b "2 :: rat"] power_int_increasing [of b a "2 :: rat"] by fastforce

lemma exponent_least:
  assumes "0 < x" "x < 2 powi k" shows "exponent x < k"
proof -
  have "2 powi (exponent x) < (2 :: rat) powi k" using exponent_le [OF assms(1)] assms(2) by linarith
  then show ?thesis by (simp add: two_powi_less)
qed

lemma exponent_greatest:
  assumes "2 powi k \<le> x" shows "k \<le> exponent x"
proof -
  have "0 < x" using two_powi_pos [of k] assms by linarith
  then have "2 powi k < (2 :: rat) powi (exponent x + 1)" using exponent_gt assms by (meson le_less_trans)
  then show ?thesis by (simp add: two_powi_less)
qed

lemma round_even_mono: "x \<le> y \<Longrightarrow> round_even x \<le> round_even y"
proof -
  assume le: "x \<le> y"
  then have "\<lfloor>x\<rfloor> \<le> \<lfloor>y\<rfloor>" by (rule floor_mono)
  then consider "\<lfloor>x\<rfloor> = \<lfloor>y\<rfloor>" | "\<lfloor>x\<rfloor> + 1 \<le> \<lfloor>y\<rfloor>" by linarith
  then show ?thesis using le by cases (auto simp: round_even_def Let_def)
qed

lemma round_even_of_int [simp]: "round_even (of_int i) = i"
  by (simp add: round_even_def)

text \<open>The rounding of a positive rational at a given exponent.\<close>

definition scaled :: "int \<Rightarrow> rat \<Rightarrow> rat" where
  "scaled k x = of_int (round_even (x / 2 powi (k - 52))) * 2 powi (k - 52)"

abbreviation (input) expo :: "rat \<Rightarrow> int" where
  "expo x \<equiv> max (exponent x) (-1022)"

lemma nearest_scaled: "0 < x \<Longrightarrow> nearest x = scaled (expo x) x"
  by (simp add: nearest_def scaled_def quantum_def)

lemma scaled_mono: "x \<le> y \<Longrightarrow> scaled k x \<le> scaled k y"
  by (simp add: scaled_def two_powi_pos divide_right_mono round_even_mono less_imp_le)

lemma scaled_exact:
  assumes "k - 52 \<le> j" shows "scaled k (of_int i * 2 powi j) = of_int i * 2 powi j"
proof -
  have "(2 :: rat) powi j = 2 powi (j - (k - 52)) * 2 powi (k - 52)" by (simp flip: power_int_add)
  moreover have "(2 :: rat) powi (j - (k - 52)) = of_int (2 ^ nat (j - (k - 52)))" using assms by (simp add: power_int_def)
  ultimately have eq: "of_int i * 2 powi j = of_int (i * 2 ^ nat (j - (k - 52))) * (2 :: rat) powi (k - 52)" by simp
  have "(of_int (i * 2 ^ nat (j - (k - 52))) * (2 :: rat) powi (k - 52)) / 2 powi (k - 52) = of_int (i * 2 ^ nat (j - (k - 52)))"
    using two_powi_pos [of "k - 52"] by simp
  then show ?thesis unfolding scaled_def eq by (simp del: of_int_mult)
qed

lemma scaled_at_power: "k - 52 \<le> j \<Longrightarrow> scaled k (2 powi j) = 2 powi j"
  using scaled_exact [of k j 1] by simp

lemma nearest_mono_pos:
  assumes "0 < x" "x \<le> y" shows "nearest x \<le> nearest y"
proof -
  have y: "0 < y" using assms by linarith
  have "x < 2 powi (exponent y + 1)" using exponent_gt [OF y] assms by linarith
  then have le: "exponent x \<le> exponent y" using exponent_least [OF assms(1)] by fastforce
  show ?thesis
  proof (cases "expo x = expo y")
    case True
    then show ?thesis using assms y by (simp add: nearest_scaled scaled_mono)
  next
    case False
    with le have lt: "expo x + 1 \<le> exponent y" by auto
    have "x \<le> 2 powi (exponent x + 1)" using exponent_gt [OF assms(1)] by simp
    also have "\<dots> \<le> 2 powi (expo x + 1)" by (rule power_int_increasing) simp_all
    finally have "scaled (expo x) x \<le> scaled (expo x) (2 powi (expo x + 1))" by (rule scaled_mono)
    then have "nearest x \<le> 2 powi (expo x + 1)"
      using scaled_at_power [of "expo x" "expo x + 1"] assms by (simp add: nearest_scaled)
    also have "\<dots> \<le> 2 powi (exponent y)" using lt by (intro power_int_increasing) simp_all
    also have "\<dots> \<le> nearest y"
      using scaled_mono [OF exponent_le [OF y], of "expo y"] scaled_at_power [of "expo y" "exponent y"] lt y
      by (simp add: nearest_scaled)
    finally show ?thesis .
  qed
qed

lemma nearest_minus: "nearest (- x) = - nearest x"
  by (simp add: nearest_def)

lemma nearest_mono: "x \<le> y \<Longrightarrow> nearest x \<le> nearest y"
proof -
  assume le: "x \<le> y"
  consider "0 < x" | "y < 0" | "x \<le> 0" "0 \<le> y" by linarith
  then show ?thesis
  proof cases
    case 1
    then show ?thesis using le by (rule nearest_mono_pos)
  next
    case 2
    then show ?thesis using nearest_mono_pos [of "- y" "- x"] le by (simp add: nearest_minus)
  next
    case 3
    then show ?thesis using nearest_nonneg [of y] nearest_nonneg [of "- x"] by (simp add: nearest_minus)
  qed
qed

text \<open>A rounded value is its own rounding.\<close>

lemma nearest_exact:
  assumes "\<bar>i\<bar> \<le> 2 ^ 53" "-1074 \<le> j" shows "nearest (of_int i * 2 powi j) = of_int i * 2 powi j"
proof -
  have pos: "nearest (of_int i * 2 powi j) = of_int i * 2 powi j" if i: "0 < i" "i \<le> 2 ^ 53" for i :: int
  proof -
    let ?v = "of_int i * 2 powi j :: rat"
    have v: "0 < ?v" using i two_powi_pos [of j] by simp
    have i': "(of_int i :: rat) \<le> 2 ^ 53" using of_int_le_iff [THEN iffD2, OF i(2)] by simp
    have "?v \<le> 2 ^ 53 * 2 powi j" using i' two_powi_pos [of j] by (simp add: mult_right_mono less_imp_le)
    also have "(2 :: rat) ^ 53 * 2 powi j = 2 powi (j + 53)" by (simp add: power_int_add)
    finally have le: "?v \<le> 2 powi (j + 53)" .
    show ?thesis
    proof (cases "?v = 2 powi (j + 53)")
      case True
      have "exponent ?v \<le> j + 53" using exponent_least [OF v, of "j + 54"] True by (simp add: two_powi_less)
      then show ?thesis using v True scaled_at_power [of "expo ?v" "j + 53"] assms(2) by (simp add: nearest_scaled)
    next
      case False
      then have "exponent ?v < j + 53" using exponent_least [OF v] le by simp
      then show ?thesis using v scaled_exact [of "expo ?v" j i] assms(2) by (simp add: nearest_scaled)
    qed
  qed
  consider "i = 0" | "0 < i" | "0 < - i" by linarith
  then show ?thesis
  proof cases
    case 3
    then show ?thesis using pos [of "- i"] assms(1) nearest_minus [of "of_int i * 2 powi j"] by simp
  qed (use pos assms(1) in simp_all)
qed

lemma nearest_of_int: "\<bar>i\<bar> \<le> 2 ^ 53 \<Longrightarrow> nearest (of_int i) = of_int i"
  using nearest_exact [of i 0] by simp

lemma nearest_idem: "nearest (nearest x) = nearest x"
proof -
  have pos: "nearest (nearest x) = nearest x" if x: "0 < x" for x
  proof -
    let ?q = "2 powi (expo x - 52) :: rat" and ?m = "round_even (x / 2 powi (expo x - 52))"
    have "x \<le> 2 powi (exponent x + 1)" using exponent_gt [OF x] by simp
    also have "\<dots> \<le> 2 powi (expo x + 1)" by (rule power_int_increasing) simp_all
    also have "\<dots> = 2 ^ 53 * ?q" by (simp add: power_int_diff power_int_add)
    finally have "x / ?q \<le> of_int (2 ^ 53)" using two_powi_pos [of "expo x - 52"] by (simp add: field_simps)
    from round_even_mono [OF this] have "?m \<le> 2 ^ 53" unfolding round_even_of_int .
    moreover have "0 \<le> ?m" using x two_powi_pos [of "expo x - 52"] by (simp add: round_even_nonneg)
    ultimately show ?thesis using nearest_exact [of ?m "expo x - 52"] x by (simp add: nearest_scaled scaled_def)
  qed
  consider "x = 0" | "0 < x" | "0 < - x" by linarith
  then show ?thesis using pos pos [of "- x"] by cases (simp_all add: nearest_minus)
qed

lemma float_of_int_eq:
  assumes "\<bar>i\<bar> < 2 ^ 64" shows "float_of_int i = Fin (nearest (of_int i))"
proof -
  have "\<bar>of_int i :: rat\<bar> \<le> of_int (2 ^ 64)" using assms by (simp only: of_int_abs [symmetric] of_int_le_iff)
  also have "\<dots> \<le> 2 ^ 1000" by simp
  finally show ?thesis by (simp add: float_of_int_def round64_Fin)
qed

text \<open>Two coarser forms of the error: of a value below a bound, and relative to one that is not tiny.\<close>

lemma nearest_within:
  assumes "\<bar>x\<bar> \<le> M" "1 \<le> M" shows "\<bar>nearest x - x\<bar> \<le> M / 2 ^ 52"
proof -
  have "\<bar>nearest x - x\<bar> \<le> M / 2 ^ 53 + M / 2 ^ 53"
    using nearest_error [of x] assms divide_right_mono [OF assms(1), of "2 ^ 53"] by (simp add: field_simps)
  then show ?thesis by simp
qed

lemma nearest_relative:
  assumes "x = 0 \<or> 1 / 2 ^ 100 \<le> x" shows "nearest x \<le> x + x / 2 ^ 52" "x - x / 2 ^ 52 \<le> nearest x"
proof -
  have "\<bar>nearest x - x\<bar> \<le> x / 2 ^ 52"
  proof (cases "x = 0")
    case False
    with assms have x: "1 / 2 ^ 100 \<le> x" by simp
    have "(1 :: rat) / 2 ^ 1075 \<le> 1 / 2 ^ 100 / 2 ^ 53" by simp
    also have "\<dots> \<le> x / 2 ^ 53" using x by (intro divide_right_mono) simp_all
    finally show ?thesis using nearest_error [of x] x by simp
  qed simp
  then show "nearest x \<le> x + x / 2 ^ 52" "x - x / 2 ^ 52 \<le> nearest x" by linarith+
qed

text \<open>A duration in seconds, from none up to the longest one.\<close>

lemma Seconds_near:
  assumes "0 \<le> d" "d < 2 ^ 63"
  shows "\<exists>s. Seconds d = Fin s \<and> 0 \<le> s \<and> s \<le> of_int d / 10 ^ 9 + of_int d / 10 ^ 9 / 2 ^ 50 \<and>
    of_int d / 10 ^ 9 - of_int d / 10 ^ 9 / 2 ^ 50 \<le> s"
proof -
  let ?q = "d div 10 ^ 9" and ?r = "d mod 10 ^ 9"
  have qr: "0 \<le> ?q" "?q < 2 ^ 63" "0 \<le> ?r" "?r < 10 ^ 9" "d = 10 ^ 9 * ?q + ?r" using assms by simp_all
  define Q where "Q = (of_int ?q :: rat)"
  define b where "b = (of_int ?r :: rat)"
  define a where "a = nearest Q"
  define c where "c = nearest (b / 10 ^ 9)"
  define s where "s = nearest (a + c)"
  have "\<bar>?r\<bar> \<le> 2 ^ 53" using qr by simp
  then have b: "nearest (of_int ?r) = b" unfolding b_def by (rule nearest_of_int)
  have b0: "b = 0 \<or> 1 \<le> b" "b \<le> 10 ^ 9"
    using of_int_le_iff [of ?r "10 ^ 9", where 'a = rat] qr(3,4) by (auto simp: b_def)
  have Q0: "Q = 0 \<or> 1 \<le> Q" "Q \<le> 2 ^ 63"
    using of_int_le_iff [of ?q "2 ^ 63", where 'a = rat] qr(1,2) by (auto simp: Q_def)
  have D: "of_int d / 10 ^ 9 = Q + b / (10 ^ 9 :: rat)" unfolding b_def Q_def
    by (subst qr(5), unfold of_int_add of_int_mult) (simp add: field_simps)
  have "b / 10 ^ 9 = 0 \<or> 1 / 2 ^ 100 \<le> b / 10 ^ 9" using b0 by auto
  note c = nearest_relative [OF this, folded c_def]
  have "Q = 0 \<or> 1 / 2 ^ 100 \<le> Q" using Q0 by auto
  note a = nearest_relative [OF this, folded a_def]
  have ac: "a + c = 0 \<or> 1 / 2 ^ 100 \<le> a + c" using Q0(1) b0(1)
  proof (elim disjE)
    assume "Q = 0" "b = 0"
    then show ?thesis by (simp add: a_def c_def)
  next
    assume "Q = 0" "1 \<le> b"
    then have "1 / 2 ^ 100 \<le> a + c" using c a by simp
    then show ?thesis ..
  next
    assume "1 \<le> Q" "b = 0"
    then have "1 / 2 ^ 100 \<le> a + c" using c a by simp
    then show ?thesis ..
  next
    assume "1 \<le> Q" "1 \<le> b"
    then have "1 / 2 ^ 100 \<le> a + c" using c a by simp
    then show ?thesis ..
  qed
  note s = nearest_relative [OF this, folded s_def]
  have "0 \<le> Q" "0 \<le> b" using Q0 b0 by auto
  then have pos: "0 \<le> a" "0 \<le> c" by (simp_all add: a_def c_def nearest_nonneg)
  have "\<bar>a + c\<bar> \<le> 2 ^ 66" using pos a c Q0 b0 by simp
  also have "\<dots> \<le> 2 ^ 1000" by simp
  finally have ov: "\<bar>a + c\<bar> \<le> 2 ^ 1000" .
  have "\<bar>b / 10 ^ 9\<bar> \<le> 1" using b0(2) \<open>0 \<le> b\<close> by simp
  also have "\<dots> \<le> 2 ^ 1000" by simp
  finally have ob: "\<bar>b / 10 ^ 9\<bar> \<le> 2 ^ 1000" .
  have "Seconds d = fadd (Fin a) (fdiv (Fin b) (Fin (10 ^ 9)))"
  proof -
    have "d sdiv 10 ^ 9 = ?q" "d smod 10 ^ 9 = ?r" using assms(1)
      by (cases "d = 0"; simp add: signed_divide_int_def signed_modulo_int_def)+
    moreover have "\<bar>?q\<bar> < 2 ^ 64" "\<bar>?r\<bar> < 2 ^ 64" using qr(1-4) by simp_all
    ultimately show ?thesis unfolding Seconds_def by (simp only: float_of_int_eq b a_def Q_def)
  qed
  then have "Seconds d = Fin s" using ov ob by (simp add: round64_Fin s_def c_def)
  moreover have "0 \<le> s" using pos by (simp add: s_def nearest_nonneg)
  moreover have "s \<le> (Q + b / 10 ^ 9) + (Q + b / 10 ^ 9) / 2 ^ 50" "(Q + b / 10 ^ 9) - (Q + b / 10 ^ 9) / 2 ^ 50 \<le> s"
    using s a c \<open>0 \<le> Q\<close> \<open>0 \<le> b\<close> by (simp_all add: field_simps)
  ultimately show ?thesis unfolding D by blast
qed

end
