(* ===== verification/Limit.thy ===== *)
theory Limit
  imports Float64 Bucket_Sign
begin

text \<open>
  The token buckets of the ingest server (\<open>ingest/limit.go\<close>). Times are nanoseconds; the
  tokens and the rate are \<open>float64\<close> values, each operation rounded, and waits are \<open>int64\<close> nanoseconds, out of
  whose range the conversion of a slow limit's wait can fall (\<open>Float64\<close>).
\<close>

section \<open>Buckets\<close>

record Limit =
  Rate :: float64
  Burst :: int

definition active :: "Limit \<Rightarrow> bool" where
  "active l \<longleftrightarrow> fless (Fin 0) (Rate l) \<and> Burst l > 0"

record bucket =
  tokens :: float64
  bk_last :: int
  started :: bool

definition zero_bucket :: bucket where
  "zero_bucket = \<lparr>tokens = Fin 0, bk_last = 0, started = False\<rparr>"

definition refill :: "Limit \<Rightarrow> int \<Rightarrow> bucket \<Rightarrow> bucket" where
  "refill l now b =
     (if \<not> started b then \<lparr>tokens = float_of_int (Burst l), bk_last = now, started = True\<rparr>
      else b\<lparr>tokens := fmin (float_of_int (Burst l)) (fadd (tokens b) (fmul (Seconds (time_Sub now (bk_last b))) (Rate l))),
             bk_last := now\<rparr>)"

definition wait :: "Limit \<Rightarrow> bucket \<Rightarrow> int" where
  "wait l b =
     (if fle (Fin 1) (tokens b) then 0
      else int64_of_float (fmul (fdiv (fsub (Fin 1) (tokens b)) (Rate l)) (Fin (10 ^ 9))))"

definition full :: "Limit \<Rightarrow> bucket \<Rightarrow> bool" where
  "full l b \<longleftrightarrow> fle (float_of_int (Burst l)) (tokens b)"

definition take_token :: "bucket \<Rightarrow> bucket" where
  "take_token b = b\<lparr>tokens := fsub (tokens b) (Fin 1)\<rparr>"

section \<open>The buckets of a track\<close>

definition senderBuckets :: nat where
  "senderBuckets = 1024"

type_synonym buckets = "(string \<times> bucket) list"

text \<open>
  The sender's bucket, refilled, and the buckets with it stored. When there are as many as a track keeps,
  the others are refilled and those that are full are forgotten.
\<close>

definition senderBucket :: "string \<Rightarrow> Limit \<Rightarrow> int \<Rightarrow> buckets \<Rightarrow> bucket \<times> buckets" where
  "senderBucket sender l now bs =
     (case map_of bs sender of
        Some b \<Rightarrow> (refill l now b, AList.update sender (refill l now b) bs)
      | None \<Rightarrow>
          let bs = (if length bs \<ge> senderBuckets
                    then filter (\<lambda>(name, b). \<not> full l b) (map (\<lambda>(name, b). (name, refill l now b)) bs) else bs);
              b = refill l now zero_bucket
          in (b, AList.update sender b bs))"

text \<open>
  \<open>admit\<close>: the wait, the track's bucket and the senders' buckets afterwards. A bucket is taken from only when
  neither has to wait.
\<close>

definition admit ::
  "Limit \<Rightarrow> Limit \<Rightarrow> int \<Rightarrow> string \<Rightarrow> bucket \<Rightarrow> buckets \<Rightarrow> int \<times> bucket \<times> buckets" where
  "admit trackLimit senderLimit now sender tb senders =
     (let tb = (if active trackLimit then refill trackLimit now tb else tb);
          wait1 = (if active trackLimit then wait trackLimit tb else 0)
      in if sender \<noteq> '''' \<and> active senderLimit then
           (case senderBucket sender senderLimit now senders of
              (sb, senders) \<Rightarrow>
                let wait2 = max wait1 (wait senderLimit sb)
                in if wait2 > 0 then (wait2, tb, senders)
                   else (0, if active trackLimit then take_token tb else tb, AList.update sender (take_token sb) senders))
         else if wait1 > 0 then (wait1, tb, senders)
         else (0, if active trackLimit then take_token tb else tb, senders))"

section \<open>The rate\<close>

text \<open>A run of requests, each with its time and sender: how many are admitted.\<close>

fun admitted :: "Limit \<Rightarrow> Limit \<Rightarrow> (int \<times> string) list \<Rightarrow> bucket \<Rightarrow> buckets \<Rightarrow> nat" where
  "admitted l1 l2 [] tb senders = 0"
| "admitted l1 l2 ((now, sender) # rs) tb senders =
     (case admit l1 l2 now sender tb senders of
        (w, tb, senders) \<Rightarrow> (if w = 0 then 1 else 0) + admitted l1 l2 rs tb senders)"

text \<open>What one request does to the track's bucket.\<close>

lemma admit_bucket:
  assumes "active l1" and "admit l1 l2 now sender tb senders = (w, tb', senders')"
  shows "tb' = (if w = 0 then take_token (refill l1 now tb) else refill l1 now tb)"
    and "w = 0 \<Longrightarrow> wait l1 (refill l1 now tb) \<le> 0"
  using assms by (auto simp: admit_def Let_def split: if_splits prod.splits)

lemma time_Sub_eq: "0 \<le> t - u \<Longrightarrow> t - u < 2 ^ 63 \<Longrightarrow> time_Sub t u = t - u"
  by (simp add: time_Sub_def)

text \<open>The rounding errors in one form: of a value and of one held below a bound.\<close>

lemma nearest_bounds:
  shows "0 \<le> x \<Longrightarrow> nearest x \<le> x + x / 2 ^ 53 + 1 / 2 ^ 200"
    and "0 \<le> x \<Longrightarrow> x - x / 2 ^ 53 - 1 / 2 ^ 200 \<le> nearest x"
proof -
  have "\<bar>nearest x - x\<bar> \<le> \<bar>x\<bar> / 2 ^ 53 + 1 / 2 ^ 200"
    by (rule order_trans [OF nearest_error]) simp
  then show "0 \<le> x \<Longrightarrow> nearest x \<le> x + x / 2 ^ 53 + 1 / 2 ^ 200"
    and "0 \<le> x \<Longrightarrow> x - x / 2 ^ 53 - 1 / 2 ^ 200 \<le> nearest x" by linarith+
qed

lemma nearest_bounds_below:
  assumes "\<bar>x\<bar> \<le> 4 * X" "1 \<le> X" shows "nearest x \<le> x + X / 2 ^ 50" "x - X / 2 ^ 50 \<le> nearest x"
proof -
  have "4 * X / 2 ^ 52 = X / 2 ^ 50" by simp
  then have "\<bar>nearest x - x\<bar> \<le> X / 2 ^ 50" using nearest_within [of x "4 * X"] assms by simp
  then show "nearest x \<le> x + X / 2 ^ 50" "x - X / 2 ^ 50 \<le> nearest x" by linarith+
qed

text \<open>The tokens a time gives, up to rounding; \<open>X\<close> bounds them.\<close>

lemma gain_near:
  assumes r: "1 / 2 ^ 30 \<le> \<rho>" and d: "0 \<le> d" "d < 2 ^ 63" "\<rho> * of_int d / 10 ^ 9 \<le> X" and X: "X \<le> 2 ^ 200"
  shows "\<exists>p. fmul (Seconds d) (Fin \<rho>) = Fin p \<and> 0 \<le> p \<and> p \<le> \<rho> * of_int d / 10 ^ 9 + X / 2 ^ 49"
proof -
  define D where "D = of_int d / (10 ^ 9 :: rat)"
  have D0: "D = 0 \<or> 1 / 10 ^ 9 \<le> D"
  proof -
    have "d = 0 \<or> 1 \<le> d" using d(1) by linarith
    then have "(of_int d :: rat) = 0 \<or> 1 \<le> (of_int d :: rat)"
      by (simp only: of_int_eq_0_iff of_int_1_le_iff)
    then show ?thesis unfolding D_def by (elim disjE) (simp_all add: divide_right_mono)
  qed
  from Seconds_near [OF d(1,2)] obtain s where
    s: "Seconds d = Fin s" "0 \<le> s" "s \<le> D + D / 2 ^ 50" "D - D / 2 ^ 50 \<le> s"
    unfolding D_def by blast
  have \<rho>: "0 < \<rho>" using r by (rule less_le_trans [rotated]) simp
  define g where "g = \<rho> * D"
  have g: "0 \<le> g" "g \<le> X" using D0 \<rho> d(3) by (auto simp: g_def D_def)
  have le: "s * \<rho> \<le> g + g / 2 ^ 50"
    using mult_right_mono [OF s(3), of \<rho>] \<rho> by (simp add: g_def algebra_simps)
  have "s * \<rho> = 0 \<or> 1 / 2 ^ 100 \<le> s * \<rho>"
  proof (cases "D = 0")
    case True
    then show ?thesis using s by simp
  next
    case False
    with D0 have "1 / 10 ^ 9 \<le> D" by simp
    then have "1 / 2 ^ 60 \<le> s" using s(4) by simp
    then have "1 / 2 ^ 60 * (1 / 2 ^ 30) \<le> s * \<rho>" using r \<rho> by (intro mult_mono) simp_all
    then show ?thesis by simp
  qed
  note p = nearest_relative [OF this]
  have "\<bar>s * \<rho>\<bar> \<le> 2 * X" using le g s(2) \<rho> by (simp add: field_simps)
  also have "\<dots> \<le> 2 ^ 1000" using X by simp
  finally have "fmul (Seconds d) (Fin \<rho>) = Fin (nearest (s * \<rho>))" using s(1) by (simp add: round64_Fin)
  moreover have "0 \<le> nearest (s * \<rho>)" using s(2) \<rho> by (simp add: nearest_nonneg)
  moreover have "nearest (s * \<rho>) \<le> g + X / 2 ^ 49" using p(1) le g by (simp add: field_simps)
  ultimately show ?thesis by (simp add: g_def D_def)
qed

text \<open>The tokens of a bucket never exceed the burst, up to its rounding.\<close>

lemma burst_near:
  assumes B: "0 < Burst l" "of_int (Burst l) \<le> X" "X \<le> 2 ^ 200"
  shows "float_of_int (Burst l) = Fin (nearest (of_int (Burst l)))" "0 \<le> nearest (of_int (Burst l))"
    "nearest (of_int (Burst l)) \<le> of_int (Burst l) + X / 2 ^ 50" "1 \<le> X"
proof -
  show X: "1 \<le> X" using of_int_le_iff [of 1 "Burst l", where 'a = rat] B by simp
  have "\<bar>of_int (Burst l) :: rat\<bar> \<le> X" using B by simp
  also have "\<dots> \<le> 2 ^ 1000" using B(3) by simp
  finally show "float_of_int (Burst l) = Fin (nearest (of_int (Burst l)))" by (simp add: float_of_int_def round64_Fin)
  show "0 \<le> nearest (of_int (Burst l))" using B(1) by (simp add: nearest_nonneg)
  have "\<bar>of_int (Burst l) :: rat\<bar> \<le> 4 * X" using B X by simp
  then show "nearest (of_int (Burst l)) \<le> of_int (Burst l) + X / 2 ^ 50" using X by (rule nearest_bounds_below)
qed

lemma refill_tokens:
  assumes b: "started b" "tokens b = Fin t" "nearest t = t" and t: "- 2 * X \<le> t" "t \<le> 2 * X"
    and r: "Rate l = Fin \<rho>" "1 / 2 ^ 30 \<le> \<rho>" and B: "0 < Burst l" "of_int (Burst l) \<le> X" "X \<le> 2 ^ 200"
    and d: "0 \<le> now - bk_last b" "now - bk_last b < 2 ^ 63" "\<rho> * of_int (now - bk_last b) / 10 ^ 9 \<le> X"
  shows "\<exists>t'. tokens (refill l now b) = Fin t' \<and> nearest t' = t' \<and> min 0 t \<le> t' \<and> t' \<le> 2 * X \<and>
    t' \<le> t + \<rho> * of_int (now - bk_last b) / 10 ^ 9 + 3 * X / 2 ^ 50"
proof -
  define g where "g = \<rho> * of_int (now - bk_last b) / 10 ^ 9"
  define C where "C = nearest (of_int (Burst l))"
  note C = burst_near [OF B, folded C_def]
  obtain p where p: "fmul (Seconds (now - bk_last b)) (Fin \<rho>) = Fin p" "0 \<le> p" "p \<le> g + X / 2 ^ 49"
    using gain_near [OF r(2) d B(3)] unfolding g_def by blast
  have g: "g \<le> X" using d(3) by (simp add: g_def)
  have p2: "p \<le> 2 * X" using p(3) g C(4) by simp
  define q where "q = nearest (t + p)"
  have tp: "\<bar>t + p\<bar> \<le> 4 * X" using t p(2) p2 by simp
  also have "\<dots> \<le> 2 ^ 1000" using B(3) by simp
  finally have qF: "fadd (Fin t) (Fin p) = Fin q" by (simp add: round64_Fin q_def)
  have q1: "q \<le> t + g + 3 * X / 2 ^ 50" using nearest_bounds_below(1) [OF tp C(4), folded q_def] p(3) by simp
  have q2: "t \<le> q" using nearest_mono [of t "t + p"] p(2) b(3) by (simp add: q_def)
  have C2: "C \<le> 2 * X" using C(3,4) B(2) by simp
  have idem: "nearest C = C" "nearest q = q" by (simp_all add: C_def q_def nearest_idem)
  have "tokens (refill l now b) = Fin (if C \<le> q then C else q)"
    using b(1,2) d(1,2) r(1) p(1) qF C(1) by (simp add: refill_def time_Sub_eq fmin_def)
  moreover have "nearest (if C \<le> q then C else q) = (if C \<le> q then C else q)" using idem by simp
  moreover have "min 0 t \<le> (if C \<le> q then C else q)" using C(2) q2 by (simp add: min_def)
  moreover have "(if C \<le> q then C else q) \<le> 2 * X" using C2 by simp
  moreover have "(if C \<le> q then C else q) \<le> t + g + 3 * X / 2 ^ 50" using q1 by simp
  ultimately show ?thesis unfolding g_def by blast
qed

text \<open>
  A bucket that need not wait is at most a nanosecond's tokens short of one, since the wait is cut to whole
  nanoseconds, and at rates from \<open>2 ^ -30\<close> the wait fits an \<open>int64\<close>.
\<close>

lemma wait_none:
  assumes b: "tokens b = Fin t" and r: "Rate l = Fin \<rho>" "1 / 2 ^ 30 \<le> \<rho>" "\<rho> \<le> 2 ^ 64"
    and t: "- 2 * \<rho> / 10 ^ 9 \<le> t" and w: "wait l b \<le> 0"
  shows "1 - \<rho> / 10 ^ 9 - \<rho> / 10 ^ 9 / 2 ^ 50 \<le> t"
proof (cases "1 \<le> t")
  case True
  have "0 \<le> \<rho>" using r(2) by (rule order_trans [rotated]) simp
  with True show ?thesis by simp
next
  case False
  have \<rho>: "0 < \<rho>" using r(2) by (rule less_le_trans [rotated]) simp
  define x where "x = 1 - t"
  define a where "a = nearest x"
  define c where "c = nearest (a / \<rho>)"
  define e where "e = nearest (c * 10 ^ 9)"
  have x: "0 \<le> x" "x \<le> 1 + 2 * \<rho> / 10 ^ 9" using False t by (simp_all add: x_def)
  then have a0: "0 \<le> a" by (simp add: a_def nearest_nonneg)
  then have a\<rho>: "0 \<le> a / \<rho>" using \<rho> by simp
  then have c0: "0 \<le> c" by (simp add: c_def nearest_nonneg)
  then have e0: "0 \<le> e" "0 \<le> c * 10 ^ 9" by (simp_all add: e_def nearest_nonneg)
  note a = nearest_bounds [OF x(1), folded a_def] and c = nearest_bounds [OF a\<rho>, folded c_def]
    and e = nearest_bounds [OF e0(2), folded e_def]
  have "a \<le> 5 / 4 + 5 / 2 * \<rho> / 10 ^ 9" using a(1) x \<rho> by (simp add: field_simps)
  then have "a / \<rho> \<le> (5 / 4 + 5 / 2 * \<rho> / 10 ^ 9) / \<rho>" using \<rho> by (simp add: divide_right_mono)
  also have "\<dots> = 5 / 4 * (1 / \<rho>) + 5 / 2 / 10 ^ 9" using \<rho> by (simp add: field_simps)
  also have "\<dots> \<le> 5 / 4 * 2 ^ 30 + 5 / 2 / 10 ^ 9"
  proof -
    have "1 / \<rho> \<le> 2 ^ 30" using r(2) \<rho> by (simp add: field_simps)
    then show ?thesis by simp
  qed
  finally have a1: "a / \<rho> \<le> 2 ^ 31" by (rule order_trans) simp
  have c1: "c \<le> 2 ^ 32" using c(1) a1 by simp
  have e1: "e < 2 ^ 63" using e(1) c1 by simp
  have x1: "\<bar>1 + - t\<bar> \<le> 2 ^ 1000" using x r(3) by (simp add: x_def)
  have F: "fsub (Fin 1) (Fin t) = Fin a" using x1 by (simp add: fsub_def round64_Fin a_def x_def)
  have "\<bar>a / \<rho>\<bar> \<le> 2 ^ 1000" "\<bar>c * 10 ^ 9\<bar> \<le> 2 ^ 1000" using a\<rho> a1 c0 c1 by simp_all
  then have "wait l b = int64_of_float (Fin e)"
    using b r(1) \<rho> False F by (simp add: wait_def round64_Fin c_def e_def)
  also have "\<dots> = \<lfloor>e\<rfloor>"
  proof -
    have "0 \<le> \<lfloor>e\<rfloor>" "\<lfloor>e\<rfloor> < 2 ^ 63" using e0 e1 by (simp_all add: floor_less_iff)
    then show ?thesis using e0 by simp
  qed
  finally have e2: "e < 1" using w by (simp add: floor_le_iff)
  have c2: "c \<le> 1 / 10 ^ 9 + 1 / 10 ^ 9 / 2 ^ 52" using e(2) e2 by simp
  have "a / \<rho> \<le> 1 / 10 ^ 9 + 1 / 10 ^ 9 / 2 ^ 51" using c(2) c2 by simp
  then have a2: "a \<le> \<rho> / 10 ^ 9 + \<rho> / 10 ^ 9 / 2 ^ 51" using \<rho> by (simp add: field_simps)
  have "x \<le> \<rho> / 10 ^ 9 + \<rho> / 10 ^ 9 / 2 ^ 50" using a(2) a2 r(2) by (simp add: field_simps)
  then show ?thesis by (simp add: x_def)
qed

text \<open>A token taken.\<close>

lemma take_tokens:
  assumes "tokens b = Fin t" "- 2 * X \<le> t" "t \<le> 2 * X" "1 \<le> X" "X \<le> 2 ^ 200"
  shows "tokens (take_token b) = Fin (nearest (t - 1))" "nearest (t - 1) \<le> t - 1 + X / 2 ^ 50"
proof -
  have 4: "\<bar>t - 1\<bar> \<le> 4 * X" using assms by simp
  also have "\<dots> \<le> 2 ^ 1000" using assms(5) by simp
  finally show "tokens (take_token b) = Fin (nearest (t - 1))" using assms(1) by (simp add: take_token_def fsub_def round64_Fin)
  show "nearest (t - 1) \<le> t - 1 + X / 2 ^ 50" using 4 assms(4) by (rule nearest_bounds_below)
qed

lemma take_floor:
  assumes "1 - \<rho> / 10 ^ 9 - \<rho> / 10 ^ 9 / 2 ^ 50 \<le> t" "1 / 2 ^ 30 \<le> \<rho>"
  shows "- \<rho> / 10 ^ 9 - \<rho> / 10 ^ 9 / 2 ^ 49 \<le> nearest (t - 1)"
proof -
  have \<rho>: "0 \<le> \<rho>" using assms(2) by (rule order_trans [rotated]) simp
  define k where "k = \<rho> / 10 ^ 9 + \<rho> / 10 ^ 9 / 2 ^ 50"
  have k: "0 \<le> k" using \<rho> by (simp add: k_def)
  have "nearest (- k) \<le> nearest (t - 1)" using assms(1) by (intro nearest_mono) (simp add: k_def)
  moreover have "nearest k \<le> \<rho> / 10 ^ 9 + \<rho> / 10 ^ 9 / 2 ^ 49"
    using nearest_bounds(1) [OF k] assms(2) by (simp add: k_def field_simps)
  ultimately show ?thesis by (simp add: nearest_minus)
qed

text \<open>
  One request: the tokens gain what the time gives and lose one when the request is admitted, up to rounding,
  and never fall more than a nanosecond's tokens below none.
\<close>

definition floored :: "rat \<Rightarrow> rat \<Rightarrow> bucket \<Rightarrow> rat \<Rightarrow> bool" where
  "floored \<rho> X b t \<longleftrightarrow> started b \<and> tokens b = Fin t \<and> nearest t = t \<and>
     - \<rho> / 10 ^ 9 - \<rho> / 10 ^ 9 / 2 ^ 49 \<le> t \<and> t \<le> 2 * X"

lemma admit_tokens:
  assumes r: "Rate l1 = Fin \<rho>" "1 / 2 ^ 30 \<le> \<rho>" "\<rho> \<le> 2 ^ 64"
    and B: "0 < Burst l1" "of_int (Burst l1) \<le> X" "\<rho> / 10 ^ 9 \<le> X" "X \<le> 2 ^ 200"
    and q: "floored \<rho> X (refill l1 now b) t" and ad: "admit l1 l2 now sender b senders = (w, b', senders')"
  shows "\<exists>t'. floored \<rho> X b' t' \<and> t' \<le> t - (if w = 0 then 1 else 0) + X / 2 ^ 50"
proof -
  have \<rho>: "0 < \<rho>" using r(2) by (rule less_le_trans [rotated]) simp
  have l: "active l1" using r(1) B(1) \<rho> by (simp add: active_def fless_def)
  note ad = admit_bucket [OF l ad]
  have q: "started (refill l1 now b)" "tokens (refill l1 now b) = Fin t" "nearest t = t"
    "- \<rho> / 10 ^ 9 - \<rho> / 10 ^ 9 / 2 ^ 49 \<le> t" "t \<le> 2 * X" using q by (auto simp: floored_def)
  note X = burst_near(4) [OF B(1,2,4)]
  show ?thesis
  proof (cases "w = 0")
    case False
    have "floored \<rho> X b' t" using ad(1) False q by (simp add: floored_def)
    moreover have "t \<le> t - (if w = 0 then 1 else 0) + X / 2 ^ 50" using False X by simp
    ultimately show ?thesis by blast
  next
    case True
    have lo: "- 2 * X \<le> t" "- 2 * \<rho> / 10 ^ 9 \<le> t" using q(4) B(3) \<rho> by (simp_all add: field_simps)
    note t = take_tokens [OF q(2) lo(1) q(5) X B(4)]
    have "nearest (t - 1) \<le> t" using nearest_mono [of "t - 1" t] q(3) by simp
    with q(5) have "nearest (t - 1) \<le> 2 * X" by linarith
    with take_floor [OF wait_none [OF q(2) r lo(2) ad(2) [OF True]] r(2)]
    have "floored \<rho> X b' (nearest (t - 1))"
      using ad(1) True q(1) t(1) by (simp add: floored_def nearest_idem take_token_def)
    then show ?thesis using t(2) True by auto
  qed
qed

lemma refill_floored:
  assumes r: "Rate l1 = Fin \<rho>" "1 / 2 ^ 30 \<le> \<rho>"
    and B: "0 < Burst l1" "of_int (Burst l1) \<le> X" "\<rho> / 10 ^ 9 \<le> X" "X \<le> 2 ^ 200"
    and b: "floored \<rho> X b t"
    and d: "0 \<le> now - bk_last b" "now - bk_last b < 2 ^ 63" "\<rho> * of_int (now - bk_last b) / 10 ^ 9 \<le> X"
  shows "\<exists>t'. floored \<rho> X (refill l1 now b) t' \<and> t' \<le> t + \<rho> * of_int (now - bk_last b) / 10 ^ 9 + 3 * X / 2 ^ 50"
proof -
  have \<rho>: "0 < \<rho>" using r(2) by (rule less_le_trans [rotated]) simp
  have b: "started b" "tokens b = Fin t" "nearest t = t" "- \<rho> / 10 ^ 9 - \<rho> / 10 ^ 9 / 2 ^ 49 \<le> t" "t \<le> 2 * X"
    using b by (auto simp: floored_def)
  have "- 2 * X \<le> t" using b(4) B(3) \<rho> by (simp add: field_simps)
  from refill_tokens [OF b(1-3) this b(5) r B(1,2,4) d] obtain t' where
    t': "tokens (refill l1 now b) = Fin t'" "nearest t' = t'" "min 0 t \<le> t'" "t' \<le> 2 * X"
      "t' \<le> t + \<rho> * of_int (now - bk_last b) / 10 ^ 9 + 3 * X / 2 ^ 50" by blast
  have "- \<rho> / 10 ^ 9 - \<rho> / 10 ^ 9 / 2 ^ 49 \<le> min 0 t" using b(4) \<rho> by simp
  then have "- \<rho> / 10 ^ 9 - \<rho> / 10 ^ 9 / 2 ^ 49 \<le> t'" using t'(3) by linarith
  then have "floored \<rho> X (refill l1 now b) t'" using t' b(1) by (simp add: floored_def refill_def)
  then show ?thesis using t'(5) by blast
qed

lemma admitted_from:
  assumes r: "Rate l1 = Fin \<rho>" "1 / 2 ^ 30 \<le> \<rho>" "\<rho> \<le> 2 ^ 64"
    and B: "0 < Burst l1" "of_int (Burst l1) \<le> X" "\<rho> / 10 ^ 9 \<le> X" "X \<le> 2 ^ 200"
    and b: "floored \<rho> X tb t" and times: "sorted (bk_last tb # map fst rs)"
    and span: "last (bk_last tb # map fst rs) - bk_last tb < 2 ^ 63"
      "\<rho> * of_int (last (bk_last tb # map fst rs) - bk_last tb) / 10 ^ 9 \<le> X"
  shows "of_nat (admitted l1 l2 rs tb senders) \<le>
    t + \<rho> * of_int (last (bk_last tb # map fst rs) - bk_last tb) / 10 ^ 9 + of_nat (length rs) * X / 2 ^ 48 +
    (\<rho> / 10 ^ 9 + \<rho> / 10 ^ 9 / 2 ^ 49)"
  using b times span
proof (induction rs arbitrary: tb t senders)
  case Nil
  then show ?case by (simp add: floored_def)
next
  case (Cons a rs)
  obtain now sender where a: "a = (now, sender)" by (cases a)
  obtain w tb' senders' where ad: "admit l1 l2 now sender tb senders = (w, tb', senders')" by (metis prod_cases3)
  let ?L = "last (now # map fst rs)"
  have \<rho>: "0 < \<rho>" using r(2) by (rule less_le_trans [rotated]) simp
  have le: "bk_last tb \<le> now" "now \<le> ?L" using Cons.prems(2) a by (cases rs rule: rev_cases; auto)+
  have sp: "?L - bk_last tb < 2 ^ 63" "\<rho> * of_int (?L - bk_last tb) / 10 ^ 9 \<le> X" using Cons.prems(3,4) a by simp_all
  have part: "\<rho> * of_int i / 10 ^ 9 \<le> X" if "i \<le> ?L - bk_last tb" for i
  proof -
    have "\<rho> * of_int i \<le> \<rho> * of_int (?L - bk_last tb)" using that \<rho> by (intro mult_left_mono) (simp_all only: of_int_le_iff less_imp_le)
    then have "\<rho> * of_int i / 10 ^ 9 \<le> \<rho> * of_int (?L - bk_last tb) / 10 ^ 9" by (rule divide_right_mono) simp
    then show ?thesis using sp(2) by (rule order_trans)
  qed
  have d: "0 \<le> now - bk_last tb" "now - bk_last tb < 2 ^ 63" "now - bk_last tb \<le> ?L - bk_last tb" using le sp by simp_all
  from refill_floored [OF r(1,2) B Cons.prems(1) d(1,2) part [OF d(3)]] obtain q where
    q: "floored \<rho> X (refill l1 now tb) q" "q \<le> t + \<rho> * of_int (now - bk_last tb) / 10 ^ 9 + 3 * X / 2 ^ 50" by blast
  from admit_tokens [OF r B q(1) ad] obtain t' where
    t': "floored \<rho> X tb' t'" "t' \<le> q - (if w = 0 then 1 else 0) + X / 2 ^ 50" by blast
  have last': "bk_last tb' = now"
    using ad r(1) B(1) \<rho> by (auto simp: admit_def Let_def refill_def take_token_def active_def fless_def split: if_splits prod.splits)
  have d': "?L - now < 2 ^ 63" "?L - now \<le> ?L - bk_last tb" using le sp by simp_all
  have "sorted (now # map fst rs)" using Cons.prems(2) a by simp
  then have ih: "of_nat (admitted l1 l2 rs tb' senders') \<le>
      t' + \<rho> * of_int (?L - now) / 10 ^ 9 + of_nat (length rs) * X / 2 ^ 48 + (\<rho> / 10 ^ 9 + \<rho> / 10 ^ 9 / 2 ^ 49)"
    using Cons.IH [of tb' t' senders'] t'(1) last' d'(1) part [OF d'(2)] by simp
  define y where "y = \<rho> * of_int (?L - bk_last tb) / 10 ^ 9"
  have y: "\<rho> * of_int (now - bk_last tb) / 10 ^ 9 + \<rho> * of_int (?L - now) / 10 ^ 9 = y"
    by (simp add: y_def field_simps)
  have n: "of_nat (length (a # rs)) * X / 2 ^ 48 = of_nat (length rs) * X / 2 ^ 48 + (3 * X / 2 ^ 50 + X / 2 ^ 50)"
    by (simp add: field_simps)
  have "of_nat (admitted l1 l2 (a # rs) tb senders) = (if w = 0 then 1 else 0) + (of_nat (admitted l1 l2 rs tb' senders') :: rat)"
    using ad a by simp
  also have "\<dots> \<le> t + y + of_nat (length (a # rs)) * X / 2 ^ 48 + (\<rho> / 10 ^ 9 + \<rho> / 10 ^ 9 / 2 ^ 49)"
    using ih q(2) t'(2) unfolding n y [symmetric] by linarith
  finally show ?case using a by (simp add: y_def)
qed

lemma X_bounds:
  assumes "0 < \<rho>" "\<rho> \<le> 2 ^ 64" "0 < B" "B < 2 ^ 63" "0 \<le> D" "D < 2 ^ 63"
  shows "of_int B \<le> of_int B + \<rho> * (of_int D + 1) / 10 ^ 9" "\<rho> / 10 ^ 9 \<le> of_int B + \<rho> * (of_int D + 1) / 10 ^ 9"
    "\<rho> * of_int D / 10 ^ 9 \<le> of_int B + \<rho> * (of_int D + 1) / 10 ^ 9"
    "of_int B + \<rho> * (of_int D + 1) / 10 ^ 9 \<le> (2 ^ 200 :: rat)"
proof -
  have B: "0 \<le> (of_int B :: rat)" "of_int B \<le> (2 ^ 63 :: rat)"
    using assms(3) of_int_le_iff [of B "2 ^ 63", where 'a = rat] assms(4) by simp_all
  have D: "0 \<le> (of_int D :: rat)" "of_int D + 1 \<le> (2 ^ 64 :: rat)"
    using assms(5) of_int_le_iff [of D "2 ^ 63", where 'a = rat] assms(6) by simp_all
  have s: "\<rho> * (of_int D + 1) = \<rho> * of_int D + \<rho>" by (simp add: algebra_simps)
  have p: "0 \<le> \<rho> * of_int D" using assms(1) D(1) by simp
  show "of_int B \<le> of_int B + \<rho> * (of_int D + 1) / 10 ^ 9" "\<rho> / 10 ^ 9 \<le> of_int B + \<rho> * (of_int D + 1) / 10 ^ 9"
    "\<rho> * of_int D / 10 ^ 9 \<le> of_int B + \<rho> * (of_int D + 1) / 10 ^ 9"
    unfolding s using B p assms(1) by (simp_all add: field_simps)
  have "\<rho> * (of_int D + 1) \<le> 2 ^ 64 * 2 ^ 64" using assms(1,2) D by (intro mult_mono) simp_all
  then show "of_int B + \<rho> * (of_int D + 1) / 10 ^ 9 \<le> (2 ^ 200 :: rat)" using B(2) by simp
qed

section \<open>A limit too slow for a Duration\<close>

text \<open>
  A limit slower than about one record in 550 years gives waits out of the range of a \<open>time.Duration\<close>; the
  conversion makes them negative, and \<open>admit\<close> takes a negative wait for none.
\<close>

lemma round64_zero [simp]: "round64 0 = Fin 0"
  by (simp add: round64_def)

lemma round64_of_int: "\<bar>i\<bar> \<le> 2 ^ 53 \<Longrightarrow> round64 (of_int i) = Fin (of_int i)"
proof -
  assume i: "\<bar>i\<bar> \<le> 2 ^ 53"
  then have "\<bar>of_int i :: rat\<bar> \<le> of_int (2 ^ 53)" by (simp only: of_int_abs [symmetric] of_int_le_iff)
  also have "\<dots> \<le> 2 ^ 1000" by simp
  finally show ?thesis using nearest_of_int [OF i] by (simp add: round64_Fin)
qed

lemma round64_numerals:
  "round64 1 = Fin 1" "numeral n \<le> (2 ^ 53 :: int) \<Longrightarrow> round64 (numeral n) = Fin (numeral n)"
  using round64_of_int [of 1] round64_of_int [of "numeral n"] by simp_all

lemma wait_overflows:
  assumes b: "tokens b = Fin (of_int k)" "k < 1" "- (2 ^ 52) \<le> k"
    and r: "Rate l = Fin \<rho>" "1 / 2 ^ 500 \<le> \<rho>" "\<rho> \<le> 1 / 2 ^ 34"
  shows "wait l b \<le> 0"
proof -
  have \<rho>: "0 < \<rho>" using r(2) by (rule less_le_trans [rotated]) simp
  have n: "\<not> fle (Fin 1) (tokens b)" using b(1,2) by simp
  have "fsub (Fin 1) (tokens b) = round64 (of_int (1 - k))" by (simp add: b(1) fsub_def)
  also have "\<dots> = Fin (of_int (1 - k))" using b(2,3) by (intro round64_of_int) simp
  finally have s: "fsub (Fin 1) (tokens b) = Fin (of_int (1 - k))" .
  have k: "1 \<le> (of_int (1 - k) :: rat)" "of_int (1 - k) \<le> (2 ^ 53 :: rat)"
    using b(2,3) of_int_le_iff [of 1 "1 - k", where 'a = rat] of_int_le_iff [of "1 - k" "2 ^ 53", where 'a = rat] by simp_all
  define y where "y = (of_int (1 - k) :: rat) / \<rho>"
  have y: "2 ^ 34 \<le> y" "y \<le> 2 ^ 600"
  proof -
    have "2 ^ 34 * \<rho> \<le> of_int (1 - k)" using r(3) k(1) by simp
    then show "2 ^ 34 \<le> y" using \<rho> by (simp add: y_def pos_le_divide_eq)
    have "2 ^ 600 * (1 / 2 ^ 500) \<le> 2 ^ 600 * \<rho>" using r(2) by (rule mult_left_mono) simp
    then have "of_int (1 - k) \<le> 2 ^ 600 * \<rho>" using k(2) by simp
    then show "y \<le> 2 ^ 600" using \<rho> by (simp add: y_def pos_divide_le_eq)
  qed
  define c where "c = nearest y"
  have c: "2 ^ 34 \<le> c" "c \<le> 2 ^ 700"
  proof -
    have "nearest (of_int (2 ^ 34)) \<le> c" unfolding c_def using y(1) by (intro nearest_mono) simp
    then show "2 ^ 34 \<le> c" by (subst (asm) nearest_of_int) simp_all
    have "0 \<le> y" using y(1) by (rule order_trans [rotated]) simp
    then show "c \<le> 2 ^ 700" using nearest_bounds(1) [of y] y(2) by (simp add: c_def)
  qed
  define e where "e = nearest (c * 10 ^ 9)"
  have "nearest (of_int 1 * 2 powi 63) \<le> e" unfolding e_def using c(1) by (intro nearest_mono) simp
  then have e: "2 ^ 63 \<le> e" by (subst (asm) nearest_exact) simp_all
  have "\<bar>y\<bar> \<le> 2 ^ 1000" "\<bar>c * 10 ^ 9\<bar> \<le> 2 ^ 1000" using y c by simp_all
  then have "round64 y = Fin c" "round64 (c * 10 ^ 9) = Fin e" by (simp_all only: round64_Fin c_def e_def)
  moreover have "fdiv (fsub (Fin 1) (tokens b)) (Rate l) = round64 y" using \<rho> by (simp add: s r(1) y_def)
  ultimately have "wait l b = int64_of_float (Fin e)" using n by (simp only: wait_def fmul.simps if_False)
  moreover have "0 \<le> e" "2 ^ 63 \<le> \<lfloor>e\<rfloor>" using e by (simp_all add: le_floor_iff)
  ultimately show ?thesis by simp
qed

text \<open>Any number of requests at one moment is admitted, whatever the burst.\<close>

lemma slow_limit_admits:
  assumes r: "Rate l1 = Fin \<rho>" "1 / 2 ^ 500 \<le> \<rho>" "\<rho> \<le> 1 / 2 ^ 34" and B: "0 < Burst l1" "Burst l1 \<le> 2 ^ 52"
    and l2: "\<not> active l2" and n: "int (length senders) + \<bar>k\<bar> \<le> 2 ^ 52"
    and b: "started tb" "bk_last tb = now" "tokens tb = Fin (of_int k)" "k \<le> Burst l1"
  shows "admitted l1 l2 (map (Pair now) senders) tb bs = length senders"
  using n b
proof (induction senders arbitrary: k tb)
  case (Cons a senders)
  have \<rho>: "0 < \<rho>" using r(2) by (rule less_le_trans [rotated]) simp
  have l1: "active l1" using r(1) B(1) \<rho> by (simp add: active_def fless_def)
  have "Seconds 0 = Fin 0" by (simp add: Seconds_def float_of_int_def)
  moreover have "round64 (of_int k) = Fin (of_int k)" "float_of_int (Burst l1) = Fin (of_int (Burst l1))"
    using Cons.prems(1) B by (simp_all add: round64_of_int float_of_int_def)
  ultimately have q: "refill l1 now tb = tb"
    using Cons.prems(2-5) r(1) by (cases tb) (auto simp: refill_def time_Sub_def fmin_def)
  have w: "wait l1 tb \<le> 0"
  proof (cases "k < 1")
    case True
    moreover have "- (2 ^ 52) \<le> k" using Cons.prems(1) by linarith
    ultimately show ?thesis using Cons.prems(4) by (intro wait_overflows [OF _ _ _ r])
  next
    case False
    then show ?thesis using Cons.prems(4) by (simp add: wait_def)
  qed
  have ad: "admit l1 l2 now a tb bs = (0, take_token tb, bs)" using l1 l2 q w by (simp add: admit_def Let_def)
  have "fsub (Fin (of_int k)) (Fin 1) = round64 (of_int (k - 1))" by (simp add: fsub_def)
  also have "\<dots> = Fin (of_int (k - 1))" using Cons.prems(1) by (intro round64_of_int) simp
  finally have "tokens (take_token tb) = Fin (of_int (k - 1))" using Cons.prems(4) by (simp add: take_token_def)
  then have "admitted l1 l2 (map (Pair now) senders) (take_token tb) bs = length senders"
    using Cons.IH [of "k - 1" "take_token tb"] Cons.prems by (simp add: take_token_def)
  then show ?case by (simp add: ad)
qed simp

lemma slow_limit_admits_everything:
  assumes r: "Rate l1 = Fin \<rho>" "1 / 2 ^ 500 \<le> \<rho>" "\<rho> \<le> 1 / 2 ^ 34" and B: "0 < Burst l1"
    and l2: "\<not> active l2" and n: "int (length senders) + Burst l1 \<le> 2 ^ 52"
  shows "active l1" "admitted l1 l2 (map (Pair now) senders) zero_bucket bs = length senders"
proof -
  have \<rho>: "0 < \<rho>" using r(2) by (rule less_le_trans [rotated]) simp
  show l1: "active l1" using r(1) B(1) \<rho> by (simp add: active_def fless_def)
  have "\<bar>Burst l1\<bar> \<le> 2 ^ 53" using B n by simp
  then have q: "refill l1 now zero_bucket = \<lparr>tokens = Fin (of_int (Burst l1)), bk_last = now, started = True\<rparr>"
    by (simp add: refill_def zero_bucket_def float_of_int_def round64_of_int)
  define tb where "tb = \<lparr>tokens = Fin (of_int (Burst l1)), bk_last = now, started = True\<rparr>"
  have all: "admitted l1 l2 (map (Pair now) senders) tb bs = length senders"
    using slow_limit_admits [OF r B _ l2, of senders "Burst l1" tb now bs] n B by (simp add: tb_def)
  have "refill l1 now tb = refill l1 now zero_bucket"
  proof -
    have "Seconds 0 = Fin 0" by (simp add: Seconds_def float_of_int_def)
    then show ?thesis using q r(1) \<open>\<bar>Burst l1\<bar> \<le> 2 ^ 53\<close>
      by (simp add: refill_def tb_def time_Sub_def float_of_int_def round64_of_int fmin_def)
  qed
  then have "admit l1 l2 now s zero_bucket bs = admit l1 l2 now s tb bs" for s using l1 l2 by (simp add: admit_def Let_def)
  then show "admitted l1 l2 (map (Pair now) senders) zero_bucket bs = length senders"
    using all by (cases senders) simp_all
qed

section \<open>Properties\<close>

text \<open>
  C26. The limit of a track holds in the code's rounded arithmetic: at rates from \<open>2 ^ -30\<close> to \<open>2 ^ 64\<close> a
  second, of any run of requests to a track, from any senders, at most as many are admitted as the burst and
  the rate allow between the first and the last of them, counting one nanosecond more since waits are cut to
  whole nanoseconds, and up to a part in \<open>2 ^ 48\<close> for each request, for the rounding of the tokens. The
  requests come in order and the run lasts less than the longest \<open>time.Duration\<close>. Below that range the limit can
  fail altogether (\<open>slow_limit_admits_everything\<close>).
\<close>

theorem track_rate_is_bounded:
  assumes r: "Rate l1 = Fin \<rho>" "1 / 2 ^ 30 \<le> \<rho>" "\<rho> \<le> 2 ^ 64" and B: "0 < Burst l1" "Burst l1 < 2 ^ 63"
    and rs: "rs \<noteq> []" "sorted (map fst rs)" "fst (last rs) - fst (hd rs) < 2 ^ 63"
  shows "of_nat (admitted l1 l2 rs zero_bucket senders) \<le>
    (of_int (Burst l1) + \<rho> * (of_int (fst (last rs) - fst (hd rs)) + 1) / 10 ^ 9) * (1 + of_nat (length rs) / 2 ^ 48)"
proof -
  obtain now sender rest where a: "rs = (now, sender) # rest" using rs(1) by (metis list.exhaust surj_pair)
  obtain w tb' senders' where ad: "admit l1 l2 now sender zero_bucket senders = (w, tb', senders')" by (metis prod_cases3)
  define D where "D = fst (last rs) - fst (hd rs)"
  define X where "X = of_int (Burst l1) + \<rho> * (of_int D + 1) / 10 ^ 9"
  define C where "C = nearest (of_int (Burst l1))"
  have \<rho>: "0 < \<rho>" using r(2) by (rule less_le_trans [rotated]) simp
  have e: "last (now # map fst rest) = fst (last rs)" "fst (hd rs) = now"
    using a by (cases rest rule: rev_cases; auto)+
  have D: "0 \<le> D" using rs(2) a by (cases rest rule: rev_cases) (auto simp: D_def)
  have X: "of_int (Burst l1) \<le> X" "\<rho> / 10 ^ 9 \<le> X" "\<rho> * of_int D / 10 ^ 9 \<le> X" "X \<le> 2 ^ 200"
    using X_bounds [OF \<rho> r(3) B D] rs(3) by (simp_all add: X_def D_def)
  note C = burst_near [OF B(1) X(1,4), folded C_def]
  have q: "refill l1 now zero_bucket = \<lparr>tokens = Fin C, bk_last = now, started = True\<rparr>"
    using C(1) by (simp add: refill_def zero_bucket_def)
  have "floored \<rho> X (refill l1 now zero_bucket) C"
    using q C X(1) \<rho> by (simp add: floored_def C_def nearest_idem)
  from admit_tokens [OF r B(1) X(1,2,4) this ad] obtain t where
    t: "floored \<rho> X tb' t" "t \<le> C - (if w = 0 then 1 else 0) + X / 2 ^ 50" by blast
  have last': "bk_last tb' = now" using ad r(1) B(1) \<rho>
    by (auto simp: admit_def Let_def refill_def take_token_def active_def fless_def zero_bucket_def split: if_splits prod.splits)
  have "sorted (now # map fst rest)" using rs(2) a by simp
  then have "of_nat (admitted l1 l2 rest tb' senders') \<le>
      t + \<rho> * of_int D / 10 ^ 9 + of_nat (length rest) * X / 2 ^ 48 + (\<rho> / 10 ^ 9 + \<rho> / 10 ^ 9 / 2 ^ 49)"
    using admitted_from [OF r B(1) X(1,2,4) t(1), of rest l2 senders'] last' e rs(3) X(3) by (simp add: D_def)
  moreover have "of_nat (admitted l1 l2 rs zero_bucket senders) =
      (if w = 0 then 1 else 0) + (of_nat (admitted l1 l2 rest tb' senders') :: rat)" by (simp add: a ad)
  moreover have "\<rho> / 10 ^ 9 / 2 ^ 49 \<le> X / 2 ^ 49" using X(2) by (rule divide_right_mono) simp
  ultimately have "of_nat (admitted l1 l2 rs zero_bucket senders) \<le> X + of_nat (length rest) * X / 2 ^ 48 + X / 2 ^ 48"
    using t(2) C(3) by (simp add: X_def field_simps)
  also have "\<dots> = X * (1 + of_nat (length rs) / 2 ^ 48)" by (simp add: a field_simps)
  finally show ?thesis by (simp only: X_def D_def)
qed

theorem track_rate_is_bounded_witness:
  "admitted \<lparr>Rate = Fin 1, Burst = 2\<rparr> \<lparr>Rate = Fin 0, Burst = 0\<rparr>
     [(0, ''a''), (0, ''b''), (0, ''a''), (10 ^ 9, ''b'')] zero_bucket [] = 3 \<and>
   (3 :: rat) \<le> (2 + 1 * (10 ^ 9 + 1) / 10 ^ 9) * (1 + 4 / 2 ^ 48)"
proof
  show "admitted \<lparr>Rate = Fin 1, Burst = 2\<rparr> \<lparr>Rate = Fin 0, Burst = 0\<rparr>
     [(0, ''a''), (0, ''b''), (0, ''a''), (10 ^ 9, ''b'')] zero_bucket [] = 3"
    by (simp add: admit_def active_def fless_def refill_def zero_bucket_def wait_def take_token_def fsub_def fmin_def
      float_of_int_def Seconds_def time_Sub_def signed_divide_int_def signed_modulo_int_def round64_numerals)
  then show "(3 :: rat) \<le> (2 + 1 * (10 ^ 9 + 1) / 10 ^ 9) * (1 + 4 / 2 ^ 48)"
    using track_rate_is_bounded [of "\<lparr>Rate = Fin 1, Burst = 2\<rparr>" 1 "[(0, ''a''), (0, ''b''), (0, ''a''), (10 ^ 9, ''b'')]"
      "\<lparr>Rate = Fin 0, Burst = 0\<rparr>" "[]"] by simp
qed

end
