(* ===== verification/Reader.thy ===== *)
theory Reader
  imports Redact
begin

text \<open>
  The reader (\<open>ledger/reader.go\<close>): the cursor over every epoch with its seeks, and the bounded queries.
  Reading never writes, so an operation takes the store's state alone; a method that moves the cursor
  takes the reader and returns it updated.

  The argument \<open>N\<close> bounds the loops the code runs until a delta is absent, one step for each delta
  probed, and the loop of \<open>Next\<close>; an exhausted loop answers \<open>Unfinished\<close>. An iterator of type
  \<open>iter.Seq2\<close> is the list of the groups it yields and the error, if any, it yields last, for a
  consumer that does not stop early. The loops over the epochs \<open>1, \<dots>, latest\<close> run over that list; the
  counter of the code would wrap around only for a latest epoch of \<open>2 ^ 64 - 1\<close>.
\<close>

section \<open>State\<close>

record Reader =
  r_path :: TrackPath
  r_schema :: TrackSchema
  latest :: u64
  epoch1Log :: epochLogRoot
  r_epoch :: u64
  r_logRoot :: epochLogRoot
  r_next :: u64
  r_idx :: nat
  batch :: "GroupInfo list"
  misses :: nat
  r_last :: GroupID

section \<open>Opening and refreshing\<close>

definition loadEpoch :: "'s store \<Rightarrow> ctx \<Rightarrow> u64 \<Rightarrow> Reader \<Rightarrow> 's \<Rightarrow> error option \<times> Reader \<times> 's" where
  "loadEpoch S c epoch r s =
     (case fetchEpochLog S c (r_path r) epoch s of
        (Inl err, s) \<Rightarrow> (Some err, r, s)
      | (Inr (root, _), s) \<Rightarrow>
          (None, r\<lparr>r_epoch := epoch, r_logRoot := root, r_next := 0, r_idx := 0, batch := [], misses := 0\<rparr>, s))"

definition Reader_Track :: "'s store \<Rightarrow> ctx \<Rightarrow> Track \<Rightarrow> 's \<Rightarrow> (error + Reader) \<times> 's" where
  "Reader_Track S c t s =
     (let lat = LatestEpoch (t_root t)
      in if lat = 0 then (Inl [ErrEpochNotFound], s)
         else
           let r = \<lparr>r_path = t_path t, r_schema = schema (t_root t), latest = lat, epoch1Log = zero_epochLogRoot,
                 r_epoch = 0, r_logRoot = zero_epochLogRoot, r_next = 0, r_idx = 0, batch = [], misses = 0,
                 r_last = GroupID 0\<rparr>
           in case loadEpoch S c 1 r s of
                (Some err, _, s) \<Rightarrow> (Inl err, s)
              | (None, r, s) \<Rightarrow> (Inr (r\<lparr>epoch1Log := r_logRoot r\<rparr>), s))"

definition Track_Reader :: "Reader \<Rightarrow> TrackPath" where
  "Track_Reader r = r_path r"

definition Root_Reader :: "Reader \<Rightarrow> TrackInfo" where
  "Root_Reader r = \<lparr>ti_TrackSchema = r_schema r, ti_Track = r_path r, ti_LatestEpoch = latest r\<rparr>"

definition Refresh :: "'s store \<Rightarrow> ctx \<Rightarrow> Reader \<Rightarrow> 's \<Rightarrow> error option \<times> Reader \<times> 's" where
  "Refresh S c r s =
     (case fetchTrackRoot S c (r_path r) s of
        (Inl err, s) \<Rightarrow> (Some err, r, s)
      | (Inr (root, _), s) \<Rightarrow>
          let r = r\<lparr>latest := LatestEpoch root\<rparr>
          in case fetchEpochLog S c (r_path r) (r_epoch r) s of
               (Inl err, s) \<Rightarrow> (Some err, r, s)
             | (Inr (log, _), s) \<Rightarrow>
                 let r = r\<lparr>r_logRoot := log\<rparr>
                 in (None, if r_epoch r = 1 then r\<lparr>epoch1Log := log\<rparr> else r, s))"

section \<open>Segments\<close>

definition delta :: "'s store \<Rightarrow> ctx \<Rightarrow> TrackPath \<Rightarrow> u64 \<Rightarrow> u64 \<Rightarrow> 's \<Rightarrow> (error + deltaManifest) \<times> 's" where
  "delta S c path epoch n s =
     (case Get S c (deltaKey path epoch n) s of
        (Inl err, s) \<Rightarrow>
          if errors_Is err ErrNotExist then (Inl [ErrNotCommitted], s) else (Inl (wrap [] err), s)
      | (Inr (d, _), s) \<Rightarrow> (decode_delta d, s))"

definition sealed :: "'s store \<Rightarrow> ctx \<Rightarrow> TrackPath \<Rightarrow> u64 \<Rightarrow> sealedRef \<Rightarrow> 's \<Rightarrow> (error + sealedManifest) \<times> 's" where
  "sealed S c path epoch ref s =
     (case Get S c (Key ref) s of
        (Inl err, s) \<Rightarrow> (Inl (wrap [] err), s)
      | (Inr (d, _), s) \<Rightarrow>
          (case decode_sealed d of
             Inl err \<Rightarrow> (Inl err, s)
           | Inr m \<Rightarrow>
               if sm_Track m \<noteq> path then (Inl [ErrManifestMismatch], s)
               else if sm_Epoch m \<noteq> epoch then (Inl [ErrManifestMismatch], s)
               else if sm_FirstDelta m \<noteq> FirstDelta ref \<or> sm_LastDelta m \<noteq> LastDelta ref then (Inl [ErrManifestMismatch], s)
               else (Inr m, s)))"

fun sealedCovering_in :: "sealedRef list \<Rightarrow> u64 \<Rightarrow> sealedRef option" where
  "sealedCovering_in [] n = None"
| "sealedCovering_in (ref # refs) n =
     (if n \<ge> FirstDelta ref \<and> n \<le> LastDelta ref then Some ref else sealedCovering_in refs n)"

definition sealedCovering :: "epochLogRoot \<Rightarrow> u64 \<Rightarrow> sealedRef option" where
  "sealedCovering root n = sealedCovering_in (Sealed root) n"

section \<open>Looking up one group\<close>

fun lookup_open ::
  "'s store \<Rightarrow> ctx \<Rightarrow> nat \<Rightarrow> TrackPath \<Rightarrow> u64 \<Rightarrow> GroupID \<Rightarrow> u64 \<Rightarrow> 's \<Rightarrow> (error + GroupInfo option) \<times> 's" where
  "lookup_open S c 0 path epoch i n s = (Inl [Unfinished], s)"
| "lookup_open S c (Suc N) path epoch i n s =
     (case delta S c path epoch n s of
        (Inl err, s) \<Rightarrow> if errors_Is err ErrNotCommitted then (Inr None, s) else (Inl err, s)
      | (Inr d, s) \<Rightarrow>
          (case find (\<lambda>g. ID g = i) (dm_Groups d) of
             Some g \<Rightarrow> (Inr (Some g), s)
           | None \<Rightarrow> lookup_open S c N path epoch i (n + 1) s))"

fun lookup_sealed ::
  "'s store \<Rightarrow> ctx \<Rightarrow> TrackPath \<Rightarrow> u64 \<Rightarrow> GroupID \<Rightarrow> sealedRef list \<Rightarrow> 's \<Rightarrow> (error + GroupInfo option) \<times> 's" where
  "lookup_sealed S c path epoch i [] s = (Inr None, s)"
| "lookup_sealed S c path epoch i (ref # refs) s =
     (case sealed S c path epoch ref s of
        (Inl err, s) \<Rightarrow> (Inl err, s)
      | (Inr m, s) \<Rightarrow>
          (case find (\<lambda>g. ID g = i) (sm_Groups m) of
             Some g \<Rightarrow> (Inr (Some g), s)
           | None \<Rightarrow> lookup_sealed S c path epoch i refs s))"

definition Lookup :: "'s store \<Rightarrow> ctx \<Rightarrow> nat \<Rightarrow> Reader \<Rightarrow> GroupID \<Rightarrow> 's \<Rightarrow> (error + GroupInfo) \<times> 's" where
  "Lookup S c N r i s =
     (let epoch = Epoch i
      in if epoch = 0 \<or> epoch > latest r then (Inl [ErrGroupNotFound], s)
         else case fetchEpochLog S c (r_path r) epoch s of
           (Inl err, s) \<Rightarrow> (Inl err, s)
         | (Inr (root, _), s) \<Rightarrow>
             (case lookup_open S c N (r_path r) epoch i (OpenFrom root) s of
                (Inl err, s) \<Rightarrow> (Inl err, s)
              | (Inr (Some g), s) \<Rightarrow> (Inr g, s)
              | (Inr None, s) \<Rightarrow>
                  (case lookup_sealed S c (r_path r) epoch i (Sealed root) s of
                     (Inl err, s) \<Rightarrow> (Inl err, s)
                   | (Inr (Some g), s) \<Rightarrow> (Inr g, s)
                   | (Inr None, s) \<Rightarrow> (Inl [ErrGroupNotFound], s))))"

section \<open>Walking the track\<close>

type_synonym groups_iter = "GroupInfo list \<times> error option"

fun walk_sealed ::
  "'s store \<Rightarrow> ctx \<Rightarrow> TrackPath \<Rightarrow> u64 \<Rightarrow> (sealedRef \<Rightarrow> bool) \<Rightarrow> sealedRef list \<Rightarrow> 's \<Rightarrow> groups_iter \<times> 's" where
  "walk_sealed S c path epoch incl [] s = (([], None), s)"
| "walk_sealed S c path epoch incl (ref # refs) s =
     (if \<not> incl ref then walk_sealed S c path epoch incl refs s
      else case sealed S c path epoch ref s of
        (Inl err, s) \<Rightarrow> (([], Some err), s)
      | (Inr m, s) \<Rightarrow>
          (case walk_sealed S c path epoch incl refs s of ((gs, e), s) \<Rightarrow> ((sm_Groups m @ gs, e), s)))"

fun walk_open ::
  "'s store \<Rightarrow> ctx \<Rightarrow> nat \<Rightarrow> TrackPath \<Rightarrow> u64 \<Rightarrow> u64 \<Rightarrow> 's \<Rightarrow> groups_iter \<times> 's" where
  "walk_open S c 0 path epoch n s = (([], Some [Unfinished]), s)"
| "walk_open S c (Suc N) path epoch n s =
     (case delta S c path epoch n s of
        (Inl err, s) \<Rightarrow> if errors_Is err ErrNotCommitted then (([], None), s) else (([], Some err), s)
      | (Inr d, s) \<Rightarrow>
          (case walk_open S c N path epoch (n + 1) s of ((gs, e), s) \<Rightarrow> ((dm_Groups d @ gs, e), s)))"

text \<open>The next part of an iteration runs only when the one before ended without an error.\<close>

definition iter_then :: "groups_iter \<times> 's \<Rightarrow> ('s \<Rightarrow> groups_iter \<times> 's) \<Rightarrow> groups_iter \<times> 's" where
  "iter_then x k = (case x of
       ((gs, Some e), s) \<Rightarrow> ((gs, Some e), s)
     | ((gs, None), s) \<Rightarrow> (case k s of ((hs, e), s) \<Rightarrow> ((gs @ hs, e), s)))"

definition walk_epoch ::
  "'s store \<Rightarrow> ctx \<Rightarrow> nat \<Rightarrow> TrackPath \<Rightarrow> (sealedRef \<Rightarrow> bool) \<Rightarrow> u64 \<Rightarrow> 's \<Rightarrow> groups_iter \<times> 's" where
  "walk_epoch S c N path incl epoch s =
     (case fetchEpochLog S c path epoch s of
        (Inl err, s) \<Rightarrow> (([], Some err), s)
      | (Inr (root, _), s) \<Rightarrow>
          iter_then (walk_sealed S c path epoch incl (Sealed root) s) (walk_open S c N path epoch (OpenFrom root)))"

fun walk_epochs ::
  "'s store \<Rightarrow> ctx \<Rightarrow> nat \<Rightarrow> TrackPath \<Rightarrow> (sealedRef \<Rightarrow> bool) \<Rightarrow> u64 list \<Rightarrow> 's \<Rightarrow> groups_iter \<times> 's" where
  "walk_epochs S c N path incl [] s = (([], None), s)"
| "walk_epochs S c N path incl (e # es) s =
     iter_then (walk_epoch S c N path incl e s) (walk_epochs S c N path incl es)"

definition epochs :: "u64 \<Rightarrow> u64 list" where
  "epochs lat = map of_nat [1..<Suc (unat lat)]"

definition walk :: "'s store \<Rightarrow> ctx \<Rightarrow> nat \<Rightarrow> Reader \<Rightarrow> (sealedRef \<Rightarrow> bool) \<Rightarrow> 's \<Rightarrow> groups_iter \<times> 's" where
  "walk S c N r incl s = walk_epochs S c N (r_path r) incl (epochs (latest r)) s"

definition filterGroups :: "groups_iter \<Rightarrow> (GroupInfo \<Rightarrow> bool) \<Rightarrow> groups_iter" where
  "filterGroups seq keep = (case seq of (gs, e) \<Rightarrow> (filter keep gs, e))"

definition emptyGroups :: groups_iter where
  "emptyGroups = ([], None)"

definition RangeMedia :: "'s store \<Rightarrow> ctx \<Rightarrow> nat \<Rightarrow> Reader \<Rightarrow> int \<Rightarrow> int \<Rightarrow> 's \<Rightarrow> groups_iter \<times> 's" where
  "RangeMedia S c N r from to s =
     (if from \<ge> to then (emptyGroups, s)
      else case walk S c N r (\<lambda>ref. MediaStart ref < to \<and> MediaEnd ref > from) s of
        (seq, s) \<Rightarrow> (filterGroups seq (\<lambda>g. overlapsMedia g from to), s))"

definition RangeWallclock :: "'s store \<Rightarrow> ctx \<Rightarrow> nat \<Rightarrow> Reader \<Rightarrow> int \<Rightarrow> int \<Rightarrow> 's \<Rightarrow> groups_iter \<times> 's" where
  "RangeWallclock S c N r from to s =
     (if from \<ge> to then (emptyGroups, s)
      else case walk S c N r (\<lambda>ref. WallclockStart ref = 0 \<or> WallclockStart ref < to) s of
        (seq, s) \<Rightarrow> (filterGroups seq (\<lambda>g. overlapsWallclock g from to (Timescale (r_schema r))), s))"

section \<open>The cursor\<close>

definition rootRecheckEvery :: nat where
  "rootRecheckEvery = 8"

definition SeekStart :: "Reader \<Rightarrow> Reader" where
  "SeekStart r = r\<lparr>r_epoch := 1, r_logRoot := epoch1Log r, r_next := 0, r_idx := 0, batch := [],
     r_last := GroupID 0, misses := 0\<rparr>"

definition SeekTip :: "'s store \<Rightarrow> ctx \<Rightarrow> Reader \<Rightarrow> 's \<Rightarrow> error option \<times> Reader \<times> 's" where
  "SeekTip S c r s =
     (case loadEpoch S c (latest r) r s of
        (Some err, r, s) \<Rightarrow> (Some err, r, s)
      | (None, r, s) \<Rightarrow>
          (let tip = (\<lambda>n. r\<lparr>r_next := n, r_idx := 0, batch := [], r_last := GroupID 0, misses := 0\<rparr>)
           in case fetchHead S c (r_path r) (latest r) s of
                (Inl err, s) \<Rightarrow> if errors_Is err ErrNotExist then (None, tip 0, s) else (Some err, r, s)
              | (Inr (h, _), s) \<Rightarrow> (None, tip (h_Delta h + 1), s)))"

text \<open>The first group of a segment after a sequence, with its index.\<close>

fun first_after :: "u64 \<Rightarrow> GroupInfo list \<Rightarrow> nat \<Rightarrow> nat option" where
  "first_after seq [] i = None"
| "first_after seq (g # gs) i = (if seq < Sequence (ID g) then Some i else first_after seq gs (Suc i))"

fun locate_sealed ::
  "'s store \<Rightarrow> ctx \<Rightarrow> TrackPath \<Rightarrow> u64 \<Rightarrow> u64 \<Rightarrow> sealedRef list \<Rightarrow> 's \<Rightarrow>
     (error + (GroupInfo list \<times> nat \<times> u64) option) \<times> 's" where
  "locate_sealed S c path epoch seq [] s = (Inr None, s)"
| "locate_sealed S c path epoch seq (ref # refs) s =
     (if seq \<ge> Sequence (Last ref) then locate_sealed S c path epoch seq refs s
      else case sealed S c path epoch ref s of
        (Inl err, s) \<Rightarrow> (Inl err, s)
      | (Inr m, s) \<Rightarrow>
          (case first_after seq (sm_Groups m) 0 of
             Some i \<Rightarrow> (Inr (Some (sm_Groups m, i, LastDelta ref + 1)), s)
           | None \<Rightarrow> locate_sealed S c path epoch seq refs s))"

fun locate_open ::
  "'s store \<Rightarrow> ctx \<Rightarrow> nat \<Rightarrow> TrackPath \<Rightarrow> u64 \<Rightarrow> u64 \<Rightarrow> u64 \<Rightarrow> 's \<Rightarrow> (error + GroupInfo list \<times> nat \<times> u64) \<times> 's" where
  "locate_open S c 0 path epoch seq n s = (Inl [Unfinished], s)"
| "locate_open S c (Suc N) path epoch seq n s =
     (case delta S c path epoch n s of
        (Inl err, s) \<Rightarrow> if errors_Is err ErrNotCommitted then (Inr ([], 0, n), s) else (Inl err, s)
      | (Inr d, s) \<Rightarrow>
          (case first_after seq (dm_Groups d) 0 of
             Some i \<Rightarrow> (Inr (dm_Groups d, i, n + 1), s)
           | None \<Rightarrow> locate_open S c N path epoch seq (n + 1) s))"

definition locateAfter ::
  "'s store \<Rightarrow> ctx \<Rightarrow> nat \<Rightarrow> Reader \<Rightarrow> epochLogRoot \<Rightarrow> u64 \<Rightarrow> 's \<Rightarrow> (error + GroupInfo list \<times> nat \<times> u64) \<times> 's" where
  "locateAfter S c N r root seq s =
     (case locate_sealed S c (r_path r) (r_epoch r) seq (Sealed root) s of
        (Inl err, s) \<Rightarrow> (Inl err, s)
      | (Inr (Some x), s) \<Rightarrow> (Inr x, s)
      | (Inr None, s) \<Rightarrow> locate_open S c N (r_path r) (r_epoch r) seq (OpenFrom root) s)"

definition SeekAfter :: "'s store \<Rightarrow> ctx \<Rightarrow> nat \<Rightarrow> GroupID \<Rightarrow> Reader \<Rightarrow> 's \<Rightarrow> error option \<times> Reader \<times> 's" where
  "SeekAfter S c N i r s =
     (if i = GroupID 0 then (None, SeekStart r, s)
      else
        let epoch = (if Epoch i > latest r then latest r else Epoch i)
        in case loadEpoch S c epoch r s of
             (Some err, r, s) \<Rightarrow> (Some err, r, s)
           | (None, r, s) \<Rightarrow>
               (case locateAfter S c N r (r_logRoot r) (Sequence i) s of
                  (Inl err, s) \<Rightarrow> (Some err, r, s)
                | (Inr (seg, idx, after), s) \<Rightarrow>
                    (None, r\<lparr>batch := seg, r_idx := idx, r_next := after, r_last := GroupID 0, misses := 0\<rparr>, s)))"

definition position :: "u64 \<Rightarrow> GroupInfo list \<Rightarrow> nat \<Rightarrow> u64 \<Rightarrow> Reader \<Rightarrow> Reader" where
  "position epoch seg idx after r =
     r\<lparr>r_epoch := epoch, batch := seg, r_idx := idx, r_next := after, r_last := GroupID 0, misses := 0\<rparr>"

fun Next :: "'s store \<Rightarrow> ctx \<Rightarrow> nat \<Rightarrow> Reader \<Rightarrow> 's \<Rightarrow> (error + GroupInfo) \<times> Reader \<times> 's" where
  "Next S c 0 r s = (Inl [Unfinished], r, s)"
| "Next S c (Suc N) r s =
     (if r_idx r < length (batch r) then
        let g = batch r ! r_idx r in (Inr g, r\<lparr>r_idx := Suc (r_idx r), r_last := ID g\<rparr>, s)
      else if r_next r < OpenFrom (r_logRoot r) then
        (case sealedCovering (r_logRoot r) (r_next r) of
           None \<Rightarrow> Next S c N (r\<lparr>r_next := OpenFrom (r_logRoot r)\<rparr>) s
         | Some ref \<Rightarrow>
             (case sealed S c (r_path r) (r_epoch r) ref s of
                (Inl err, s) \<Rightarrow> (Inl err, r, s)
              | (Inr m, s) \<Rightarrow>
                  Next S c N (r\<lparr>batch := sm_Groups m, r_idx := 0, r_next := LastDelta ref + 1, misses := 0\<rparr>) s))
      else
        (case delta S c (r_path r) (r_epoch r) (r_next r) s of
           (Inr d, s) \<Rightarrow> Next S c N (r\<lparr>batch := dm_Groups d, r_idx := 0, r_next := r_next r + 1, misses := 0\<rparr>) s
         | (Inl err, s) \<Rightarrow>
             if errors_Is err ErrNotCommitted then
               (if r_epoch r < latest r then
                  (case loadEpoch S c (r_epoch r + 1) r s of
                     (Some err, r, s) \<Rightarrow> (Inl err, r, s)
                   | (None, r, s) \<Rightarrow> Next S c N r s)
                else
                  let r = r\<lparr>misses := Suc (misses r)\<rparr>
                  in if misses r = 1 \<or> misses r mod rootRecheckEvery = 0 then
                       (case Refresh S c r s of
                          (Some e, r, s) \<Rightarrow> (Inl e, r, s)
                        | (None, r, s) \<Rightarrow> (Inl [EOF], r, s))
                     else (Inl [EOF], r, s))
             else (Inl err, r, s)))"

definition Position :: "Reader \<Rightarrow> GroupID" where
  "Position r = r_last r"

section \<open>Seeking by time\<close>

text \<open>The best match so far: the group, its segment and index, where to read on, and its anchor.\<close>

type_synonym match = "(GroupInfo \<times> GroupInfo list \<times> nat \<times> u64 \<times> int) option"

definition consider_group ::
  "(GroupInfo \<Rightarrow> int option) \<Rightarrow> int \<Rightarrow> GroupInfo list \<Rightarrow> u64 \<Rightarrow> nat \<Rightarrow> match \<Rightarrow> match" where
  "consider_group anchor target seg after i best =
     (case anchor (seg ! i) of
        None \<Rightarrow> best
      | Some at \<Rightarrow>
          if at > target then best
          else case best of
            None \<Rightarrow> Some (seg ! i, seg, i, after, at)
          | Some (_, _, _, _, bestAt) \<Rightarrow> if at \<ge> bestAt then Some (seg ! i, seg, i, after, at) else best)"

definition consider_all ::
  "(GroupInfo \<Rightarrow> int option) \<Rightarrow> int \<Rightarrow> GroupInfo list \<Rightarrow> u64 \<Rightarrow> match \<Rightarrow> match" where
  "consider_all anchor target seg after best = fold (consider_group anchor target seg after) [0..<length seg] best"

fun seek_open ::
  "'s store \<Rightarrow> ctx \<Rightarrow> nat \<Rightarrow> TrackPath \<Rightarrow> u64 \<Rightarrow> (GroupInfo \<Rightarrow> int option) \<Rightarrow> int \<Rightarrow> u64 \<Rightarrow> match \<Rightarrow> 's \<Rightarrow> (error + match) \<times> 's" where
  "seek_open S c 0 path epoch anchor target n best s = (Inl [Unfinished], s)"
| "seek_open S c (Suc N) path epoch anchor target n best s =
     (case delta S c path epoch n s of
        (Inl err, s) \<Rightarrow> if errors_Is err ErrNotCommitted then (Inr best, s) else (Inl err, s)
      | (Inr d, s) \<Rightarrow>
          seek_open S c N path epoch anchor target (n + 1) (consider_all anchor target (dm_Groups d) (n + 1) best) s)"

text \<open>The sealed runs, newest first, until a match is found; \<open>start\<close> is the run's first anchor, if it has one.\<close>

fun seek_sealed ::
  "'s store \<Rightarrow> ctx \<Rightarrow> TrackPath \<Rightarrow> u64 \<Rightarrow> (GroupInfo \<Rightarrow> int option) \<Rightarrow> (sealedRef \<Rightarrow> int option) \<Rightarrow> int \<Rightarrow>
     sealedRef list \<Rightarrow> match \<Rightarrow> 's \<Rightarrow> (error + match) \<times> 's" where
  "seek_sealed S c path epoch anchor start target [] best s = (Inr best, s)"
| "seek_sealed S c path epoch anchor start target (ref # refs) best s =
     (if best \<noteq> None then (Inr best, s)
      else if (case start ref of Some at \<Rightarrow> at > target | None \<Rightarrow> False)
        then seek_sealed S c path epoch anchor start target refs best s
      else case sealed S c path epoch ref s of
        (Inl err, s) \<Rightarrow> (Inl err, s)
      | (Inr m, s) \<Rightarrow>
          seek_sealed S c path epoch anchor start target refs
            (consider_all anchor target (sm_Groups m) (LastDelta ref + 1) best) s)"

definition seekWithinEpoch ::
  "'s store \<Rightarrow> ctx \<Rightarrow> nat \<Rightarrow> TrackPath \<Rightarrow> u64 \<Rightarrow> epochLogRoot \<Rightarrow> int \<Rightarrow> (GroupInfo \<Rightarrow> int option) \<Rightarrow>
     (sealedRef \<Rightarrow> int option) \<Rightarrow> 's \<Rightarrow> (error + match) \<times> 's" where
  "seekWithinEpoch S c N path epoch root target anchor start s =
     (case seek_open S c N path epoch anchor target (OpenFrom root) None s of
        (Inl err, s) \<Rightarrow> (Inl err, s)
      | (Inr best, s) \<Rightarrow> seek_sealed S c path epoch anchor start target (rev (Sealed root)) best s)"

fun seek_epochs ::
  "'s store \<Rightarrow> ctx \<Rightarrow> nat \<Rightarrow> int \<Rightarrow> (GroupInfo \<Rightarrow> int option) \<Rightarrow> (GroupInfo \<Rightarrow> u32 \<Rightarrow> int option) \<Rightarrow>
     (sealedRef \<Rightarrow> int option) \<Rightarrow> u64 list \<Rightarrow> Reader \<Rightarrow> 's \<Rightarrow> (error + GroupInfo) \<times> Reader \<times> 's" where
  "seek_epochs S c N target anchor end_of start [] r s = (Inl [ErrGroupNotFound], r, s)"
| "seek_epochs S c N target anchor end_of start (e # es) r s =
     (case fetchEpochLog S c (r_path r) e s of
        (Inl err, s) \<Rightarrow> (Inl err, r, s)
      | (Inr (root, _), s) \<Rightarrow>
          (case seekWithinEpoch S c N (r_path r) e root target anchor start s of
             (Inl err, s) \<Rightarrow> (Inl err, r, s)
           | (Inr None, s) \<Rightarrow> seek_epochs S c N target anchor end_of start es r s
           | (Inr (Some (best, bestSeg, bestIdx, bestNext, _)), s) \<Rightarrow>
               if (case end_of best (Timescale (r_schema r)) of Some at \<Rightarrow> target \<ge> at | None \<Rightarrow> False)
               then (Inl [ErrGroupNotFound], r, s)
               else (Inr best, position e bestSeg bestIdx bestNext r, s)))"

definition seekTime ::
  "'s store \<Rightarrow> ctx \<Rightarrow> nat \<Rightarrow> int \<Rightarrow> (GroupInfo \<Rightarrow> int option) \<Rightarrow> (GroupInfo \<Rightarrow> u32 \<Rightarrow> int option) \<Rightarrow>
     (sealedRef \<Rightarrow> int option) \<Rightarrow> Reader \<Rightarrow> 's \<Rightarrow> (error + GroupInfo) \<times> Reader \<times> 's" where
  "seekTime S c N target anchor end_of start r s =
     seek_epochs S c N target anchor end_of start (rev (epochs (latest r))) r s"

definition SeekWallclock :: "'s store \<Rightarrow> ctx \<Rightarrow> nat \<Rightarrow> int \<Rightarrow> Reader \<Rightarrow> 's \<Rightarrow> (error + GroupInfo) \<times> Reader \<times> 's" where
  "SeekWallclock S c N unixNano r s =
     seekTime S c N unixNano
       (\<lambda>g. if hasWallclock g then Some (Wallclock g) else None) wallclockEnd
       (\<lambda>ref. if WallclockStart ref \<noteq> 0 then Some (WallclockStart ref) else None) r s"

definition SeekMedia :: "'s store \<Rightarrow> ctx \<Rightarrow> nat \<Rightarrow> int \<Rightarrow> Reader \<Rightarrow> 's \<Rightarrow> (error + GroupInfo) \<times> Reader \<times> 's" where
  "SeekMedia S c N mediaTime r s =
     seekTime S c N mediaTime
       (\<lambda>g. Some (MediaTime g)) (\<lambda>g _. if hasDuration g then Some (mediaEnd g) else None)
       (\<lambda>ref. Some (MediaStart ref)) r s"

section \<open>Reading backwards\<close>

text \<open>
  The history query (\<open>ledger/before.go\<close>). The groups found so far are kept newest first, as the code
  keeps them; \<open>take\<close> answers whether the page is full.
\<close>

definition noDelta :: u64 where
  "noDelta = - 1"

fun take_back :: "GroupID \<Rightarrow> nat \<Rightarrow> GroupInfo list \<Rightarrow> GroupInfo list \<Rightarrow> bool \<times> GroupInfo list" where
  "take_back i n [] groups = (False, groups)"
| "take_back i n (g # gs) groups =
     (if i \<noteq> GroupID 0 \<and> Compare (ID g) i \<ge> 0 then take_back i n gs groups
      else let groups = groups @ [g] in if length groups = n then (True, groups) else take_back i n gs groups)"

definition take_batch :: "GroupID \<Rightarrow> nat \<Rightarrow> GroupInfo list \<Rightarrow> GroupInfo list \<Rightarrow> bool \<times> GroupInfo list" where
  "take_batch i n gs groups = take_back i n (rev gs) groups"

fun last_delta_loop ::
  "'s store \<Rightarrow> ctx \<Rightarrow> nat \<Rightarrow> TrackPath \<Rightarrow> u64 \<Rightarrow> u64 \<Rightarrow> u64 \<Rightarrow> 's \<Rightarrow> (error + u64) \<times> 's" where
  "last_delta_loop S c 0 path epoch lst n s = (Inl [Unfinished], s)"
| "last_delta_loop S c (Suc N) path epoch lst n s =
     (case Get S c (deltaKey path epoch n) s of
        (Inl err, s) \<Rightarrow> if errors_Is err ErrNotExist then (Inr lst, s) else (Inl err, s)
      | (Inr _, s) \<Rightarrow> last_delta_loop S c N path epoch n (n + 1) s)"

definition lastDelta :: "'s store \<Rightarrow> ctx \<Rightarrow> nat \<Rightarrow> TrackPath \<Rightarrow> u64 \<Rightarrow> u64 \<Rightarrow> 's \<Rightarrow> (error + u64) \<times> 's" where
  "lastDelta S c N path epoch openFrom s =
     (let probe = (\<lambda>lst. last_delta_loop S c N path epoch lst (if lst \<noteq> noDelta then lst + 1 else openFrom))
      in case fetchHead S c path epoch s of
           (Inl err, s) \<Rightarrow> if errors_Is err ErrNotExist then probe noDelta s else (Inl err, s)
         | (Inr (h, _), s) \<Rightarrow> probe (if h_Delta h \<ge> openFrom then h_Delta h else noDelta) s)"

text \<open>The loop from the newest delta down to the open region's first; it may stop full, or on a reseal.\<close>

datatype page = Full "GroupInfo list" | Resealed | More "GroupInfo list"

function before_open ::
  "'s store \<Rightarrow> ctx \<Rightarrow> TrackPath \<Rightarrow> u64 \<Rightarrow> GroupID \<Rightarrow> nat \<Rightarrow> u64 \<Rightarrow> u64 \<Rightarrow> GroupInfo list \<Rightarrow> 's \<Rightarrow> (error + page) \<times> 's" where
  "before_open S c path epoch i n openFrom d groups s =
     (if \<not> (d \<ge> openFrom \<and> d \<noteq> noDelta) then (Inr (More groups), s)
      else case delta S c path epoch d s of
        (Inl err, s) \<Rightarrow> if errors_Is err ErrNotCommitted then (Inr Resealed, s) else (Inl err, s)
      | (Inr m, s) \<Rightarrow>
          (case take_batch i n (dm_Groups m) groups of
             (True, groups) \<Rightarrow> (Inr (Full groups), s)
           | (False, groups) \<Rightarrow> before_open S c path epoch i n openFrom (d - 1) groups s))"
  by pat_completeness auto
termination
proof (relation "measure (\<lambda>(S, c, p, e, i, n, f, d, gs, s). unat (d + 1))", goal_cases)
  case (2 S c path epoch i n openFrom d groups s)
  then have "d < noDelta" by (simp add: noDelta_def order.not_eq_order_implies_strict)
  from word_Suc_unat [OF this] show ?case by simp
qed simp

declare before_open.simps [simp del]

fun before_sealed ::
  "'s store \<Rightarrow> ctx \<Rightarrow> TrackPath \<Rightarrow> u64 \<Rightarrow> GroupID \<Rightarrow> nat \<Rightarrow> sealedRef list \<Rightarrow> GroupInfo list \<Rightarrow> 's \<Rightarrow> (error + page) \<times> 's" where
  "before_sealed S c path epoch i n [] groups s = (Inr (More groups), s)"
| "before_sealed S c path epoch i n (ref # refs) groups s =
     (if i \<noteq> GroupID 0 \<and> Compare (First ref) i \<ge> 0 then before_sealed S c path epoch i n refs groups s
      else case sealed S c path epoch ref s of
        (Inl err, s) \<Rightarrow> (Inl err, s)
      | (Inr m, s) \<Rightarrow>
          (case take_batch i n (sm_Groups m) groups of
             (True, groups) \<Rightarrow> (Inr (Full groups), s)
           | (False, groups) \<Rightarrow> before_sealed S c path epoch i n refs groups s))"

definition beforeIn ::
  "'s store \<Rightarrow> ctx \<Rightarrow> nat \<Rightarrow> TrackPath \<Rightarrow> u64 \<Rightarrow> GroupID \<Rightarrow> nat \<Rightarrow> GroupInfo list \<Rightarrow> 's \<Rightarrow> (error + page) \<times> 's" where
  "beforeIn S c N path epoch i n groups s =
     (case fetchEpochLog S c path epoch s of
        (Inl err, s) \<Rightarrow> (Inl err, s)
      | (Inr (root, _), s) \<Rightarrow>
          (case lastDelta S c N path epoch (OpenFrom root) s of
             (Inl err, s) \<Rightarrow> (Inl err, s)
           | (Inr lst, s) \<Rightarrow>
               (case before_open S c path epoch i n (OpenFrom root) lst groups s of
                  (Inr (More groups), s) \<Rightarrow> before_sealed S c path epoch i n (rev (Sealed root)) groups s
                | x \<Rightarrow> x)))"

definition beforeAttempts :: nat where
  "beforeAttempts = 3"

fun before_attempts ::
  "'s store \<Rightarrow> ctx \<Rightarrow> nat \<Rightarrow> TrackPath \<Rightarrow> u64 \<Rightarrow> GroupID \<Rightarrow> nat \<Rightarrow> nat \<Rightarrow> GroupInfo list \<Rightarrow> 's \<Rightarrow> (error + page) \<times> 's" where
  "before_attempts S c N path epoch i n 0 groups s = (Inl [], s)"
| "before_attempts S c N path epoch i n (Suc k) groups s =
     (case beforeIn S c N path epoch i n groups s of
        (Inr Resealed, s) \<Rightarrow> before_attempts S c N path epoch i n k groups s
      | x \<Rightarrow> x)"

fun before_epochs ::
  "'s store \<Rightarrow> ctx \<Rightarrow> nat \<Rightarrow> TrackPath \<Rightarrow> GroupID \<Rightarrow> nat \<Rightarrow> u64 list \<Rightarrow> GroupInfo list \<Rightarrow> 's \<Rightarrow> (error + GroupInfo list) \<times> 's" where
  "before_epochs S c N path i n [] groups s = (Inr (rev groups), s)"
| "before_epochs S c N path i n (e # es) groups s =
     (case before_attempts S c N path e i n beforeAttempts groups s of
        (Inl err, s) \<Rightarrow> (Inl err, s)
      | (Inr (Full groups), s) \<Rightarrow> (Inr (rev groups), s)
      | (Inr (More groups), s) \<Rightarrow> before_epochs S c N path i n es groups s
      | (Inr Resealed, s) \<Rightarrow> (Inl [], s))"

definition Before :: "'s store \<Rightarrow> ctx \<Rightarrow> nat \<Rightarrow> Reader \<Rightarrow> GroupID \<Rightarrow> int \<Rightarrow> 's \<Rightarrow> (error + GroupInfo list) \<times> 's" where
  "Before S c N r i n s =
     (if n \<le> 0 then (Inr [], s)
      else
        let epoch = (if i \<noteq> GroupID 0 \<and> Epoch i < latest r then Epoch i else latest r)
        in before_epochs S c N (r_path r) i (nat n) (rev (epochs epoch)) [] s)"

end
