(* ===== verification/Writer.thy ===== *)
theory Writer
  imports Redact
begin

text \<open>
  The writer of one producer lifetime (\<open>ledger/writer.go\<close>, and \<open>Track.Writer\<close> of
  \<open>ledger/track.go\<close>): recovery of the position, the append with its commit point, the published head,
  the rotation of the open region into a sealed run, and the step into a new epoch.

  A method of \<open>Writer\<close> takes the writer and the world and returns both updated; its lock makes each
  method one step. The argument \<open>N\<close> bounds the probing loop of the recovery, which the code runs until
  a delta is absent; an exhausted loop answers \<open>Unfinished\<close>. The track handle a writer points to is an
  argument of \<open>NewEpoch\<close>, the one method that uses it.
\<close>

section \<open>State\<close>

record Writer =
  w_path :: TrackPath
  w_epoch :: u64
  w_schema :: TrackSchema
  w_sealThreshold :: int
  w_now :: clock
  logRoot :: epochLogRoot
  logVersion :: version
  headVersion :: version
  nextDelta :: u64
  openGroups :: "GroupInfo list"
  openBytes :: int
  w_last :: GroupInfo
  hasLast :: bool
  stale :: bool

section \<open>Recovery\<close>

fun recover_loop ::
  "'s store \<Rightarrow> ctx \<Rightarrow> nat \<Rightarrow> u64 \<Rightarrow> u64 \<Rightarrow> Writer \<Rightarrow> 's \<Rightarrow> error option \<times> Writer \<times> 's" where
  "recover_loop S c 0 from n w s = (Some [Unfinished], w, s)"
| "recover_loop S c (Suc N) from n w s =
     (case Get S c (deltaKey (w_path w) (w_epoch w) n) s of
        (Inl err, s) \<Rightarrow>
          if errors_Is err ErrNotExist then
            (if n < from then (Some [], w, s) else (None, w\<lparr>nextDelta := n\<rparr>, s))
          else (Some (wrap [] err), w, s)
      | (Inr (d, _), s) \<Rightarrow>
          (case decode_delta d of
             Inl err \<Rightarrow> (Some err, w, s)
           | Inr delta \<Rightarrow>
               let w = w\<lparr>openGroups := openGroups w @ dm_Groups delta,
                         openBytes := i64 (openBytes w + int (length d))\<rparr>;
                   w = (if dm_Groups delta \<noteq> [] then w\<lparr>w_last := last (dm_Groups delta), hasLast := True\<rparr>
                        else w)
               in recover_loop S c N from (n + 1) w s))"

definition sealed_last :: "Writer \<Rightarrow> Writer" where
  "sealed_last w =
     (if \<not> hasLast w \<and> Sealed (logRoot w) \<noteq> [] then
        let newest = last (Sealed (logRoot w))
        in w\<lparr>w_last := zero_GroupInfo\<lparr>ID := Last newest, MediaTime := MediaEnd newest\<rparr>, hasLast := True\<rparr>
      else w)"

definition recover :: "'s store \<Rightarrow> ctx \<Rightarrow> nat \<Rightarrow> Writer \<Rightarrow> 's \<Rightarrow> error option \<times> Writer \<times> 's" where
  "recover S c N w s =
     (let probe = (\<lambda>from w s.
            case recover_loop S c N from (OpenFrom (logRoot w)) w s of
              (Some err, w, s) \<Rightarrow> (Some err, w, s)
            | (None, w, s) \<Rightarrow> (None, sealed_last w, s));
          from = OpenFrom (logRoot w)
      in case fetchHead S c (w_path w) (w_epoch w) s of
           (Inr (h, hv), s) \<Rightarrow>
             probe (if h_Delta h \<ge> from then h_Delta h else from) (w\<lparr>headVersion := hv\<rparr>) s
         | (Inl err, s) \<Rightarrow> if \<not> errors_Is err ErrNotExist then (Some err, w, s) else probe from w s)"

definition reloadIfStale :: "'s store \<Rightarrow> ctx \<Rightarrow> nat \<Rightarrow> Writer \<Rightarrow> 's \<Rightarrow> error option \<times> Writer \<times> 's" where
  "reloadIfStale S c N w s =
     (if \<not> stale w then (None, w, s)
      else case fetchEpochLog S c (w_path w) (w_epoch w) s of
        (Inl err, s) \<Rightarrow> (Some (wrap [] err), w, s)
      | (Inr (root, version), s) \<Rightarrow>
          let w = w\<lparr>logRoot := root, logVersion := version, openGroups := [], openBytes := 0,
                    w_last := zero_GroupInfo, hasLast := False\<rparr>
          in case recover S c N w s of
               (Some err, w, s) \<Rightarrow> (Some (wrap [] err), w, s)
             | (None, w, s) \<Rightarrow> (None, w\<lparr>stale := False\<rparr>, s))"

section \<open>Opening a writer\<close>

definition newWriter :: "Track \<Rightarrow> u64 \<Rightarrow> TrackSchema \<Rightarrow> Writer" where
  "newWriter t epoch sch =
     \<lparr>w_path = t_path t, w_epoch = epoch, w_schema = sch, w_sealThreshold = t_sealThreshold t,
      w_now = t_clock t, logRoot = zero_epochLogRoot, logVersion = NoVersion, headVersion = NoVersion,
      nextDelta = 0, openGroups = [], openBytes = 0, w_last = zero_GroupInfo, hasLast = False, stale = False\<rparr>"

text \<open>The end of \<open>Track.Writer\<close>, once the epoch's log root has been fetched.\<close>

definition open_writer ::
  "'s store \<Rightarrow> ctx \<Rightarrow> nat \<Rightarrow> Writer \<Rightarrow> error + epochLogRoot \<times> version \<Rightarrow> 's world \<Rightarrow> (error + Writer) \<times> 's world" where
  "open_writer S c N w r W =
     (case r of
        Inl err \<Rightarrow> (Inl err, W)
      | Inr (root, version) \<Rightarrow>
          (case recover S c N (w\<lparr>logRoot := root, logVersion := version\<rparr>) (objs W) of
             (Some err, _, s) \<Rightarrow> (Inl err, W\<lparr>objs := s\<rparr>)
           | (None, w, s) \<Rightarrow> (Inr w, W\<lparr>objs := s\<rparr>)))"

definition Writer_Track ::
  "'s store \<Rightarrow> ctx \<Rightarrow> nat \<Rightarrow> Track \<Rightarrow> 's world \<Rightarrow> (error + Writer) \<times> Track \<times> 's world" where
  "Writer_Track S c N t W =
     (let latest = LatestEpoch (t_root t)
      in if latest = 0 then (Inl [ErrEpochNotFound], t, W)
         else
           let w = newWriter t latest (schema (t_root t))
           in case on_store (fetchEpochLog S c (t_path t) latest) W of
                (r, W) \<Rightarrow>
                  if (case r of Inl err \<Rightarrow> errors_Is err ErrEpochNotFound | Inr _ \<Rightarrow> False) then
                    (case createEpochLog S c latest t W of
                       (Some err, t, W) \<Rightarrow> (Inl err, t, W)
                     | (None, t, W) \<Rightarrow>
                         (case on_store (fetchEpochLog S c (t_path t) latest) W of
                            (r, W) \<Rightarrow> (case open_writer S c N w r W of (x, W) \<Rightarrow> (x, t, W))))
                  else (case open_writer S c N w r W of (x, W) \<Rightarrow> (x, t, W)))"

definition Track_Writer :: "Writer \<Rightarrow> TrackPath" where
  "Track_Writer w = w_path w"

definition Epoch_Writer :: "Writer \<Rightarrow> u64" where
  "Epoch_Writer w = w_epoch w"

definition Root_Writer :: "Writer \<Rightarrow> TrackInfo" where
  "Root_Writer w = \<lparr>ti_TrackSchema = w_schema w, ti_Track = w_path w, ti_LatestEpoch = w_epoch w\<rparr>"

section \<open>The head pointer\<close>

definition publishHead ::
  "'s store \<Rightarrow> ctx \<Rightarrow> GroupID \<Rightarrow> Writer \<Rightarrow> 's world \<Rightarrow> error option \<times> Writer \<times> 's world" where
  "publishHead S c latest w W =
     (let (at, W) = now (w_now w) W;
          h = \<lparr>h_Version = manifestVersion, h_Delta = nextDelta w - 1, h_Latest = latest, UpdatedAt = at\<rparr>;
          key = headKey (w_path w) (w_epoch w);
          d = encode_head h;
          (r, W) = on_store (Swap S c key d (headVersion w)) W;
          (r, W) = (case r of
             Inr _ \<Rightarrow> (r, W)
           | Inl err \<Rightarrow>
               if errors_Is err ErrVersionMismatch \<or> errors_Is err ErrNotExist then
                 (case on_store (fetchHead S c (w_path w) (w_epoch w)) W of
                    (Inr (_, current), W) \<Rightarrow> on_store (Swap S c key d current) W
                  | (Inl getErr, W) \<Rightarrow>
                      if errors_Is getErr ErrNotExist then on_store (Swap S c key d NoVersion) W else (r, W))
               else (r, W))
      in case r of
           Inl err \<Rightarrow> (Some (wrap [] err), w, W)
         | Inr version \<Rightarrow> (None, w\<lparr>headVersion := version\<rparr>, W))"

section \<open>Sealing\<close>

definition updateLogRoot ::
  "'s store \<Rightarrow> ctx \<Rightarrow> (epochLogRoot \<Rightarrow> epochLogRoot) \<Rightarrow> Writer \<Rightarrow> 's world \<Rightarrow> error option \<times> Writer \<times> 's world" where
  "updateLogRoot S c mutate w W =
     (let root = mutate (logRoot w)
      in case on_store (Swap S c (epochLogKey (w_path w) (w_epoch w)) (encode_logRoot root) (logVersion w)) W of
           (Inl err, W) \<Rightarrow> (Some (wrap [] err), w, W)
         | (Inr version, W) \<Rightarrow> (None, w\<lparr>logRoot := root, logVersion := version\<rparr>, W))"

text \<open>
  The loop that deletes the deltas of a sealed run; a failed delete is only logged. The loop of the
  code would not end for a last delta of \<open>2 ^ 64 - 1\<close>, where its counter wraps around.
\<close>

function reclaim :: "'s store \<Rightarrow> ctx \<Rightarrow> TrackPath \<Rightarrow> u64 \<Rightarrow> u64 \<Rightarrow> u64 \<Rightarrow> 's \<Rightarrow> 's" where
  "reclaim S c path epoch n lastDelta s =
     (if n \<le> lastDelta then
        (case Delete S c (deltaKey path epoch n) s of
           (_, s) \<Rightarrow> if n = lastDelta then s else reclaim S c path epoch (n + 1) lastDelta s)
      else s)"
  by pat_completeness auto
termination
proof (relation "measure (\<lambda>(S, c, p, e, n, l, s). unat l - unat n)")
  fix n l :: u64
  assume "n \<le> l" "n \<noteq> l"
  then have "n < l" by simp
  then have "unat (n + 1) = Suc (unat n)" "unat n < unat l"
    by (simp_all add: word_Suc_unat word_less_nat_alt)
  then show "((S, c, p, e, n + 1, l, s'), (S, c, p, e, n, l, s)) \<in> measure (\<lambda>(S, c, p, e, n, l, s). unat l - unat n)"
    for S c p e s s' by simp
qed simp

declare reclaim.simps [simp del]

definition seal :: "'s store \<Rightarrow> ctx \<Rightarrow> Writer \<Rightarrow> 's world \<Rightarrow> error option \<times> Writer \<times> 's world" where
  "seal S c w W =
     (if openGroups w = [] then (None, w, W)
      else
        let firstDelta = OpenFrom (logRoot w); lastDelta = nextDelta w - 1;
            seq = of_nat (length (Sealed (logRoot w))) + 1;
            key = sealedKey (w_path w) (w_epoch w) firstDelta lastDelta;
            (at, W) = now (w_now w) W;
            sealed = \<lparr>sm_Version = manifestVersion, sm_Track = w_path w, sm_Epoch = w_epoch w, sm_Seq = seq,
              sm_FirstDelta = firstDelta, sm_LastDelta = lastDelta, sm_Groups = openGroups w, SealedAt = at\<rparr>
        in case on_store (Create S c key (encode_sealed sealed)) W of
             (r, W) \<Rightarrow>
               if (case r of Inl err \<Rightarrow> \<not> errors_Is err ErrExist | Inr _ \<Rightarrow> False) then (Some (wrap [] (projl r)), w, W)
               else
                 (case updateLogRoot S c
                    (\<lambda>root. root\<lparr>Sealed := Sealed root @ [summarize sealed key], OpenFrom := lastDelta + 1\<rparr>) w W of
                    (Some err, w, W) \<Rightarrow> (Some (wrap [] err), w, W)
                  | (None, w, W) \<Rightarrow>
                      (None, w\<lparr>openGroups := [], openBytes := 0\<rparr>,
                       W\<lparr>objs := reclaim S c (w_path w) (w_epoch w) firstDelta lastDelta (objs W)\<rparr>)))"

definition Seal :: "'s store \<Rightarrow> ctx \<Rightarrow> Writer \<Rightarrow> 's world \<Rightarrow> error option \<times> Writer \<times> 's world" where
  "Seal S c w W = seal S c w W"

section \<open>Appending\<close>

definition checkOrder :: "Writer \<Rightarrow> GroupInfo \<Rightarrow> error option" where
  "checkOrder w meta =
     (if \<not> hasLast w then None
      else if MediaTime meta < mediaEnd (w_last w) then Some [ErrGroupOutOfOrder] else None)"

definition holds :: "'s store \<Rightarrow> ctx \<Rightarrow> string \<Rightarrow> bytes \<Rightarrow> 's \<Rightarrow> bool \<times> 's" where
  "holds S c key d s =
     (case Get S c key s of (Inl _, s) \<Rightarrow> (False, s) | (Inr (got, _), s) \<Rightarrow> (got = d, s))"

text \<open>After the commit point: the writer's books, the head, and the rotation at the threshold.\<close>

definition after_commit ::
  "'s store \<Rightarrow> ctx \<Rightarrow> GroupInfo \<Rightarrow> bytes \<Rightarrow> Writer \<Rightarrow> 's world \<Rightarrow> (GroupInfo \<times> error option) \<times> Writer \<times> 's world" where
  "after_commit S c meta d w W =
     (let w = w\<lparr>nextDelta := nextDelta w + 1, openGroups := openGroups w @ [meta],
                openBytes := i64 (openBytes w + int (length d)), w_last := meta, hasLast := True\<rparr>
      in case publishHead S c (ID meta) w W of
           (_, w, W) \<Rightarrow>
             if openBytes w \<ge> w_sealThreshold w then
               (case seal S c w W of
                  (Some err, w, W) \<Rightarrow> ((meta, Some (wrap [] err)), w\<lparr>stale := True\<rparr>, W)
                | (None, w, W) \<Rightarrow> ((meta, None), w, W))
             else ((meta, None), w, W))"

text \<open>The commit point: creating the delta, or finding that it was created all the same.\<close>

definition commit_delta ::
  "'s store \<Rightarrow> ctx \<Rightarrow> GroupInfo \<Rightarrow> Writer \<Rightarrow> 's world \<Rightarrow> (GroupInfo \<times> error option) \<times> Writer \<times> 's world" where
  "commit_delta S c meta w W =
     (let (at, W) = now (w_now w) W;
          delta = \<lparr>dm_Version = manifestVersion, dm_Seq = nextDelta w, dm_Groups = [meta], CommittedAt = at\<rparr>;
          d = encode_delta delta;
          key = deltaKey (w_path w) (w_epoch w) (nextDelta w)
      in case on_store (Create S c key d) W of
           (Inr _, W) \<Rightarrow> after_commit S c meta d w W
         | (Inl err, W) \<Rightarrow>
             (case on_store (holds S c key d) W of
                (True, W) \<Rightarrow> after_commit S c meta d w W
              | (False, W) \<Rightarrow> ((zero_GroupInfo, Some (wrap [] err)), w\<lparr>stale := True\<rparr>, W)))"

definition AppendGroup ::
  "'s store \<Rightarrow> ctx \<Rightarrow> nat \<Rightarrow> GroupInfo \<Rightarrow> bytes \<Rightarrow> Writer \<Rightarrow> 's world \<Rightarrow>
     (GroupInfo \<times> error option) \<times> Writer \<times> 's world" where
  "AppendGroup S c N meta payload w W =
     (let meta = meta\<lparr>ID := NewGroupID (w_epoch w) (Sequence (ID meta))\<rparr>
      in case validate_GroupInfo meta of
        Some err \<Rightarrow> ((zero_GroupInfo, Some err), w, W)
      | None \<Rightarrow>
      (case reloadIfStale S c N w (objs W) of
        (Some err, w, s) \<Rightarrow> ((zero_GroupInfo, Some err), w, W\<lparr>objs := s\<rparr>)
      | (None, w, s) \<Rightarrow>
      let W = W\<lparr>objs := s\<rparr>;
          (meta, W) = (if Wallclock meta = 0 \<and> TimeSource (w_schema w) = TimeSourceIngest
             then (case now (w_now w) W of (at, W) \<Rightarrow> (meta\<lparr>Wallclock := at\<rparr>, W)) else (meta, W))
      in if hasLast w \<and> ID meta = ID (w_last w) then ((zero_GroupInfo, Some [ErrGroupExists]), w, W)
         else case checkOrder w meta of
           Some err \<Rightarrow> ((zero_GroupInfo, Some err), w, W)
         | None \<Rightarrow>
             let meta = meta\<lparr>ObjectKey := groupKey (w_path w) (ID meta), Size := int (length payload)\<rparr>
             in case on_store (Create S c (ObjectKey meta) payload) W of
                  (Inl err, W) \<Rightarrow>
                    if errors_Is err ErrExist
                    then ((zero_GroupInfo, Some (wrap [ErrGroupExists] err)), w\<lparr>stale := True\<rparr>, W)
                    else ((zero_GroupInfo, Some (wrap [] err)), w, W)
                | (Inr _, W) \<Rightarrow> commit_delta S c meta w W))"

definition maxSkippedSequences :: nat where
  "maxSkippedSequences = 16"

definition isGroupObjectCollision :: "error option \<Rightarrow> bool" where
  "isGroupObjectCollision err =
     (case err of None \<Rightarrow> False | Some e \<Rightarrow> errors_Is e ErrGroupExists \<and> errors_Is e ErrExist)"

text \<open>The retry loop of \<open>Append\<close>; \<open>left\<close> counts down the attempts it may still skip.\<close>

fun append_loop ::
  "'s store \<Rightarrow> ctx \<Rightarrow> nat \<Rightarrow> int \<Rightarrow> bytes \<Rightarrow> int \<Rightarrow> nat \<Rightarrow> u64 \<Rightarrow> Writer \<Rightarrow> 's world \<Rightarrow>
     (GroupInfo \<times> error option) \<times> Writer \<times> 's world" where
  "append_loop S c N duration payload wallclock left floor w W =
     (case reloadIfStale S c N w (objs W) of
        (Some err, w, s) \<Rightarrow> ((zero_GroupInfo, Some err), w, W\<lparr>objs := s\<rparr>)
      | (None, w, s) \<Rightarrow>
          let W = W\<lparr>objs := s\<rparr>;
              seq = (if hasLast w then Sequence (ID (w_last w)) + 1 else 0);
              mediaStart = (if hasLast w then mediaEnd (w_last w) else 0);
              seq = max seq floor
          in case AppendGroup S c N (zero_GroupInfo\<lparr>ID := NewGroupID 0 seq, MediaTime := mediaStart,
                    Duration := duration, Wallclock := wallclock\<rparr>) payload w W of
               ((g, err), w, W) \<Rightarrow>
                 (case left of
                    0 \<Rightarrow> ((g, err), w, W)
                  | Suc left' \<Rightarrow>
                      if \<not> isGroupObjectCollision err then ((g, err), w, W)
                      else append_loop S c N duration payload wallclock left' (seq + 1) w W))"

declare append_loop.simps [simp del]

definition Append ::
  "'s store \<Rightarrow> ctx \<Rightarrow> nat \<Rightarrow> int \<Rightarrow> bytes \<Rightarrow> Writer \<Rightarrow> 's world \<Rightarrow>
     (GroupInfo \<times> error option) \<times> Writer \<times> 's world" where
  "Append S c N duration payload w W =
     (case now (w_now w) W of
        (wallclock, W) \<Rightarrow> append_loop S c N duration payload wallclock maxSkippedSequences 0 w W)"

section \<open>A new epoch\<close>

definition NewEpoch ::
  "'s store \<Rightarrow> ctx \<Rightarrow> Track \<Rightarrow> Writer \<Rightarrow> 's world \<Rightarrow> error option \<times> Track \<times> Writer \<times> 's world" where
  "NewEpoch S c t w W =
     (let e = w_epoch w + 1
      in if e > maxGroupEpoch then (Some [], t, w, W)
         else case createEpochLog S c e t W of
           (Some err, t, W) \<Rightarrow> (Some (wrap [] err), t, w, W)
         | (None, t, W) \<Rightarrow>
             (case on_store (fetchEpochLog S c (w_path w) e) W of
                (Inl err, W) \<Rightarrow> (Some err, t, w, W)
              | (Inr (root, version), W) \<Rightarrow>
                  (None, t, w\<lparr>w_epoch := e, logRoot := root, logVersion := version, headVersion := NoVersion,
                     nextDelta := 0, openGroups := [], openBytes := 0, w_last := zero_GroupInfo, hasLast := False\<rparr>, W)))"

end
