(* ===== verification/Ingest.thy ===== *)
theory Ingest
  imports Limit Reader Writer Bucket_Store
begin

text \<open>
  The ingest server (\<open>ingest/handler.go\<close>): an HTTP handler that creates tracks, appends records to them,
  reads pages of their history and redacts records.

  A request is handled whole, one after the other, which is what the locks of a track give for its records;
  two requests that open the same track at once are not modelled. The handler's state is the map of open
  tracks, each with its writer, remembered replies and token buckets, and the log of the calls it made of
  the hooks \<open>OnOpen\<close> and \<open>OnRecord\<close>. What the mux makes of a URL is left out: a request comes with its method
  and the value of the path's wildcard. Go's JSON codec for records is an argument, and so are the
  application's \<open>Authorize\<close> hook and the clock. The argument \<open>N\<close> is the fuel of the ledger's loops.
\<close>

section \<open>Tracks and records\<close>

record ingest_Track =
  BroadcastPath :: string
  TrackName :: string

definition Path_ingest :: "ingest_Track \<Rightarrow> TrackPath" where
  "Path_ingest t = trim_slashes (BroadcastPath t) @ ''/'' @ TrackName t"

definition trackFromPath :: "string \<Rightarrow> error + ingest_Track" where
  "trackFromPath p =
     (if p = '''' \<or> path_Clean (''/'' @ p) \<noteq> ''/'' @ p then Inl []
      else case cut_last_slash p of
        None \<Rightarrow> Inl []
      | Some (before, after) \<Rightarrow> Inr \<lparr>BroadcastPath = ''/'' @ before, TrackName = after\<rparr>)"

record Record =
  Sender :: string
  Payload :: bytes
  Redacts :: string

datatype Access = WriteAccess | ReadAccess | RedactAccess | CreateAccess

section \<open>Requests and replies\<close>

text \<open>A body is what its reader yields before the end or an error.\<close>

record ingest_request =
  rq_track :: string
  rq_query :: url_Values
  rq_key :: string
  rq_body :: "bytes \<times> error option"
  rq_ctx :: ctx

record recordResponse =
  rr_Group :: string
  rr_Wallclock :: int

record historyEntry =
  he_Group :: string
  he_Wallclock :: int
  he_Redacted :: bool
  he_Record :: Record

record historyResponse =
  Records :: "historyEntry list"
  hr_Before :: string

datatype reply_body = NoBody | ErrorBody | RecordBody recordResponse | HistoryBody historyResponse

record http_reply =
  Status :: nat
  Reply :: reply_body
  Retry_After :: "int option"
  WWW_Authenticate :: string

definition answer :: "nat \<Rightarrow> reply_body \<Rightarrow> http_reply" where
  "answer status b = \<lparr>Status = status, Reply = b, Retry_After = None, WWW_Authenticate = ''''\<rparr>"

definition internalError :: http_reply where
  "internalError = answer 500 ErrorBody"

section \<open>Configuration and state\<close>

type_synonym authorize = "ingest_request \<Rightarrow> ingest_Track \<Rightarrow> Access \<Rightarrow> error + string"

record Options =
  Authorize :: "authorize option"
  Challenge :: string
  SenderLimit :: Limit
  TrackLimit :: Limit
  OnOpen :: bool
  TrackIdleTimeout :: int
  OnRecord :: bool
  MaxBodyBytes :: int
  op_Config :: Config

text \<open>Go's JSON for a record: validity of a text, encoding and decoding.\<close>

record codec =
  json_Valid :: "bytes \<Rightarrow> bool"
  Marshal :: "Record \<Rightarrow> error + bytes"
  Unmarshal :: "bytes \<Rightarrow> error + Record"

record itrack =
  it_Track :: ingest_Track
  users :: int
  lastUsed :: int
  it_writer :: Writer
  replies :: "(string \<times> recordResponse) list"
  it_keys :: "string list"
  it_limit :: bucket
  senders :: buckets

datatype hook = Opened ingest_Track | Recorded ingest_Track GroupInfo bytes

record Handler =
  opts :: Options
  maxBody :: int
  idle :: int
  tracks :: "(TrackPath \<times> itrack) list"
  nextSweep :: int
  hooks :: "hook list"

definition DefaultMaxBodyBytes :: int where
  "DefaultMaxBodyBytes = 64 * 1024"

definition DefaultTrackIdleTimeout :: int where
  "DefaultTrackIdleTimeout = 10 * 60 * 10 ^ 9"

text \<open>The zero \<open>time.Time\<close>, the first of January of the year 1, in nanoseconds since 1970.\<close>

definition zero_Time :: int where
  "zero_Time = - 62135596800 * 10 ^ 9"

definition NewHandler :: "Options \<Rightarrow> error + Handler" where
  "NewHandler op =
     (if TrackIdleTimeout op < 0 then Inl []
      else Inr \<lparr>opts = op,
        maxBody = (if MaxBodyBytes op = 0 then DefaultMaxBodyBytes else MaxBodyBytes op),
        idle = (if TrackIdleTimeout op = 0 then DefaultTrackIdleTimeout else TrackIdleTimeout op),
        tracks = [], nextSweep = zero_Time, hooks = []\<rparr>)"

section \<open>Open tracks\<close>

definition closeIdle :: "int \<Rightarrow> Handler \<Rightarrow> Handler" where
  "closeIdle tm h =
     (if tm < nextSweep h then h
      else h\<lparr>nextSweep := tm + idle h div 2,
             tracks := filter (\<lambda>(key, tr). \<not> (users tr = 0 \<and> tm - lastUsed tr \<ge> idle h)) (tracks h)\<rparr>)"

definition update_track :: "TrackPath \<Rightarrow> (itrack \<Rightarrow> itrack) \<Rightarrow> Handler \<Rightarrow> Handler" where
  "update_track key f h =
     (case map_of (tracks h) key of None \<Rightarrow> h | Some tr \<Rightarrow> h\<lparr>tracks := AList.update key (f tr) (tracks h)\<rparr>)"

definition new_track :: "ingest_Track \<Rightarrow> Writer \<Rightarrow> itrack" where
  "new_track t w = \<lparr>it_Track = t, users = 1, lastUsed = zero_Time, it_writer = w, replies = [], it_keys = [],
     it_limit = zero_bucket, senders = []\<rparr>"

text \<open>\<open>Handler.open\<close>: the track is held, under its path, in the map of open tracks.\<close>

definition open_track ::
  "'s store \<Rightarrow> clock \<Rightarrow> nat \<Rightarrow> ctx \<Rightarrow> ingest_Track \<Rightarrow> Handler \<Rightarrow> 's world \<Rightarrow> (error + TrackPath) \<times> Handler \<times> 's world" where
  "open_track S clk N c t h W =
     (let key = Path_ingest t;
          (tm, W) = now clk W;
          h = closeIdle tm h
      in case map_of (tracks h) key of
           Some tr \<Rightarrow> (Inr key, update_track key (\<lambda>tr. tr\<lparr>users := users tr + 1\<rparr>) h, W)
         | None \<Rightarrow>
             (case on_store (Open_Track S clk c key (op_Config (opts h))) W of
                (Inl e, W) \<Rightarrow> (Inl e, h, W)
              | (Inr lt, W) \<Rightarrow>
                  (case Writer_Track S c N lt W of
                     (Inl e, _, W) \<Rightarrow> (Inl (wrap [] e), h, W)
                   | (Inr w, _, W) \<Rightarrow>
                       (Inr key, h\<lparr>tracks := AList.update key (new_track t w) (tracks h),
                          hooks := hooks h @ (if OnOpen (opts h) then [Opened t] else [])\<rparr>, W))))"

definition release :: "clock \<Rightarrow> TrackPath \<Rightarrow> Handler \<Rightarrow> 's world \<Rightarrow> Handler \<times> 's world" where
  "release clk key h W =
     (case now clk W of (tm, W) \<Rightarrow> (update_track key (\<lambda>tr. tr\<lparr>users := users tr - 1, lastUsed := tm\<rparr>) h, W))"

definition resolve_request :: "Handler \<Rightarrow> ingest_request \<Rightarrow> Access \<Rightarrow> http_reply + ingest_Track \<times> string" where
  "resolve_request h rq access =
     (case trackFromPath (rq_track rq) of
        Inl e \<Rightarrow> Inl (answer 400 ErrorBody)
      | Inr t \<Rightarrow>
          (case Authorize (opts h) of
             None \<Rightarrow> Inr (t, '''')
           | Some auth \<Rightarrow>
               (case auth rq t access of
                  Inr sender \<Rightarrow> Inr (t, sender)
                | Inl e \<Rightarrow>
                    if errors_Is e ErrUnauthenticated
                    then Inl ((answer 401 ErrorBody)\<lparr>WWW_Authenticate := Challenge (opts h)\<rparr>)
                    else Inl (answer 403 ErrorBody))))"

section \<open>Creating a track\<close>

definition ingest_schema :: TrackSchema where
  "ingest_schema = \<lparr>Timescale = 1000, TimeSource = TimeSourceIngest, ts_MIME = ''application/json'', ts_Encoding = ''json''\<rparr>"

definition serveCreate ::
  "'s store \<Rightarrow> clock \<Rightarrow> nat \<Rightarrow> ingest_request \<Rightarrow> Handler \<Rightarrow> 's world \<Rightarrow> http_reply \<times> Handler \<times> 's world" where
  "serveCreate S clk N rq h W =
     (case resolve_request h rq CreateAccess of
        Inl r \<Rightarrow> (r, h, W)
      | Inr (t, _) \<Rightarrow>
          (case Create_Track S clk (rq_ctx rq) (Path_ingest t) ingest_schema (op_Config (opts h)) W of
             (x, W) \<Rightarrow>
               if (case x of Inl e \<Rightarrow> \<not> errors_Is e ErrTrackExists | Inr _ \<Rightarrow> False) then (internalError, h, W)
               else
                 (case open_track S clk N (rq_ctx rq) t h W of
                    (Inl e, h, W) \<Rightarrow> (internalError, h, W)
                  | (Inr key, h, W) \<Rightarrow>
                      (case release clk key h W of
                         (h, W) \<Rightarrow> (answer (case x of Inr _ \<Rightarrow> 201 | Inl _ \<Rightarrow> 204) NoBody, h, W)))))"

section \<open>Recording\<close>

definition idempotencyKeys :: nat where
  "idempotencyKeys = 1024"

definition maxIdempotencyKeyLen :: nat where
  "maxIdempotencyKeyLen = 255"

definition remember :: "string \<Rightarrow> recordResponse \<Rightarrow> itrack \<Rightarrow> itrack" where
  "remember key rep tr =
     (let tr = (if length (it_keys tr) = idempotencyKeys
                then tr\<lparr>replies := AList.delete (hd (it_keys tr)) (replies tr), it_keys := tl (it_keys tr)\<rparr> else tr)
      in tr\<lparr>replies := AList.update key rep (replies tr), it_keys := it_keys tr @ [key]\<rparr>)"

text \<open>\<open>commit\<close> appends with a context that is never canceled; the writer stands for the held track's.\<close>

definition commit ::
  "'s store \<Rightarrow> nat \<Rightarrow> itrack \<Rightarrow> bytes \<Rightarrow> Handler \<Rightarrow> 's world \<Rightarrow> (GroupInfo \<times> error option) \<times> itrack \<times> Handler \<times> 's world" where
  "commit S N tr d h W =
     (case Append S Live N 0 d (it_writer tr) W of
        ((g, err), w, W) \<Rightarrow>
          ((g, err), tr\<lparr>it_writer := w\<rparr>,
           h\<lparr>hooks := hooks h @ (if ObjectKey g \<noteq> '''' \<and> OnRecord (opts h) then [Recorded (it_Track tr) g d] else [])\<rparr>, W))"

definition record_response :: "GroupInfo \<Rightarrow> recordResponse" where
  "record_response g = \<lparr>rr_Group = String_GroupID (ID g), rr_Wallclock = Wallclock g\<rparr>"

text \<open>
  Reading at most \<open>maxBody\<close> bytes: a longer body is too large, a read that fails is a bad request. A negative
  limit is zero to \<open>http.MaxBytesReader\<close>.
\<close>

definition read_body :: "int \<Rightarrow> bytes \<times> error option \<Rightarrow> http_reply + bytes" where
  "read_body maxBytes body =
     (case body of (d, err) \<Rightarrow>
        if int (length d) > max 0 maxBytes then Inl (answer 413 ErrorBody)
        else case err of Some e \<Rightarrow> Inl (answer 400 ErrorBody) | None \<Rightarrow> Inr d)"

text \<open>The part of \<open>serveRecord\<close> under the track's lock.\<close>

definition record_locked ::
  "'s store \<Rightarrow> clock \<Rightarrow> nat \<Rightarrow> string \<Rightarrow> string \<Rightarrow> bytes \<Rightarrow> itrack \<Rightarrow> Handler \<Rightarrow> 's world \<Rightarrow>
     http_reply \<times> itrack \<times> Handler \<times> 's world" where
  "record_locked S clk N sender key d tr h W =
     (if key \<noteq> '''' \<and> map_of (replies tr) key \<noteq> None
      then (answer 201 (RecordBody (the (map_of (replies tr) key))), tr, h, W)
      else
        let (tm, W) = now clk W;
            (w, lim', senders') = admit (TrackLimit (opts h)) (SenderLimit (opts h)) tm sender (it_limit tr) (senders tr);
            tr = tr\<lparr>it_limit := lim', senders := senders'\<rparr>
        in if w > 0 then ((answer 429 ErrorBody)\<lparr>Retry_After := Some (int64_of_float (Seconds w) + 1)\<rparr>, tr, h, W)
           else case commit S N tr d h W of
             ((g, err), tr, h, W) \<Rightarrow>
               if ObjectKey g = '''' then (internalError, tr, h, W)
               else (answer 201 (RecordBody (record_response g)), if key \<noteq> '''' then remember key (record_response g) tr else tr, h, W))"

definition serveRecord ::
  "codec \<Rightarrow> 's store \<Rightarrow> clock \<Rightarrow> nat \<Rightarrow> ingest_request \<Rightarrow> Handler \<Rightarrow> 's world \<Rightarrow> http_reply \<times> Handler \<times> 's world" where
  "serveRecord J S clk N rq h W =
     (case resolve_request h rq WriteAccess of
        Inl r \<Rightarrow> (r, h, W)
      | Inr (t, sender) \<Rightarrow>
          if length (rq_key rq) > maxIdempotencyKeyLen then (answer 400 ErrorBody, h, W)
          else case open_track S clk N (rq_ctx rq) t h W of
            (Inl e, h, W) \<Rightarrow> (if errors_Is e ErrTrackNotFound then answer 404 ErrorBody else internalError, h, W)
          | (Inr path, h, W) \<Rightarrow>
              let (rep, h, W) =
                (case read_body (maxBody h) (rq_body rq) of
                   Inl r \<Rightarrow> (r, h, W)
                 | Inr payload \<Rightarrow>
                     if \<not> json_Valid J payload \<or> \<not> valid_utf8 payload then (answer 400 ErrorBody, h, W)
                     else case Marshal J \<lparr>Sender = sender, Payload = payload, Redacts = ''''\<rparr> of
                       Inl e \<Rightarrow> (internalError, h, W)
                     | Inr d \<Rightarrow>
                         let key = (if rq_key rq \<noteq> '''' then sender @ [CHR 0x00] @ rq_key rq else '''')
                         in case map_of (tracks h) path of
                              None \<Rightarrow> (internalError, h, W)
                            | Some tr \<Rightarrow>
                                (case record_locked S clk N sender key d tr h W of
                                   (r, tr, h, W) \<Rightarrow> (r, update_track path (\<lambda>_. tr) h, W)));
                  (h, W) = release clk path h W
              in (rep, h, W))"

section \<open>Reading history\<close>

definition DefaultPageSize :: int where
  "DefaultPageSize = 50"

definition MaxPageSize :: int where
  "MaxPageSize = 200"

definition openReader ::
  "'s store \<Rightarrow> clock \<Rightarrow> ingest_request \<Rightarrow> ingest_Track \<Rightarrow> Handler \<Rightarrow> 's \<Rightarrow> (http_reply + Track \<times> Reader) \<times> 's" where
  "openReader S clk rq t h s =
     (case Open_Track S clk (rq_ctx rq) (Path_ingest t) (op_Config (opts h)) s of
        (Inl e, s) \<Rightarrow> (Inl (if errors_Is e ErrTrackNotFound then answer 404 ErrorBody else internalError), s)
      | (Inr lt, s) \<Rightarrow>
          (case Reader_Track S (rq_ctx rq) lt s of
             (Inl e, s) \<Rightarrow> (Inl internalError, s)
           | (Inr r, s) \<Rightarrow> (Inr (lt, r), s)))"

definition zero_Record :: Record where
  "zero_Record = \<lparr>Sender = '''', Payload = [], Redacts = ''''\<rparr>"

fun history_entries ::
  "codec \<Rightarrow> 's store \<Rightarrow> ctx \<Rightarrow> GroupInfo list \<Rightarrow> 's \<Rightarrow> (error + historyEntry list) \<times> 's" where
  "history_entries J S c [] s = (Inr [], s)"
| "history_entries J S c (g # gs) s =
     (let entry = \<lparr>he_Group = String_GroupID (ID g), he_Wallclock = Wallclock g, he_Redacted = False, he_Record = zero_Record\<rparr>;
          rest = (\<lambda>e s. case history_entries J S c gs s of (Inl err, s) \<Rightarrow> (Inl err, s) | (Inr es, s) \<Rightarrow> (Inr (e # es), s))
      in case ReadGroup S c (ObjectKey g) s of
           (Inl err, s) \<Rightarrow> if errors_Is err ErrGroupRedacted then rest (entry\<lparr>he_Redacted := True\<rparr>) s else (Inl err, s)
         | (Inr d, s) \<Rightarrow>
             (case Unmarshal J d of Inl err \<Rightarrow> (Inl err, s) | Inr rec \<Rightarrow> rest (entry\<lparr>he_Record := rec\<rparr>) s))"

definition page_limit :: "url_Values \<Rightarrow> int option" where
  "page_limit q =
     (if values_Get q ''limit'' = '''' then Some DefaultPageSize
      else case ParseInt (values_Get q ''limit'') of
        Inl _ \<Rightarrow> None
      | Inr n \<Rightarrow> if n < 1 \<or> n > MaxPageSize then None else Some n)"

definition serveHistory ::
  "codec \<Rightarrow> 's store \<Rightarrow> clock \<Rightarrow> nat \<Rightarrow> ingest_request \<Rightarrow> Handler \<Rightarrow> 's world \<Rightarrow> http_reply \<times> Handler \<times> 's world" where
  "serveHistory J S clk N rq h W =
     (case resolve_request h rq ReadAccess of
        Inl r \<Rightarrow> (r, h, W)
      | Inr (t, _) \<Rightarrow>
          (case page_limit (rq_query rq) of
             None \<Rightarrow> (answer 400 ErrorBody, h, W)
           | Some limit \<Rightarrow>
               (case ParseGroupID (values_Get (rq_query rq) ''before'') of
                  Inl _ \<Rightarrow> (answer 400 ErrorBody, h, W)
                | Inr before \<Rightarrow>
                    (case on_store (openReader S clk rq t h) W of
                       (Inl r, W) \<Rightarrow> (r, h, W)
                     | (Inr (_, reader), W) \<Rightarrow>
                         (case on_store (Before S (rq_ctx rq) N reader before limit) W of
                            (Inl e, W) \<Rightarrow> (internalError, h, W)
                          | (Inr groups, W) \<Rightarrow>
                              (case on_store (history_entries J S (rq_ctx rq) groups) W of
                                 (Inl e, W) \<Rightarrow> (internalError, h, W)
                               | (Inr entries, W) \<Rightarrow>
                                   let page = \<lparr>Records = entries,
                                         hr_Before = (if int (length groups) = limit then String_GroupID (ID (hd groups)) else '''')\<rparr>;
                                       (tm, W) = now clk W
                                   in (answer 200 (HistoryBody page), closeIdle tm h, W)))))))"

section \<open>Redacting\<close>

definition redact_locked ::
  "codec \<Rightarrow> 's store \<Rightarrow> nat \<Rightarrow> itrack \<Rightarrow> Track \<Rightarrow> GroupInfo \<Rightarrow> string \<Rightarrow> Handler \<Rightarrow> 's world \<Rightarrow>
     (nat \<times> recordResponse option) \<times> itrack \<times> Handler \<times> 's world" where
  "redact_locked J S N tr lt info sender h W =
     (case on_store (Redacted S Live lt info) W of
        (Inl e, W) \<Rightarrow> ((500, None), tr, h, W)
      | (Inr True, W) \<Rightarrow>
          (case on_store (Redact S Live lt info) W of
             (Some e, W) \<Rightarrow> ((500, None), tr, h, W)
           | (None, W) \<Rightarrow> ((204, None), tr, h, W))
      | (Inr False, W) \<Rightarrow>
          (case on_store (ReadGroup S Live (ObjectKey info)) W of
             (Inl e, W) \<Rightarrow> ((500, None), tr, h, W)
           | (Inr d, W) \<Rightarrow>
               (case Unmarshal J d of
                  Inl e \<Rightarrow> ((500, None), tr, h, W)
                | Inr rec \<Rightarrow>
                    if Redacts rec \<noteq> '''' then ((400, None), tr, h, W)
                    else case Marshal J \<lparr>Sender = sender, Payload = [], Redacts = String_GroupID (ID info)\<rparr> of
                      Inl e \<Rightarrow> ((500, None), tr, h, W)
                    | Inr redaction \<Rightarrow>
                        (case commit S N tr redaction h W of
                           ((g, err), tr, h, W) \<Rightarrow>
                             if ObjectKey g = '''' then ((500, None), tr, h, W)
                             else (case on_store (Redact S Live lt info) W of
                                     (Some e, W) \<Rightarrow> ((500, None), tr, h, W)
                                   | (None, W) \<Rightarrow> ((201, Some (record_response g)), tr, h, W))))))"

definition serveRedact ::
  "codec \<Rightarrow> 's store \<Rightarrow> clock \<Rightarrow> nat \<Rightarrow> ingest_request \<Rightarrow> Handler \<Rightarrow> 's world \<Rightarrow> http_reply \<times> Handler \<times> 's world" where
  "serveRedact J S clk N rq h W =
     (case resolve_request h rq RedactAccess of
        Inl r \<Rightarrow> (r, h, W)
      | Inr (t, sender) \<Rightarrow>
          let raw = values_Get (rq_query rq) ''group''
          in case ParseGroupID raw of
               Inl _ \<Rightarrow> (answer 400 ErrorBody, h, W)
             | Inr target \<Rightarrow>
                 if raw = '''' then (answer 400 ErrorBody, h, W)
                 else
                   (case on_store (openReader S clk rq t h) W of
                      (Inl r, W) \<Rightarrow> (r, h, W)
                    | (Inr (lt, reader), W) \<Rightarrow>
                        (case on_store (Lookup S (rq_ctx rq) N reader target) W of
                           (Inl e, W) \<Rightarrow> (if errors_Is e ErrGroupNotFound then answer 404 ErrorBody else internalError, h, W)
                         | (Inr info, W) \<Rightarrow>
                             (case open_track S clk N (rq_ctx rq) t h W of
                                (Inl e, h, W) \<Rightarrow> (internalError, h, W)
                              | (Inr path, h, W) \<Rightarrow>
                                  (case map_of (tracks h) path of
                                     None \<Rightarrow> (internalError, h, W)
                                   | Some tr \<Rightarrow>
                                       (case redact_locked J S N tr lt info sender h W of
                                          ((status, rep), tr, h, W) \<Rightarrow>
                                            (case release clk path (update_track path (\<lambda>_. tr) h) W of
                                               (h, W) \<Rightarrow>
                                                 (answer status (case rep of Some r \<Rightarrow> RecordBody r
                                                    | None \<Rightarrow> if status = 204 then NoBody else ErrorBody), h, W))))))))"

text \<open>What the mux does with a request of the handler's path, by its method.\<close>

definition ServeHTTP ::
  "codec \<Rightarrow> 's store \<Rightarrow> clock \<Rightarrow> nat \<Rightarrow> string \<Rightarrow> ingest_request \<Rightarrow> Handler \<Rightarrow> 's world \<Rightarrow> http_reply \<times> Handler \<times> 's world" where
  "ServeHTTP J S clk N method rq h W =
     (if method = ''PUT'' then serveCreate S clk N rq h W
      else if method = ''POST'' then serveRecord J S clk N rq h W
      else if method \<in> {''GET'', ''HEAD''} then serveHistory J S clk N rq h W
      else if method = ''DELETE'' then serveRedact J S clk N rq h W
      else (answer 405 ErrorBody, h, W))"

end
