(* ===== verification/Epoch_Log.thy ===== *)
theory Epoch_Log
  imports Track
begin

text \<open>
  What the objects of one epoch mean. The abstract state of an epoch is the list of the deltas ever
  committed, each a list of rows; its rows in commit order are their concatenation. The invariant
  \<open>log_inv\<close> says how a store represents it: a log root whose sealed runs cover an initial part, sealed
  manifests holding exactly the rows of their delta range, the open deltas from there on, no delta
  but the epoch's own, a head that never runs ahead, and rows that are valid, serial in media time and backed by
  their payload or a redaction marker. Each way the writer changes the store is one lemma here.
\<close>

section \<open>Objects\<close>

definition delta_holds :: "view \<Rightarrow> TrackPath \<Rightarrow> u64 \<Rightarrow> u64 \<Rightarrow> GroupInfo list \<Rightarrow> bool" where
  "delta_holds v p e n gs \<longleftrightarrow>
     (\<exists>d u D. v (deltaKey p e n) = Some (d, u) \<and> decode_delta d = Inr D \<and> dm_Groups D = gs)"

definition sealed_holds :: "view \<Rightarrow> TrackPath \<Rightarrow> u64 \<Rightarrow> u64 \<Rightarrow> u64 \<Rightarrow> GroupInfo list \<Rightarrow> bool" where
  "sealed_holds v p e a b gs \<longleftrightarrow>
     (\<exists>d u M. v (sealedKey p e a b) = Some (d, u) \<and> decode_sealed d = Inr M \<and> sm_Track M = p \<and>
        sm_Epoch M = e \<and> sm_FirstDelta M = a \<and> sm_LastDelta M = b \<and> sm_Groups M = gs)"

definition head_below :: "view \<Rightarrow> TrackPath \<Rightarrow> u64 \<Rightarrow> nat \<Rightarrow> bool" where
  "head_below v p e m \<longleftrightarrow>
     (\<forall>d u. v (headKey p e) = Some (d, u) \<longrightarrow> (\<exists>h. decode_head d = Inr h \<and> unat (h_Delta h) < m))"

definition payload_held :: "view \<Rightarrow> TrackPath \<Rightarrow> GroupInfo \<Rightarrow> bool" where
  "payload_held v p g \<longleftrightarrow>
     (\<exists>d u. v (groupKey p (ID g)) = Some (d, u) \<and> int (length d) = Size g) \<or> v (markerKey p (ID g)) \<noteq> None"

text \<open>A row as the ledger commits it.\<close>

definition row_wf :: "TrackPath \<Rightarrow> u64 \<Rightarrow> GroupInfo \<Rightarrow> bool" where
  "row_wf p e g \<longleftrightarrow> row_ok g \<and> validate_GroupInfo g = None \<and> Epoch (ID g) = e \<and> ObjectKey g = groupKey p (ID g)"

text \<open>Groups are serial: each starts at or after the end of every one before it.\<close>

definition serial :: "GroupInfo list \<Rightarrow> bool" where
  "serial = sorted_wrt (\<lambda>g h. mediaEnd g \<le> MediaTime h)"

section \<open>Delta ranges and sealed runs\<close>

text \<open>The rows of the deltas \<open>a, \<dots>, b - 1\<close>.\<close>

definition rows_between :: "GroupInfo list list \<Rightarrow> nat \<Rightarrow> nat \<Rightarrow> GroupInfo list" where
  "rows_between ds a b = concat (take (b - a) (drop a ds))"

text \<open>The reference to the sealed run of a delta range with these rows.\<close>

definition run_ref :: "TrackPath \<Rightarrow> u64 \<Rightarrow> u64 \<Rightarrow> u64 \<Rightarrow> GroupInfo list \<Rightarrow> sealedRef" where
  "run_ref p e a b gs =
     summarize (zero_sealedManifest\<lparr>sm_FirstDelta := a, sm_LastDelta := b, sm_Groups := gs\<rparr>) (sealedKey p e a b)"

text \<open>The references cover the deltas from \<open>a\<close> up to \<open>b\<close> without a gap.\<close>

fun runs :: "TrackPath \<Rightarrow> u64 \<Rightarrow> GroupInfo list list \<Rightarrow> nat \<Rightarrow> sealedRef list \<Rightarrow> nat \<Rightarrow> bool" where
  "runs p e ds a [] b \<longleftrightarrow> a = b"
| "runs p e ds a (r # rs) b \<longleftrightarrow> a = unat (FirstDelta r) \<and> FirstDelta r \<le> LastDelta r \<and>
     unat (LastDelta r) < length ds \<and>
     r = run_ref p e (FirstDelta r) (LastDelta r) (rows_between ds a (Suc (unat (LastDelta r)))) \<and>
     runs p e ds (Suc (unat (LastDelta r))) rs b"

definition log_inv :: "view \<Rightarrow> TrackPath \<Rightarrow> u64 \<Rightarrow> GroupInfo list list \<Rightarrow> epochLogRoot \<Rightarrow> version \<Rightarrow> bool" where
  "log_inv v p e ds L ver \<longleftrightarrow>
     log_at v p e L ver \<and> int (length (concat ds)) \<le> MaxInt64 \<and> unat (OpenFrom L) \<le> length ds \<and>
     runs p e ds 0 (Sealed L) (unat (OpenFrom L)) \<and>
     (\<forall>r\<in>set (Sealed L). v (Key r) \<noteq> None) \<and>
     (\<forall>n. OpenFrom L \<le> n \<and> unat n < length ds \<longrightarrow> delta_holds v p e n (ds ! unat n)) \<and>
     (\<forall>n. v (deltaKey p e n) \<noteq> None \<longrightarrow> unat n < length ds \<and> delta_holds v p e n (ds ! unat n)) \<and>
     (\<forall>a b. v (sealedKey p e a b) \<noteq> None \<longrightarrow>
        a \<le> b \<and> unat b < length ds \<and> sealed_holds v p e a b (rows_between ds (unat a) (Suc (unat b)))) \<and>
     head_below v p e (length ds) \<and>
     (\<forall>gs\<in>set ds. gs \<noteq> []) \<and>
     (\<forall>g\<in>set (concat ds). row_wf p e g \<and> payload_held v p g) \<and>
     serial (concat ds)"

section \<open>Slices\<close>

lemma rows_between_empty [simp]: "rows_between ds a a = []"
  by (simp add: rows_between_def)

lemma rows_between_all: "rows_between ds 0 (length ds) = concat ds"
  by (simp add: rows_between_def)

lemma rows_between_split: "a \<le> b \<Longrightarrow> b \<le> c \<Longrightarrow> rows_between ds a b @ rows_between ds b c = rows_between ds a c"
proof -
  assume "a \<le> b" "b \<le> c"
  then have "take (c - a) (drop a ds) = take (b - a) (drop a ds) @ take (c - b) (drop b ds)"
    using take_add [of "b - a" "c - b" "drop a ds"] by simp
  then show ?thesis by (simp add: rows_between_def)
qed

lemma rows_between_Suc: "a \<le> b \<Longrightarrow> b < length ds \<Longrightarrow> rows_between ds a (Suc b) = rows_between ds a b @ ds ! b"
  using rows_between_split [of a b "Suc b" ds] by (simp add: rows_between_def take_Suc_conv_app_nth)

lemma rows_between_append: "b \<le> length ds \<Longrightarrow> rows_between (ds @ xs) a b = rows_between ds a b"
  by (cases "a \<le> b") (auto simp: rows_between_def)

lemma set_rows_between: "set (rows_between ds a b) \<subseteq> set (concat ds)"
  unfolding rows_between_def by (auto dest!: in_set_takeD in_set_dropD)

lemma length_rows_between: "length (rows_between ds a b) \<le> length (concat ds)"
proof -
  have "concat ds = concat (take a ds) @ rows_between ds a b @ concat (drop (b - a) (drop a ds))"
    unfolding rows_between_def by (metis append_take_drop_id concat_append)
  then show ?thesis by (metis le_add1 le_add2 le_trans length_append)
qed

lemma rows_between_nonempty: "a < b \<Longrightarrow> b \<le> length ds \<Longrightarrow> \<forall>gs\<in>set ds. gs \<noteq> [] \<Longrightarrow> rows_between ds a b \<noteq> []"
proof -
  assume h: "a < b" "b \<le> length ds" "\<forall>gs\<in>set ds. gs \<noteq> []"
  then have "rows_between ds a b = rows_between ds a (Suc a) @ rows_between ds (Suc a) b" using rows_between_split [of a "Suc a" b ds] by simp
  moreover have "rows_between ds a (Suc a) = ds ! a" using rows_between_Suc [of a a ds] h by simp
  ultimately show ?thesis using h by simp
qed

lemma length_le_concat: "\<forall>gs\<in>set ds. gs \<noteq> [] \<Longrightarrow> length ds \<le> length (concat ds)"
proof (induction ds)
  case (Cons g ds)
  then have "length ds \<le> length (concat ds)" and "Suc 0 \<le> length g"
    by (auto simp: Suc_le_eq)
  then show ?case by simp
qed simp

section \<open>Serial rows\<close>

lemma serial_snoc:
  assumes "serial xs" and "\<forall>g\<in>set xs. MediaTime g \<le> mediaEnd g" and "xs \<noteq> [] \<longrightarrow> mediaEnd (last xs) \<le> MediaTime h"
  shows "serial (xs @ [h])"
proof -
  have "mediaEnd g \<le> MediaTime h" if "g \<in> set xs" for g
  proof -
    from that have ne: "xs \<noteq> []" by auto
    show ?thesis
    proof (cases "g = last xs")
      case False
      with that ne have "g \<in> set (butlast xs)" by (metis append_butlast_last_id in_set_butlastD in_set_conv_decomp_last
            last_snoc rotate1.simps(2) set_ConsD set_rotate1)
      moreover have "serial (butlast xs @ [last xs])" using assms(1) ne by simp
      ultimately have "mediaEnd g \<le> MediaTime (last xs)" by (auto simp: serial_def sorted_wrt_append)
      then show ?thesis using assms ne last_in_set [OF ne] by (meson order_trans)
    qed (use assms ne in auto)
  qed
  then show ?thesis using assms(1) by (simp add: serial_def sorted_wrt_append)
qed

lemma row_wf_media: "row_wf p e g \<Longrightarrow> MediaTime g \<le> mediaEnd g"
  using mediaEnd_valid by (simp add: row_wf_def row_ok_def)

section \<open>References\<close>

lemma summarize_fields [simp]:
  "Key (summarize M k) = k" "FirstDelta (summarize M k) = sm_FirstDelta M" "LastDelta (summarize M k) = sm_LastDelta M"
  "Groups (summarize M k) = int (length (sm_Groups M))"
  by (simp_all add: summarize_def zero_sealedRef_def Let_def split: prod.splits)

lemma summarize_rows:
  assumes "sm_Groups M \<noteq> []"
  shows "First (summarize M k) = ID (hd (sm_Groups M))" "Last (summarize M k) = ID (last (sm_Groups M))"
    "MediaStart (summarize M k) = MediaTime (hd (sm_Groups M))" "MediaEnd (summarize M k) = mediaEnd (last (sm_Groups M))"
  using assms by (simp_all add: summarize_def Let_def split: prod.splits)

lemma summarize_run_ref:
  "summarize M (sealedKey p e (sm_FirstDelta M) (sm_LastDelta M)) = run_ref p e (sm_FirstDelta M) (sm_LastDelta M) (sm_Groups M)"
  by (simp add: run_ref_def summarize_def Let_def split: prod.splits)

lemma run_ref_fields [simp]:
  "Key (run_ref p e a b gs) = sealedKey p e a b" "FirstDelta (run_ref p e a b gs) = a"
  "LastDelta (run_ref p e a b gs) = b"
  by (simp_all add: run_ref_def)

lemma run_ref_rows:
  assumes "gs \<noteq> []"
  shows "First (run_ref p e a b gs) = ID (hd gs)" "Last (run_ref p e a b gs) = ID (last gs)"
    "MediaStart (run_ref p e a b gs) = MediaTime (hd gs)" "MediaEnd (run_ref p e a b gs) = mediaEnd (last gs)"
  using assms by (simp_all add: run_ref_def summarize_rows)

lemma wallclock_bounds_i64:
  "\<forall>g\<in>set gs. is_i64 (Wallclock g) \<Longrightarrow> is_i64 lo \<Longrightarrow> is_i64 hi \<Longrightarrow> wallclock_bounds gs (lo, hi) = (a, b) \<Longrightarrow>
    is_i64 a \<and> is_i64 b"
  by (induction gs arbitrary: lo hi) (auto split: if_splits simp: max_def)

lemma mediaEnd_i64 [simp]: "is_i64 (mediaEnd g)"
  by (simp add: mediaEnd_def)

lemma run_ref_ok:
  assumes "valid_utf8 p" and "\<forall>g\<in>set gs. row_ok g" and "int (length gs) \<le> MaxInt64"
  shows "sealedRef_ok (run_ref p e a b gs)"
proof -
  have z: "is_i64 0" by (simp add: i64_bounds)
  obtain lo hi where w: "wallclock_bounds gs (0, 0) = (lo, hi)" by fastforce
  have "\<forall>g\<in>set gs. is_i64 (Wallclock g)" using assms(2) by (auto simp: row_ok_def typed_GroupInfo_def)
  then have "is_i64 lo \<and> is_i64 hi" using wallclock_bounds_i64 [OF _ z z w] by blast
  moreover have "is_i64 (int (length gs))" using assms(3) by (simp add: i64_bounds)
  moreover have "gs \<noteq> [] \<Longrightarrow> is_i64 (MediaTime (hd gs))"
    using assms(2) by (auto simp: row_ok_def typed_GroupInfo_def)
  ultimately show ?thesis
    using assms(1) w z by (auto simp: sealedRef_ok_def run_ref_def summarize_def zero_sealedRef_def Let_def)
qed

lemma runs_append:
  "runs p e ds a rs b \<Longrightarrow> runs p e (ds @ xs) a rs b"
  by (induction rs arbitrary: a) (auto simp: rows_between_append)

lemma runs_snoc:
  assumes "runs p e ds a rs (unat f)" and "f \<le> l" and "unat l < length ds"
  shows "runs p e ds a (rs @ [run_ref p e f l (rows_between ds (unat f) (Suc (unat l)))]) (Suc (unat l))"
  using assms by (induction rs arbitrary: a) auto

lemma runs_Key: "runs p e ds a rs b \<Longrightarrow> r \<in> set rs \<Longrightarrow> Key r = sealedKey p e (FirstDelta r) (LastDelta r)"
  by (induction rs arbitrary: a) (auto, metis run_ref_fields(1))

lemma runs_le: "runs p e ds a rs b \<Longrightarrow> a \<le> b"
  by (induction rs arbitrary: a) (auto simp: word_le_nat_alt, fastforce)

section \<open>The parts of the invariant\<close>

lemma log_invD:
  assumes "log_inv v p e ds L ver"
  shows "log_at v p e L ver" and "int (length (concat ds)) \<le> MaxInt64" and "unat (OpenFrom L) \<le> length ds"
    and "runs p e ds 0 (Sealed L) (unat (OpenFrom L))"
    and "r \<in> set (Sealed L) \<Longrightarrow> v (Key r) \<noteq> None"
    and "OpenFrom L \<le> n \<Longrightarrow> unat n < length ds \<Longrightarrow> delta_holds v p e n (ds ! unat n)"
    and "length ds \<le> unat n \<Longrightarrow> v (deltaKey p e n) = None"
    and "v (sealedKey p e a b) \<noteq> None \<Longrightarrow>
        a \<le> b \<and> unat b < length ds \<and> sealed_holds v p e a b (rows_between ds (unat a) (Suc (unat b)))"
    and "head_below v p e (length ds)"
    and "\<forall>gs\<in>set ds. gs \<noteq> []"
    and "g \<in> set (concat ds) \<Longrightarrow> row_wf p e g \<and> payload_held v p g"
    and "serial (concat ds)"
    and "v (deltaKey p e n) \<noteq> None \<Longrightarrow> unat n < length ds \<and> delta_holds v p e n (ds ! unat n)"
proof -
  note D = assms [unfolded log_inv_def]
  from D show "log_at v p e L ver" "int (length (concat ds)) \<le> MaxInt64" "unat (OpenFrom L) \<le> length ds"
    "runs p e ds 0 (Sealed L) (unat (OpenFrom L))" "head_below v p e (length ds)" "\<forall>gs\<in>set ds. gs \<noteq> []" "serial (concat ds)"
    by - (elim conjE, assumption)+
  from D show "r \<in> set (Sealed L) \<Longrightarrow> v (Key r) \<noteq> None" by (elim conjE) (rule bspec)
  from D show "OpenFrom L \<le> n \<Longrightarrow> unat n < length ds \<Longrightarrow> delta_holds v p e n (ds ! unat n)"
    by (elim conjE) (drule spec [of _ n], drule mp, rule conjI)
  from D show "g \<in> set (concat ds) \<Longrightarrow> row_wf p e g \<and> payload_held v p g" by (elim conjE) (rule bspec)
  from D show "v (sealedKey p e a b) \<noteq> None \<Longrightarrow>
      a \<le> b \<and> unat b < length ds \<and> sealed_holds v p e a b (rows_between ds (unat a) (Suc (unat b)))"
    by (elim conjE) (drule spec [of _ a], drule spec [of _ b], erule mp)
  from D show 13: "v (deltaKey p e n) \<noteq> None \<Longrightarrow> unat n < length ds \<and> delta_holds v p e n (ds ! unat n)"
    by (elim conjE) (erule allE [of _ n], erule mp)
  then show "length ds \<le> unat n \<Longrightarrow> v (deltaKey p e n) = None" by (metis leD)
qed

lemma log_inv_length: "log_inv v p e ds L ver \<Longrightarrow> length ds < 2 ^ 63"
  using length_le_concat [OF log_invD(10)] log_invD(2) [of v p e ds L ver] by (fastforce simp: i64_bounds)

text \<open>Objects of other kinds, tracks and epochs do not matter.\<close>

lemma log_inv_cong:
  assumes "log_inv v p e ds L ver"
    and "v' (epochLogKey p e) = v (epochLogKey p e)" and "v' (headKey p e) = v (headKey p e)"
    and "\<And>n. v' (deltaKey p e n) = v (deltaKey p e n)" and "\<And>a b. v' (sealedKey p e a b) = v (sealedKey p e a b)"
    and "\<And>g. g \<in> set (concat ds) \<Longrightarrow> payload_held v p g \<Longrightarrow> payload_held v' p g"
  shows "log_inv v' p e ds L ver"
proof -
  have "v' (Key r) = v (Key r)" if "r \<in> set (Sealed L)" for r
    using runs_Key [OF log_invD(4) [OF assms(1)] that] assms(5) by simp
  moreover have "\<forall>g\<in>set (concat ds). payload_held v' p g" using log_invD(11) [OF assms(1)] assms(6) by blast
  ultimately show ?thesis
    using assms(1-5) unfolding log_inv_def delta_holds_def sealed_holds_def head_below_def log_at_def by simp
qed

lemma log_inv_payload:
  assumes "log_inv v p e ds L ver" and "v (groupKey p i) = None"
  shows "log_inv (v(groupKey p i \<mapsto> x)) p e ds L ver"
proof (rule log_inv_cong [OF assms(1)])
  fix g assume "payload_held v p g"
  then show "payload_held (v(groupKey p i \<mapsto> x)) p g"
    using assms(2) by (auto simp: payload_held_def)
qed simp_all

lemma log_inv_head:
  assumes "log_inv v p e ds L ver" and "head_ok h" and "h_Version h \<le> manifestVersion" and "unat (h_Delta h) < length ds"
  shows "log_inv (v(headKey p e \<mapsto> (encode_head h, u))) p e ds L ver"
proof -
  let ?v = "v(headKey p e \<mapsto> (encode_head h, u))"
  have "head_below ?v p e (length ds)"
    using assms by (simp add: head_below_def decode_encode_head)
  moreover have "?v (Key r) = v (Key r)" if "r \<in> set (Sealed L)" for r
    using runs_Key [OF log_invD(4) [OF assms(1)] that] by simp
  ultimately show ?thesis
    using assms(1) unfolding log_inv_def delta_holds_def sealed_holds_def log_at_def payload_held_def by simp
qed

lemma sealed_holds_encoded:
  "sealed_ok M \<Longrightarrow> sm_Version M \<le> manifestVersion \<Longrightarrow>
    v (sealedKey (sm_Track M) (sm_Epoch M) (sm_FirstDelta M) (sm_LastDelta M)) = Some (encode_sealed M, u) \<Longrightarrow>
    sealed_holds v (sm_Track M) (sm_Epoch M) (sm_FirstDelta M) (sm_LastDelta M) (sm_Groups M)"
  by (simp add: sealed_holds_def decode_encode_sealed)

lemma log_inv_sealed:
  assumes li: "log_inv v p e ds L ver" and M: "sealed_ok M" "sm_Version M \<le> manifestVersion" "sm_Track M = p" "sm_Epoch M = e"
    and ab: "sm_FirstDelta M \<le> sm_LastDelta M" "unat (sm_LastDelta M) < length ds"
    and gs: "sm_Groups M = rows_between ds (unat (sm_FirstDelta M)) (Suc (unat (sm_LastDelta M)))"
  shows "log_inv (v(sealedKey p e (sm_FirstDelta M) (sm_LastDelta M) \<mapsto> (encode_sealed M, u))) p e ds L ver"
proof -
  let ?k = "sealedKey p e (sm_FirstDelta M) (sm_LastDelta M)"
  let ?v = "v(?k \<mapsto> (encode_sealed M, u))"
  have new: "sealed_holds ?v p e (sm_FirstDelta M) (sm_LastDelta M) (sm_Groups M)"
    using sealed_holds_encoded [OF M(1,2), of ?v u] M by simp
  have s: "a \<le> b \<and> unat b < length ds \<and> sealed_holds ?v p e a b (rows_between ds (unat a) (Suc (unat b)))"
    if "?v (sealedKey p e a b) \<noteq> None" for a b
  proof (cases "a = sm_FirstDelta M \<and> b = sm_LastDelta M")
    case True
    then show ?thesis using new ab gs by simp
  next
    case False
    then have "?v (sealedKey p e a b) = v (sealedKey p e a b)" by auto
    then show ?thesis using that log_invD(8) [OF li, of a b] by (simp add: sealed_holds_def)
  qed
  have "?v (Key r) \<noteq> None" if "r \<in> set (Sealed L)" for r
    using log_invD(5) [OF li that] by auto
  with s li show ?thesis
    unfolding log_inv_def delta_holds_def head_below_def log_at_def payload_held_def by simp
qed

lemma head_below_mono: "head_below v p e m \<Longrightarrow> m \<le> n \<Longrightarrow> head_below v p e n"
  unfolding head_below_def by (meson less_le_trans)

lemma unat_eq_lengthD: "unat n = m \<Longrightarrow> unat (k :: u64) \<noteq> m \<Longrightarrow> k \<noteq> n"
  by auto

lemma log_inv_commit:
  assumes li: "log_inv v p e ds L ver" and n: "unat n = length ds" and room: "int (Suc (length (concat ds))) \<le> MaxInt64"
    and D: "delta_ok D" "dm_Version D \<le> manifestVersion" "dm_Groups D = [g]"
    and g: "row_wf p e g" "payload_held v p g" and order: "ds \<noteq> [] \<longrightarrow> mediaEnd (last (concat ds)) \<le> MediaTime g"
  shows "log_inv (v(deltaKey p e n \<mapsto> (encode_delta D, u))) p e (ds @ [[g]]) L ver"
proof -
  let ?v = "v(deltaKey p e n \<mapsto> (encode_delta D, u))" and ?ds = "ds @ [[g]]"
  note inv = log_invD [OF li]
  have d: "delta_holds ?v p e m (?ds ! unat m)" if "OpenFrom L \<le> m" "unat m < length ?ds" for m
  proof (cases "m = n")
    case True
    then show ?thesis using D n by (simp add: delta_holds_def decode_encode_delta nth_append)
  next
    case False
    then have "unat m < length ds" using that(2) n by (metis le_less_linear length_append_singleton less_Suc_eq unat_inject)
    then show ?thesis using inv(6) [OF that(1)] False by (simp add: delta_holds_def nth_append)
  qed
  have nd: "unat m < length ?ds \<and> delta_holds ?v p e m (?ds ! unat m)" if "?v (deltaKey p e m) \<noteq> None" for m
  proof (cases "m = n")
    case False
    then show ?thesis using that inv(13) [of m] by (auto simp: delta_holds_def nth_append)
  qed (use D n in \<open>simp add: delta_holds_def decode_encode_delta nth_append\<close>)
  have s: "a \<le> b \<and> unat b < length ?ds \<and> sealed_holds ?v p e a b (rows_between ?ds (unat a) (Suc (unat b)))"
    if "?v (sealedKey p e a b) \<noteq> None" for a b
    using that inv(8) [of a b] by (auto simp: sealed_holds_def rows_between_append)
  have ser: "serial (concat ?ds)"
  proof -
    have "\<forall>h\<in>set (concat ds). MediaTime h \<le> mediaEnd h" using inv(11) row_wf_media by blast
    moreover have "concat ds \<noteq> [] \<longrightarrow> mediaEnd (last (concat ds)) \<le> MediaTime g" using order by auto
    ultimately show ?thesis using serial_snoc [OF inv(12)] by simp
  qed
  have key: "?v (Key r) = v (Key r)" if "r \<in> set (Sealed L)" for r
    using runs_Key [OF inv(4) that] by simp
  have h: "head_below ?v p e (length ?ds)"
    using head_below_mono [OF inv(9), of "length ?ds"] by (simp add: head_below_def)
  have at: "log_at ?v p e L ver" using inv(1) by (simp add: log_at_def)
  have pl: "\<forall>h\<in>set (concat ?ds). row_wf p e h \<and> payload_held ?v p h"
    using inv(11) g by (auto simp: payload_held_def)
  show ?thesis
    unfolding log_inv_def
    using at h d nd s ser pl key runs_append [OF inv(4), of "[[g]]"] inv(3,5,10) room by auto
qed

lemma log_inv_rotate:
  assumes li: "log_inv v p e ds L ver" and l: "unat l < length ds" "OpenFrom L \<le> l" and p: "valid_utf8 p"
    and there: "v (sealedKey p e (OpenFrom L) l) \<noteq> None"
    and L': "L' = L\<lparr>Sealed := Sealed L @ [run_ref p e (OpenFrom L) l (rows_between ds (unat (OpenFrom L)) (Suc (unat l)))],
      OpenFrom := l + 1\<rparr>"
  shows "log_inv (v(epochLogKey p e \<mapsto> (encode_logRoot L', u))) p e ds L' u"
proof -
  let ?v = "v(epochLogKey p e \<mapsto> (encode_logRoot L', u))"
  let ?gs = "rows_between ds (unat (OpenFrom L)) (Suc (unat l))"
  let ?r = "run_ref p e (OpenFrom L) l ?gs"
  note inv = log_invD [OF li]
  have F: "Sealed L' = Sealed L @ [?r]" "OpenFrom L' = l + 1" "lr_Version L' = lr_Version L" "lr_Track L' = lr_Track L"
    "lr_Epoch L' = lr_Epoch L" "lr_CreatedAt L' = lr_CreatedAt L"
    by (simp_all add: L')
  have "l \<noteq> - 1"
    using l(1) log_inv_length [OF li] by (auto simp: unsigned_minus_1_eq_mask mask_eq_exp_minus_1)
  then have "l < l + 1" by (rule word_inc_less)
  then have l1: "unat (l + 1) = Suc (unat l)" by (rule word_Suc_unat)
  have "\<forall>g\<in>set ?gs. row_ok g" using inv(11) set_rows_between by (fastforce simp: row_wf_def)
  moreover have "int (length ?gs) \<le> MaxInt64" using inv(2) length_rows_between [of ds] by (meson of_nat_mono order_trans)
  ultimately have rok: "sealedRef_ok ?r" by (intro run_ref_ok p)
  have L: "logRoot_ok L" "lr_Version L \<le> manifestVersion" "lr_Track L = p" "lr_Epoch L = e"
    using inv(1) unfolding log_at_def by blast+
  then have ok: "logRoot_ok L'" using rok F by (simp add: logRoot_ok_def)
  have at: "log_at ?v p e L' u"
    using log_at_encoded [OF ok, of ?v u] F L by simp
  have r: "runs p e ds 0 (Sealed L') (unat (OpenFrom L'))"
    using runs_snoc [OF inv(4) l(2,1)] F l1 by simp
  have k: "?v (Key x) \<noteq> None" if x: "x \<in> set (Sealed L')" for x
  proof (cases "x = ?r")
    case True
    then show ?thesis using there by simp
  next
    case False
    then have "x \<in> set (Sealed L)" using x F by simp
    then show ?thesis using inv(5) [of x] runs_Key [OF inv(4), of x] by simp
  qed
  have d: "delta_holds ?v p e n (ds ! unat n)" if "OpenFrom L' \<le> n" "unat n < length ds" for n
  proof -
    have "OpenFrom L \<le> n" using that(1) l l1 F(2) by (simp add: word_le_nat_alt)
    from inv(6) [OF this that(2)] show ?thesis by (simp add: delta_holds_def)
  qed
  have o: "unat (OpenFrom L') \<le> length ds" using l1 l(1) F(2) by simp
  have rest: "?v (deltaKey p e n) = v (deltaKey p e n)" "delta_holds ?v p e n gs = delta_holds v p e n gs" "sealed_holds ?v p e a b gs = sealed_holds v p e a b gs"
    "?v (sealedKey p e a b) = v (sealedKey p e a b)" "head_below ?v p e m = head_below v p e m"
    "payload_held ?v p g = payload_held v p g" for n a b gs m g
    by (simp_all add: delta_holds_def sealed_holds_def head_below_def payload_held_def)
  show ?thesis
    unfolding log_inv_def rest using at r k d [unfolded rest] o inv(2,8-13) by blast
qed

lemma log_inv_reclaim:
  assumes li: "log_inv v p e ds L ver" and n: "n < OpenFrom L"
  shows "log_inv (v(deltaKey p e n := None)) p e ds L ver"
proof -
  let ?v = "v(deltaKey p e n := None)"
  note inv = log_invD [OF li]
  have "?v (Key r) \<noteq> None" if "r \<in> set (Sealed L)" for r
    using runs_Key [OF inv(4) that] inv(5) [OF that] by simp
  moreover have "delta_holds ?v p e m (ds ! unat m)" if "OpenFrom L \<le> m" "unat m < length ds" for m
    using inv(6) [OF that] n that(1) by (auto simp: delta_holds_def)
  moreover have "unat m < length ds \<and> delta_holds ?v p e m (ds ! unat m)" if "?v (deltaKey p e m) \<noteq> None" for m
    using inv(13) [of m] that by (auto simp: delta_holds_def split: if_splits)
  ultimately show ?thesis
    unfolding log_inv_def using inv
    by (simp add: sealed_holds_def head_below_def payload_held_def log_at_def)
qed

end
