(* ===== verification/Writer_Inv.thy ===== *)
theory Writer_Inv
  imports Writer Epoch_Log
begin

text \<open>
  The writer keeps the epoch's log. A writer that is not stale agrees with the store: it knows the
  log root and its version, the next delta, the open rows and the last group; a stale one promises
  nothing but that the log is well formed. Every method preserves this on any store that keeps the
  contract, whatever calls fail and whatever replies are lost.
\<close>

section \<open>The relation between a writer and the log\<close>

definition clock_ok :: "clock \<Rightarrow> bool" where
  "clock_ok clk \<longleftrightarrow> (\<forall>n. 0 \<le> clk n \<and> is_i64 (clk n))"

definition writer_ok :: "Writer \<Rightarrow> bool" where
  "writer_ok w \<longleftrightarrow> valid_utf8 (w_path w) \<and> w_epoch w \<noteq> 0 \<and> w_epoch w \<le> maxGroupEpoch \<and> clock_ok (w_now w)"

definition synced :: "view \<Rightarrow> Writer \<Rightarrow> GroupInfo list list \<Rightarrow> bool" where
  "synced v w ds \<longleftrightarrow>
     log_inv v (w_path w) (w_epoch w) ds (logRoot w) (logVersion w) \<and> unat (nextDelta w) = length ds \<and>
     openGroups w = rows_between ds (unat (OpenFrom (logRoot w))) (length ds) \<and> (hasLast w \<longleftrightarrow> ds \<noteq> []) \<and>
     (ds \<noteq> [] \<longrightarrow> ID (w_last w) = ID (last (concat ds)) \<and> mediaEnd (w_last w) = mediaEnd (last (concat ds)))"

definition writer_inv :: "view \<Rightarrow> Writer \<Rightarrow> GroupInfo list list \<Rightarrow> bool" where
  "writer_inv v w ds \<longleftrightarrow> writer_ok w \<and>
     (if stale w then \<exists>L ver. log_inv v (w_path w) (w_epoch w) ds L ver else synced v w ds)"

text \<open>The fields fixed when a writer is built.\<close>

definition same_writer :: "Writer \<Rightarrow> Writer \<Rightarrow> bool" where
  "same_writer w w' \<longleftrightarrow> w_path w' = w_path w \<and> w_epoch w' = w_epoch w \<and> w_schema w' = w_schema w \<and>
     w_sealThreshold w' = w_sealThreshold w \<and> w_now w' = w_now w"

lemma same_writer_refl [simp]: "same_writer w w"
  by (simp add: same_writer_def)

lemma same_writer_trans: "same_writer a b \<Longrightarrow> same_writer b c \<Longrightarrow> same_writer a c"
  by (simp add: same_writer_def)

lemma same_writer_ok: "same_writer w w' \<Longrightarrow> writer_ok w' \<longleftrightarrow> writer_ok w"
  by (simp add: same_writer_def writer_ok_def)

lemma synced_log: "synced v w ds \<Longrightarrow> log_inv v (w_path w) (w_epoch w) ds (logRoot w) (logVersion w)"
  by (simp add: synced_def)

section \<open>Recovery\<close>

text \<open>What the probing loop has read so far: the open rows below the next delta to probe.\<close>

definition read_upto :: "GroupInfo list list \<Rightarrow> u64 \<Rightarrow> Writer \<Rightarrow> bool" where
  "read_upto ds n w \<longleftrightarrow> OpenFrom (logRoot w) \<le> n \<and> unat n \<le> length ds \<and>
     openGroups w = rows_between ds (unat (OpenFrom (logRoot w))) (unat n) \<and> (hasLast w \<longleftrightarrow> openGroups w \<noteq> []) \<and>
     (hasLast w \<longrightarrow> w_last w = last (openGroups w))"

definition same_log :: "Writer \<Rightarrow> Writer \<Rightarrow> bool" where
  "same_log w w' \<longleftrightarrow> logRoot w' = logRoot w \<and> logVersion w' = logVersion w \<and> stale w' = stale w"

lemma word_next: "unat (n :: u64) < m \<Longrightarrow> m < 2 ^ 63 \<Longrightarrow> unat (n + 1) = Suc (unat n)"
proof -
  assume "unat n < m" "m < 2 ^ 63"
  then have "n \<noteq> - 1" by (auto simp: unsigned_minus_1_eq_mask mask_eq_exp_minus_1)
  then show ?thesis using word_Suc_unat word_inc_less by blast
qed

lemma read_upto_step:
  assumes "read_upto ds n w" and "unat n < length ds" and "length ds < 2 ^ 63" and "ds ! unat n \<noteq> []"
  shows "read_upto ds (n + 1) (w\<lparr>openGroups := openGroups w @ ds ! unat n, openBytes := b,
    w_last := last (ds ! unat n), hasLast := True\<rparr>)"
proof -
  have n1: "unat (n + 1) = Suc (unat n)" using word_next assms(2,3) by blast
  then have "OpenFrom (logRoot w) \<le> n + 1" using assms(1) by (simp add: read_upto_def word_le_nat_alt)
  then show ?thesis
    using assms n1 by (simp add: read_upto_def rows_between_Suc word_le_nat_alt)
qed

lemma runs_last:
  assumes "runs p e ds a rs b" and "a < b" and "b \<le> length ds" and "\<forall>gs\<in>set ds. gs \<noteq> []"
  shows "rs \<noteq> [] \<and> Last (last rs) = ID (last (rows_between ds a b)) \<and>
    MediaEnd (last rs) = mediaEnd (last (rows_between ds a b))"
  using assms
proof (induction rs arbitrary: a)
  case (Cons r rs)
  let ?c = "Suc (unat (LastDelta r))"
  have c: "a < ?c" "?c \<le> length ds" "runs p e ds ?c rs b"
    and r: "r = run_ref p e (FirstDelta r) (LastDelta r) (rows_between ds a ?c)"
    using Cons.prems by (auto simp: word_le_nat_alt)
  have ne: "rows_between ds a ?c \<noteq> []" using rows_between_nonempty c Cons.prems by blast
  show ?case
  proof (cases "?c = b")
    case True
    with c(3) have "rs = []" using runs_le [of p e ds _ _ b] by (cases rs) (auto simp: word_le_nat_alt dest!: runs_le)
    then show ?thesis using run_ref_rows [OF ne, of p e "FirstDelta r" "LastDelta r"] r True by simp
  next
    case False
    then have "?c < b" using runs_le [OF c(3)] by simp
    note ih = Cons.IH [OF c(3) this Cons.prems(3,4)]
    have "rows_between ds a b = rows_between ds a ?c @ rows_between ds ?c b"
      using rows_between_split [of a ?c b ds] c \<open>?c < b\<close> by simp
    moreover have "rows_between ds ?c b \<noteq> []" using rows_between_nonempty \<open>?c < b\<close> Cons.prems by blast
    ultimately show ?thesis using ih by simp
  qed
qed simp

lemma runs_start: "runs p e ds a rs a \<Longrightarrow> rs = []"
  by (cases rs) (auto simp: word_le_nat_alt dest!: runs_le)

lemma synced_recovered:
  assumes li: "log_inv v (w_path w) (w_epoch w) ds (logRoot w) (logVersion w)"
    and r: "read_upto ds (nextDelta w) w" and n: "unat (nextDelta w) = length ds"
  shows "synced v (sealed_last w) ds"
proof (cases "hasLast w")
  case True
  then have w: "sealed_last w = w" by (simp add: sealed_last_def)
  let ?o = "unat (OpenFrom (logRoot w))"
  have o: "openGroups w = rows_between ds ?o (length ds)" "openGroups w \<noteq> []" "w_last w = last (openGroups w)"
    using r n True by (auto simp: read_upto_def)
  then have "concat ds = rows_between ds 0 ?o @ openGroups w"
    using rows_between_split [of 0 ?o "length ds" ds] log_invD(3) [OF li] rows_between_all [of ds] by simp
  then have "last (concat ds) = last (openGroups w)" "ds \<noteq> []" using o by auto
  then show ?thesis using w li n o True by (simp add: synced_def)
next
  case False
  let ?o = "unat (OpenFrom (logRoot w))"
  have none: "openGroups w = []" "?o \<le> length ds" using r False n by (auto simp: read_upto_def word_le_nat_alt)
  have eq: "?o = length ds"
  proof (rule ccontr)
    assume "?o \<noteq> length ds"
    with none have "rows_between ds ?o (length ds) \<noteq> []"
      using rows_between_nonempty [of ?o "length ds" ds] log_invD(10) [OF li] by simp
    with r n none show False by (simp add: read_upto_def)
  qed
  show ?thesis
  proof (cases "ds = []")
    case True
    then have "Sealed (logRoot w) = []" using log_invD(4) [OF li] eq runs_start by auto
    then show ?thesis using li n none False True eq by (simp add: synced_def sealed_last_def)
  next
    case ne: False
    let ?r = "last (Sealed (logRoot w))"
    have s: "Sealed (logRoot w) \<noteq> []" "Last ?r = ID (last (concat ds))" "MediaEnd ?r = mediaEnd (last (concat ds))"
      using runs_last [OF log_invD(4) [OF li]] eq ne log_invD(10) [OF li] rows_between_all [of ds] by auto
    have "mediaEnd (zero_GroupInfo\<lparr>ID := Last ?r, MediaTime := MediaEnd ?r\<rparr>) = MediaEnd ?r"
      using s(3) by (simp add: mediaEnd_def zero_GroupInfo_def i64_id)
    then show ?thesis using li n none False s ne eq by (simp add: synced_def sealed_last_def Let_def)
  qed
qed

lemma decode_delta_holds:
  "delta_holds v p e n gs \<Longrightarrow> v (deltaKey p e n) = Some (d, u) \<Longrightarrow> \<exists>D. decode_delta d = Inr D \<and> dm_Groups D = gs"
  by (auto simp: delta_holds_def)

context store_contract
begin

lemma recover_loop_reads:
  assumes "recover_loop S c N from n w s = (r, w', s')" and "inv s"
    and "log_inv (view s) (w_path w) (w_epoch w) ds (logRoot w) ver" and "read_upto ds n w"
  shows "inv s' \<and> view s' = view s \<and> same_writer w w' \<and> same_log w w' \<and>
    (r = None \<longrightarrow> read_upto ds (nextDelta w') w' \<and> unat (nextDelta w') = length ds)"
  using assms
proof (induction N arbitrary: n w s)
  case 0
  then show ?case by (auto simp: same_log_def)
next
  case (Suc N)
  let ?k = "deltaKey (w_path w) (w_epoch w) n"
  obtain x s1 where g: "Get S c ?k s = (x, s1)" by fastforce
  have v1: "inv s1" "view s1 = view s" using get_view [OF Suc.prems(2) g] by auto
  note li = Suc.prems(3)
  show ?case
  proof (cases x)
    case (Inl err)
    show ?thesis
    proof (cases "errors_Is err ErrNotExist")
      case True
      have "view s ?k = None" using get_Inl [OF Suc.prems(2), of c ?k] g Inl True by auto
      moreover have "OpenFrom (logRoot w) \<le> n" using Suc.prems(4) by (simp add: read_upto_def)
      ultimately have "\<not> unat n < length ds" using log_invD(6) [OF li, of n] by (auto simp: delta_holds_def)
      then have "unat n = length ds" using Suc.prems(4) by (simp add: read_upto_def)
      with True Inl g v1 Suc.prems(1,4) show ?thesis
        by (auto simp: same_log_def same_writer_def read_upto_def split: if_splits)
    next
      case False
      with Inl g v1 Suc.prems(1) show ?thesis by (auto simp: same_log_def)
    qed
  next
    case (Inr y)
    obtain d u where y: "y = (d, u)" by (cases y)
    have k: "view s ?k = Some (d, u)" using get_Inr [OF Suc.prems(2)] g Inr y by auto
    have lt: "unat n < length ds" using log_invD(7) [OF li, of n] k by (metis leI option.distinct(1))
    have "delta_holds (view s) (w_path w) (w_epoch w) n (ds ! unat n)"
      using log_invD(6) [OF li _ lt] Suc.prems(4) by (simp add: read_upto_def)
    then obtain D where D: "decode_delta d = Inr D" "dm_Groups D = ds ! unat n"
      using decode_delta_holds k by blast
    have ne: "ds ! unat n \<noteq> []" using log_invD(10) [OF li] lt by simp
    let ?w = "w\<lparr>openGroups := openGroups w @ ds ! unat n, openBytes := i64 (openBytes w + int (length d)),
      w_last := last (ds ! unat n), hasLast := True\<rparr>"
    have "recover_loop S c N from (n + 1) ?w s1 = (r, w', s')"
      using Suc.prems(1) g Inr y D ne by (simp add: Let_def)
    moreover have "read_upto ds (n + 1) ?w"
      using read_upto_step [OF Suc.prems(4) lt log_inv_length [OF li] ne] .
    ultimately show ?thesis
      using Suc.IH [of "n + 1" ?w s1] v1 li by (auto simp: same_log_def same_writer_def)
  qed
qed

lemma recover_syncs:
  assumes r: "recover S c N w s = (r, w', s')" and i: "inv s"
    and li: "log_inv (view s) (w_path w) (w_epoch w) ds (logRoot w) (logVersion w)"
    and fresh: "openGroups w = []" "\<not> hasLast w"
  shows "inv s' \<and> view s' = view s \<and> same_writer w w' \<and> stale w' = stale w \<and> (r = None \<longrightarrow> synced (view s) w' ds)"
proof -
  obtain x s1 where h: "fetchHead S c (w_path w) (w_epoch w) s = (x, s1)" by fastforce
  have v1: "inv s1" "view s1 = view s" using fetchHead_view [OF h i] by auto
  have probe: ?thesis if p: "(case recover_loop S c N frm (OpenFrom (logRoot w1)) w1 s1 of
      (Some err, w, s) \<Rightarrow> (Some err, w, s) | (None, w, s) \<Rightarrow> (None, sealed_last w, s)) = (r, w', s')"
    and w1: "w1 = w \<or> (\<exists>hv. w1 = w\<lparr>headVersion := hv\<rparr>)" for frm w1
  proof -
    obtain r2 w2 s2 where l: "recover_loop S c N frm (OpenFrom (logRoot w1)) w1 s1 = (r2, w2, s2)"
      using prod_cases3 by blast
    have s1: "same_writer w w1" "same_log w w1" using w1 by (auto simp: same_writer_def same_log_def)
    have "read_upto ds (OpenFrom (logRoot w1)) w1"
      using w1 fresh log_invD(3) [OF li] by (auto simp: read_upto_def)
    with recover_loop_reads [OF l v1(1), of ds "logVersion w"] li v1(2) s1
    have l2: "inv s2" "view s2 = view s" "same_writer w1 w2" "same_log w1 w2"
      "r2 = None \<longrightarrow> read_upto ds (nextDelta w2) w2 \<and> unat (nextDelta w2) = length ds"
      by (auto simp: same_writer_def same_log_def)
    have s2: "same_writer w w2" "same_log w w2"
      using s1 l2(3,4) by (auto simp: same_writer_def same_log_def)
    show ?thesis
    proof (cases r2)
      case (Some err)
      then show ?thesis using p l l2 s2 by (auto simp: same_log_def)
    next
      case None
      then have e: "r = None" "w' = sealed_last w2" "s' = s2" using p l by auto
      have "log_inv (view s) (w_path w2) (w_epoch w2) ds (logRoot w2) (logVersion w2)"
        using li s2 by (simp add: same_writer_def same_log_def)
      then have "synced (view s) w' ds" using synced_recovered l2(5) None e by blast
      moreover have "same_writer w2 (sealed_last w2)" "stale (sealed_last w2) = stale w2"
        by (simp_all add: sealed_last_def same_writer_def Let_def)
      ultimately show ?thesis using e l2 s2 same_writer_trans by (auto simp: same_log_def)
    qed
  qed
  show ?thesis
  proof (cases x)
    case (Inr y)
    obtain hd hv where "y = (hd, hv)" by (cases y)
    with Inr h r probe [of _ "w\<lparr>headVersion := hv\<rparr>"] show ?thesis by (auto simp: recover_def Let_def)
  next
    case (Inl err)
    then show ?thesis
    proof (cases "errors_Is err ErrNotExist")
      case True
      with Inl h r probe [of _ w] show ?thesis by (auto simp: recover_def Let_def)
    next
      case False
      with Inl h r v1 show ?thesis by (auto simp: recover_def Let_def)
    qed
  qed
qed

lemma reloadIfStale_inv:
  assumes r: "reloadIfStale S c N w s = (r, w', s')" and i: "inv s" and wi: "writer_inv (view s) w ds"
  shows "inv s' \<and> view s' = view s \<and> same_writer w w' \<and> writer_inv (view s) w' ds \<and> (r = None \<longrightarrow> \<not> stale w')"
proof (cases "stale w")
  case False
  then show ?thesis using r i wi by (auto simp: reloadIfStale_def)
next
  case True
  then obtain L ver where li: "log_inv (view s) (w_path w) (w_epoch w) ds L ver" and ok: "writer_ok w"
    using wi by (auto simp: writer_inv_def)
  obtain x s1 where f: "fetchEpochLog S c (w_path w) (w_epoch w) s = (x, s1)" by fastforce
  have v1: "inv s1" "view s1 = view s" using fetchEpochLog_view [OF f i] by auto
  show ?thesis
  proof (cases x)
    case (Inl err)
    then show ?thesis using True r f v1 wi by (auto simp: reloadIfStale_def)
  next
    case (Inr y)
    then have y: "y = (L, ver)" using fetchEpochLog_at [of c "w_path w" "w_epoch w" s _ _ s1] f i log_invD(1) [OF li]
      by (cases y) auto
    let ?w = "w\<lparr>logRoot := L, logVersion := ver, openGroups := [], openBytes := 0, w_last := zero_GroupInfo, hasLast := False\<rparr>"
    obtain r2 w2 s2 where rc: "recover S c N ?w s1 = (r2, w2, s2)" using prod_cases3 by blast
    from recover_syncs [OF rc v1(1), of ds] li v1(2)
    have l2: "inv s2" "view s2 = view s" "same_writer w w2" "stale w2" "r2 = None \<longrightarrow> synced (view s) w2 ds"
      using True by (auto simp: same_writer_def)
    have ok2: "writer_ok w2" using ok same_writer_ok [OF l2(3)] by simp
    have li2: "log_inv (view s) (w_path w2) (w_epoch w2) ds L ver" using li l2(3) by (simp add: same_writer_def)
    show ?thesis
    proof (cases r2)
      case (Some err)
      then show ?thesis using True r f Inr y rc l2 ok2 li2 by (auto simp: reloadIfStale_def Let_def writer_inv_def)
    next
      case None
      then have "r = None" "w' = w2\<lparr>stale := False\<rparr>" "s' = s2"
        using True r f Inr y rc by (auto simp: reloadIfStale_def Let_def)
      then show ?thesis using l2 ok2 None by (auto simp: writer_inv_def writer_ok_def synced_def same_writer_def)
    qed
  qed
qed

end

section \<open>The head pointer\<close>

context store_contract
begin

lemma swap_head_keeps:
  assumes "on_store (Swap S c (headKey p e) (encode_head h) x) W = (r, W')" and "inv (objs W)"
    and "log_inv (view (objs W)) p e ds L ver" and "head_ok h" "h_Version h \<le> manifestVersion" "unat (h_Delta h) < length ds"
  shows "inv (objs W') \<and> log_inv (view (objs W')) p e ds L ver"
proof -
  obtain y s' where sw: "Swap S c (headKey p e) (encode_head h) x (objs W) = (y, s')" by fastforce
  have W': "objs W' = s'" using assms(1) sw by (auto simp: on_store_def)
  have "view s' = view (objs W) \<or> (\<exists>u. view s' = (view (objs W))(headKey p e \<mapsto> (encode_head h, u)))"
    using swap_Inr [OF assms(2)] swap_Inl [OF assms(2)] sw by (cases y) blast+
  then show ?thesis using log_inv_head [OF assms(3-6)] assms(3) swap_inv [OF assms(2) sw] W' by auto
qed

lemma publishHead_keeps:
  assumes r: "publishHead S c g w W = (r, w', W')" and i: "inv (objs W)"
    and li: "log_inv (view (objs W)) (w_path w) (w_epoch w) ds L ver"
    and n: "unat (nextDelta w) = length ds" "ds \<noteq> []" and clk: "clock_ok (w_now w)"
  shows "inv (objs W') \<and> log_inv (view (objs W')) (w_path w) (w_epoch w) ds L ver \<and> (\<exists>hv. w' = w\<lparr>headVersion := hv\<rparr>)"
proof -
  let ?W = "W\<lparr>ticks := Suc (ticks W)\<rparr>" and ?k = "headKey (w_path w) (w_epoch w)"
  let ?h = "\<lparr>h_Version = manifestVersion, h_Delta = nextDelta w - 1, h_Latest = g, UpdatedAt = w_now w (ticks W)\<rparr>"
  let ?good = "\<lambda>W. inv (objs W) \<and> log_inv (view (objs W)) (w_path w) (w_epoch w) ds L ver"
  have "nextDelta w \<noteq> 0" using n by auto
  then have "unat (nextDelta w - 1) < length ds"
    using n by (metis diff_less length_greater_0_conv unat_minus_one zero_less_one)
  moreover have "head_ok ?h" using clk by (simp add: head_ok_def clock_ok_def)
  ultimately have swp: "?good W2"
    if "on_store (Swap S c ?k (encode_head ?h) x) W1 = (y, W2)" "?good W1" for x y W1 W2
    using swap_head_keeps [OF that(1), of ds L ver] that(2) by simp
  obtain y W1 where s1: "on_store (Swap S c ?k (encode_head ?h) (headVersion w)) ?W = (y, W1)" by fastforce
  have g1: "?good W1" using swp [OF s1] i li by simp
  obtain z W2 where f: "on_store (fetchHead S c (w_path w) (w_epoch w)) W1 = (z, W2)" by fastforce
  have g2: "?good W2"
    using f g1 fetchHead_view by (auto simp: on_store_def split: prod.splits)
  define pair where "pair = (case y of Inr _ \<Rightarrow> (y, W1) | Inl err \<Rightarrow>
      if errors_Is err ErrVersionMismatch \<or> errors_Is err ErrNotExist then
        (case z of Inr (_, current) \<Rightarrow> on_store (Swap S c ?k (encode_head ?h) current) W2
         | Inl getErr \<Rightarrow> if errors_Is getErr ErrNotExist then on_store (Swap S c ?k (encode_head ?h) NoVersion) W2
             else (y, W2))
      else (y, W1))"
  have gp: "?good (snd pair)"
    unfolding pair_def using g1 g2 swp [OF prod.collapse [symmetric]]
    by (auto split: sum.splits prod.splits)
  have "(r, w', W') = (case fst pair of Inl err \<Rightarrow> (Some err, w, snd pair)
      | Inr version \<Rightarrow> (None, w\<lparr>headVersion := version\<rparr>, snd pair))"
    using r s1 f unfolding publishHead_def pair_def
    by (auto simp: now_def Let_def split: sum.splits prod.splits if_splits)
  then show ?thesis
    using gp by (cases "fst pair") (auto intro: exI [of _ "headVersion w"])
qed

end

section \<open>Sealing\<close>

lemma reclaim_range:
  "n \<le> l \<Longrightarrow> reclaim S c p e n l s =
    (if n = l then snd (Delete S c (deltaKey p e n) s) else reclaim S c p e (n + 1) l (snd (Delete S c (deltaKey p e n) s)))"
  by (subst reclaim.simps) (auto split: prod.splits)

context store_contract
begin

lemma reclaim_keeps:
  assumes "inv s" and "log_inv (view s) p e ds L ver" and "\<And>m. n \<le> m \<Longrightarrow> m \<le> l \<Longrightarrow> m < OpenFrom L"
  shows "inv (reclaim S c p e n l s) \<and> log_inv (view (reclaim S c p e n l s)) p e ds L ver"
  using assms
proof (induction "unat l - unat n" arbitrary: n s)
  case 0
  obtain r s1 where d: "Delete S c (deltaKey p e n) s = (r, s1)" by fastforce
  have k: "inv s1 \<and> log_inv (view s1) p e ds L ver" if "n \<le> l"
    using delete_inv [OF 0(2) d] delete_view [OF 0(2) d] log_inv_reclaim [OF 0(3)] 0(3,4) that by auto
  have "n \<le> l \<Longrightarrow> n = l" using 0(1) by (simp add: word_le_nat_alt)
  then show ?case
    using 0 d k by (cases "n \<le> l") (auto simp: reclaim_range, simp_all add: reclaim.simps)
next
  case (Suc m)
  then have lt: "n < l" "n \<le> l" "n \<noteq> l" by (auto simp: word_less_nat_alt word_le_nat_alt)
  obtain r s1 where d: "Delete S c (deltaKey p e n) s = (r, s1)" by fastforce
  have k: "inv s1" "log_inv (view s1) p e ds L ver"
    using delete_inv [OF Suc(3) d] delete_view [OF Suc(3) d] log_inv_reclaim [OF Suc(4)] Suc(4,5) lt by auto
  have n1: "unat (n + 1) = Suc (unat n)" using word_Suc_unat lt(1) .
  have "inv (reclaim S c p e (n + 1) l s1) \<and> log_inv (view (reclaim S c p e (n + 1) l s1)) p e ds L ver"
  proof (rule Suc.hyps(1))
    show "m = unat l - unat (n + 1)" using Suc.hyps(2) n1 by simp
    show "m' < OpenFrom L" if "n + 1 \<le> m'" "m' \<le> l" for m'
      using Suc.prems(3) [of m'] that n1 by (simp add: word_le_nat_alt)
  qed (use k in auto)
  then show ?case using reclaim_range [OF lt(2), of S c p e s] lt d by simp
qed

end

context store_contract
begin

lemma updateLogRoot_cases:
  assumes "updateLogRoot S c f w W = (r, w', W')" and "inv (objs W)"
  shows "inv (objs W') \<and> (view (objs W') = view (objs W) \<and> r \<noteq> None \<and> w' = w \<or>
    (\<exists>u. view (objs W') = (view (objs W))(epochLogKey (w_path w) (w_epoch w) \<mapsto> (encode_logRoot (f (logRoot w)), u)) \<and>
      (r \<noteq> None \<and> w' = w \<or> r = None \<and> w' = w\<lparr>logRoot := f (logRoot w), logVersion := u\<rparr>)))"
proof -
  let ?k = "epochLogKey (w_path w) (w_epoch w)"
  obtain y s' where sw: "Swap S c ?k (encode_logRoot (f (logRoot w))) (logVersion w) (objs W) = (y, s')" by fastforce
  show ?thesis
  proof (cases y)
    case (Inl err)
    then have e: "r = Some err" "w' = w" "objs W' = s'" using assms(1) sw by (auto simp: updateLogRoot_def on_store_def)
    have "view s' = view (objs W) \<or> (\<exists>u. view s' = (view (objs W))(?k \<mapsto> (encode_logRoot (f (logRoot w)), u)))"
      using swap_Inl [OF assms(2)] sw Inl by blast
    then show ?thesis using swap_inv [OF assms(2) sw] e by auto
  next
    case (Inr u)
    then have e: "r = None" "w' = w\<lparr>logRoot := f (logRoot w), logVersion := u\<rparr>" "objs W' = s'"
      using assms(1) sw by (auto simp: updateLogRoot_def on_store_def)
    have "view s' = (view (objs W))(?k \<mapsto> (encode_logRoot (f (logRoot w)), u))"
      using swap_Inr [OF assms(2)] sw Inr by blast
    then show ?thesis using swap_inv [OF assms(2) sw] e by auto
  qed
qed

lemma updateLogRoot_keeps:
  assumes up: "updateLogRoot S c f w W = (r, w', W')" and i: "inv (objs W)"
    and li: "log_inv (view (objs W)) (w_path w) (w_epoch w) ds L ver" and L': "f (logRoot w) = L'"
    and rot: "\<And>u. log_inv ((view (objs W))(epochLogKey (w_path w) (w_epoch w) \<mapsto> (encode_logRoot L', u)))
      (w_path w) (w_epoch w) ds L' u"
  shows "inv (objs W') \<and> (\<exists>L ver. log_inv (view (objs W')) (w_path w) (w_epoch w) ds L ver) \<and>
    (r \<noteq> None \<longrightarrow> w' = w) \<and>
    (r = None \<longrightarrow> (\<exists>u. log_inv (view (objs W')) (w_path w) (w_epoch w) ds L' u \<and> w' = w\<lparr>logRoot := L', logVersion := u\<rparr>))"
proof -
  from updateLogRoot_cases [OF up i, unfolded L'] obtain u where "inv (objs W')"
    "view (objs W') = view (objs W) \<and> r \<noteq> None \<and> w' = w \<or>
     view (objs W') = (view (objs W))(epochLogKey (w_path w) (w_epoch w) \<mapsto> (encode_logRoot L', u)) \<and>
      (r \<noteq> None \<and> w' = w \<or> r = None \<and> w' = w\<lparr>logRoot := L', logVersion := u\<rparr>)"
    by blast
  with li rot [of u] show ?thesis by (elim disjE conjE) (simp, blast)+
qed

text \<open>The sealed manifest is written: it is there, or the seal has failed with the log as it was.\<close>

lemma create_sealed_keeps:
  assumes cr: "Create S c (sealedKey p e (sm_FirstDelta M) (sm_LastDelta M)) (encode_sealed M) s = (r, s')" and i: "inv s"
    and li: "log_inv (view s) p e ds L ver" and M: "sealed_ok M" "sm_Version M \<le> manifestVersion" "sm_Track M = p" "sm_Epoch M = e"
    and ab: "sm_FirstDelta M \<le> sm_LastDelta M" "unat (sm_LastDelta M) < length ds"
    and gs: "sm_Groups M = rows_between ds (unat (sm_FirstDelta M)) (Suc (unat (sm_LastDelta M)))"
  shows "inv s' \<and> log_inv (view s') p e ds L ver \<and>
    ((case r of Inl err \<Rightarrow> \<not> errors_Is err ErrExist | Inr _ \<Rightarrow> False) \<or>
      view s' (sealedKey p e (sm_FirstDelta M) (sm_LastDelta M)) \<noteq> None)"
proof -
  let ?k = "sealedKey p e (sm_FirstDelta M) (sm_LastDelta M)"
  have "view s' = view s \<or> (\<exists>u. view s' = (view s)(?k \<mapsto> (encode_sealed M, u)))"
    using create_Inr [OF i] create_Inl [OF i] cr by (cases r) blast+
  then have "log_inv (view s') p e ds L ver" using log_inv_sealed [OF li M ab gs] li by auto
  moreover have "(case r of Inl err \<Rightarrow> \<not> errors_Is err ErrExist | Inr _ \<Rightarrow> False) \<or> view s' ?k \<noteq> None"
    using create_Inr [OF i] create_Inl [OF i] cr by (cases r) fastforce+
  ultimately show ?thesis using create_inv [OF i cr] by blast
qed

text \<open>The run a seal takes: the deltas from the start of the open region to the last one written.\<close>

lemma open_run:
  assumes sy: "synced v w ds" and ne: "openGroups w \<noteq> []"
  defines "f \<equiv> OpenFrom (logRoot w)" and "l \<equiv> nextDelta w - 1"
  shows "Suc (unat l) = length ds" and "f \<le> l" and "openGroups w = rows_between ds (unat f) (Suc (unat l))"
    and "\<forall>g\<in>set (openGroups w). row_ok g"
proof -
  note li = synced_log [OF sy]
  have og: "openGroups w = rows_between ds (unat f) (length ds)" and nd: "unat (nextDelta w) = length ds"
    using sy by (auto simp: synced_def f_def)
  have "ds \<noteq> []" "unat f \<noteq> length ds" using og ne by (auto simp: rows_between_def)
  moreover then have "nextDelta w \<noteq> 0" using nd by auto
  ultimately show l: "Suc (unat l) = length ds" and "f \<le> l" using nd log_invD(3) [OF li]
    by (auto simp: l_def f_def unat_minus_one word_le_nat_alt)
  show "openGroups w = rows_between ds (unat f) (Suc (unat l))" using og l by simp
  show "\<forall>g\<in>set (openGroups w). row_ok g" using og log_invD(11) [OF li] set_rows_between by (fastforce simp: row_wf_def)
qed

lemma reclaim_in_step:
  fixes c f
  assumes sy: "synced v w ds" and ne: "openGroups w \<noteq> []" and i: "inv s"
    and li: "log_inv (view s) (w_path w) (w_epoch w) ds L u" and L: "OpenFrom L = nextDelta w"
  defines "s' \<equiv> reclaim S c (w_path w) (w_epoch w) f (nextDelta w - 1) s"
  shows "inv s' \<and> synced (view s') (w\<lparr>logRoot := L, logVersion := u, openGroups := [], openBytes := 0\<rparr>) ds"
proof -
  have l: "unat (OpenFrom L) = length ds" using sy L by (simp add: synced_def)
  have "m < OpenFrom L" if "m \<le> nextDelta w - 1" for m
    using that open_run(1) [OF sy ne] l by (simp add: word_less_nat_alt word_le_nat_alt)
  then have "inv s'" "log_inv (view s') (w_path w) (w_epoch w) ds L u" unfolding s'_def using reclaim_keeps [OF i li] by auto
  then show ?thesis using sy l by (simp add: synced_def)
qed

lemma seal_keeps:
  assumes r: "seal S c w W = (r, w', W')" and i: "inv (objs W)" and ok: "writer_ok w" and sy: "synced (view (objs W)) w ds"
  shows "inv (objs W') \<and> same_writer w w' \<and> stale w' = stale w \<and>
    (\<exists>L ver. log_inv (view (objs W')) (w_path w) (w_epoch w) ds L ver) \<and>
    (r = None \<longrightarrow> synced (view (objs W')) w' ds \<and> openGroups w' = [])"
proof (cases "openGroups w = []")
  case True
  then show ?thesis using r i sy synced_log [OF sy] by (auto simp: seal_def)
next
  case False
  let ?p = "w_path w" and ?e = "w_epoch w" and ?L = "logRoot w" and ?f = "OpenFrom (logRoot w)" and ?l = "nextDelta w - 1"
  define M where "M = \<lparr>sm_Version = manifestVersion, sm_Track = ?p, sm_Epoch = ?e,
    sm_Seq = of_nat (length (Sealed ?L)) + 1, sm_FirstDelta = ?f, sm_LastDelta = ?l, sm_Groups = openGroups w,
    SealedAt = w_now w (ticks W)\<rparr>"
  note li = synced_log [OF sy] and o = open_run [OF sy False]
  have fl: "unat ?l < length ds" "?f \<le> ?l" using o(1,2) by auto
  have M: "sealed_ok M" "sm_Version M \<le> manifestVersion" "sm_Track M = ?p" "sm_Epoch M = ?e" "sm_FirstDelta M = ?f"
    "sm_LastDelta M = ?l" "sm_Groups M = rows_between ds (unat ?f) (Suc (unat ?l))"
    using ok o(3,4) by (auto simp: M_def sealed_ok_def writer_ok_def clock_ok_def list_all_iff)
  let ?k = "sealedKey ?p ?e ?f ?l" and ?W = "W\<lparr>ticks := Suc (ticks W)\<rparr>"
  let ?mut = "\<lambda>root. root\<lparr>Sealed := Sealed root @ [summarize M ?k], OpenFrom := ?l + 1\<rparr>"
  obtain y s1 where cr: "Create S c ?k (encode_sealed M) (objs W) = (y, s1)" by fastforce
  have k1: "inv s1" "log_inv (view s1) ?p ?e ds ?L (logVersion w)"
    "(case y of Inl err \<Rightarrow> \<not> errors_Is err ErrExist | Inr _ \<Rightarrow> False) \<or> view s1 ?k \<noteq> None"
    using create_sealed_keeps [OF _ i li M(1-4), of c y s1] cr M(5-7) fl by auto
  let ?W1 = "?W\<lparr>objs := s1\<rparr>"
  obtain r2 w2 W2 where up: "updateLogRoot S c ?mut w ?W1 = (r2, w2, W2)" using prod_cases3 by blast
  have run: "seal S c w W = (if (case y of Inl err \<Rightarrow> \<not> errors_Is err ErrExist | Inr _ \<Rightarrow> False) then (Some (projl y), w, ?W1)
    else case r2 of Some err \<Rightarrow> (Some err, w2, W2) | None \<Rightarrow>
      (None, w2\<lparr>openGroups := [], openBytes := 0\<rparr>, W2\<lparr>objs := reclaim S c (w_path w2) (w_epoch w2) ?f ?l (objs W2)\<rparr>))"
    using False cr up by (simp add: seal_def now_def on_store_def Let_def M_def split: option.splits)
  show ?thesis
  proof (cases "case y of Inl err \<Rightarrow> \<not> errors_Is err ErrExist | Inr _ \<Rightarrow> False")
    case True
    then show ?thesis using run r k1 by auto
  next
    case no: False
    then have there: "view s1 ?k \<noteq> None" using k1(3) by blast
    define L' where "L' = ?mut ?L"
    have "L' = ?L\<lparr>Sealed := Sealed ?L @ [run_ref ?p ?e ?f ?l (rows_between ds (unat ?f) (Suc (unat ?l)))], OpenFrom := ?l + 1\<rparr>"
      using summarize_run_ref [of M ?p ?e] M(5-7) by (simp add: L'_def)
    then have rot: "log_inv ((view s1)(epochLogKey ?p ?e \<mapsto> (encode_logRoot L', u))) ?p ?e ds L' u" for u
      using log_inv_rotate [OF k1(2) fl _ there] ok by (simp add: writer_ok_def)
    note u2 = updateLogRoot_keeps [OF up _ _ L'_def [symmetric], of ds ?L "logVersion w"]
    show ?thesis
    proof (cases r2)
      case (Some err)
      then show ?thesis using u2 k1 rot run no r by auto
    next
      case None
      then obtain u where u: "inv (objs W2)" "log_inv (view (objs W2)) ?p ?e ds L' u" "w2 = w\<lparr>logRoot := L', logVersion := u\<rparr>"
        using u2 k1 rot by auto
      have "OpenFrom L' = nextDelta w" by (simp add: L'_def)
      note fin = reclaim_in_step [OF sy False u(1,2) this, of c ?f]
      moreover note synced_log [OF conjunct2 [OF fin]]
      moreover have "r = None" "w' = w2\<lparr>openGroups := [], openBytes := 0\<rparr>" "objs W' = reclaim S c ?p ?e ?f ?l (objs W2)"
        using run no r None u(3) by auto
      ultimately show ?thesis using u(3) by (auto simp: same_writer_def)
    qed
  qed
qed

end

section \<open>Appending\<close>

text \<open>The row an append commits: the caller's, with identity, stamp, key and size filled in.\<close>

definition committed_row :: "Writer \<Rightarrow> GroupInfo \<Rightarrow> bytes \<Rightarrow> int \<Rightarrow> GroupInfo" where
  "committed_row w meta payload wallclock =
     (let i = NewGroupID (w_epoch w) (Sequence (ID meta))
      in meta\<lparr>ID := i, Wallclock := wallclock, ObjectKey := groupKey (w_path w) i, Size := int (length payload)\<rparr>)"

definition meta_ok :: "GroupInfo \<Rightarrow> bytes \<Rightarrow> bool" where
  "meta_ok meta payload \<longleftrightarrow> typed_GroupInfo meta \<and> valid_utf8 (MIME meta) \<and> valid_utf8 (Encoding meta) \<and>
     int (length payload) \<le> MaxInt64"

lemma committed_row_wf:
  assumes "writer_ok w" and "meta_ok meta payload" and "0 \<le> wc" "is_i64 wc"
    and "validate_GroupInfo (meta\<lparr>ID := NewGroupID (w_epoch w) (Sequence (ID meta))\<rparr>) = None"
  shows "row_wf (w_path w) (w_epoch w) (committed_row w meta payload wc)"
  using assms
  by (auto simp: row_wf_def row_ok_def committed_row_def meta_ok_def writer_ok_def typed_GroupInfo_def i64_bounds
      validate_GroupInfo_def Let_def split: if_splits)

text \<open>The books of a writer after the commit of a row, before the head is published.\<close>

definition booked :: "Writer \<Rightarrow> GroupInfo \<Rightarrow> bytes \<Rightarrow> Writer" where
  "booked w g d = w\<lparr>nextDelta := nextDelta w + 1, openGroups := openGroups w @ [g],
    openBytes := i64 (openBytes w + int (length d)), w_last := g, hasLast := True\<rparr>"

lemma stale_writer_inv:
  "log_inv v (w_path w) (w_epoch w) ds L ver \<Longrightarrow> writer_ok w \<Longrightarrow> writer_inv v (w\<lparr>stale := True\<rparr>) ds"
  by (auto simp: writer_inv_def writer_ok_def)

lemma last_concat_snoc [simp]: "last (concat (ds @ [[g]])) = g"
  by simp

context store_contract
begin

lemma publish_after_commit:
  assumes h: "publishHead S c (ID g) (booked w g d) W = (rh, w1, W1)" and i: "inv (objs W)" and ok: "writer_ok w"
    and li: "log_inv (view (objs W)) (w_path w) (w_epoch w) (ds @ [[g]]) (logRoot w) (logVersion w)"
    and n: "unat (nextDelta w) = length ds" and og: "openGroups w = rows_between ds (unat (OpenFrom (logRoot w))) (length ds)"
    and o: "unat (OpenFrom (logRoot w)) \<le> length ds"
  shows "inv (objs W1) \<and> synced (view (objs W1)) w1 (ds @ [[g]]) \<and> writer_ok w1 \<and> same_writer w w1 \<and> stale w1 = stale w"
proof -
  let ?w = "booked w g d" and ?ds = "ds @ [[g]]"
  have n1: "unat (nextDelta w + 1) = length ?ds"
    using word_next [of "nextDelta w" "length ?ds"] n log_inv_length [OF li] by simp
  have og1: "openGroups w @ [g] = rows_between ?ds (unat (OpenFrom (logRoot w))) (length ?ds)"
    using rows_between_Suc [of "unat (OpenFrom (logRoot w))" "length ds" ?ds] o og by (simp add: rows_between_append nth_append)
  have "inv (objs W1) \<and> log_inv (view (objs W1)) (w_path ?w) (w_epoch ?w) ?ds (logRoot w) (logVersion w) \<and>
      (\<exists>hv. w1 = ?w\<lparr>headVersion := hv\<rparr>)"
    by (rule publishHead_keeps [OF h i]) (use li n1 ok in \<open>simp_all add: writer_ok_def booked_def\<close>)
  then obtain hv where p: "inv (objs W1)" "log_inv (view (objs W1)) (w_path w) (w_epoch w) ?ds (logRoot w) (logVersion w)"
    "w1 = ?w\<lparr>headVersion := hv\<rparr>" by (auto simp: booked_def)
  then show ?thesis using n1 og1 ok by (simp add: synced_def booked_def writer_ok_def same_writer_def)
qed

lemma store_error_ledger: "store_error e \<Longrightarrow> \<not> errors_Is e ErrGroupExists"
  by (auto simp: store_error_def errors_Is_def)

lemma seal_error:
  assumes "seal S c w W = (Some e, w', W')" and "inv (objs W)"
  shows "\<not> errors_Is e ErrGroupExists"
proof -
  let ?W = "W\<lparr>ticks := Suc (ticks W)\<rparr>" and ?l = "nextDelta w - 1" and ?f = "OpenFrom (logRoot w)"
  let ?k = "sealedKey (w_path w) (w_epoch w) ?f ?l"
  define M where "M = \<lparr>sm_Version = manifestVersion, sm_Track = w_path w, sm_Epoch = w_epoch w,
    sm_Seq = of_nat (length (Sealed (logRoot w))) + 1, sm_FirstDelta = ?f, sm_LastDelta = ?l, sm_Groups = openGroups w,
    SealedAt = w_now w (ticks W)\<rparr>"
  let ?R = "(logRoot w)\<lparr>Sealed := Sealed (logRoot w) @ [summarize M ?k], OpenFrom := ?l + 1\<rparr>"
  obtain y s1 where cr: "Create S c ?k (encode_sealed M) (objs W) = (y, s1)" by fastforce
  obtain z s2 where sw: "Swap S c (epochLogKey (w_path w) (w_epoch w)) (encode_logRoot ?R) (logVersion w) s1 = (z, s2)" by fastforce
  have i1: "inv s1" using create_inv [OF assms(2) cr] .
  have "y = Inl e \<or> z = Inl e"
    using assms(1) cr sw
    by (auto simp: seal_def updateLogRoot_def now_def on_store_def Let_def M_def split: if_splits sum.splits)
  then have "store_error e" using create_Inl [OF assms(2)] swap_Inl [OF i1] cr sw by blast
  then show ?thesis by (rule store_error_ledger)
qed

lemma after_commit_keeps:
  assumes r: "after_commit S c g d w W = ((g', r), w', W')" and i: "inv (objs W)" and ok: "writer_ok w" "\<not> stale w"
    and li: "log_inv (view (objs W)) (w_path w) (w_epoch w) (ds @ [[g]]) (logRoot w) (logVersion w)"
    and n: "unat (nextDelta w) = length ds" and og: "openGroups w = rows_between ds (unat (OpenFrom (logRoot w))) (length ds)"
    and o: "unat (OpenFrom (logRoot w)) \<le> length ds"
  shows "g' = g \<and> inv (objs W') \<and> same_writer w w' \<and> writer_inv (view (objs W')) w' (ds @ [[g]]) \<and> (r = None \<longrightarrow> \<not> stale w') \<and>
    \<not> isGroupObjectCollision r"
proof -
  let ?ds = "ds @ [[g]]"
  obtain rh w1 W1 where h: "publishHead S c (ID g) (booked w g d) W = (rh, w1, W1)" using prod_cases3 by blast
  note p = publish_after_commit [OF h i ok(1) li n og o]
  have run: "after_commit S c g d w W = (if openBytes w1 \<ge> w_sealThreshold w1 then
      (case seal S c w1 W1 of (Some err, w, W) \<Rightarrow> ((g, Some (wrap [] err)), w\<lparr>stale := True\<rparr>, W) | (None, w, W) \<Rightarrow> ((g, None), w, W))
      else ((g, None), w1, W1))"
    using h by (simp add: after_commit_def booked_def Let_def)
  show ?thesis
  proof (cases "openBytes w1 \<ge> w_sealThreshold w1")
    case False
    then show ?thesis using r run p ok by (auto simp: writer_inv_def isGroupObjectCollision_def)
  next
    case True
    obtain rs w2 W2 where s: "seal S c w1 W1 = (rs, w2, W2)" using prod_cases3 by blast
    from seal_keeps [OF s] p have k: "inv (objs W2)" "same_writer w1 w2" "stale w2 = stale w1"
        "\<exists>L ver. log_inv (view (objs W2)) (w_path w1) (w_epoch w1) ?ds L ver" "rs = None \<longrightarrow> synced (view (objs W2)) w2 ?ds"
      by blast+
    have s2: "same_writer w w2" "writer_ok w2" using k(2) p same_writer_trans same_writer_ok by blast+
    show ?thesis
    proof (cases rs)
      case None
      then show ?thesis using r run s True k s2 p ok by (auto simp: writer_inv_def isGroupObjectCollision_def)
    next
      case (Some err)
      then show ?thesis
        using r run s True k s2 stale_writer_inv [of "view (objs W2)" w2 ?ds] seal_error [of c w1 W1 err w2 W2] p
        by (auto simp: same_writer_def isGroupObjectCollision_def)
    qed
  qed
qed

text \<open>A create that failed, and what reading the object back tells of it.\<close>

lemma failed_create_read_back:
  assumes i: "inv s" and k0: "view s k = None" and cr: "Create S c k d s = (Inl err, s1)" and h: "holds S c k d s1 = (b, s2)"
  shows "inv s2" and "view s2 = view s \<or> (\<exists>u. view s2 = (view s)(k \<mapsto> (d, u)))" and "b \<Longrightarrow> \<exists>u. view s2 = (view s)(k \<mapsto> (d, u))"
proof -
  have i1: "inv s1" using create_inv [OF i cr] .
  obtain z where gt: "Get S c k s1 = (z, s2)" and b: "b \<longleftrightarrow> (\<exists>u. z = Inr (d, u))"
    using h by (auto simp: holds_def split: prod.splits sum.splits)
  have i2: "inv s2" "view s2 = view s1" using get_view [OF i1 gt] by auto
  have v1: "view s1 = view s \<or> (\<exists>u. view s1 = (view s)(k \<mapsto> (d, u)))" using create_Inl [OF i cr] by blast
  then show "inv s2" "view s2 = view s \<or> (\<exists>u. view s2 = (view s)(k \<mapsto> (d, u)))" using i2 by auto
  show "\<exists>u. view s2 = (view s)(k \<mapsto> (d, u))" if t: b
  proof -
    obtain u where "view s1 k = Some (d, u)" using t b gt get_Inr [OF i1] by blast
    with v1 k0 show ?thesis using i2(2) by auto
  qed
qed

lemma commit_delta_keeps:
  assumes r: "commit_delta S c g w W = ((g', r), w', W')" and i: "inv (objs W)" and ok: "writer_ok w" "\<not> stale w"
    and sy: "synced (view (objs W)) w ds" and row: "row_wf (w_path w) (w_epoch w) g" "payload_held (view (objs W)) (w_path w) g"
    and order: "ds \<noteq> [] \<longrightarrow> mediaEnd (last (concat ds)) \<le> MediaTime g" and room: "int (Suc (length (concat ds))) \<le> MaxInt64"
  shows "inv (objs W') \<and> same_writer w w' \<and>
    (writer_inv (view (objs W')) w' ds \<and> r \<noteq> None \<or> writer_inv (view (objs W')) w' (ds @ [[g]])) \<and>
    (r = None \<longrightarrow> g' = g \<and> \<not> stale w') \<and>
    (g' = zero_GroupInfo \<or> g' = g \<and> writer_inv (view (objs W')) w' (ds @ [[g]])) \<and> \<not> isGroupObjectCollision r"
proof -
  let ?p = "w_path w" and ?e = "w_epoch w" and ?W = "W\<lparr>ticks := Suc (ticks W)\<rparr>"
  let ?k = "deltaKey ?p ?e (nextDelta w)"
  define D where "D = \<lparr>dm_Version = manifestVersion, dm_Seq = nextDelta w, dm_Groups = [g], CommittedAt = w_now w (ticks W)\<rparr>"
  let ?d = "encode_delta D"
  note li = synced_log [OF sy]
  have n: "unat (nextDelta w) = length ds" and og: "openGroups w = rows_between ds (unat (OpenFrom (logRoot w))) (length ds)"
    using sy by (auto simp: synced_def)
  have D: "delta_ok D" "dm_Version D \<le> manifestVersion" "dm_Groups D = [g]"
    using ok row by (auto simp: D_def delta_ok_def writer_ok_def clock_ok_def row_wf_def)
  have com: "log_inv ((view (objs W))(?k \<mapsto> (?d, u))) ?p ?e (ds @ [[g]]) (logRoot w) (logVersion w)" for u
    using log_inv_commit [OF li n room D row order] .
  have after: "inv (objs W') \<and> same_writer w w' \<and> writer_inv (view (objs W')) w' (ds @ [[g]]) \<and> (r = None \<longrightarrow> \<not> stale w') \<and>
      g' = g \<and> \<not> isGroupObjectCollision r"
    if "after_commit S c g ?d w W1 = ((g', r), w', W')" "inv (objs W1)" "view (objs W1) = (view (objs W))(?k \<mapsto> (?d, u))" for W1 u
    using after_commit_keeps [OF that(1,2) ok _ n og log_invD(3) [OF li]] com [of u] that(3) by auto
  obtain y s1 where cr: "Create S c ?k ?d (objs W) = (y, s1)" by fastforce
  have i1: "inv s1" using create_inv [OF i cr] .
  show ?thesis
  proof (cases y)
    case (Inr u)
    then have "after_commit S c g ?d w (?W\<lparr>objs := s1\<rparr>) = ((g', r), w', W')"
      using r cr by (simp add: commit_delta_def now_def on_store_def D_def Let_def)
    moreover have "view s1 = (view (objs W))(?k \<mapsto> (?d, u))" using create_Inr [OF i] cr Inr by blast
    ultimately show ?thesis using after [of "?W\<lparr>objs := s1\<rparr>" u] i1 by auto
  next
    case (Inl err)
    obtain b s2 where h: "holds S c ?k ?d s1 = (b, s2)" by fastforce
    have k0: "view (objs W) ?k = None" using log_invD(7) [OF li, of "nextDelta w"] n by simp
    have "Create S c ?k ?d (objs W) = (Inl err, s1)" using cr Inl by simp
    note rb = failed_create_read_back [OF i k0 this h]
    let ?W2 = "?W\<lparr>objs := s2\<rparr>"
    show ?thesis
    proof (cases b)
      case True
      then obtain u where "view s2 = (view (objs W))(?k \<mapsto> (?d, u))" using rb(3) by blast
      moreover have "after_commit S c g ?d w ?W2 = ((g', r), w', W')"
        using r cr Inl h True by (simp add: commit_delta_def now_def on_store_def D_def Let_def)
      ultimately show ?thesis using after [of ?W2 u] rb(1) by auto
    next
      case False
      then have e: "r = Some err" "w' = w\<lparr>stale := True\<rparr>" "W' = ?W2" "g' = zero_GroupInfo"
        using r cr Inl h by (auto simp: commit_delta_def now_def on_store_def D_def Let_def)
      have okw: "writer_ok w'" "same_writer w w'" using e ok by (auto simp: writer_ok_def same_writer_def)
      have "log_inv (view s2) ?p ?e ds (logRoot w) (logVersion w) \<or>
          log_inv (view s2) ?p ?e (ds @ [[g]]) (logRoot w) (logVersion w)"
        using rb(2) li com by auto
      moreover have "\<not> isGroupObjectCollision r"
        using e store_error_ledger create_Inl [OF i] cr Inl by (auto simp: isGroupObjectCollision_def)
      ultimately show ?thesis using e okw rb(1) unfolding writer_inv_def by auto
    qed
  qed
qed

end

text \<open>The tail of an append, once the row is stamped: the checks, the payload, the commit.\<close>

definition append_checked ::
  "'s store \<Rightarrow> ctx \<Rightarrow> GroupInfo \<Rightarrow> bytes \<Rightarrow> Writer \<Rightarrow> 's world \<Rightarrow> (GroupInfo \<times> error option) \<times> Writer \<times> 's world" where
  "append_checked S c meta payload w W =
     (if hasLast w \<and> ID meta = ID (w_last w) then ((zero_GroupInfo, Some [ErrGroupExists]), w, W)
      else case checkOrder w meta of
        Some err \<Rightarrow> ((zero_GroupInfo, Some err), w, W)
      | None \<Rightarrow>
          let meta = meta\<lparr>ObjectKey := groupKey (w_path w) (ID meta), Size := int (length payload)\<rparr>
          in case on_store (Create S c (ObjectKey meta) payload) W of
               (Inl err, W) \<Rightarrow>
                 if errors_Is err ErrExist
                 then ((zero_GroupInfo, Some (wrap [ErrGroupExists] err)), w\<lparr>stale := True\<rparr>, W)
                 else ((zero_GroupInfo, Some (wrap [] err)), w, W)
             | (Inr _, W) \<Rightarrow> commit_delta S c meta w W)"

definition stamp :: "Writer \<Rightarrow> GroupInfo \<Rightarrow> 's world \<Rightarrow> GroupInfo \<times> 's world" where
  "stamp w meta W =
     (if Wallclock meta = 0 \<and> TimeSource (w_schema w) = TimeSourceIngest
      then (case now (w_now w) W of (at, W) \<Rightarrow> (meta\<lparr>Wallclock := at\<rparr>, W)) else (meta, W))"

lemma AppendGroup_steps:
  "AppendGroup S c N meta payload w W =
     (let m = meta\<lparr>ID := NewGroupID (w_epoch w) (Sequence (ID meta))\<rparr>
      in case validate_GroupInfo m of
        Some err \<Rightarrow> ((zero_GroupInfo, Some err), w, W)
      | None \<Rightarrow>
          (case reloadIfStale S c N w (objs W) of
             (Some err, w1, s1) \<Rightarrow> ((zero_GroupInfo, Some err), w1, W\<lparr>objs := s1\<rparr>)
           | (None, w1, s1) \<Rightarrow>
               (case stamp w1 m (W\<lparr>objs := s1\<rparr>) of (m2, W2) \<Rightarrow> append_checked S c m2 payload w1 W2)))"
  unfolding AppendGroup_def append_checked_def stamp_def Let_def by (rule refl)

context store_contract
begin

lemma append_checked_keeps:
  assumes r: "append_checked S c m payload w W = ((g, r), w', W')" and i: "inv (objs W)" and ok: "writer_ok w" "\<not> stale w"
    and sy: "synced (view (objs W)) w ds" and room: "int (Suc (length (concat ds))) \<le> MaxInt64"
    and row: "row_wf (w_path w) (w_epoch w) row"
    and m: "row = m\<lparr>ObjectKey := groupKey (w_path w) (ID m), Size := int (length payload)\<rparr>"
  shows "inv (objs W') \<and> same_writer w w' \<and>
    (writer_inv (view (objs W')) w' ds \<and> r \<noteq> None \<or> writer_inv (view (objs W')) w' (ds @ [[row]])) \<and>
    (r = None \<longrightarrow> g = row \<and> \<not> stale w') \<and>
    (g = zero_GroupInfo \<or> g = row \<and> writer_inv (view (objs W')) w' (ds @ [[row]])) \<and>
    (isGroupObjectCollision r \<longrightarrow> g = zero_GroupInfo \<and> writer_inv (view (objs W')) w' ds)"
proof -
  have wi: "writer_inv (view (objs W)) w ds" using sy ok by (simp add: writer_inv_def)
  note li = synced_log [OF sy]
  show ?thesis
  proof (cases "hasLast w \<and> ID m = ID (w_last w) \<or> checkOrder w m \<noteq> None")
    case True
    then have "\<exists>err. append_checked S c m payload w W = ((zero_GroupInfo, Some err), w, W)"
      by (auto simp: append_checked_def)
    then show ?thesis using r wi i ok by auto
  next
    case False
    let ?k = "groupKey (w_path w) (ID m)"
    obtain y s1 where cr: "Create S c ?k payload (objs W) = (y, s1)" by fastforce
    let ?W1 = "W\<lparr>objs := s1\<rparr>"
    have i1: "inv s1" using create_inv [OF i cr] .
    have run: "append_checked S c m payload w W =
      (case y of Inl err \<Rightarrow> if errors_Is err ErrExist
         then ((zero_GroupInfo, Some (wrap [ErrGroupExists] err)), w\<lparr>stale := True\<rparr>, ?W1)
         else ((zero_GroupInfo, Some err), w, ?W1) | Inr _ \<Rightarrow> commit_delta S c row w ?W1)"
      using False cr by (auto simp: append_checked_def on_store_def Let_def m split: sum.splits)
    have v1: "view s1 = view (objs W) \<or> view (objs W) ?k = None \<and> (\<exists>u. view s1 = (view (objs W))(?k \<mapsto> (payload, u)))"
      using create_Inr [OF i] create_Inl [OF i] cr by (cases y) blast+
    then have li1: "log_inv (view s1) (w_path w) (w_epoch w) ds (logRoot w) (logVersion w)"
      using li log_inv_payload [OF li] by auto
    then have sy1: "synced (view s1) w ds" using sy by (simp add: synced_def)
    show ?thesis
    proof (cases y)
      case (Inl err)
      have "writer_inv (view s1) (w\<lparr>stale := True\<rparr>) ds" using stale_writer_inv [OF li1 ok(1)] .
      moreover have "writer_inv (view s1) w ds" using sy1 ok by (simp add: writer_inv_def)
      ultimately show ?thesis
        using Inl r run i1 by (auto simp: same_writer_def isGroupObjectCollision_def split: if_splits)
    next
      case (Inr u)
      have "view s1 ?k = Some (payload, u)" using create_Inr [OF i] cr Inr by fastforce
      then have pl: "payload_held (view s1) (w_path w) row" by (simp add: payload_held_def m)
      have "\<not> MediaTime m < mediaEnd (w_last w)" if "ds \<noteq> []"
        using False sy that by (auto simp: checkOrder_def synced_def split: if_splits)
      then have "ds \<noteq> [] \<longrightarrow> mediaEnd (last (concat ds)) \<le> MediaTime row"
        using sy by (auto simp: synced_def m)
      from commit_delta_keeps [OF _ _ ok _ row _ this room, of c ?W1 g r w' W'] r run Inr i1 sy1 pl show ?thesis by simp
    qed
  qed
qed

lemma AppendGroup_outcome:
  assumes r: "AppendGroup S c N meta payload w W = ((g, r), w', W')" and i: "inv (objs W)" and wi: "writer_inv (view (objs W)) w ds"
    and meta: "meta_ok meta payload" and room: "int (Suc (length (concat ds))) \<le> MaxInt64"
  shows "inv (objs W') \<and> same_writer w w' \<and>
    (\<exists>wc. (Wallclock meta \<noteq> 0 \<or> TimeSource (w_schema w) \<noteq> TimeSourceIngest \<longrightarrow> wc = Wallclock meta) \<and>
      (writer_inv (view (objs W')) w' ds \<and> r \<noteq> None \<or>
       writer_inv (view (objs W')) w' (ds @ [[committed_row w meta payload wc]])) \<and>
      (r = None \<longrightarrow> g = committed_row w meta payload wc \<and> \<not> stale w') \<and>
      (g = zero_GroupInfo \<or> g = committed_row w meta payload wc \<and>
        writer_inv (view (objs W')) w' (ds @ [[committed_row w meta payload wc]])) \<and>
      (isGroupObjectCollision r \<longrightarrow> g = zero_GroupInfo \<and> writer_inv (view (objs W')) w' ds))"
proof -
  let ?m = "meta\<lparr>ID := NewGroupID (w_epoch w) (Sequence (ID meta))\<rparr>"
  have triv: ?thesis if "inv (objs W')" "same_writer w w'" "writer_inv (view (objs W')) w' ds" "r \<noteq> None" "g = zero_GroupInfo"
    using that by auto
  show ?thesis
  proof (cases "validate_GroupInfo ?m")
    case (Some err)
    then have "((g, r), w', W') = ((zero_GroupInfo, Some err), w, W)"
      using r by (simp add: AppendGroup_steps Let_def)
    then show ?thesis using i wi by (intro triv) auto
  next
    case None
    obtain r1 w1 s1 where rl: "reloadIfStale S c N w (objs W) = (r1, w1, s1)" using prod_cases3 by blast
    note k = reloadIfStale_inv [OF rl i wi]
    show ?thesis
    proof (cases r1)
      case (Some err)
      then show ?thesis using None r rl k by (intro triv) (auto simp: AppendGroup_steps Let_def)
    next
      case r1: None
      let ?W1 = "W\<lparr>objs := s1\<rparr>"
      obtain m2 W2 where st: "stamp w1 ?m ?W1 = (m2, W2)" by fastforce
      have w1: "same_writer w w1" "\<not> stale w1" "writer_ok w1" "synced (view s1) w1 ds"
        using k r1 by (auto simp: writer_inv_def)
      have run: "append_checked S c m2 payload w1 W2 = ((g, r), w', W')"
        using r None rl r1 st by (simp add: AppendGroup_steps Let_def)
      have m2: "m2 = ?m\<lparr>Wallclock := Wallclock m2\<rparr>" and W2: "objs W2 = s1"
        and wc: "Wallclock meta \<noteq> 0 \<or> TimeSource (w_schema w) \<noteq> TimeSourceIngest \<longrightarrow> Wallclock m2 = Wallclock meta"
        and wp: "0 \<le> Wallclock m2 \<and> is_i64 (Wallclock m2)"
        using st w1(1,3) None meta
        by (auto simp: stamp_def now_def same_writer_def writer_ok_def clock_ok_def validate_GroupInfo_def meta_ok_def
            typed_GroupInfo_def split: if_splits)
      let ?row = "committed_row w meta payload (Wallclock m2)"
      have row: "?row = m2\<lparr>ObjectKey := groupKey (w_path w1) (ID m2), Size := int (length payload)\<rparr>"
        using w1(1) by (subst (2 3) m2) (simp add: committed_row_def same_writer_def Let_def)
      have "row_wf (w_path w1) (w_epoch w1) ?row"
        using committed_row_wf [of w meta payload "Wallclock m2"] w1(1,3) meta wp None same_writer_ok [OF w1(1)]
        by (simp add: same_writer_def)
      from append_checked_keeps [OF run _ w1(3,2) _ room this row] w1(4) W2 k wc show ?thesis
        using same_writer_trans [OF w1(1)] by auto
    qed
  qed
qed

lemma AppendGroup_keeps:
  assumes r: "AppendGroup S c N meta payload w W = ((g, r), w', W')" and i: "inv (objs W)" and wi: "writer_inv (view (objs W)) w ds"
    and meta: "meta_ok meta payload" and room: "int (Suc (length (concat ds))) \<le> MaxInt64"
  shows "inv (objs W') \<and> same_writer w w' \<and>
    (\<exists>wc. (Wallclock meta \<noteq> 0 \<or> TimeSource (w_schema w) \<noteq> TimeSourceIngest \<longrightarrow> wc = Wallclock meta) \<and>
      (writer_inv (view (objs W')) w' ds \<and> r \<noteq> None \<or>
       writer_inv (view (objs W')) w' (ds @ [[committed_row w meta payload wc]])) \<and>
      (r = None \<longrightarrow> g = committed_row w meta payload wc \<and> \<not> stale w'))"
  using AppendGroup_outcome [OF assms] by blast

end

end
