(* ===== verification/Writer_Live.thy ===== *)
theory Writer_Live
  imports Writer_Inv
begin

text \<open>
  On a store that answers, the writer makes progress: recovery ends, with any fuel above the number of
  deltas, seals succeed, and an append that does not contradict the log commits.
\<close>

section \<open>Recovery ends\<close>

context reliable_store
begin

lemma Get_absent_Live:
  assumes "inv s" and "view s k = None"
  obtains e s' where "Get S Live k s = (Inl e, s')" "errors_Is e ErrNotExist" "inv s'" "view s' = view s"
  using get_absent [OF assms] get_view [OF assms(1)] by metis

lemma Get_present_Live:
  assumes "inv s" and "view s k = Some x"
  obtains s' where "Get S Live k s = (Inr x, s')" "inv s'" "view s' = view s"
  using get_present [OF assms] get_view [OF assms(1)] by metis

lemma recover_loop_ends:
  assumes "inv s" and "log_inv (view s) (w_path w) (w_epoch w) ds (logRoot w) ver" and "read_upto ds n w"
    and "unat frm \<le> length ds" and "length ds - unat n < N"
  shows "\<exists>w' s'. recover_loop S Live N frm n w s = (None, w', s')"
  using assms
proof (induction N arbitrary: n w s)
  case (Suc N)
  let ?k = "deltaKey (w_path w) (w_epoch w) n"
  note li = Suc.prems(2)
  show ?case
  proof (cases "unat n < length ds")
    case False
    then have "unat n = length ds" "view s ?k = None"
      using Suc.prems(3) log_invD(7) [OF li, of n] by (auto simp: read_upto_def)
    moreover then have "\<not> n < frm" using Suc.prems(4) by (simp add: word_less_nat_alt)
    moreover obtain e s1 where "Get S Live ?k s = (Inl e, s1)" "errors_Is e ErrNotExist"
      using get_absent [OF Suc.prems(1) \<open>view s ?k = None\<close>] by blast
    ultimately show ?thesis by simp
  next
    case True
    then have "delta_holds (view s) (w_path w) (w_epoch w) n (ds ! unat n)"
      using log_invD(6) [OF li _ True] Suc.prems(3) by (simp add: read_upto_def)
    then obtain d u D where k: "view s ?k = Some (d, u)" and D: "decode_delta d = Inr D" "dm_Groups D = ds ! unat n"
      by (auto simp: delta_holds_def)
    obtain s1 where g: "Get S Live ?k s = (Inr (d, u), s1)" and v1: "inv s1" "view s1 = view s"
      using Get_present_Live [OF Suc.prems(1) k] .
    have ne: "ds ! unat n \<noteq> []" using log_invD(10) [OF li] True by simp
    let ?w = "w\<lparr>openGroups := openGroups w @ ds ! unat n, openBytes := i64 (openBytes w + int (length d)),
      w_last := last (ds ! unat n), hasLast := True\<rparr>"
    have "unat (n + 1) = Suc (unat n)" using word_next True log_inv_length [OF li] .
    then have "length ds - unat (n + 1) < N" using Suc.prems(5) True by simp
    moreover have "read_upto ds (n + 1) ?w"
      using read_upto_step [OF Suc.prems(3) True log_inv_length [OF li] ne] .
    ultimately obtain w' s' where "recover_loop S Live N frm (n + 1) ?w s1 = (None, w', s')"
      using Suc.IH [of s1 ?w "n + 1"] v1 li Suc.prems(4) by auto
    then show ?thesis using g D ne by (simp add: Let_def)
  qed
qed simp

lemma recover_ends:
  assumes i: "inv s" and li: "log_inv (view s) (w_path w) (w_epoch w) ds (logRoot w) (logVersion w)"
    and fresh: "openGroups w = []" "\<not> hasLast w" and N: "length ds < N"
  shows "\<exists>w' s'. recover S Live N w s = (None, w', s')"
proof -
  let ?k = "headKey (w_path w) (w_epoch w)" and ?o = "OpenFrom (logRoot w)"
  have o: "unat ?o \<le> length ds" using log_invD(3) [OF li] .
  have loop: "\<exists>w' s'. recover_loop S Live N frm ?o w1 s1 = (None, w', s')"
    if "inv s1" "view s1 = view s" "w1 = w \<or> (\<exists>hv. w1 = w\<lparr>headVersion := hv\<rparr>)" "unat frm \<le> length ds" for frm s1 w1
  proof (rule recover_loop_ends [OF that(1) _ _ that(4)])
    show "log_inv (view s1) (w_path w1) (w_epoch w1) ds (logRoot w1) (logVersion w)" using that li by auto
    show "read_upto ds ?o w1" using that(3) fresh o by (auto simp: read_upto_def)
  qed (use N in simp)
  show ?thesis
  proof (cases "view s ?k")
    case None
    then obtain e s1 where g: "Get S Live ?k s = (Inl e, s1)" "errors_Is e ErrNotExist" "inv s1" "view s1 = view s"
      using Get_absent_Live [OF i] by blast
    then have "fetchHead S Live (w_path w) (w_epoch w) s = (Inl e, s1)" by (simp add: fetchHead_def)
    then show ?thesis using loop [OF g(3,4), of w ?o] g(2) o by (auto simp: recover_def Let_def)
  next
    case (Some x)
    obtain d u where x: "x = (d, u)" by (cases x)
    obtain h where h: "decode_head d = Inr h" "unat (h_Delta h) < length ds"
      using log_invD(9) [OF li] Some x by (auto simp: head_below_def)
    obtain s1 where g: "Get S Live ?k s = (Inr (d, u), s1)" "inv s1" "view s1 = view s"
      using Get_present_Live [OF i] Some x by metis
    then have f: "fetchHead S Live (w_path w) (w_epoch w) s = (Inr (h, u), s1)" using h by (simp add: fetchHead_def)
    have "\<exists>w' s'. recover_loop S Live N (if h_Delta h \<ge> ?o then h_Delta h else ?o) ?o (w\<lparr>headVersion := u\<rparr>) s1 = (None, w', s')"
      by (rule loop [OF g(2,3)]) (use h o in auto)
    then show ?thesis using f by (auto simp: recover_def Let_def)
  qed
qed

lemma reloadIfStale_ends:
  assumes i: "inv s" and wi: "writer_inv (view s) w ds" and N: "length ds < N"
  shows "\<exists>w' s'. reloadIfStale S Live N w s = (None, w', s')"
proof (cases "stale w")
  case True
  then obtain L ver where li: "log_inv (view s) (w_path w) (w_epoch w) ds L ver"
    using wi by (auto simp: writer_inv_def)
  obtain s1 where f: "fetchEpochLog S Live (w_path w) (w_epoch w) s = (Inr (L, ver), s1)" "inv s1" "view s1 = view s"
    using fetchEpochLog_Live [OF i log_invD(1) [OF li]] by blast
  let ?w = "w\<lparr>logRoot := L, logVersion := ver, openGroups := [], openBytes := 0, w_last := zero_GroupInfo, hasLast := False\<rparr>"
  have "\<exists>w' s'. recover S Live N ?w s1 = (None, w', s')"
    using recover_ends [OF f(2), of ?w ds N] li f(3) N by simp
  then show ?thesis using True f by (auto simp: reloadIfStale_def Let_def)
qed (simp add: reloadIfStale_def)

end

section \<open>Seals and commits succeed\<close>

context reliable_store
begin

lemma Create_not_failed:
  assumes "inv s" and "Create S Live k d s = (r, s')"
  shows "\<not> (case r of Inl err \<Rightarrow> \<not> errors_Is err ErrExist | Inr _ \<Rightarrow> False)"
  using create_absent [OF assms(1), of k d] create_present [OF assms(1), of k d] assms(2)
  by (cases "view s k = None") auto

lemma updateLogRoot_succeeds:
  assumes "inv (objs W)" and "log_at (view (objs W)) (w_path w) (w_epoch w) L (logVersion w)"
  shows "\<exists>w' W'. updateLogRoot S Live f w W = (None, w', W')"
proof -
  have "swap_matches (view (objs W) (epochLogKey (w_path w) (w_epoch w))) (logVersion w)"
    using assms(2) by (auto simp: log_at_def swap_matches_def)
  from swap_ok [OF assms(1) this, of "encode_logRoot (f (logRoot w))"] show ?thesis
    by (auto simp: updateLogRoot_def on_store_def Let_def)
qed

lemma seal_succeeds:
  assumes i: "inv (objs W)" and sy: "synced (view (objs W)) w ds"
  shows "\<exists>w' W'. seal S Live w W = (None, w', W')"
proof (cases "openGroups w = []")
  case False
  let ?L = "logRoot w" and ?W = "W\<lparr>ticks := Suc (ticks W)\<rparr>"
  let ?k = "sealedKey (w_path w) (w_epoch w) (OpenFrom ?L) (nextDelta w - 1)"
  define M where "M = \<lparr>sm_Version = manifestVersion, sm_Track = w_path w, sm_Epoch = w_epoch w,
    sm_Seq = of_nat (length (Sealed ?L)) + 1, sm_FirstDelta = OpenFrom ?L, sm_LastDelta = nextDelta w - 1,
    sm_Groups = openGroups w, SealedAt = w_now w (ticks W)\<rparr>"
  obtain y s1 where cr: "Create S Live ?k (encode_sealed M) (objs W) = (y, s1)" by fastforce
  have at: "log_at (view (objs W)) (w_path w) (w_epoch w) ?L (logVersion w)" using log_invD(1) [OF synced_log [OF sy]] .
  have "view s1 (epochLogKey (w_path w) (w_epoch w)) = view (objs W) (epochLogKey (w_path w) (w_epoch w))"
    using create_Inr [OF i] create_Inl [OF i] cr by (cases y) (metis fun_upd_other key_neq)+
  then have at1: "log_at (view s1) (w_path w) (w_epoch w) ?L (logVersion w)" using at log_at_cong by blast
  have up: "\<exists>w' W'. updateLogRoot S Live f w (?W\<lparr>objs := s1\<rparr>) = (None, w', W')" for f
    by (rule updateLogRoot_succeeds) (use create_inv [OF i cr] at1 in auto)
  then obtain w2 W2 where "updateLogRoot S Live (\<lambda>root. root\<lparr>Sealed := Sealed root @ [summarize M ?k],
      OpenFrom := nextDelta w - 1 + 1\<rparr>) w (?W\<lparr>objs := s1\<rparr>) = (None, w2, W2)" by blast
  then show ?thesis
    using False cr Create_not_failed [OF i cr] by (simp add: seal_def now_def on_store_def Let_def M_def split: sum.splits)
qed (simp add: seal_def)

end

context reliable_store
begin

lemma commit_delta_succeeds:
  assumes i: "inv (objs W)" and ok: "writer_ok w" "\<not> stale w"
    and sy: "synced (view (objs W)) w ds" and row: "row_wf (w_path w) (w_epoch w) g" "payload_held (view (objs W)) (w_path w) g"
    and order: "ds \<noteq> [] \<longrightarrow> mediaEnd (last (concat ds)) \<le> MediaTime g" and room: "int (Suc (length (concat ds))) \<le> MaxInt64"
  shows "\<exists>w' W'. commit_delta S Live g w W = ((g, None), w', W')"
proof -
  let ?p = "w_path w" and ?e = "w_epoch w" and ?W = "W\<lparr>ticks := Suc (ticks W)\<rparr>"
  let ?k = "deltaKey ?p ?e (nextDelta w)"
  define D where "D = \<lparr>dm_Version = manifestVersion, dm_Seq = nextDelta w, dm_Groups = [g], CommittedAt = w_now w (ticks W)\<rparr>"
  let ?d = "encode_delta D"
  note li = synced_log [OF sy]
  have n: "unat (nextDelta w) = length ds" and og: "openGroups w = rows_between ds (unat (OpenFrom (logRoot w))) (length ds)"
    using sy by (auto simp: synced_def)
  have D: "delta_ok D" "dm_Version D \<le> manifestVersion" "dm_Groups D = [g]"
    using ok row by (auto simp: D_def delta_ok_def writer_ok_def clock_ok_def row_wf_def)
  have "view (objs W) ?k = None" using log_invD(7) [OF li, of "nextDelta w"] n by simp
  then obtain u s1 where cr: "Create S Live ?k ?d (objs W) = (Inr u, s1)" "inv s1" "view s1 = (view (objs W))(?k \<mapsto> (?d, u))"
    using create_Live [OF i] by metis
  let ?W1 = "?W\<lparr>objs := s1\<rparr>"
  obtain rh w1 W1 where h: "publishHead S Live (ID g) (booked w g ?d) ?W1 = (rh, w1, W1)" using prod_cases3 by blast
  have "inv (objs W1) \<and> synced (view (objs W1)) w1 (ds @ [[g]])"
    using publish_after_commit [OF h _ ok(1) _ n og log_invD(3) [OF li]] cr(2,3) log_inv_commit [OF li n room D row order, of u]
    by simp
  then obtain w2 W2 where "seal S Live w1 W1 = (None, w2, W2)" using seal_succeeds by blast
  then have "\<exists>w' W'. after_commit S Live g ?d w ?W1 = ((g, None), w', W')"
    using h by (auto simp: after_commit_def booked_def Let_def)
  then show ?thesis using cr by (simp add: commit_delta_def now_def on_store_def D_def Let_def)
qed

text \<open>What a caller has to respect for an append to commit.\<close>

lemma AppendGroup_succeeds:
  assumes i: "inv (objs W)" and wi: "writer_inv (view (objs W)) w ds" and N: "length ds < N"
    and meta: "meta_ok meta payload" and room: "int (Suc (length (concat ds))) \<le> MaxInt64"
    and valid: "validate_GroupInfo (meta\<lparr>ID := NewGroupID (w_epoch w) (Sequence (ID meta))\<rparr>) = None"
    and free: "view (objs W) (groupKey (w_path w) (NewGroupID (w_epoch w) (Sequence (ID meta)))) = None"
    and order: "ds \<noteq> [] \<longrightarrow> ID (last (concat ds)) \<noteq> NewGroupID (w_epoch w) (Sequence (ID meta)) \<and>
      mediaEnd (last (concat ds)) \<le> MediaTime meta"
  shows "\<exists>g w' W'. AppendGroup S Live N meta payload w W = ((g, None), w', W')"
proof -
  let ?m = "meta\<lparr>ID := NewGroupID (w_epoch w) (Sequence (ID meta))\<rparr>"
  obtain w1 s1 where rl: "reloadIfStale S Live N w (objs W) = (None, w1, s1)"
    using reloadIfStale_ends [OF i wi N] by blast
  from reloadIfStale_inv [OF rl i wi] have k: "inv s1" "view s1 = view (objs W)" "same_writer w w1" "\<not> stale w1"
    "writer_ok w1" "synced (view s1) w1 ds" by (auto simp: writer_inv_def)
  obtain m2 W2 where st: "stamp w1 ?m (W\<lparr>objs := s1\<rparr>) = (m2, W2)" by fastforce
  have m2: "m2 = ?m\<lparr>Wallclock := Wallclock m2\<rparr>" and W2: "objs W2 = s1"
    and wp: "0 \<le> Wallclock m2 \<and> is_i64 (Wallclock m2)"
    using st k(3,5) valid meta
    by (auto simp: stamp_def now_def same_writer_def writer_ok_def clock_ok_def validate_GroupInfo_def meta_ok_def
        typed_GroupInfo_def split: if_splits)
  let ?row = "committed_row w meta payload (Wallclock m2)"
  have row: "m2\<lparr>ObjectKey := groupKey (w_path w1) (ID m2), Size := int (length payload)\<rparr> = ?row"
    using k(3) by (subst (1 2) m2) (simp add: committed_row_def same_writer_def Let_def)
  have key: "ID m2 = NewGroupID (w_epoch w) (Sequence (ID meta))" "MediaTime m2 = MediaTime meta"
    by (subst m2, simp)+
  have id: "ID ?row = ID m2" "MediaTime ?row = MediaTime meta" "ObjectKey ?row = groupKey (w_path w) (ID m2)"
    "Size ?row = int (length payload)"
    using key by (simp_all add: committed_row_def Let_def)
  have wf: "row_wf (w_path w1) (w_epoch w1) ?row"
    using committed_row_wf [of w meta payload "Wallclock m2"] k(3,5) meta wp valid same_writer_ok [OF k(3)]
    by (simp add: same_writer_def)
  have chk: "\<not> (hasLast w1 \<and> ID m2 = ID (w_last w1))" "checkOrder w1 m2 = None"
    using k(6) order key by (auto simp: synced_def checkOrder_def)
  have "view s1 (groupKey (w_path w) (ID m2)) = None" using free k(2) key by simp
  then obtain u s2 where cr: "Create S Live (groupKey (w_path w) (ID m2)) payload s1 = (Inr u, s2)" "inv s2"
      "view s2 = (view s1)(groupKey (w_path w) (ID m2) \<mapsto> (payload, u))"
    using create_Live [OF k(1)] by metis
  have pl: "payload_held (view s2) (w_path w1) ?row" using cr(3) k(3) id by (simp add: payload_held_def same_writer_def)
  have li2: "log_inv (view s2) (w_path w1) (w_epoch w1) ds (logRoot w1) (logVersion w1)"
    using log_inv_payload [OF synced_log [OF k(6)], of "ID m2"] cr(3) free k(2,3) key by (simp add: same_writer_def)
  have sy2: "synced (view s2) w1 ds" using k(6) li2 by (simp add: synced_def)
  have "\<exists>w' W'. commit_delta S Live ?row w1 (W2\<lparr>objs := s2\<rparr>) = ((?row, None), w', W')"
    by (rule commit_delta_succeeds [OF _ k(5,4) _ wf _ _ room]) (use sy2 pl cr(2) order id in simp_all)
  then have "\<exists>g w' W'. append_checked S Live m2 payload w1 W2 = ((g, None), w', W')"
    using chk cr(1) W2 k(3) row id(3) by (auto simp: append_checked_def on_store_def Let_def same_writer_def)
  then show ?thesis using valid rl st by (auto simp: AppendGroup_steps Let_def)
qed

text \<open>A group object already stored under the sequence: nothing is written, and the caller learns why.\<close>

lemma AppendGroup_collides:
  assumes i: "inv (objs W)" and wi: "writer_inv (view (objs W)) w ds" and N: "length ds < N"
    and valid: "validate_GroupInfo (meta\<lparr>ID := NewGroupID (w_epoch w) (Sequence (ID meta))\<rparr>) = None"
    and taken: "view (objs W) (groupKey (w_path w) (NewGroupID (w_epoch w) (Sequence (ID meta)))) \<noteq> None"
    and order: "ds \<noteq> [] \<longrightarrow> ID (last (concat ds)) \<noteq> NewGroupID (w_epoch w) (Sequence (ID meta)) \<and>
      mediaEnd (last (concat ds)) \<le> MediaTime meta"
  shows "\<exists>g err w' W'. AppendGroup S Live N meta payload w W = ((g, err), w', W') \<and> isGroupObjectCollision err \<and>
    inv (objs W') \<and> view (objs W') = view (objs W) \<and> writer_inv (view (objs W)) w' ds \<and> same_writer w w'"
proof -
  let ?m = "meta\<lparr>ID := NewGroupID (w_epoch w) (Sequence (ID meta))\<rparr>"
  obtain w1 s1 where rl: "reloadIfStale S Live N w (objs W) = (None, w1, s1)"
    using reloadIfStale_ends [OF i wi N] by blast
  from reloadIfStale_inv [OF rl i wi] have k: "inv s1" "view s1 = view (objs W)" "same_writer w w1" "\<not> stale w1"
    "writer_ok w1" "synced (view s1) w1 ds" by (auto simp: writer_inv_def)
  obtain m2 W2 where st: "stamp w1 ?m (W\<lparr>objs := s1\<rparr>) = (m2, W2)" by fastforce
  have key: "ID m2 = NewGroupID (w_epoch w) (Sequence (ID meta))" "MediaTime m2 = MediaTime meta" and W2: "objs W2 = s1"
    using st by (auto simp: stamp_def now_def split: if_splits)
  have chk: "\<not> (hasLast w1 \<and> ID m2 = ID (w_last w1))" "checkOrder w1 m2 = None"
    using k(6) order key by (auto simp: synced_def checkOrder_def)
  have "view s1 (groupKey (w_path w) (ID m2)) \<noteq> None" using taken k(2) key by simp
  then obtain e s2 where cr: "Create S Live (groupKey (w_path w) (ID m2)) payload s1 = (Inl e, s2)" "errors_Is e ErrExist"
    using create_present [OF k(1)] by blast
  have v2: "inv s2" "view s2 = view s1"
    using create_inv [OF k(1) cr(1)] create_Inl [OF k(1) cr(1)] taken k(2) key by auto
  have "append_checked S Live m2 payload w1 W2 =
      ((zero_GroupInfo, Some (wrap [ErrGroupExists] e)), w1\<lparr>stale := True\<rparr>, W2\<lparr>objs := s2\<rparr>)"
    unfolding append_checked_def if_not_P [OF chk(1)] using chk(2) cr W2 k(3)
    by (simp add: on_store_def Let_def same_writer_def)
  moreover have "writer_inv (view (objs W)) (w1\<lparr>stale := True\<rparr>) ds"
    using stale_writer_inv [OF synced_log [OF k(6)] k(5)] k(2) by simp
  moreover have "isGroupObjectCollision (Some (wrap [ErrGroupExists] e))"
    using cr(2) by (simp add: isGroupObjectCollision_def)
  ultimately show ?thesis
    using valid rl st v2 k(2,3) by (auto simp: AppendGroup_steps Let_def same_writer_def)
qed

end

section \<open>The sequence \<open>Append\<close> takes\<close>

text \<open>The sequence after the last committed one, and the media time where the next group starts.\<close>

definition next_seq :: "GroupInfo list list \<Rightarrow> u64" where
  "next_seq ds = (if ds = [] then 0 else Sequence (ID (last (concat ds))) + 1)"

definition next_start :: "GroupInfo list list \<Rightarrow> int" where
  "next_start ds = (if ds = [] then 0 else mediaEnd (last (concat ds)))"

lemma next_seq_synced:
  "synced v w ds \<Longrightarrow> (if hasLast w then Sequence (ID (w_last w)) + 1 else 0) = next_seq ds"
  "synced v w ds \<Longrightarrow> (if hasLast w then mediaEnd (w_last w) else 0) = next_start ds"
  by (auto simp: synced_def next_seq_def next_start_def)

definition append_row :: "u64 \<Rightarrow> int \<Rightarrow> int \<Rightarrow> int \<Rightarrow> GroupInfo" where
  "append_row seq mediaStart duration wallclock = zero_GroupInfo\<lparr>ID := NewGroupID 0 seq, MediaTime := mediaStart,
     Duration := duration, Wallclock := wallclock\<rparr>"

lemma append_loop_step:
  assumes "reloadIfStale S c N w (objs W) = (None, w1, s1)" and "synced v w1 ds"
    and "AppendGroup S c N (append_row (max (next_seq ds) floor) (next_start ds) duration wallclock) payload w1 (W\<lparr>objs := s1\<rparr>) =
      ((g, err), w2, W2)"
  shows "append_loop S c N duration payload wallclock left floor w W =
    (if left = 0 \<or> \<not> isGroupObjectCollision err then ((g, err), w2, W2)
     else append_loop S c N duration payload wallclock (left - 1) (max (next_seq ds) floor + 1) w2 W2)"
  using assms(1,3) next_seq_synced [OF assms(2)]
  by (subst append_loop.simps) (cases left; simp add: append_row_def Let_def)

lemma append_row_valid:
  assumes "row \<in> {append_row seq (next_start ds) duration wc}" and "0 \<le> duration" "is_i64 duration"
    "next_start ds + duration \<le> MaxInt64" and "0 \<le> wc" "is_i64 wc" and "writer_ok w"
    and "int (length payload) \<le> MaxInt64"
  shows "meta_ok row payload" and "validate_GroupInfo (row\<lparr>ID := NewGroupID (w_epoch w) (Sequence (ID row))\<rparr>) = None"
proof -
  have st: "is_i64 (next_start ds)" by (simp add: next_start_def i64_bounds(3) MinInt64_def MaxInt64_def mediaEnd_def)
      (use mediaEnd_i64 in \<open>auto simp: i64_bounds mediaEnd_def\<close>)
  have t: "typed_GroupInfo (row\<lparr>ID := i\<rparr>)" for i
    using assms(1,3,6) st by (auto simp: append_row_def typed_GroupInfo_def zero_GroupInfo_def i64_bounds)
  show "meta_ok row payload"
    using assms(1,8) t [of "ID row"] by (auto simp: meta_ok_def append_row_def zero_GroupInfo_def)
  have "Epoch (NewGroupID (w_epoch w) x) \<noteq> 0" for x using assms(7) by (simp add: writer_ok_def)
  then show "validate_GroupInfo (row\<lparr>ID := NewGroupID (w_epoch w) (Sequence (ID row))\<rparr>) = None"
    using validate_GroupInfo_None [OF t] assms by (auto simp: append_row_def zero_GroupInfo_def)
qed

lemma append_row_order:
  assumes "synced v w ds" and "max (next_seq ds) floor = q" and "q \<le> groupSeqMask"
  shows "ds \<noteq> [] \<longrightarrow> ID (last (concat ds)) \<noteq> NewGroupID (w_epoch w) (Sequence (ID (append_row q (next_start ds) d wc))) \<and>
    mediaEnd (last (concat ds)) \<le> MediaTime (append_row q (next_start ds) d wc)"
proof
  assume ne: "ds \<noteq> []"
  let ?i = "ID (last (concat ds))"
  have "unat (Sequence ?i) < 2 ^ 40" using Sequence_le le_groupSeqMask by blast
  then have "unat (Sequence ?i + 1) = Suc (unat (Sequence ?i))" by (rule word_next) simp
  moreover have "Sequence ?i + 1 \<le> q" using assms(2) ne by (auto simp: next_seq_def)
  ultimately have "Sequence ?i \<noteq> q" by (auto simp: word_le_nat_alt)
  then have "?i \<noteq> NewGroupID (w_epoch w) q" using Sequence_New [OF assms(3)] by metis
  then show "?i \<noteq> NewGroupID (w_epoch w) (Sequence (ID (append_row q (next_start ds) d wc))) \<and>
      mediaEnd (last (concat ds)) \<le> MediaTime (append_row q (next_start ds) d wc)"
    using assms(3) ne by (simp add: append_row_def next_start_def)
qed

context reliable_store
begin

lemma reload_in_step:
  assumes "inv (objs W)" and "writer_inv (view (objs W)) w ds" and "length ds < N"
  obtains w1 s1 where "reloadIfStale S Live N w (objs W) = (None, w1, s1)" "inv s1" "view s1 = view (objs W)" "same_writer w w1"
    "writer_inv (view s1) w1 ds" "writer_ok w1" "synced (view s1) w1 ds"
proof -
  obtain w1 s1 where rl: "reloadIfStale S Live N w (objs W) = (None, w1, s1)" using reloadIfStale_ends [OF assms] by blast
  from reloadIfStale_inv [OF rl assms(1,2)] show thesis using that [OF rl] by (auto simp: writer_inv_def)
qed

text \<open>One turn of the loop, when the object of the sequence is free and when it is taken.\<close>

lemma append_loop_takes:
  assumes i: "inv (objs W)" and wi: "writer_inv (view (objs W)) w ds" and N: "length ds < N"
    and dur: "0 \<le> duration" "is_i64 duration" "next_start ds + duration \<le> MaxInt64" and wc: "0 \<le> wc" "is_i64 wc"
    and pl: "int (length payload) \<le> MaxInt64" and room: "int (Suc (length (concat ds))) \<le> MaxInt64"
    and m: "max (next_seq ds) floor = q" and q: "q \<le> groupSeqMask"
    and free: "view (objs W) (groupKey (w_path w) (NewGroupID (w_epoch w) q)) = None"
  shows "\<exists>g w' W'. append_loop S Live N duration payload wc left floor w W = ((g, None), w', W') \<and>
    ID g = NewGroupID (w_epoch w) q \<and> MediaTime g = next_start ds \<and> Duration g = duration \<and>
    Size g = int (length payload) \<and> inv (objs W') \<and> writer_inv (view (objs W')) w' (ds @ [[g]]) \<and> same_writer w w'"
proof -
  obtain w1 s1 where rl: "reloadIfStale S Live N w (objs W) = (None, w1, s1)"
    and k: "inv s1" "view s1 = view (objs W)" "same_writer w w1" "writer_inv (view s1) w1 ds" "writer_ok w1" "synced (view s1) w1 ds"
    by (rule reload_in_step [OF i wi N])
  let ?row = "append_row q (next_start ds) duration wc" and ?W = "W\<lparr>objs := s1\<rparr>"
  note ok = append_row_valid [OF singletonI dur wc k(5) pl, where seq = q]
  have id: "Sequence (ID ?row) = q" using q by (simp add: append_row_def)
  note ord = append_row_order [OF k(6) m q, of duration wc]
  have f: "view (objs ?W) (groupKey (w_path w1) (NewGroupID (w_epoch w1) (Sequence (ID ?row)))) = None"
    using free id k(2,3) by (simp add: same_writer_def)
  obtain g w2 W2 where ap: "AppendGroup S Live N ?row payload w1 ?W = ((g, None), w2, W2)"
    using AppendGroup_succeeds [OF _ _ N ok(1) room ok(2) f] ord k(1,4) by auto
  from AppendGroup_keeps [OF ap _ _ ok(1) room] k(1,4)
  obtain c where g: "g = committed_row w1 ?row payload c" "inv (objs W2)" "same_writer w1 w2"
    "writer_inv (view (objs W2)) w2 (ds @ [[g]])" by auto
  have "append_loop S Live N duration payload wc left floor w W = ((g, None), w2, W2)"
    using append_loop_step [OF rl k(6), of floor duration wc payload g None w2 W2 left] ap m
    by (simp add: isGroupObjectCollision_def)
  then show ?thesis
    using g id k(3) same_writer_trans [OF k(3)] by (auto simp: committed_row_def append_row_def same_writer_def Let_def)
qed

lemma append_loop_moves_on:
  assumes i: "inv (objs W)" and wi: "writer_inv (view (objs W)) w ds" and N: "length ds < N"
    and dur: "0 \<le> duration" "is_i64 duration" "next_start ds + duration \<le> MaxInt64" and wc: "0 \<le> wc" "is_i64 wc"
    and pl: "int (length payload) \<le> MaxInt64" and m: "max (next_seq ds) floor = q" and q: "q \<le> groupSeqMask" and left: "left \<noteq> 0"
    and taken: "view (objs W) (groupKey (w_path w) (NewGroupID (w_epoch w) q)) \<noteq> None"
  obtains w2 W2 where "append_loop S Live N duration payload wc left floor w W = append_loop S Live N duration payload wc (left - 1) (q + 1) w2 W2"
    "inv (objs W2)" "view (objs W2) = view (objs W)" "writer_inv (view (objs W)) w2 ds" "same_writer w w2"
proof -
  obtain w1 s1 where rl: "reloadIfStale S Live N w (objs W) = (None, w1, s1)"
    and k: "inv s1" "view s1 = view (objs W)" "same_writer w w1" "writer_inv (view s1) w1 ds" "writer_ok w1" "synced (view s1) w1 ds"
    by (rule reload_in_step [OF i wi N])
  let ?row = "append_row q (next_start ds) duration wc" and ?W = "W\<lparr>objs := s1\<rparr>"
  note ok = append_row_valid [OF singletonI dur wc k(5) pl, where seq = q]
  have id: "Sequence (ID ?row) = q" using q by (simp add: append_row_def)
  note ord = append_row_order [OF k(6) m q, of duration wc]
  have t: "view (objs ?W) (groupKey (w_path w1) (NewGroupID (w_epoch w1) (Sequence (ID ?row)))) \<noteq> None"
    using taken id k(2,3) by (simp add: same_writer_def)
  obtain g err w2 W2 where ap: "AppendGroup S Live N ?row payload w1 ?W = ((g, err), w2, W2)"
    and c: "isGroupObjectCollision err" "inv (objs W2)" "view (objs W2) = view s1" "writer_inv (view s1) w2 ds" "same_writer w1 w2"
    using AppendGroup_collides [of ?W w1 ds N ?row payload, OF _ _ N ok(2) t ord] k(1,4) by auto
  have "append_loop S Live N duration payload wc left floor w W = append_loop S Live N duration payload wc (left - 1) (q + 1) w2 W2"
    using append_loop_step [OF rl k(6), of floor duration wc payload g err w2 W2 left] ap c(1) left m by simp
  then show thesis using that c k(2) same_writer_trans [OF k(3) c(5)] by simp
qed

lemma append_loop_skips:
  assumes "inv (objs W)" and "writer_inv (view (objs W)) w ds" and N: "length ds < N"
    and dur: "0 \<le> duration" "is_i64 duration" "next_start ds + duration \<le> MaxInt64" and wc: "0 \<le> wc" "is_i64 wc"
    and pl: "int (length payload) \<le> MaxInt64" and room: "int (Suc (length (concat ds))) \<le> MaxInt64"
    and "max (next_seq ds) floor = q" and "unat q + k < 2 ^ 40" and "k \<le> left"
    and "\<And>j. j < k \<Longrightarrow> view (objs W) (groupKey (w_path w) (NewGroupID (w_epoch w) (q + of_nat j))) \<noteq> None"
    and "view (objs W) (groupKey (w_path w) (NewGroupID (w_epoch w) (q + of_nat k))) = None"
  shows "\<exists>g w' W'. append_loop S Live N duration payload wc left floor w W = ((g, None), w', W') \<and>
    ID g = NewGroupID (w_epoch w) (q + of_nat k) \<and> MediaTime g = next_start ds \<and> Duration g = duration \<and>
    Size g = int (length payload) \<and> inv (objs W') \<and> writer_inv (view (objs W')) w' (ds @ [[g]]) \<and> same_writer w w'"
  using assms(1,2,11-)
proof (induction k arbitrary: W w floor q left)
  case (0 W w floor q left)
  then show ?case using append_loop_takes [OF 0(1,2) N dur wc pl room 0(3)] by (simp add: le_groupSeqMask)
next
  case (Suc k W w floor q left)
  have q: "q \<le> groupSeqMask" and left: "left \<noteq> 0" "k \<le> left - 1" using Suc.prems(4,5) by (auto simp: le_groupSeqMask)
  obtain w2 W2 where step: "append_loop S Live N duration payload wc left floor w W =
      append_loop S Live N duration payload wc (left - 1) (q + 1) w2 W2"
    and c: "inv (objs W2)" "view (objs W2) = view (objs W)" "writer_inv (view (objs W)) w2 ds" "same_writer w w2"
    by (rule append_loop_moves_on [OF Suc.prems(1,2) N dur wc pl Suc.prems(3) q left(1)]) (use Suc.prems(6) [of 0] in simp_all)
  have q1: "unat (q + 1) = Suc (unat q)" by (rule word_next [of q "2 ^ 40"]) (use Suc.prems(4) in simp_all)
  have w2: "w_path w2 = w_path w" "w_epoch w2 = w_epoch w" using c(4) by (auto simp: same_writer_def)
  have eq: "q + 1 + of_nat j = q + of_nat (Suc j)" for j by simp
  have "\<exists>g w' W'. append_loop S Live N duration payload wc (left - 1) (q + 1) w2 W2 = ((g, None), w', W') \<and>
    ID g = NewGroupID (w_epoch w2) (q + 1 + of_nat k) \<and> MediaTime g = next_start ds \<and> Duration g = duration \<and>
    Size g = int (length payload) \<and> inv (objs W') \<and> writer_inv (view (objs W')) w' (ds @ [[g]]) \<and> same_writer w2 w'"
  proof (rule Suc.IH [OF c(1)])
    have "next_seq ds \<le> q" using Suc.prems(3) by auto
    then show "max (next_seq ds) (q + 1) = q + 1" using q1 by (simp add: max_def word_le_nat_alt)
    show "view (objs W2) (groupKey (w_path w2) (NewGroupID (w_epoch w2) (q + 1 + of_nat j))) \<noteq> None" if "j < k" for j
      using Suc.prems(6) [of "Suc j"] that c(2) unfolding w2 eq by simp
    show "view (objs W2) (groupKey (w_path w2) (NewGroupID (w_epoch w2) (q + 1 + of_nat k))) = None"
      using Suc.prems(7) c(2) unfolding w2 eq by simp
  qed (use c Suc.prems(4) q1 left in simp_all)
  then show ?case unfolding step eq w2 using same_writer_trans [OF c(4)] by blast
qed

lemma Append_ends:
  assumes i: "inv (objs W)" and wi: "writer_inv (view (objs W)) w ds" and N: "length ds < N"
    and dur: "0 \<le> duration" "is_i64 duration" "next_start ds + duration \<le> MaxInt64" and pl: "int (length payload) \<le> MaxInt64"
    and room: "int (Suc (length (concat ds))) \<le> MaxInt64" and k: "unat (next_seq ds) + k < 2 ^ 40" "k \<le> 16"
    and taken: "\<And>j. j < k \<Longrightarrow> view (objs W) (groupKey (w_path w) (NewGroupID (w_epoch w) (next_seq ds + of_nat j))) \<noteq> None"
    and free: "view (objs W) (groupKey (w_path w) (NewGroupID (w_epoch w) (next_seq ds + of_nat k))) = None"
  shows "\<exists>g w' W'. Append S Live N duration payload w W = ((g, None), w', W') \<and>
    ID g = NewGroupID (w_epoch w) (next_seq ds + of_nat k) \<and> MediaTime g = next_start ds \<and> Duration g = duration \<and>
    Size g = int (length payload) \<and> writer_inv (view (objs W')) w' (ds @ [[g]])"
proof -
  have clk: "0 \<le> w_now w n" "is_i64 (w_now w n)" for n
    using wi by (auto simp: writer_inv_def writer_ok_def clock_ok_def)
  let ?W = "W\<lparr>ticks := Suc (ticks W)\<rparr>"
  have "\<exists>g w' W'. append_loop S Live N duration payload (w_now w (ticks W)) 16 0 w ?W = ((g, None), w', W') \<and>
    ID g = NewGroupID (w_epoch w) (next_seq ds + of_nat k) \<and> MediaTime g = next_start ds \<and> Duration g = duration \<and>
    Size g = int (length payload) \<and> inv (objs W') \<and> writer_inv (view (objs W')) w' (ds @ [[g]]) \<and> same_writer w w'"
    by (rule append_loop_skips [OF _ _ N dur clk pl room _ k(1,2)]) (use i wi taken free in auto)
  then show ?thesis by (auto simp: Append_def now_def maxSkippedSequences_def)
qed

end

end
