(* ===== verification/Writer_Props.thy ===== *)
theory Writer_Props
  imports Writer_Live
begin

text \<open>
  What the writer promises: appends are atomic and lose nothing, recovery finds every committed row,
  seals change the layout and no row, and a new epoch starts empty beside the old ones.
\<close>

section \<open>Opening a writer\<close>

text \<open>No object of the epoch but its log exists yet.\<close>

definition fresh_epoch :: "view \<Rightarrow> TrackPath \<Rightarrow> u64 \<Rightarrow> bool" where
  "fresh_epoch v p e \<longleftrightarrow> v (headKey p e) = None \<and> (\<forall>n. v (deltaKey p e n) = None) \<and> (\<forall>a b. v (sealedKey p e a b) = None)"

lemma log_inv_new:
  "log_at v p e (new_log p e at) u \<Longrightarrow> fresh_epoch v p e \<Longrightarrow> log_inv v p e [] (new_log p e at) u"
  by (simp add: log_inv_def fresh_epoch_def new_log_def head_below_def serial_def i64_bounds)

definition track_ok :: "Track \<Rightarrow> bool" where
  "track_ok t \<longleftrightarrow> valid_utf8 (t_path t) \<and> clock_ok (t_clock t) \<and> LatestEpoch (t_root t) \<noteq> 0 \<and> LatestEpoch (t_root t) \<le> maxGroupEpoch"

lemma newWriter_fields [simp]:
  "w_path (newWriter t e sch) = t_path t" "w_epoch (newWriter t e sch) = e" "openGroups (newWriter t e sch) = []"
  "hasLast (newWriter t e sch) = False" "stale (newWriter t e sch) = False" "w_now (newWriter t e sch) = t_clock t"
  "w_schema (newWriter t e sch) = sch" "w_sealThreshold (newWriter t e sch) = t_sealThreshold t"
  by (simp_all add: newWriter_def)

context store_contract
begin

lemma Writer_Track_recovers:
  assumes r: "Writer_Track S c N t W = (Inr w, t', W')" and i: "inv (objs W)" and t: "track_ok t"
    and li: "log_inv (view (objs W)) (t_path t) (LatestEpoch (t_root t)) ds L ver"
  shows "inv (objs W') \<and> view (objs W') = view (objs W) \<and> t' = t \<and> writer_inv (view (objs W)) w ds \<and> \<not> stale w \<and>
    w_path w = t_path t \<and> w_epoch w = LatestEpoch (t_root t) \<and> w_schema w = schema (t_root t) \<and> w_now w = t_clock t"
proof -
  let ?e = "LatestEpoch (t_root t)" and ?w = "newWriter t (LatestEpoch (t_root t)) (schema (t_root t))"
  obtain x s1 where f: "fetchEpochLog S c (t_path t) ?e (objs W) = (x, s1)" by fastforce
  have v1: "inv s1" "view s1 = view (objs W)" using fetchEpochLog_view [OF f i] by auto
  have "\<not> (case x of Inl err \<Rightarrow> errors_Is err ErrEpochNotFound | Inr _ \<Rightarrow> False)"
    using fetchEpochLog_not_found [of c "t_path t" ?e "objs W" _ s1] f i log_invD(1) [OF li]
    by (cases x) (auto simp: log_at_def)
  then have run: "open_writer S c N ?w x (W\<lparr>objs := s1\<rparr>) = (Inr w, W')" and t': "t' = t"
    using r f t by (auto simp: Writer_Track_def on_store_def Let_def track_ok_def split: prod.splits)
  then obtain y where y: "x = Inr y" by (cases x) (auto simp: open_writer_def)
  then have "y = (L, ver)" using fetchEpochLog_at [of c "t_path t" ?e "objs W"] f i log_invD(1) [OF li] by (cases y) auto
  then obtain s2 where rc: "recover S c N (?w\<lparr>logRoot := L, logVersion := ver\<rparr>) s1 = (None, w, s2)" "W' = W\<lparr>objs := s2\<rparr>"
    using run y by (auto simp: open_writer_def split: prod.splits option.splits)
  from recover_syncs [OF rc(1) v1(1), of ds] li v1(2)
  have "inv s2" "view s2 = view (objs W)" "same_writer ?w w" "\<not> stale w" "synced (view (objs W)) w ds"
    by (auto simp: same_writer_def)
  then show ?thesis
    using rc(2) t' t by (auto simp: writer_inv_def writer_ok_def same_writer_def track_ok_def)
qed

end

context reliable_store
begin

lemma Writer_Track_ends:
  assumes i: "inv (objs W)" and t: "track_ok t" and N: "length ds < N"
    and li: "log_inv (view (objs W)) (t_path t) (LatestEpoch (t_root t)) ds L ver"
  shows "\<exists>w t' W'. Writer_Track S Live N t W = (Inr w, t', W')"
proof -
  let ?e = "LatestEpoch (t_root t)"
  let ?w = "(newWriter t ?e (schema (t_root t)))\<lparr>logRoot := L, logVersion := ver\<rparr>"
  obtain s1 where f: "fetchEpochLog S Live (t_path t) ?e (objs W) = (Inr (L, ver), s1)" "inv s1" "view s1 = view (objs W)"
    using fetchEpochLog_Live [OF i log_invD(1) [OF li]] by blast
  obtain w s2 where "recover S Live N ?w s1 = (None, w, s2)"
    using recover_ends [OF f(2), of ?w ds N] li f(3) N by auto
  then show ?thesis
    using f t by (simp add: Writer_Track_def on_store_def open_writer_def track_ok_def Let_def)
qed

text \<open>An epoch whose log was never written, only its root: opening the writer writes it.\<close>

lemma Writer_Track_completes:
  assumes i: "inv (objs W)" and t: "track_ok t" and N: "0 < N" and none: "view (objs W) (epochLogKey (t_path t) (LatestEpoch (t_root t))) = None"
    and fr: "fresh_epoch (view (objs W)) (t_path t) (LatestEpoch (t_root t))"
  shows "\<exists>w t' W'. Writer_Track S Live N t W = (Inr w, t', W') \<and> inv (objs W') \<and> writer_inv (view (objs W')) w [] \<and> \<not> stale w"
proof -
  let ?e = "LatestEpoch (t_root t)" and ?p = "t_path t"
  let ?k = "epochLogKey ?p ?e"
  obtain x s1 where g: "Get S Live ?k (objs W) = (Inl x, s1)" "errors_Is x ErrNotExist" "inv s1" "view s1 = view (objs W)"
    using Get_absent_Live [OF i none] .
  have f: "fetchEpochLog S Live ?p ?e (objs W) = (Inl [ErrEpochNotFound], s1)" using g by (simp add: fetchEpochLog_def)
  let ?L = "new_log ?p ?e (t_clock t (ticks W))"
  have none1: "view s1 ?k = None" using none g(4) by simp
  obtain u s2 where c: "Create S Live ?k (encode_logRoot ?L) s1 = (Inr u, s2)" "inv s2"
      "view s2 = (view s1)(?k \<mapsto> (encode_logRoot ?L, u))"
    using create_Live [OF g(3) none1] .
  have "logRoot_ok ?L" using t new_log_ok by (simp add: track_ok_def clock_ok_def)
  then have at: "log_at (view s2) ?p ?e ?L u" using c(3) by (intro new_log_at) auto
  moreover have "fresh_epoch (view s2) ?p ?e" using fr c(3) g(4) by (simp add: fresh_epoch_def)
  ultimately have li: "log_inv (view s2) ?p ?e [] ?L u" by (rule log_inv_new)
  obtain s3 where f3: "fetchEpochLog S Live ?p ?e s2 = (Inr (?L, u), s3)" "inv s3" "view s3 = view s2"
    using fetchEpochLog_Live [OF c(2) at] by blast
  let ?w = "(newWriter t ?e (schema (t_root t)))\<lparr>logRoot := ?L, logVersion := u\<rparr>"
  obtain w s4 where rc: "recover S Live N ?w s3 = (None, w, s4)"
    using recover_ends [OF f3(2), of ?w "[]" N] li f3(3) N by auto
  from recover_syncs [OF rc f3(2), of "[]"] li f3(3)
  have s: "inv s4" "view s4 = view s2" "same_writer ?w w" "\<not> stale w" "synced (view s2) w []" by (auto simp: same_writer_def)
  have "Writer_Track S Live N t W = (Inr w, t, W\<lparr>objs := s4, ticks := Suc (ticks W)\<rparr>)"
    using f t c(1) f3(1) rc
    by (simp add: Writer_Track_def on_store_def createEpochLog_def now_def advanceTrackRootLocked_def open_writer_def
        track_ok_def Let_def)
  moreover have "writer_inv (view s4) w []"
    using s t by (auto simp: writer_inv_def writer_ok_def same_writer_def track_ok_def)
  ultimately show ?thesis using s by auto
qed

end

section \<open>A new epoch\<close>

text \<open>
  The next epoch is one nobody has written to, or one whose log exists already: another producer began it, or
  a creation whose reply was lost. \<open>NewEpoch\<close> adopts such a log and counts its deltas from zero, so the
  writer is in step with it only when the epoch holds no rows yet, or when it was to reload anyway.
\<close>

definition epoch_holds :: "view \<Rightarrow> TrackPath \<Rightarrow> u64 \<Rightarrow> GroupInfo list list \<Rightarrow> bool" where
  "epoch_holds v p e ds \<longleftrightarrow> v (epochLogKey p e) = None \<and> fresh_epoch v p e \<and> ds = [] \<or> (\<exists>L u. log_inv v p e ds L u)"

lemma adopted_log:
  assumes ep: "epoch_holds v p e ds" and v1: "v1 = v \<or> v (epochLogKey p e) = None \<and>
      (\<exists>n u. v1 = v(epochLogKey p e \<mapsto> (encode_logRoot (new_log p e (clk n)), u)))"
    and some: "v1 (epochLogKey p e) \<noteq> None" and ok: "\<And>n. logRoot_ok (new_log p e (clk n))"
    and v2: "\<And>k. k \<noteq> rootKey p \<Longrightarrow> v2 k = v1 k"
  shows "\<exists>L u. log_inv v2 p e ds L u"
proof (cases "v (epochLogKey p e)")
  case None
  then have "\<not> log_inv v p e ds L u" for L u using log_invD(1) [of v p e ds L u] by (auto simp: log_at_def)
  then have fr: "fresh_epoch v p e" "ds = []" using ep by (auto simp: epoch_holds_def)
  from None v1 some obtain n u where v1': "v1 = v(epochLogKey p e \<mapsto> (encode_logRoot (new_log p e (clk n)), u))" by auto
  have "log_at v2 p e (new_log p e (clk n)) u" using v2 [of "epochLogKey p e"] v1' ok by (intro new_log_at) auto
  moreover have "fresh_epoch v2 p e" using fr(1) v2 v1' by (simp add: fresh_epoch_def)
  ultimately show ?thesis using log_inv_new fr(2) by blast
next
  case (Some x)
  then have eq: "v1 = v" using v1 by auto
  obtain L u where li: "log_inv v p e ds L u" using ep Some by (auto simp: epoch_holds_def)
  have "log_inv v2 p e ds L u"
  proof (rule log_inv_cong [OF li])
    show "payload_held v2 p g" if "payload_held v p g" for g
      using that v2 [of "groupKey p (ID g)"] v2 [of "markerKey p (ID g)"] eq by (simp add: payload_held_def)
  qed (use v2 eq in simp_all)
  then show ?thesis by blast
qed

context store_contract
begin

lemma NewEpoch_starts:
  assumes r: "NewEpoch S c t w W = (None, t', w', W')" and i: "inv (objs W)" and ok: "writer_ok w"
    and t: "t_path t = w_path w" "\<And>n. is_i64 (t_clock t n)"
    and at: "root_at (view (objs W)) (w_path w) R ver" and sy: "root_sync (view (objs W)) t"
    and iss: "issued view inv (t_rootVersion t)" and ep: "epoch_holds (view (objs W)) (w_path w) (w_epoch w + 1) ds"
  shows "inv (objs W') \<and> w_epoch w' = w_epoch w + 1 \<and> w_path w' = w_path w \<and> w_epoch w < w_epoch w' \<and> writer_ok w' \<and>
    stale w' = stale w \<and> nextDelta w' = 0 \<and> openGroups w' = [] \<and> \<not> hasLast w' \<and>
    log_inv (view (objs W')) (w_path w) (w_epoch w') ds (logRoot w') (logVersion w') \<and>
    (\<forall>k. k \<noteq> rootKey (w_path w) \<and> k \<noteq> epochLogKey (w_path w) (w_epoch w + 1) \<longrightarrow> view (objs W') k = view (objs W) k) \<and>
    (\<exists>R' ver'. root_at (view (objs W')) (w_path w) R' ver' \<and> w_epoch w' \<le> LatestEpoch R' \<and> schema R' = schema R)"
proof -
  let ?p = "w_path w" and ?e = "w_epoch w + 1"
  let ?k = "epochLogKey ?p ?e"
  have le: "?e \<le> maxGroupEpoch" using r by (auto simp: NewEpoch_def Let_def split: if_splits)
  obtain r1 t1 W1 where c: "createEpochLog S c ?e t W = (r1, t1, W1)" using prod_cases3 by blast
  have le2: "\<not> maxGroupEpoch < ?e" using le by simp
  have r1: "r1 = None" using r c le2 by (cases r1) (auto simp: NewEpoch_def Let_def)
  have p: "valid_utf8 ?p" using ok by (simp add: writer_ok_def)
  obtain v1 where v1: "v1 = view (objs W) \<or> view (objs W) ?k = None \<and>
      (\<exists>n u. v1 = (view (objs W))(?k \<mapsto> (encode_logRoot (new_log ?p ?e (t_clock t n)), u)))"
    and no: "v1 ?k = None \<Longrightarrow> r1 \<noteq> None" and adv: "advanced ?e t R v1 (r1, t1, W1)"
    using createEpochLog_advanced [OF i _ sy iss t(2) _ c, of R ver] at p t(1) by auto
  from adv obtain R' ver' where i1: "inv (objs W1)" and st: "root_step ?p ?e R v1 (view (objs W1)) R' ver'"
    and le1: "?e \<le> LatestEpoch R'" using r1 t(1) by (auto simp: advanced_def)
  have w1: "view (objs W1) k = v1 k" if "k \<noteq> rootKey ?p" for k using st that by (simp add: root_step_def)
  have v1k: "v1 k = view (objs W) k" if "k \<noteq> ?k" for k using v1 that by auto
  obtain L u where li: "log_inv (view (objs W1)) ?p ?e ds L u"
    using adopted_log [OF ep v1 _ new_log_ok [OF p t(2)], of "view (objs W1)"] w1 no r1 by blast
  obtain x s2 where f: "fetchEpochLog S c ?p ?e (objs W1) = (x, s2)" by fastforce
  have v2: "inv s2" "view s2 = view (objs W1)" using fetchEpochLog_view [OF f i1] by auto
  have "x = Inr (L, u)"
    using r c r1 le2 f fetchEpochLog_at [of c ?p ?e "objs W1"] i1 log_invD(1) [OF li]
    by (cases x) (auto simp: NewEpoch_def on_store_def Let_def)
  then have e: "w' = w\<lparr>w_epoch := ?e, logRoot := L, logVersion := u, headVersion := NoVersion,
      nextDelta := 0, openGroups := [], openBytes := 0, w_last := zero_GroupInfo, hasLast := False\<rparr>" "objs W' = s2"
    using r c r1 le2 f by (auto simp: NewEpoch_def on_store_def Let_def)
  have "unat ?e = Suc (unat (w_epoch w))"
    by (rule word_next [of _ "2 ^ 24"]) (use ok le_maxGroupEpoch in \<open>auto simp: writer_ok_def\<close>)
  then have lt: "w_epoch w < ?e" "?e \<noteq> 0" by (auto simp: word_less_nat_alt)
  have "writer_ok w'" using e ok le lt(2) by (simp add: writer_ok_def)
  moreover have "view (objs W') k = view (objs W) k" if "k \<noteq> rootKey ?p" "k \<noteq> ?k" for k
    using w1 [OF that(1)] v1k [OF that(2)] e(2) v2(2) by simp
  moreover have "root_at (view (objs W')) ?p R' ver' \<and> schema R' = schema R"
    using st e(2) v2(2) by (auto simp: root_step_def schema_def)
  ultimately show ?thesis using e v2 le1 lt li by auto
qed

end

context reliable_store
begin

lemma NewEpoch_succeeds:
  assumes i: "inv (objs W)" and ok: "writer_ok w" and le: "w_epoch w + 1 \<le> maxGroupEpoch"
    and t: "t_path t = w_path w" "\<And>n. is_i64 (t_clock t n)" and at: "root_at (view (objs W)) (t_path t) (t_root t) (t_rootVersion t)"
    and none: "view (objs W) (epochLogKey (w_path w) (w_epoch w + 1)) = None"
  shows "\<exists>t' w' W'. NewEpoch S Live t w W = (None, t', w', W')"
proof -
  let ?p = "w_path w" and ?e = "w_epoch w + 1"
  let ?k = "epochLogKey ?p ?e" and ?L = "new_log ?p ?e (t_clock t (ticks W))"
  obtain u s1 where c: "Create S Live ?k (encode_logRoot ?L) (objs W) = (Inr u, s1)" "inv s1"
      "view s1 = (view (objs W))(?k \<mapsto> (encode_logRoot ?L, u))"
    using create_Live [OF i none] .
  have Lok: "logRoot_ok ?L" using new_log_ok ok t(2) by (simp add: writer_ok_def)
  have at1: "root_at (view s1) ?p (t_root t) (t_rootVersion t)"
    using at t(1) root_at_cong [of "view s1" ?p "view (objs W)"] c(3) by simp
  have sync1: "root_sync (view s1) t" using root_sync_at [of "view s1" t] at1 t(1) by simp
  let ?W1 = "W\<lparr>ticks := Suc (ticks W), objs := s1\<rparr>"
  obtain t2 W2 where adv: "advanceTrackRootLocked S Live ?e t ?W1 = (None, t2, W2)"
  proof (cases "?e \<le> LatestEpoch (t_root t)")
    case True
    then show thesis using that by (simp add: advanceTrackRootLocked_def)
  next
    case False
    have "swap_matches (view s1 (rootKey ?p)) (t_rootVersion t)" using at1 by (auto simp: root_at_def swap_matches_def)
    then obtain v s2 where "Swap S Live (rootKey ?p) (encode_trackRoot (t_root t\<lparr>LatestEpoch := ?e\<rparr>)) (t_rootVersion t) s1 = (Inr v, s2)"
      using swap_ok [OF c(2)] by blast
    then show thesis
      using that False t(1) by (simp add: advanceTrackRootLocked_def take_bump_def bump_root_def on_store_def Let_def)
  qed
  have cr: "createEpochLog S Live ?e t W = (None, t2, W2)"
    using c(1) adv t(1) by (simp add: createEpochLog_def now_def on_store_def Let_def)
  have "advanced ?e t (t_root t) (view s1) (None, t2, W2)"
    using advance_advanced [of ?W1 t "t_root t" "t_rootVersion t" ?e Live] adv c(2) at1 sync1 issued_root [OF c(2) at1] t(1) by simp
  then have i2: "inv (objs W2)" and "view (objs W2) ?k = view s1 ?k" by (auto simp: advanced_def root_step_def)
  then have "log_at (view (objs W2)) ?p ?e ?L u" using c(3) Lok by (intro new_log_at) auto
  then obtain s3 where "fetchEpochLog S Live ?p ?e (objs W2) = (Inr (?L, u), s3)" using fetchEpochLog_Live [OF i2] by blast
  moreover have "\<not> maxGroupEpoch < ?e" using le by simp
  ultimately show ?thesis using cr by (simp add: NewEpoch_def on_store_def Let_def)
qed

end

section \<open>Appends the log contradicts\<close>

lemma writer_inv_payload: "writer_inv v w ds \<Longrightarrow> h \<in> set (concat ds) \<Longrightarrow> payload_held v (w_path w) h"
  by (auto simp: writer_inv_def synced_def log_inv_def split: if_splits)

context store_contract
begin

lemma append_checked_refuses:
  assumes r: "append_checked S c m payload w W = ((g, r), w', W')" and i: "inv (objs W)"
    and sy: "synced (view (objs W)) w ds" and ok: "writer_ok w" "\<not> stale w" and ne: "ds \<noteq> []"
    and contra: "ID m = ID (last (concat ds)) \<or> MediaTime m < mediaEnd (last (concat ds)) \<or>
      view (objs W) (groupKey (w_path w) (ID m)) \<noteq> None"
  shows "g = zero_GroupInfo \<and> inv (objs W') \<and> view (objs W') = view (objs W) \<and> writer_inv (view (objs W)) w' ds \<and>
    (\<exists>err. r = Some err \<and>
      (if ID m = ID (last (concat ds)) then err = [ErrGroupExists]
       else if MediaTime m < mediaEnd (last (concat ds)) then err = [ErrGroupOutOfOrder]
       else reliable_store S view inv \<and> c = Live \<longrightarrow> errors_Is err ErrGroupExists))"
proof -
  have last: "hasLast w" "ID (w_last w) = ID (last (concat ds))" "mediaEnd (w_last w) = mediaEnd (last (concat ds))"
    using sy ne by (auto simp: synced_def)
  have wi: "writer_inv (view (objs W)) w ds" using sy ok by (simp add: writer_inv_def)
  consider "ID m = ID (last (concat ds))" | "ID m \<noteq> ID (last (concat ds))" "MediaTime m < mediaEnd (last (concat ds))"
    | "ID m \<noteq> ID (last (concat ds))" "\<not> MediaTime m < mediaEnd (last (concat ds))" by blast
  then show ?thesis
  proof cases
    case 3
    let ?k = "groupKey (w_path w) (ID m)"
    have some: "view (objs W) ?k \<noteq> None" using contra 3 by blast
    obtain x s1 where cr: "Create S c ?k payload (objs W) = (x, s1)" by fastforce
    obtain e where x: "x = Inl e" using create_Inr [OF i] cr some by (cases x) auto
    have v: "inv s1" "view s1 = view (objs W)" 
      using create_inv [OF i cr] create_Inl [OF i cr [unfolded x]] some by auto
    have st: "writer_inv (view (objs W)) (w\<lparr>stale := True\<rparr>) ds" using stale_writer_inv [OF synced_log [OF sy] ok(1)] .
    have ex: "errors_Is e ErrExist" if "reliable_store S view inv" "c = Live"
      using reliable_store.create_present [OF that(1) i some, of payload] cr x that(2) by auto
    show ?thesis using r 3 last cr x v st wi ex
      by (auto simp: append_checked_def checkOrder_def on_store_def Let_def split: if_splits)
  qed (use r last wi i in \<open>auto simp: append_checked_def checkOrder_def\<close>)
qed

lemma AppendGroup_refuses:
  assumes r: "AppendGroup S c N meta payload w W = ((g, r), w', W')" and i: "inv (objs W)" and wi: "writer_inv (view (objs W)) w ds"
    and j: "j = NewGroupID (w_epoch w) (Sequence (ID meta))" and valid: "validate_GroupInfo (meta\<lparr>ID := j\<rparr>) = None"
    and ne: "ds \<noteq> []" and contra: "j = ID (last (concat ds)) \<or> MediaTime meta < mediaEnd (last (concat ds)) \<or>
      view (objs W) (groupKey (w_path w) j) \<noteq> None"
  shows "g = zero_GroupInfo \<and> inv (objs W') \<and> view (objs W') = view (objs W) \<and> writer_inv (view (objs W')) w' ds \<and>
    (\<exists>err. r = Some err \<and>
      (\<not> stale w \<or> reliable_store S view inv \<and> c = Live \<and> length ds < N \<longrightarrow>
        (if j = ID (last (concat ds)) then err = [ErrGroupExists]
         else if MediaTime meta < mediaEnd (last (concat ds)) then err = [ErrGroupOutOfOrder]
         else reliable_store S view inv \<and> c = Live \<longrightarrow> errors_Is err ErrGroupExists)))"
proof -
  obtain r1 w1 s1 where rl: "reloadIfStale S c N w (objs W) = (r1, w1, s1)" using prod_cases3 by blast
  note k = reloadIfStale_inv [OF rl i wi]
  show ?thesis
  proof (cases r1)
    case (Some err)
    have "\<not> (\<not> stale w \<or> reliable_store S view inv \<and> c = Live \<and> length ds < N)"
      using rl Some reliable_store.reloadIfStale_ends [where S = S and view = view and inv = inv and s = "objs W" and ds = ds] i wi
      by (fastforce simp: reloadIfStale_def)
    then show ?thesis using Some r rl k valid unfolding j by (auto simp: AppendGroup_steps Let_def)
  next
    case None
    obtain m2 W2 where st: "stamp w1 (meta\<lparr>ID := j\<rparr>) (W\<lparr>objs := s1\<rparr>) = (m2, W2)" by fastforce
    have m2: "ID m2 = j" "MediaTime m2 = MediaTime meta" "objs W2 = s1"
      using st by (auto simp: stamp_def now_def split: if_splits)
    have run: "append_checked S c m2 payload w1 W2 = ((g, r), w', W')"
      using r valid rl None st by (simp add: AppendGroup_steps Let_def flip: j)
    have w1: "inv s1" "view s1 = view (objs W)" "\<not> stale w1" "writer_ok w1" "synced (view s1) w1 ds" "w_path w1 = w_path w"
      using k None by (auto simp: writer_inv_def same_writer_def)
    show ?thesis
      using append_checked_refuses [OF run, of ds] w1 m2 ne contra by auto
  qed
qed

end

section \<open>A writer to run the properties on\<close>

definition demo_config :: Config where
  "demo_config = \<lparr>SealThreshold = 0, Clock = Some (\<lambda>n. 7)\<rparr>"

definition demo_created :: "(error + Track) \<times> mem world" where
  "demo_created = Create_Track mem_store int Live ''cam'' demo_schema demo_config \<lparr>objs = mem_New, ticks = 0\<rparr>"

definition demo_opened :: "(error + Writer) \<times> Track \<times> mem world" where
  "demo_opened = Writer_Track mem_store Live 1 (projr (fst demo_created)) (snd demo_created)"

definition demo_writer :: Writer where
  "demo_writer = projr (fst demo_opened)"

definition demo_log_world :: "mem world" where
  "demo_log_world = snd (snd demo_opened)"

lemma demo_path_valid: "validate_TrackPath ''cam'' = None"
  by code_simp

lemma demo_clock [simp]: "t_clock (resolveConfig tn p demo_config) n = 7"
  by (simp add: resolveConfig_def demo_config_def)

lemma demo_track_created:
  obtains t W at2 u2 where "demo_created = (Inr t, W)" "mem_inv (objs W)" "t_path t = ''cam''" "LatestEpoch (t_root t) = 1"
    "t_clock t = (\<lambda>n. 7)" "schema (t_root t) = demo_schema" "log_inv (mem_view (objs W)) ''cam'' 1 [] (new_log ''cam'' 1 at2) u2"
    "root_at (mem_view (objs W)) ''cam'' (t_root t) (t_rootVersion t)"
    "\<forall>k. k \<noteq> rootKey ''cam'' \<longrightarrow> k \<noteq> epochLogKey ''cam'' 1 \<longrightarrow> mem_view (objs W) k = None"
proof -
  have "\<exists>t W at1 at2 u1 u2. demo_created = (Inr t, W) \<and> mem_inv (objs W) \<and>
    Root_Track t = \<lparr>ti_TrackSchema = demo_schema, ti_Track = ''cam'', ti_LatestEpoch = 1\<rparr> \<and>
    mem_view (objs W) = [rootKey ''cam'' \<mapsto> (encode_trackRoot (new_root ''cam'' demo_schema at1), u1),
      epochLogKey ''cam'' 1 \<mapsto> (encode_logRoot (new_log ''cam'' 1 at2), u2)] \<and>
    root_at (mem_view (objs W)) ''cam'' (t_root t) (t_rootVersion t) \<and> log_at (mem_view (objs W)) ''cam'' 1 (new_log ''cam'' 1 at2) u2"
    using mem.Create_Track_fresh [of "\<lparr>objs = mem_New, ticks = 0\<rparr>" "''cam''" demo_schema int demo_config] demo_path_valid
    by (simp add: demo_created_def)
  then obtain t W at1 at2 u1 u2 where t: "demo_created = (Inr t, W)" "mem_inv (objs W)"
    "Root_Track t = \<lparr>ti_TrackSchema = demo_schema, ti_Track = ''cam'', ti_LatestEpoch = 1\<rparr>"
    and v: "mem_view (objs W) = [rootKey ''cam'' \<mapsto> (encode_trackRoot (new_root ''cam'' demo_schema at1), u1),
      epochLogKey ''cam'' 1 \<mapsto> (encode_logRoot (new_log ''cam'' 1 at2), u2)]"
    and R: "root_at (mem_view (objs W)) ''cam'' (t_root t) (t_rootVersion t)"
    and L: "log_at (mem_view (objs W)) ''cam'' 1 (new_log ''cam'' 1 at2) u2" by blast
  have "fresh_epoch (mem_view (objs W)) ''cam'' 1" by (simp add: v fresh_epoch_def)
  note li = log_inv_new [OF L this]
  have clk: "t_clock t = (\<lambda>n. 7)"
    using t(1) demo_path_valid
    by (auto simp: demo_created_def Create_Track_def createEpochLog_def advanceTrackRootLocked_def Let_def now_def on_store_def
        new_root_def split: option.splits prod.splits sum.splits if_splits)
  show thesis
    by (rule that [OF t(1,2) _ _ clk _ li R]) (use t(3) v in \<open>auto simp: Root_Track_def\<close>)
qed

lemma demo_writer_inv:
  "mem_inv (objs demo_log_world)" "writer_inv (mem_view (objs demo_log_world)) demo_writer []" "\<not> stale demo_writer"
  "w_path demo_writer = ''cam''" "w_epoch demo_writer = 1"
  "\<And>k. k \<noteq> rootKey ''cam'' \<Longrightarrow> k \<noteq> epochLogKey ''cam'' 1 \<Longrightarrow> mem_view (objs demo_log_world) k = None"
proof -
  obtain t W at2 u2 where t: "demo_created = (Inr t, W)" "mem_inv (objs W)" "t_path t = ''cam''" "LatestEpoch (t_root t) = 1"
    "t_clock t = (\<lambda>n. 7)" "schema (t_root t) = demo_schema" and li: "log_inv (mem_view (objs W)) ''cam'' 1 [] (new_log ''cam'' 1 at2) u2"
    and "root_at (mem_view (objs W)) ''cam'' (t_root t) (t_rootVersion t)"
    and v: "\<forall>k. k \<noteq> rootKey ''cam'' \<longrightarrow> k \<noteq> epochLogKey ''cam'' 1 \<longrightarrow> mem_view (objs W) k = None"
    using demo_track_created .
  have ok: "track_ok t" using t by (simp add: track_ok_def clock_ok_def le_maxGroupEpoch)
  have li': "log_inv (mem_view (objs W)) (t_path t) (LatestEpoch (t_root t)) [] (new_log ''cam'' 1 at2) u2" using li t by simp
  obtain w t' W' where w: "Writer_Track mem_store Live 1 t W = (Inr w, t', W')"
    using mem.Writer_Track_ends [OF t(2) ok _ li', of 1] by auto
  then have d: "demo_writer = w" "demo_log_world = W'" unfolding demo_writer_def demo_log_world_def demo_opened_def t(1) by simp_all
  note k = mem.Writer_Track_recovers [OF w t(2) ok li']
  show "mem_inv (objs demo_log_world)" "writer_inv (mem_view (objs demo_log_world)) demo_writer []" "\<not> stale demo_writer"
    "w_path demo_writer = ''cam''" "w_epoch demo_writer = 1"
    using k t(3,4) unfolding d by simp_all
  show "\<And>k. k \<noteq> rootKey ''cam'' \<Longrightarrow> k \<noteq> epochLogKey ''cam'' 1 \<Longrightarrow> mem_view (objs demo_log_world) k = None"
    using k v unfolding d by simp
qed

lemma demo_log_root_at: "\<exists>R ver. root_at (mem_view (objs demo_log_world)) ''cam'' R ver \<and> LatestEpoch R = 1"
proof -
  obtain t W at2 u2 where t: "demo_created = (Inr t, W)" "mem_inv (objs W)" "t_path t = ''cam''" "LatestEpoch (t_root t) = 1"
    "t_clock t = (\<lambda>n. 7)" "schema (t_root t) = demo_schema" and li: "log_inv (mem_view (objs W)) ''cam'' 1 [] (new_log ''cam'' 1 at2) u2"
    and R: "root_at (mem_view (objs W)) ''cam'' (t_root t) (t_rootVersion t)"
    and "\<forall>k. k \<noteq> rootKey ''cam'' \<longrightarrow> k \<noteq> epochLogKey ''cam'' 1 \<longrightarrow> mem_view (objs W) k = None"
    using demo_track_created .
  have ok: "track_ok t" using t by (simp add: track_ok_def clock_ok_def le_maxGroupEpoch)
  have li': "log_inv (mem_view (objs W)) (t_path t) (LatestEpoch (t_root t)) [] (new_log ''cam'' 1 at2) u2" using li t by simp
  obtain w t2 W2 where w: "Writer_Track mem_store Live 1 t W = (Inr w, t2, W2)"
    using mem.Writer_Track_ends [OF t(2) ok _ li', of 1] by auto
  have "demo_log_world = W2" unfolding demo_log_world_def demo_opened_def t(1) using w by simp
  then show ?thesis using mem.Writer_Track_recovers [OF w t(2) ok li'] R t(4) by auto
qed

section \<open>Properties\<close>

text \<open>
  C1. An append is atomic on any store that keeps the contract, whatever calls fail, are cancelled or
  lose their reply: afterwards the epoch holds the rows it held, in order, or those and the new row
  after them, and the writer is in step with it or knows that it must reload. An append that answers
  without error has committed exactly the row it returns, and so has one that returns a row with an error.
\<close>

theorem append_group_is_atomic:
  assumes "store_contract S view I" and "I (objs W)" and "writer_inv (view (objs W)) w ds" and "meta_ok meta payload"
    and "int (Suc (length (concat ds))) \<le> MaxInt64" and "AppendGroup S c N meta payload w W = ((g, r), w', W')"
  shows "I (objs W') \<and> (\<exists>ds' row. writer_inv (view (objs W')) w' ds' \<and>
    ID row = NewGroupID (w_epoch w) (Sequence (ID meta)) \<and> MediaTime row = MediaTime meta \<and> Duration row = Duration meta \<and>
    ObjectKey row = groupKey (w_path w) (ID row) \<and> Size row = int (length payload) \<and>
    (concat ds' = concat ds \<and> r \<noteq> None \<or> concat ds' = concat ds @ [row]) \<and> (r = None \<longrightarrow> g = row) \<and>
    (g = zero_GroupInfo \<or> g = row \<and> concat ds' = concat ds @ [row]))"
proof -
  obtain wc where k: "I (objs W')" "writer_inv (view (objs W')) w' ds \<and> r \<noteq> None \<and> g = zero_GroupInfo \<or>
      writer_inv (view (objs W')) w' (ds @ [[committed_row w meta payload wc]])"
    "r = None \<longrightarrow> g = committed_row w meta payload wc" "g = zero_GroupInfo \<or> g = committed_row w meta payload wc"
    using store_contract.AppendGroup_outcome [OF assms(1,6,2-5)] by blast
  let ?row = "committed_row w meta payload wc"
  have row: "ID ?row = NewGroupID (w_epoch w) (Sequence (ID meta))" "MediaTime ?row = MediaTime meta"
    "Duration ?row = Duration meta" "ObjectKey ?row = groupKey (w_path w) (ID ?row)" "Size ?row = int (length payload)"
    by (simp_all add: committed_row_def Let_def)
  from k(2) show ?thesis
  proof
    assume "writer_inv (view (objs W')) w' ds \<and> r \<noteq> None \<and> g = zero_GroupInfo"
    with k row show ?thesis by (intro conjI exI [of _ ds] exI [of _ ?row]) auto
  next
    assume "writer_inv (view (objs W')) w' (ds @ [[?row]])"
    with k row show ?thesis by (intro conjI exI [of _ "ds @ [[?row]]"] exI [of _ ?row]) auto
  qed
qed

text \<open>A group for the witnesses: sequence 4, at media time 0, a thousand units long.\<close>

definition demo_meta :: GroupInfo where
  "demo_meta = zero_GroupInfo\<lparr>ID := NewGroupID 1 4, Duration := 1000\<rparr>"

lemma demo_meta_ok: "meta_ok demo_meta ''data''" "int (Suc (length (concat ([] :: GroupInfo list list)))) \<le> MaxInt64"
  by (simp_all add: meta_ok_def demo_meta_def zero_GroupInfo_def typed_GroupInfo_def i64_bounds)

lemma demo_meta_valid: "validate_GroupInfo (demo_meta\<lparr>ID := NewGroupID 1 (Sequence (ID demo_meta))\<rparr>) = None"
  by code_simp

theorem append_group_is_atomic_witness:
  "\<exists>g r w' W' ds' row. AppendGroup mem_store Live 1 demo_meta ''data'' demo_writer demo_log_world = ((g, r), w', W') \<and>
    writer_inv (mem_view (objs W')) w' ds' \<and> (concat ds' = [] \<and> r \<noteq> None \<or> concat ds' = [row]) \<and> (r = None \<longrightarrow> g = row)"
proof -
  obtain g r w' W' where a: "AppendGroup mem_store Live 1 demo_meta ''data'' demo_writer demo_log_world = ((g, r), w', W')"
    by (metis prod.collapse)
  show ?thesis
    using append_group_is_atomic [OF mem.store_contract_axioms demo_writer_inv(1,2) demo_meta_ok a] a by auto
qed

text \<open>
  C3. On a store that answers, an append that respects the log commits: the row is valid, its sequence
  has no group object yet, and it neither repeats the last group nor starts before that group ends.
  Fuel above the number of deltas is enough, also for a writer that must reload first. The store then
  holds the log with the row at its end.
\<close>

theorem append_group_commits:
  assumes S: "reliable_store S view I" and i: "I (objs W)" and wi: "writer_inv (view (objs W)) w ds" and N: "length ds < N"
    and meta: "meta_ok meta payload" and room: "int (Suc (length (concat ds))) \<le> MaxInt64"
    and valid: "validate_GroupInfo (meta\<lparr>ID := NewGroupID (w_epoch w) (Sequence (ID meta))\<rparr>) = None"
    and free: "view (objs W) (groupKey (w_path w) (NewGroupID (w_epoch w) (Sequence (ID meta)))) = None"
    and order: "ds \<noteq> [] \<longrightarrow> ID (last (concat ds)) \<noteq> NewGroupID (w_epoch w) (Sequence (ID meta)) \<and>
      mediaEnd (last (concat ds)) \<le> MediaTime meta"
  shows "\<exists>g w' W'. AppendGroup S Live N meta payload w W = ((g, None), w', W') \<and> \<not> stale w' \<and>
    writer_inv (view (objs W')) w' (ds @ [[g]]) \<and> ID g = NewGroupID (w_epoch w) (Sequence (ID meta)) \<and>
    (\<exists>L ver. log_inv (view (objs W')) (w_path w) (w_epoch w) (ds @ [[g]]) L ver)"
proof -
  obtain g w' W' where a: "AppendGroup S Live N meta payload w W = ((g, None), w', W')"
    using reliable_store.AppendGroup_succeeds [OF S i wi N meta room valid free order] by blast
  from store_contract.AppendGroup_keeps [OF reliable_store.axioms(1) [OF S] a i wi meta room]
  obtain wc where k: "g = committed_row w meta payload wc" "\<not> stale w'" "writer_inv (view (objs W')) w' (ds @ [[g]])" "same_writer w w'"
    by auto
  then have "log_inv (view (objs W')) (w_path w) (w_epoch w) (ds @ [[g]]) (logRoot w') (logVersion w')"
    using synced_log [of "view (objs W')" w'] by (simp add: writer_inv_def same_writer_def)
  with a k show ?thesis by (auto simp: committed_row_def Let_def)
qed

theorem append_group_commits_witness:
  "\<exists>g w' W'. AppendGroup mem_store Live 1 demo_meta ''data'' demo_writer demo_log_world = ((g, None), w', W') \<and>
    writer_inv (mem_view (objs W')) w' [[g]] \<and> ID g = NewGroupID 1 (Sequence (ID demo_meta))"
proof -
  note d = demo_writer_inv
  show ?thesis
    using append_group_commits [OF mem.reliable_store_axioms d(1,2) _ demo_meta_ok, of 1]
    by (simp add: d(4,5,6) demo_meta_valid) blast
qed

text \<open>
  C9. \<open>Append\<close> continues the epoch: it takes the sequence after the last committed one, or the first
  free one after it when at most 16 uncommitted group objects are in the way, starts the group where
  the last one ends, and commits it.
\<close>

theorem append_takes_the_next_free_sequence:
  assumes S: "reliable_store S view I" and i: "I (objs W)" and wi: "writer_inv (view (objs W)) w ds" and N: "length ds < N"
    and dur: "0 \<le> duration" "is_i64 duration" "next_start ds + duration \<le> MaxInt64" and pl: "int (length payload) \<le> MaxInt64"
    and room: "int (Suc (length (concat ds))) \<le> MaxInt64" and k: "unat (next_seq ds) + k < 2 ^ 40" "k \<le> 16"
    and taken: "\<And>j. j < k \<Longrightarrow> view (objs W) (groupKey (w_path w) (NewGroupID (w_epoch w) (next_seq ds + of_nat j))) \<noteq> None"
    and free: "view (objs W) (groupKey (w_path w) (NewGroupID (w_epoch w) (next_seq ds + of_nat k))) = None"
  shows "\<exists>g w' W'. Append S Live N duration payload w W = ((g, None), w', W') \<and>
    ID g = NewGroupID (w_epoch w) (next_seq ds + of_nat k) \<and> MediaTime g = next_start ds \<and> Duration g = duration \<and>
    Size g = int (length payload) \<and> writer_inv (view (objs W')) w' (ds @ [[g]])"
  by (rule reliable_store.Append_ends [OF S i wi N dur pl room k taken free])

theorem append_takes_the_next_free_sequence_witness:
  "\<exists>g w' W'. Append mem_store Live 1 1000 ''data'' demo_writer demo_log_world = ((g, None), w', W') \<and>
    ID g = NewGroupID 1 0 \<and> MediaTime g = 0"
proof -
  note d = demo_writer_inv
  have "is_i64 1000" "1000 \<le> MaxInt64" by (simp_all add: i64_bounds)
  then show ?thesis
    using append_takes_the_next_free_sequence [OF mem.reliable_store_axioms d(1,2), of 1 1000 "''data''" 0] demo_meta_ok(2)
    by (auto simp: d(4,5,6) next_seq_def next_start_def i64_bounds)
qed

text \<open>
  C2. Recovery loses nothing: a writer opened on an epoch, after any crash, by any run of store calls
  that let \<open>Track.Writer\<close> answer at all, is in step with the rows the epoch holds, and opening changes
  nothing in the store.
\<close>

theorem opened_writer_is_in_step:
  assumes "store_contract S view I" and "Writer_Track S c N t W = (Inr w, t', W')" and "I (objs W)" and "track_ok t"
    and "log_inv (view (objs W)) (t_path t) (LatestEpoch (t_root t)) ds L ver"
  shows "view (objs W') = view (objs W) \<and> writer_inv (view (objs W)) w ds \<and> \<not> stale w \<and> unat (nextDelta w) = length ds \<and>
    w_path w = t_path t \<and> w_epoch w = LatestEpoch (t_root t) \<and> w_schema w = schema (t_root t)"
  using store_contract.Writer_Track_recovers [OF assms] by (auto simp: writer_inv_def synced_def)

theorem opened_writer_is_in_step_witness:
  "\<exists>t W w t' W'. Writer_Track mem_store Live 1 t W = (Inr w, t', W') \<and> mem_view (objs W') = mem_view (objs W) \<and>
    unat (nextDelta w) = 0"
proof -
  obtain t W at2 u2 where t: "demo_created = (Inr t, W)" "mem_inv (objs W)" "t_path t = ''cam''" "LatestEpoch (t_root t) = 1"
    "t_clock t = (\<lambda>n. 7)" "schema (t_root t) = demo_schema" and li: "log_inv (mem_view (objs W)) ''cam'' 1 [] (new_log ''cam'' 1 at2) u2"
    and "root_at (mem_view (objs W)) ''cam'' (t_root t) (t_rootVersion t)"
    and "\<forall>k. k \<noteq> rootKey ''cam'' \<longrightarrow> k \<noteq> epochLogKey ''cam'' 1 \<longrightarrow> mem_view (objs W) k = None"
    using demo_track_created .
  have ok: "track_ok t" using t by (simp add: track_ok_def clock_ok_def le_maxGroupEpoch)
  have li': "log_inv (mem_view (objs W)) (t_path t) (LatestEpoch (t_root t)) [] (new_log ''cam'' 1 at2) u2" using li t by simp
  obtain w t' W' where w: "Writer_Track mem_store Live 1 t W = (Inr w, t', W')"
    using mem.Writer_Track_ends [OF t(2) ok _ li', of 1] by auto
  show ?thesis
    using opened_writer_is_in_step [OF mem.store_contract_axioms w t(2) ok li'] w by (metis list.size(3))
qed

text \<open>
  C11. Opening a writer ends: on a store that answers, with fuel above the number of the epoch's deltas,
  \<open>Track.Writer\<close> returns a writer, and an epoch whose log was never written, after a creation that did
  not finish, is completed to an empty one.
\<close>

theorem writer_opens:
  assumes "reliable_store S view I" and "I (objs W)" and "track_ok t"
  shows "(\<forall>ds L ver. log_inv (view (objs W)) (t_path t) (LatestEpoch (t_root t)) ds L ver \<longrightarrow> length ds < N \<longrightarrow>
      (\<exists>w t' W'. Writer_Track S Live N t W = (Inr w, t', W'))) \<and>
    (view (objs W) (epochLogKey (t_path t) (LatestEpoch (t_root t))) = None \<and> 0 < N \<and>
      fresh_epoch (view (objs W)) (t_path t) (LatestEpoch (t_root t)) \<longrightarrow>
      (\<exists>w t' W'. Writer_Track S Live N t W = (Inr w, t', W') \<and> writer_inv (view (objs W')) w []))"
  using reliable_store.Writer_Track_ends [OF assms] reliable_store.Writer_Track_completes [OF assms] by blast

theorem writer_opens_witness:
  "\<exists>w t' W'. Writer_Track mem_store Live 1 demo_track demo_world = (Inr w, t', W') \<and> writer_inv (mem_view (objs W')) w []"
proof -
  have "track_ok demo_track"
    by (simp add: track_ok_def clock_ok_def demo_root_def new_root_def le_maxGroupEpoch)
  then show ?thesis
    using writer_opens [OF mem.reliable_store_axioms demo_inv, of demo_track 1]
    by (simp add: demo_view demo_root_def new_root_def fresh_epoch_def)
qed

text \<open>
  C10. Sealing changes the layout and no row: on any store, whatever fails, the epoch holds the same
  rows afterwards; after a seal that answers without error the open region is empty and the writer is
  in step with the rotated log.
\<close>

theorem seal_keeps_every_row:
  assumes "store_contract S view I" and "Seal S c w W = (r, w', W')" and "I (objs W)" and "writer_ok w"
    and "synced (view (objs W)) w ds"
  shows "I (objs W') \<and> (\<exists>L ver. log_inv (view (objs W')) (w_path w) (w_epoch w) ds L ver) \<and>
    (r = None \<longrightarrow> synced (view (objs W')) w' ds \<and> openGroups w' = [])"
  using store_contract.seal_keeps [OF assms(1) assms(2) [unfolded Seal_def] assms(3-5)] by blast

theorem seal_keeps_every_row_witness:
  "\<exists>r w' W'. Seal mem_store Live demo_writer demo_log_world = (r, w', W') \<and>
    (\<exists>L ver. log_inv (mem_view (objs W')) ''cam'' 1 [] L ver)"
proof -
  note d = demo_writer_inv
  obtain r w' W' where s: "Seal mem_store Live demo_writer demo_log_world = (r, w', W')" using prod_cases3 by blast
  then show ?thesis
    using seal_keeps_every_row [OF mem.store_contract_axioms s d(1)] d(2-5) by (auto simp: writer_inv_def)
qed

text \<open>
  C12. An append the log contradicts commits nothing, on any store that keeps the contract and for a writer that
  must reload first as for one that need not. It contradicts the log when it starts before the last group
  ends, when it repeats the last group's identity, or when it repeats the identity of any committed group that
  is not redacted. It answers an error and no group, no object of the store changes, and the writer stays in
  step or knows that it must reload. A writer that need not reload, or any writer on a store that answers,
  says why: \<open>ErrGroupExists\<close> for the last group again, \<open>ErrGroupOutOfOrder\<close> for a start before its end, and,
  when the store answers, \<open>ErrGroupExists\<close> for an earlier group again.
\<close>

theorem contradicting_append_is_refused:
  assumes S: "store_contract S view I" and i: "I (objs W)" and wi: "writer_inv (view (objs W)) w ds"
    and j: "j = NewGroupID (w_epoch w) (Sequence (ID meta))" and valid: "validate_GroupInfo (meta\<lparr>ID := j\<rparr>) = None"
    and r: "AppendGroup S c N meta payload w W = ((g, r), w', W')"
    and contra: "ds \<noteq> [] \<and> MediaTime meta < mediaEnd (last (concat ds)) \<or> ds \<noteq> [] \<and> j = ID (last (concat ds)) \<or>
      (\<exists>h \<in> set (concat ds). ID h = j) \<and> view (objs W) (markerKey (w_path w) j) = None"
  shows "g = zero_GroupInfo \<and> I (objs W') \<and> view (objs W') = view (objs W) \<and> writer_inv (view (objs W')) w' ds \<and>
    (\<exists>err. r = Some err \<and>
      (\<not> stale w \<or> reliable_store S view I \<and> c = Live \<and> length ds < N \<longrightarrow>
        (if j = ID (last (concat ds)) then err = [ErrGroupExists]
         else if MediaTime meta < mediaEnd (last (concat ds)) then err = [ErrGroupOutOfOrder]
         else reliable_store S view I \<and> c = Live \<longrightarrow> errors_Is err ErrGroupExists)))"
proof -
  have ne: "ds \<noteq> []" using contra by auto
  have "ID h = j \<Longrightarrow> h \<in> set (concat ds) \<Longrightarrow> view (objs W) (markerKey (w_path w) j) = None \<Longrightarrow>
      view (objs W) (groupKey (w_path w) j) \<noteq> None" for h
    using writer_inv_payload [OF wi, of h] unfolding payload_held_def by auto
  then have held: "j = ID (last (concat ds)) \<or> MediaTime meta < mediaEnd (last (concat ds)) \<or>
      view (objs W) (groupKey (w_path w) j) \<noteq> None" using contra by blast
  show ?thesis using store_contract.AppendGroup_refuses [OF S r i wi j valid ne held] by blast
qed

theorem contradicting_append_is_refused_witness:
  "\<exists>g w1 W1 w2 W2. AppendGroup mem_store Live 1 demo_meta ''data'' demo_writer demo_log_world = ((g, None), w1, W1) \<and>
    AppendGroup mem_store Live 2 demo_meta ''again'' w1 W1 = ((zero_GroupInfo, Some [ErrGroupExists]), w2, W2) \<and>
    mem_view (objs W2) = mem_view (objs W1)"
proof -
  note d = demo_writer_inv
  obtain g w1 W1 where a: "AppendGroup mem_store Live 1 demo_meta ''data'' demo_writer demo_log_world = ((g, None), w1, W1)"
    using mem.AppendGroup_succeeds [OF d(1,2) _ demo_meta_ok, of 1] by (auto simp: d(4,5,6) demo_meta_valid)
  from mem.AppendGroup_keeps [OF a d(1,2) demo_meta_ok]
  have k: "mem_inv (objs W1)" "writer_inv (mem_view (objs W1)) w1 [[g]]" "\<not> stale w1"
    "ID g = NewGroupID 1 (Sequence (ID demo_meta))" "w_epoch w1 = 1"
    by (auto simp: committed_row_def d(5) same_writer_def Let_def)
  obtain g2 r w2 W2 where b: "AppendGroup mem_store Live 2 demo_meta ''again'' w1 W1 = ((g2, r), w2, W2)"
    by (metis surj_pair)
  have "g2 = zero_GroupInfo \<and> r = Some [ErrGroupExists] \<and> mem_view (objs W2) = mem_view (objs W1)"
    using contradicting_append_is_refused [OF mem.store_contract_axioms k(1,2) refl _ b] k(3-5) demo_meta_valid by auto
  then show ?thesis using a b by blast
qed

text \<open>
  C13. A new epoch starts a timeline of its own: \<open>NewEpoch\<close>, when it answers without error on any store,
  moves the writer to the next epoch, which is later than its own and recorded in the track root with the
  schema unchanged; that epoch holds the rows it held, none when nobody has written to it, and every other
  epoch keeps its rows. The writer is in step with the new epoch exactly when that holds no rows. When the
  log existed already and has rows, another producer's, \<open>NewEpoch\<close> adopts it with its deltas counted from
  zero: such a writer is not in step, unless it was to reload anyway.
\<close>

theorem new_epoch_starts_empty:
  assumes S: "store_contract S view I" and r: "NewEpoch S c t w W = (None, t', w', W')" and i: "I (objs W)" and ok: "writer_ok w"
    and t: "t_path t = w_path w" "\<And>n. is_i64 (t_clock t n)"
    and at: "root_at (view (objs W)) (w_path w) R ver" and sy: "root_sync (view (objs W)) t"
    and iss: "issued view I (t_rootVersion t)" and ep: "epoch_holds (view (objs W)) (w_path w) (w_epoch w + 1) ds"
  shows "w_epoch w' = w_epoch w + 1 \<and> w_epoch w < w_epoch w' \<and> writer_ok w' \<and>
    (\<exists>R' ver'. root_at (view (objs W')) (w_path w) R' ver' \<and> w_epoch w' \<le> LatestEpoch R' \<and> schema R' = schema R) \<and>
    (\<exists>L u. log_inv (view (objs W')) (w_path w) (w_epoch w') ds L u) \<and>
    (synced (view (objs W')) w' ds \<longleftrightarrow> ds = []) \<and> (writer_inv (view (objs W')) w' ds \<longleftrightarrow> stale w \<or> ds = []) \<and>
    (\<forall>e xs L u. e \<noteq> w_epoch w' \<and> log_inv (view (objs W)) (w_path w) e xs L u \<longrightarrow> log_inv (view (objs W')) (w_path w) e xs L u)"
proof -
  note k = store_contract.NewEpoch_starts [OF S r i ok t at sy iss ep]
  have "rows_between [] (unat (OpenFrom (logRoot w'))) 0 = []" by (simp add: rows_between_def)
  then have sync: "synced (view (objs W')) w' ds \<longleftrightarrow> ds = []" using k by (auto simp: synced_def)
  have li: "\<exists>L u. log_inv (view (objs W')) (w_path w) (w_epoch w') ds L u" using k by blast
  then have "writer_inv (view (objs W')) w' ds \<longleftrightarrow> stale w \<or> ds = []" using k sync by (simp add: writer_inv_def)
  moreover have "log_inv (view (objs W')) (w_path w) e xs L u"
    if "e \<noteq> w_epoch w'" "log_inv (view (objs W)) (w_path w) e xs L u" for e xs L u
  proof (rule log_inv_cong [OF that(2)])
    show "payload_held (view (objs W')) (w_path w) g" if "payload_held (view (objs W)) (w_path w) g" for g
      using that k by (simp add: payload_held_def)
  qed (use k that(1) in simp_all)
  ultimately show ?thesis using k sync li by blast
qed

theorem new_epoch_starts_empty_witness:
  "\<exists>t' w' W'. NewEpoch mem_store Live (projr (fst demo_created)) demo_writer demo_log_world = (None, t', w', W') \<and>
    w_epoch w' = 2 \<and> synced (mem_view (objs W')) w' []"
proof -
  note d = demo_writer_inv
  obtain t W at2 u2 where t: "demo_created = (Inr t, W)" "mem_inv (objs W)" "t_path t = ''cam''" "LatestEpoch (t_root t) = 1"
    "t_clock t = (\<lambda>n. 7)" "schema (t_root t) = demo_schema" and li: "log_inv (mem_view (objs W)) ''cam'' 1 [] (new_log ''cam'' 1 at2) u2"
    and R: "root_at (mem_view (objs W)) ''cam'' (t_root t) (t_rootVersion t)"
    and "\<forall>k. k \<noteq> rootKey ''cam'' \<longrightarrow> k \<noteq> epochLogKey ''cam'' 1 \<longrightarrow> mem_view (objs W) k = None"
    using demo_track_created .
  have ok: "track_ok t" using t by (simp add: track_ok_def clock_ok_def le_maxGroupEpoch)
  have li': "log_inv (mem_view (objs W)) (t_path t) (LatestEpoch (t_root t)) [] (new_log ''cam'' 1 at2) u2" using li t by simp
  obtain w t2 W2 where w: "Writer_Track mem_store Live 1 t W = (Inr w, t2, W2)"
    using mem.Writer_Track_ends [OF t(2) ok _ li', of 1] by auto
  have dw: "demo_log_world = W2" unfolding demo_log_world_def demo_opened_def t(1) using w by simp
  have R2: "root_at (mem_view (objs demo_log_world)) ''cam'' (t_root t) (t_rootVersion t)"
    using mem.Writer_Track_recovers [OF w t(2) ok li'] R dw by simp
  have wok: "writer_ok demo_writer" using d(2) by (simp add: writer_inv_def)
  have le: "w_epoch demo_writer + 1 \<le> maxGroupEpoch" by (simp add: d(5) le_maxGroupEpoch)
  have none: "mem_view (objs demo_log_world) (epochLogKey (w_path demo_writer) (w_epoch demo_writer + 1)) = None"
    by (simp add: d(4,5,6))
  obtain t' w' W' where n: "NewEpoch mem_store Live t demo_writer demo_log_world = (None, t', w', W')"
    using mem.NewEpoch_succeeds [OF d(1) wok le, of t] R2 none t(3,5) d(4) by auto
  have "epoch_holds (mem_view (objs demo_log_world)) (w_path demo_writer) (w_epoch demo_writer + 1) []"
    using none by (simp add: epoch_holds_def fresh_epoch_def d(4,6))
  from new_epoch_starts_empty [OF mem.store_contract_axioms n d(1) wok _ _ _ _ _ this, of "t_root t" "t_rootVersion t"]
  have "w_epoch w' = 2 \<and> synced (mem_view (objs W')) w' []"
    using R2 t(3,5) d(4,5) root_sync_at [of _ t] mem.issued_root [OF d(1) R2] by simp
  then show ?thesis unfolding t(1) using n by auto
qed

end
