(* ===== verification/Writer_Frame.thy ===== *)
theory Writer_Frame
  imports Writer_Props
begin

text \<open>
  What a writer can touch. Every operation of a writer changes at most the objects of its own epoch,
  the group objects under identities of that epoch included, and of these it never changes or removes a
  sealed manifest or a group object once it exists, on any store that keeps the contract. No invariant of
  the log is needed.
\<close>

section \<open>The writer's footprint\<close>

definition written :: "TrackPath \<Rightarrow> u64 \<Rightarrow> view \<Rightarrow> view \<Rightarrow> bool" where
  "written p e v v' \<longleftrightarrow> (\<forall>k. v' k = v k \<or> k = epochLogKey p e \<or> k = headKey p e \<or> (\<exists>n. k = deltaKey p e n) \<or>
     v k = None \<and> ((\<exists>a b. k = sealedKey p e a b) \<or> (\<exists>n. k = groupKey p (NewGroupID e n))))"

lemma written_refl [simp]: "written p e v v"
  by (simp add: written_def)

lemma written_trans: "written p e v v1 \<Longrightarrow> written p e v1 v2 \<Longrightarrow> written p e v v2"
  unfolding written_def by metis

lemma written_upd:
  "v k = None \<or> k = epochLogKey p e \<or> k = headKey p e \<or> (\<exists>n. k = deltaKey p e n) \<Longrightarrow>
    k = epochLogKey p e \<or> k = headKey p e \<or> (\<exists>n. k = deltaKey p e n) \<or> (\<exists>a b. k = sealedKey p e a b) \<or> (\<exists>n. k = groupKey p (NewGroupID e n)) \<Longrightarrow>
    written p e v (v(k := x))"
  by (auto simp: written_def)

lemma writtenD:
  assumes "written p e v v'"
  shows "v' (rootKey q) = v (rootKey q)" "v' (markerKey q i) = v (markerKey q i)"
    "e' \<noteq> e \<Longrightarrow> v' (epochLogKey p e') = v (epochLogKey p e')" "e' \<noteq> e \<Longrightarrow> v' (headKey p e') = v (headKey p e')"
    "e' \<noteq> e \<Longrightarrow> v' (deltaKey p e' n) = v (deltaKey p e' n)" "e' \<noteq> e \<Longrightarrow> v' (sealedKey p e' a b) = v (sealedKey p e' a b)"
    "v (sealedKey p e a b) \<noteq> None \<Longrightarrow> v' (sealedKey p e a b) = v (sealedKey p e a b)"
    "v (groupKey p i) \<noteq> None \<Longrightarrow> v' (groupKey p i) = v (groupKey p i)"
    "\<forall>n. i \<noteq> NewGroupID e n \<Longrightarrow> v' (groupKey p i) = v (groupKey p i)"
proof -
  note w = assms [unfolded written_def, rule_format]
  show "v' (rootKey q) = v (rootKey q)" "v' (markerKey q i) = v (markerKey q i)"
    using w [of "rootKey q"] w [of "markerKey q i"] by simp_all
  show "e' \<noteq> e \<Longrightarrow> v' (epochLogKey p e') = v (epochLogKey p e')" using w [of "epochLogKey p e'"] by simp
  show "e' \<noteq> e \<Longrightarrow> v' (headKey p e') = v (headKey p e')" using w [of "headKey p e'"] by simp
  show "e' \<noteq> e \<Longrightarrow> v' (deltaKey p e' n) = v (deltaKey p e' n)" using w [of "deltaKey p e' n"] by simp
  show "e' \<noteq> e \<Longrightarrow> v' (sealedKey p e' a b) = v (sealedKey p e' a b)" using w [of "sealedKey p e' a b"] by simp
  show "v (sealedKey p e a b) \<noteq> None \<Longrightarrow> v' (sealedKey p e a b) = v (sealedKey p e a b)"
    using w [of "sealedKey p e a b"] by auto
  show "v (groupKey p i) \<noteq> None \<Longrightarrow> v' (groupKey p i) = v (groupKey p i)" using w [of "groupKey p i"] by auto
  show "\<forall>n. i \<noteq> NewGroupID e n \<Longrightarrow> v' (groupKey p i) = v (groupKey p i)" using w [of "groupKey p i"] by auto
qed

section \<open>Every operation stays in it\<close>

text \<open>A state the operations of a writer may lead to, from one with the view \<open>v\<close>.\<close>

context store_contract
begin

definition within :: "TrackPath \<Rightarrow> u64 \<Rightarrow> view \<Rightarrow> 's \<Rightarrow> bool" where
  "within p e v s \<longleftrightarrow> inv s \<and> written p e v (view s)"

lemma within_step: "within p e v s \<Longrightarrow> inv s' \<Longrightarrow> written p e (view s) (view s') \<Longrightarrow> within p e v s'"
  unfolding within_def using written_trans by blast

lemma within_read: "within p e v s \<Longrightarrow> inv s' \<and> view s' = view s \<Longrightarrow> within p e v s'"
  by (simp add: within_def)

lemma within_inv: "within p e v s \<Longrightarrow> inv s"
  by (simp add: within_def)

lemma Create_within:
  assumes "Create S c k d s = (r, s')" and "within p e v s"
    and "(\<exists>n. k = deltaKey p e n) \<or> (\<exists>a b. k = sealedKey p e a b) \<or> (\<exists>n. k = groupKey p (NewGroupID e n))"
  shows "within p e v s'"
proof (rule within_step [OF assms(2)])
  note i = within_inv [OF assms(2)]
  show "inv s'" using create_inv [OF i assms(1)] .
  have "view s' = view s \<or> view s k = None \<and> (\<exists>x. view s' = (view s)(k \<mapsto> x))"
    using create_Inr [OF i] create_Inl [OF i] assms(1) by (cases r) blast+
  then show "written p e (view s) (view s')" using written_upd [of "view s" k p e] assms(3) by auto
qed

lemma Swap_within:
  assumes "Swap S c k d x s = (r, s')" and "within p e v s" and "k = epochLogKey p e \<or> k = headKey p e"
  shows "within p e v s'"
proof (rule within_step [OF assms(2)])
  note i = within_inv [OF assms(2)]
  show "inv s'" using swap_inv [OF i assms(1)] .
  have "view s' = view s \<or> (\<exists>y. view s' = (view s)(k \<mapsto> y))"
    using swap_Inr [OF i] swap_Inl [OF i] assms(1) by (cases r) blast+
  then show "written p e (view s) (view s')" using written_upd [of "view s" k p e] assms(3) by auto
qed

lemma Delete_within:
  assumes "Delete S c (deltaKey p e n) s = (r, s')" and "within p e v s"
  shows "within p e v s'"
  using within_step [OF assms(2)] delete_inv [OF within_inv [OF assms(2)] assms(1)]
    delete_view [OF within_inv [OF assms(2)] assms(1)] written_upd [of "view s" "deltaKey p e n" p e] by auto

lemma reclaim_within: "within p e v s \<Longrightarrow> within p e v (reclaim S c p e n l s)"
proof (induction "unat l - unat n" arbitrary: n s)
  case 0
  then have "n \<le> l \<Longrightarrow> n = l" by (simp add: word_le_nat_alt)
  then show ?case
    using 0(2) Delete_within [of c p e n s "fst (Delete S c (deltaKey p e n) s)"]
    by (cases "n \<le> l") (auto simp: reclaim_range, simp_all add: reclaim.simps)
next
  case (Suc m)
  then have lt: "n < l" "n \<le> l" "n \<noteq> l" by (auto simp: word_less_nat_alt word_le_nat_alt)
  have "m = unat l - unat (n + 1)" using word_Suc_unat [OF lt(1)] Suc.hyps(2) by simp
  from Suc.hyps(1) [OF this Delete_within [OF prod.collapse [symmetric] Suc.prems, of c n]]
  show ?case using lt by (simp add: reclaim_range)
qed

text \<open>Recovery only reads.\<close>

lemma recover_loop_view:
  "recover_loop S c N frm n w s = (r, w', s') \<Longrightarrow> inv s \<Longrightarrow> inv s' \<and> view s' = view s \<and> same_writer w w'"
proof (induction N arbitrary: n w s)
  case (Suc N)
  obtain x s1 where g: "Get S c (deltaKey (w_path w) (w_epoch w) n) s = (x, s1)" by fastforce
  have v: "inv s1" "view s1 = view s" using get_view [OF Suc.prems(2) g] by auto
  show ?case
    using Suc.prems(1) g v Suc.IH [OF _ v(1)]
    by (fastforce simp: same_writer_def Let_def split: sum.splits prod.splits if_splits)
qed (simp add: same_writer_def)

lemma recover_view:
  assumes "recover S c N w s = (r, w', s')" and "inv s"
  shows "inv s' \<and> view s' = view s \<and> same_writer w w'"
proof -
  obtain x s1 where f: "fetchHead S c (w_path w) (w_epoch w) s = (x, s1)" by fastforce
  have v: "inv s1" "view s1 = view s" using fetchHead_view [OF f assms(2)] by auto
  have last: "same_writer w w1 \<Longrightarrow> same_writer w (sealed_last w1)" for w1
    by (simp add: sealed_last_def same_writer_def Let_def)
  show ?thesis
    using assms(1) f v last recover_loop_view [OF _ v(1)]
    by (fastforce simp: recover_def same_writer_def Let_def split: sum.splits prod.splits if_splits option.splits)
qed

lemma reloadIfStale_view:
  assumes "reloadIfStale S c N w s = (r, w', s')" and "inv s"
  shows "inv s' \<and> view s' = view s \<and> same_writer w w'"
proof -
  obtain x s1 where f: "fetchEpochLog S c (w_path w) (w_epoch w) s = (x, s1)" by fastforce
  have v: "inv s1" "view s1 = view s" using fetchEpochLog_view [OF f assms(2)] by auto
  show ?thesis
    using assms f v recover_view [OF _ v(1)]
    by (fastforce simp: reloadIfStale_def same_writer_def Let_def split: sum.splits prod.splits if_splits option.splits)
qed

end

context store_contract
begin

lemma on_store_within:
  assumes "on_store f W = (r, W')" and "\<And>s s' r. f s = (r, s') \<Longrightarrow> within p e v s \<Longrightarrow> within p e v s'" and "within p e v (objs W)"
  shows "within p e v (objs W')"
  using assms by (auto simp: on_store_def split: prod.splits)

lemma publishHead_within:
  assumes r: "publishHead S c g w W = (r, w', W')" and i: "within (w_path w) (w_epoch w) v (objs W)"
  shows "within (w_path w) (w_epoch w) v (objs W') \<and> same_writer w w'"
proof -
  let ?W = "W\<lparr>ticks := Suc (ticks W)\<rparr>" and ?k = "headKey (w_path w) (w_epoch w)" and ?in = "within (w_path w) (w_epoch w) v"
  let ?d = "encode_head \<lparr>h_Version = manifestVersion, h_Delta = nextDelta w - 1, h_Latest = g, UpdatedAt = w_now w (ticks W)\<rparr>"
  have sw: "?in (objs W2)" if "on_store (Swap S c ?k ?d x) W1 = (y, W2)" "?in (objs W1)" for x y W1 W2
    using on_store_within [OF that(1)] that(2) Swap_within by blast
  obtain y W1 where s1: "on_store (Swap S c ?k ?d (headVersion w)) ?W = (y, W1)" by fastforce
  have g1: "?in (objs W1)" using sw [OF s1] i by simp
  obtain z W2 where f: "on_store (fetchHead S c (w_path w) (w_epoch w)) W1 = (z, W2)" by fastforce
  have g2: "?in (objs W2)"
    using on_store_within [OF f _ g1] fetchHead_view within_inv within_read by meson
  show ?thesis
    using r s1 f g1 g2 sw [OF _ g2] i unfolding publishHead_def
    by (auto simp: now_def Let_def same_writer_def split: sum.splits prod.splits if_splits)
qed

lemma updateLogRoot_within:
  assumes "updateLogRoot S c f w W = (r, w', W')" and "within (w_path w) (w_epoch w) v (objs W)"
  shows "within (w_path w) (w_epoch w) v (objs W') \<and> same_writer w w'"
proof -
  let ?d = "encode_logRoot (f (logRoot w))"
  obtain y W1 where s: "on_store (Swap S c (epochLogKey (w_path w) (w_epoch w)) ?d (logVersion w)) W = (y, W1)" by fastforce
  have "within (w_path w) (w_epoch w) v (objs W1)" using on_store_within [OF s _ assms(2)] Swap_within by blast
  then show ?thesis using assms(1) s by (auto simp: updateLogRoot_def Let_def same_writer_def split: sum.splits)
qed

lemma seal_within:
  assumes r: "seal S c w W = (r, w', W')" and i: "within (w_path w) (w_epoch w) v (objs W)"
  shows "within (w_path w) (w_epoch w) v (objs W') \<and> same_writer w w'"
proof (cases "openGroups w = []")
  case True
  then show ?thesis using r i by (auto simp: seal_def same_writer_def)
next
  case False
  let ?f = "OpenFrom (logRoot w)" and ?l = "nextDelta w - 1" and ?in = "within (w_path w) (w_epoch w) v"
  let ?k = "sealedKey (w_path w) (w_epoch w) ?f ?l"
  let ?m = "\<lparr>sm_Version = manifestVersion, sm_Track = w_path w, sm_Epoch = w_epoch w,
    sm_Seq = of_nat (length (Sealed (logRoot w))) + 1, sm_FirstDelta = ?f, sm_LastDelta = ?l,
    sm_Groups = openGroups w, SealedAt = w_now w (ticks W)\<rparr>"
  let ?g = "\<lambda>root. root\<lparr>Sealed := Sealed root @ [summarize ?m ?k], OpenFrom := ?l + 1\<rparr>"
  obtain y W1 where c: "on_store (Create S c ?k (encode_sealed ?m)) (W\<lparr>ticks := Suc (ticks W)\<rparr>) = (y, W1)" by fastforce
  have g1: "?in (objs W1)" using on_store_within [OF c] Create_within i by fastforce
  obtain z w2 W2 where u: "updateLogRoot S c ?g w W1 = (z, w2, W2)" using prod_cases3 by blast
  have g2: "?in (objs W2)" "same_writer w w2" using updateLogRoot_within [OF u g1] by auto
  have g3: "?in (reclaim S c (w_path w) (w_epoch w) ?f ?l (objs W2))" using reclaim_within [OF g2(1)] .
  show ?thesis
    using r False c u g1 g2 g3
    by (auto simp: seal_def now_def Let_def same_writer_def split: if_splits option.splits)
qed

lemma after_commit_within:
  assumes r: "after_commit S c m d w W = (x, w', W')" and i: "within (w_path w) (w_epoch w) v (objs W)"
  shows "within (w_path w) (w_epoch w) v (objs W') \<and> same_writer w w'"
proof -
  let ?w = "w\<lparr>nextDelta := nextDelta w + 1, openGroups := openGroups w @ [m],
    openBytes := i64 (openBytes w + int (length d)), w_last := m, hasLast := True\<rparr>"
  obtain y w1 W1 where h: "publishHead S c (ID m) ?w W = (y, w1, W1)" using prod_cases3 by blast
  have g1: "within (w_path w) (w_epoch w) v (objs W1)" "same_writer ?w w1" using publishHead_within [OF h] i by auto
  obtain z w2 W2 where s: "seal S c w1 W1 = (z, w2, W2)" using prod_cases3 by blast
  have "within (w_path w) (w_epoch w) v (objs W2) \<and> same_writer w1 w2"
    using seal_within [OF s, of v] g1 by (simp add: same_writer_def)
  then show ?thesis
    using r h s g1 by (auto simp: after_commit_def Let_def same_writer_def split: if_splits option.splits)
qed

lemma commit_delta_within:
  assumes r: "commit_delta S c m w W = (x, w', W')" and i: "within (w_path w) (w_epoch w) v (objs W)"
  shows "within (w_path w) (w_epoch w) v (objs W') \<and> same_writer w w'"
proof -
  let ?k = "deltaKey (w_path w) (w_epoch w) (nextDelta w)" and ?in = "within (w_path w) (w_epoch w) v"
  let ?d = "encode_delta \<lparr>dm_Version = manifestVersion, dm_Seq = nextDelta w, dm_Groups = [m], CommittedAt = w_now w (ticks W)\<rparr>"
  obtain y W1 where c: "on_store (Create S c ?k ?d) (W\<lparr>ticks := Suc (ticks W)\<rparr>) = (y, W1)" by fastforce
  have g1: "?in (objs W1)" using on_store_within [OF c] Create_within i by fastforce
  obtain b W2 where h: "on_store (holds S c ?k ?d) W1 = (b, W2)" by fastforce
  have g2: "?in (objs W2)"
  proof (rule on_store_within [OF h _ g1])
    fix s s' y assume "holds S c ?k ?d s = (y, s')" "?in s"
    then show "?in s'"
      using get_view [OF within_inv] by (auto simp: holds_def split: prod.splits sum.splits intro: within_read)
  qed
  have x: "(x, w', W') = (case y of Inr _ \<Rightarrow> after_commit S c m ?d w W1 | Inl err \<Rightarrow>
      if b then after_commit S c m ?d w W2 else ((zero_GroupInfo, Some err), w\<lparr>stale := True\<rparr>, W2))"
    using r c h by (cases y; cases b) (simp_all add: commit_delta_def now_def)
  show ?thesis
    using x after_commit_within [OF _ g1, of c m ?d x w' W'] after_commit_within [OF _ g2, of c m ?d x w' W'] g2
    by (cases y; cases b) (simp_all add: same_writer_def)
qed

lemma append_checked_within:
  assumes r: "append_checked S c m payload w W = (x, w', W')" and i: "within (w_path w) (w_epoch w) v (objs W)"
    and id: "ID m = NewGroupID (w_epoch w) n"
  shows "within (w_path w) (w_epoch w) v (objs W') \<and> same_writer w w'"
proof -
  let ?m = "m\<lparr>ObjectKey := groupKey (w_path w) (ID m), Size := int (length payload)\<rparr>"
  obtain y W1 where c: "on_store (Create S c (groupKey (w_path w) (ID m)) payload) W = (y, W1)" by fastforce
  have "within (w_path w) (w_epoch w) v (objs W1)" 
    using on_store_within [OF c [unfolded id] _ i] Create_within by blast
  then show ?thesis
    using r c i commit_delta_within [of c ?m w W1 x w' W' v]
    by (cases y) (auto simp: append_checked_def Let_def same_writer_def split: if_splits option.splits)
qed

lemma AppendGroup_within:
  assumes r: "AppendGroup S c N meta payload w W = (x, w', W')" and i: "within (w_path w) (w_epoch w) v (objs W)"
  shows "within (w_path w) (w_epoch w) v (objs W') \<and> same_writer w w'"
proof -
  let ?m = "meta\<lparr>ID := NewGroupID (w_epoch w) (Sequence (ID meta))\<rparr>"
  obtain r1 w1 s1 where rl: "reloadIfStale S c N w (objs W) = (r1, w1, s1)" using prod_cases3 by blast
  have g1: "within (w_path w) (w_epoch w) v s1" "same_writer w w1"
    using reloadIfStale_view [OF rl within_inv [OF i]] within_read [OF i] by auto
  obtain m2 W2 where st: "stamp w1 ?m (W\<lparr>objs := s1\<rparr>) = (m2, W2)" by fastforce
  then have "objs W2 = s1" "ID m2 = ID ?m" by (auto simp: stamp_def now_def split: if_splits)
  then have "append_checked S c m2 payload w1 W2 = (x, w', W') \<Longrightarrow> ?thesis"
    using append_checked_within [of c m2 payload w1 W2 x w' W' v "Sequence (ID meta)"] g1 by (auto simp: same_writer_def)
  then show ?thesis
    using r rl st g1 i by (auto simp: AppendGroup_steps Let_def same_writer_def split: option.splits)
qed

lemma append_loop_within:
  assumes "append_loop S c N duration payload wallclock left floor w W = (x, w', W')"
    and "within (w_path w) (w_epoch w) v (objs W)"
  shows "within (w_path w) (w_epoch w) v (objs W') \<and> same_writer w w'"
  using assms
proof (induction left arbitrary: floor w W)
  case 0
  obtain r1 w1 s1 where rl: "reloadIfStale S c N w (objs W) = (r1, w1, s1)" using prod_cases3 by blast
  have g1: "within (w_path w) (w_epoch w) v s1" "same_writer w w1"
    using reloadIfStale_view [OF rl within_inv [OF 0(2)]] within_read [OF 0(2)] by auto
  then have "AppendGroup S c N m payload w1 (W\<lparr>objs := s1\<rparr>) = (x, w', W') \<Longrightarrow> ?case" for m
    using AppendGroup_within [of c N m payload w1 "W\<lparr>objs := s1\<rparr>" x w' W' v] by (auto simp: same_writer_def)
  then show ?case using 0(1) rl g1 by (subst (asm) append_loop.simps) (auto simp: Let_def split: option.splits prod.splits)
next
  case (Suc k)
  obtain r1 w1 s1 where rl: "reloadIfStale S c N w (objs W) = (r1, w1, s1)" using prod_cases3 by blast
  have g1: "within (w_path w) (w_epoch w) v s1" "same_writer w w1"
    using reloadIfStale_view [OF rl within_inv [OF Suc.prems(2)]] within_read [OF Suc.prems(2)] by auto
  let ?seq = "max (if hasLast w1 then Sequence (ID (w_last w1)) + 1 else 0) floor"
  let ?m = "zero_GroupInfo\<lparr>ID := NewGroupID 0 ?seq, MediaTime := if hasLast w1 then mediaEnd (w_last w1) else 0,
    Duration := duration, Wallclock := wallclock\<rparr>"
  obtain y w2 W2 where a: "AppendGroup S c N ?m payload w1 (W\<lparr>objs := s1\<rparr>) = (y, w2, W2)" using prod_cases3 by blast
  have g2: "within (w_path w) (w_epoch w) v (objs W2)" "same_writer w w2"
    using AppendGroup_within [OF a, of v] g1 by (auto simp: same_writer_def)
  have ih: "append_loop S c N duration payload wallclock k (?seq + 1) w2 W2 = (x, w', W') \<Longrightarrow> ?case"
    using Suc.IH [of "?seq + 1" w2 W2] g2 by (auto simp: same_writer_def)
  show ?case
  proof (cases r1)
    case (Some err)
    then show ?thesis using Suc.prems(1) rl g1 by (subst (asm) append_loop.simps) auto
  next
    case None
    obtain g err where y: "y = (g, err)" by fastforce
    have "(if \<not> isGroupObjectCollision err then ((g, err), w2, W2)
      else append_loop S c N duration payload wallclock k (?seq + 1) w2 W2) = (x, w', W')"
      using Suc.prems(1) rl None a y by (subst (asm) append_loop.simps) (simp add: Let_def)
    then show ?thesis using ih g2 by (auto split: if_splits)
  qed
qed

lemma Append_within:
  assumes "Append S c N duration payload w W = (x, w', W')" and "within (w_path w) (w_epoch w) v (objs W)"
  shows "within (w_path w) (w_epoch w) v (objs W') \<and> same_writer w w'"
  using append_loop_within [of c N duration payload "w_now w (ticks W)" maxSkippedSequences 0 w "W\<lparr>ticks := Suc (ticks W)\<rparr>" x w' W' v]
    assms by (simp add: Append_def now_def)

end

section \<open>The property\<close>

text \<open>
  C14. A writer touches only what is its own: whatever a store call of \<open>AppendGroup\<close>, \<open>Append\<close> or
  \<open>Seal\<close> does, no object changes but the log, head and deltas of the writer's epoch; a sealed
  manifest of that epoch or a group object under an identity stamped with it may appear, and one that exists
  is never changed or removed. No other track, no other epoch, no root and no redaction marker is touched.
\<close>

theorem writer_touches_only_its_own:
  assumes "store_contract S view I" and "I (objs W)"
    and "AppendGroup S c N meta payload w W = (x, w', W') \<or> Append S c N duration payload w W = (x, w', W') \<or>
      Seal S c w W = (r, w', W')"
  shows "I (objs W') \<and> written (w_path w) (w_epoch w) (view (objs W)) (view (objs W'))"
proof -
  have i: "store_contract.within view I (w_path w) (w_epoch w) (view (objs W)) (objs W)"
    using assms(2) by (simp add: store_contract.within_def [OF assms(1)])
  have "store_contract.within view I (w_path w) (w_epoch w) (view (objs W)) (objs W')"
    using assms(3) store_contract.AppendGroup_within [OF assms(1) _ i] store_contract.Append_within [OF assms(1) _ i]
      store_contract.seal_within [OF assms(1) _ i] unfolding Seal_def by blast
  then show ?thesis by (simp add: store_contract.within_def [OF assms(1)])
qed

theorem writer_touches_only_its_own_witness:
  "\<exists>x w' W'. Append mem_store Live 1 1000 ''data'' demo_writer demo_log_world = (x, w', W') \<and>
    mem_view (objs W') (rootKey ''cam'') = mem_view (objs demo_log_world) (rootKey ''cam'') \<and>
    mem_view (objs W') (rootKey ''mic'') = None"
proof -
  note d = demo_writer_inv
  obtain x w' W' where a: "Append mem_store Live 1 1000 ''data'' demo_writer demo_log_world = (x, w', W')"
    using prod_cases3 by blast
  then have w: "written ''cam'' 1 (mem_view (objs demo_log_world)) (mem_view (objs W'))"
    using writer_touches_only_its_own [OF mem.store_contract_axioms d(1), of Live 1 demo_meta "''data''" demo_writer x w' W' 1000]
    unfolding d(4,5) by blast
  have "mem_view (objs demo_log_world) (rootKey ''mic'') = None" by (rule d(6)) simp_all
  with writtenD(1) [OF w] a show ?thesis by simp
qed

end
