(* ===== verification/Writer_Append.thy ===== *)
theory Writer_Append
  imports Writer_Frame
begin

text \<open>
  What \<open>Append\<close> does on any store that keeps the contract: through all its retries it commits at most one
  row, a row it returns is the last one of the epoch, and the payload it was given is stored under that
  row's key.
\<close>

lemma zero_ObjectKey [simp]: "ObjectKey zero_GroupInfo = ''''"
  by (simp add: zero_GroupInfo_def)

lemma groupKey_nonempty [simp]: "groupKey p i \<noteq> ''''"
  by (simp add: groupKey_def)

lemma commit_delta_answers:
  assumes "commit_delta S c m w W = ((g, r), w', W')"
  shows "g = m \<or> g = zero_GroupInfo"
  using assms by (auto simp: commit_delta_def after_commit_def Let_def split: prod.splits sum.splits option.splits if_splits bool.splits)

context store_contract
begin

lemma append_checked_payload:
  assumes r: "append_checked S c m payload w W = ((g, r), w', W')" and i: "inv (objs W)" and g: "ObjectKey g \<noteq> ''''"
  shows "\<exists>u. view (objs W') (ObjectKey g) = Some (payload, u)"
proof -
  let ?k = "groupKey (w_path w) (ID m)" and ?m = "m\<lparr>ObjectKey := groupKey (w_path w) (ID m), Size := int (length payload)\<rparr>"
  obtain y s1 where cr: "Create S c ?k payload (objs W) = (y, s1)" by fastforce
  let ?W1 = "W\<lparr>objs := s1\<rparr>"
  obtain u where y: "y = Inr u" and run: "commit_delta S c ?m w ?W1 = ((g, r), w', W')"
    using r g cr by (auto simp: append_checked_def on_store_def Let_def split: if_splits option.splits sum.splits)
  have i1: "inv s1" using create_inv [OF i cr] .
  have v1: "view s1 ?k = Some (payload, u)" using create_Inr [OF i] cr y by fastforce
  have "within (w_path w) (w_epoch w) (view s1) (objs ?W1)" using i1 by (simp add: within_def)
  from commit_delta_within [OF run this] have "written (w_path w) (w_epoch w) (view s1) (view (objs W'))"
    by (simp add: within_def)
  with v1 have "view (objs W') ?k = Some (payload, u)" using writtenD(8) [of "w_path w" "w_epoch w"] by fastforce
  moreover have "ObjectKey g = ?k" using commit_delta_answers [OF run] g by auto
  ultimately show ?thesis by auto
qed

lemma AppendGroup_payload:
  assumes r: "AppendGroup S c N meta payload w W = ((g, r), w', W')" and i: "inv (objs W)" and g: "ObjectKey g \<noteq> ''''"
  shows "\<exists>u. view (objs W') (ObjectKey g) = Some (payload, u)"
proof -
  let ?m = "meta\<lparr>ID := NewGroupID (w_epoch w) (Sequence (ID meta))\<rparr>"
  obtain r1 w1 s1 where rl: "reloadIfStale S c N w (objs W) = (r1, w1, s1)" using prod_cases3 by blast
  obtain m2 W2 where st: "stamp w1 ?m (W\<lparr>objs := s1\<rparr>) = (m2, W2)" by fastforce
  have "objs W2 = s1" using st by (auto simp: stamp_def now_def split: if_splits)
  then have i2: "inv (objs W2)" using reloadIfStale_view [OF rl i] by simp
  have "append_checked S c m2 payload w1 W2 = ((g, r), w', W')"
    using r rl st g by (auto simp: AppendGroup_steps Let_def split: option.splits)
  from append_checked_payload [OF this i2 g] show ?thesis .
qed

text \<open>What an append has done, whatever it answered.\<close>

definition appended :: "GroupInfo list list \<Rightarrow> bytes \<Rightarrow> Writer \<Rightarrow> (GroupInfo \<times> error option) \<times> Writer \<times> 's world \<Rightarrow> bool" where
  "appended ds payload w x = (case x of ((g, r), w', W') \<Rightarrow> inv (objs W') \<and> same_writer w w' \<and>
     (\<exists>ds'. writer_inv (view (objs W')) w' ds' \<and> (ds' = ds \<or> (\<exists>row. ds' = ds @ [[row]])) \<and>
       (if ObjectKey g = '''' then r \<noteq> None
        else ds' = ds @ [[g]] \<and> (\<exists>u. view (objs W') (ObjectKey g) = Some (payload, u)))))"

lemma AppendGroup_appended:
  assumes r: "AppendGroup S c N meta payload w W = ((g, r), w', W')" and i: "inv (objs W)" and wi: "writer_inv (view (objs W)) w ds"
    and meta: "meta_ok meta payload" and room: "int (Suc (length (concat ds))) \<le> MaxInt64"
  shows "appended ds payload w ((g, r), w', W')"
    and "isGroupObjectCollision r \<Longrightarrow> inv (objs W') \<and> same_writer w w' \<and> writer_inv (view (objs W')) w' ds"
proof -
  obtain wc where k: "inv (objs W')" "same_writer w w'"
    "writer_inv (view (objs W')) w' ds \<and> r \<noteq> None \<or> writer_inv (view (objs W')) w' (ds @ [[committed_row w meta payload wc]])"
    "r = None \<longrightarrow> g = committed_row w meta payload wc"
    "g = zero_GroupInfo \<or> g = committed_row w meta payload wc \<and> writer_inv (view (objs W')) w' (ds @ [[committed_row w meta payload wc]])"
    "isGroupObjectCollision r \<longrightarrow> writer_inv (view (objs W')) w' ds"
    using AppendGroup_outcome [OF assms] by blast
  have key: "ObjectKey (committed_row w meta payload wc) \<noteq> ''''" by (simp add: committed_row_def Let_def)
  show "appended ds payload w ((g, r), w', W')"
  proof (cases "ObjectKey g = ''''")
    case True
    then have "r \<noteq> None" using k(4) key by auto
    with True k(1-3) show ?thesis unfolding appended_def by auto
  next
    case False
    then have "writer_inv (view (objs W')) w' (ds @ [[g]])" using k(5) by auto
    with False k(1,2) AppendGroup_payload [OF r i False] show ?thesis unfolding appended_def by auto
  qed
  show "isGroupObjectCollision r \<Longrightarrow> inv (objs W') \<and> same_writer w w' \<and> writer_inv (view (objs W')) w' ds"
    using k by blast
qed

lemma append_loop_once:
  assumes i: "inv (objs W)" and wi: "writer_inv (view (objs W)) w ds" and room: "int (Suc (length (concat ds))) \<le> MaxInt64"
    and ok: "is_i64 duration" "is_i64 wallclock" "int (length payload) \<le> MaxInt64"
  obtains y where "appended ds payload w y" "append_loop S c N duration payload wallclock left floor w W = y"
  | q r w2 W2 where "inv (objs W2)" "same_writer w w2" "writer_inv (view (objs W2)) w2 ds" "left \<noteq> 0"
      "append_loop S c N duration payload wallclock left floor w W = append_loop S c N duration payload wallclock (left - 1) q w2 W2"
proof -
  obtain r1 w1 s1 where rl: "reloadIfStale S c N w (objs W) = (r1, w1, s1)" using prod_cases3 by blast
  note k = reloadIfStale_inv [OF rl i wi]
  show thesis
  proof (cases r1)
    case (Some err)
    with k have "appended ds payload w ((zero_GroupInfo, Some err), w1, W\<lparr>objs := s1\<rparr>)"
      unfolding appended_def by auto
    moreover have "append_loop S c N duration payload wallclock left floor w W = ((zero_GroupInfo, Some err), w1, W\<lparr>objs := s1\<rparr>)"
      using rl Some by (subst append_loop.simps) simp
    ultimately show thesis by (rule that(1))
  next
    case None
    let ?W1 = "W\<lparr>objs := s1\<rparr>"
    let ?seq = "max (if hasLast w1 then Sequence (ID (w_last w1)) + 1 else 0) floor"
    let ?m = "zero_GroupInfo\<lparr>ID := NewGroupID 0 ?seq, MediaTime := if hasLast w1 then mediaEnd (w_last w1) else 0,
      Duration := duration, Wallclock := wallclock\<rparr>"
    obtain g r w2 W2 where a: "AppendGroup S c N ?m payload w1 ?W1 = ((g, r), w2, W2)" by (metis prod.collapse)
    have i1: "inv (objs ?W1)" and wi1: "writer_inv (view (objs ?W1)) w1 ds" using k by auto
    have "is_i64 (mediaEnd (w_last w1))" by (simp add: mediaEnd_def)
    then have "meta_ok ?m payload" using ok
      by (auto simp: meta_ok_def typed_GroupInfo_def zero_GroupInfo_def i64_bounds valid_utf8.simps)
    note out = AppendGroup_appended [OF a i1 wi1 this room]
    have o: "appended ds payload w ((g, r), w2, W2)" using out(1) k by (auto simp: appended_def same_writer_def)
    have run: "append_loop S c N duration payload wallclock left floor w W =
        (if left = 0 \<or> \<not> isGroupObjectCollision r then ((g, r), w2, W2)
         else append_loop S c N duration payload wallclock (left - 1) (?seq + 1) w2 W2)"
      using rl None a by (subst append_loop.simps) (cases left; simp add: Let_def)
    show thesis
    proof (cases "left = 0 \<or> \<not> isGroupObjectCollision r")
      case True
      with run that(1) [OF o] show thesis by simp
    next
      case False
      with out(2) k have "inv (objs W2)" "same_writer w w2" "writer_inv (view (objs W2)) w2 ds"
        using same_writer_trans by blast+
      with run False that(2) show thesis by simp
    qed
  qed
qed

lemma append_loop_appended:
  assumes "inv (objs W)" and "writer_inv (view (objs W)) w ds" and room: "int (Suc (length (concat ds))) \<le> MaxInt64"
    and ok: "is_i64 duration" "is_i64 wallclock" "int (length payload) \<le> MaxInt64"
  shows "appended ds payload w (append_loop S c N duration payload wallclock left floor w W)"
  using assms(1-2)
proof (induction left arbitrary: floor w W)
  case 0
  show ?case by (rule append_loop_once [OF 0 room ok, of c N 0 floor]) auto
next
  case (Suc n)
  show ?case
  proof (rule append_loop_once [OF Suc.prems room ok, of c N "Suc n" floor])
    fix q r w2 and W2 :: "'s world"
    assume s: "inv (objs W2)" "same_writer w w2" "writer_inv (view (objs W2)) w2 ds"
      and e: "append_loop S c N duration payload wallclock (Suc n) floor w W =
        append_loop S c N duration payload wallclock (Suc n - 1) q w2 W2"
    from Suc.IH [OF s(1,3), of q] have "appended ds payload w2 (append_loop S c N duration payload wallclock n q w2 W2)" .
    with s(2) have "appended ds payload w (append_loop S c N duration payload wallclock n q w2 W2)"
      by (auto simp: appended_def same_writer_def split: prod.splits)
    with e show ?case by simp
  qed auto
qed

lemma Append_appended:
  assumes i: "inv (objs W)" and wi: "writer_inv (view (objs W)) w ds" and room: "int (Suc (length (concat ds))) \<le> MaxInt64"
    and ok: "is_i64 duration" "int (length payload) \<le> MaxInt64"
  shows "appended ds payload w (Append S c N duration payload w W)"
proof -
  have "is_i64 (w_now w (ticks W))" using wi by (simp add: writer_inv_def writer_ok_def clock_ok_def)
  with append_loop_appended [of "W\<lparr>ticks := Suc (ticks W)\<rparr>" w ds duration "w_now w (ticks W)" payload c N maxSkippedSequences 0] assms
  show ?thesis by (simp add: Append_def now_def)
qed

end

end
