(* ===== verification/Ingest_Inv.thy ===== *)
theory Ingest_Inv
  imports Ingest Writer_Append "HOL-Library.Sublist"
begin

text \<open>
  The state of the ingest server between requests: every open track stands under its own path, nobody holds
  it, and its remembered replies are those of at most 1024 keys. Each handler keeps this, whatever the
  store answers.
\<close>

section \<open>The handler's state\<close>

definition keys_inv :: "itrack \<Rightarrow> bool" where
  "keys_inv tr \<longleftrightarrow> distinct (it_keys tr) \<and> distinct (map fst (replies tr)) \<and> set (map fst (replies tr)) = set (it_keys tr) \<and>
     length (it_keys tr) \<le> idempotencyKeys"

text \<open>Every open track is held under its path, by the number of users \<open>u\<close> gives it.\<close>

definition handler_inv :: "(TrackPath \<Rightarrow> int) \<Rightarrow> Handler \<Rightarrow> bool" where
  "handler_inv u h \<longleftrightarrow> distinct (map fst (tracks h)) \<and>
     (\<forall>(k, tr) \<in> set (tracks h). keys_inv tr \<and> Path_ingest (it_Track tr) = k \<and> users tr = u k)"

definition nobody :: "TrackPath \<Rightarrow> int" where
  "nobody = (\<lambda>_. 0)"

lemma nobody_upd [simp]: "nobody(k := 0) = nobody"
  by (auto simp: nobody_def)

text \<open>A step of the handler: its settings stay and the log of its hooks only grows.\<close>

definition step :: "(TrackPath \<Rightarrow> int) \<Rightarrow> Handler \<Rightarrow> Handler \<Rightarrow> bool" where
  "step u h h' \<longleftrightarrow> handler_inv u h' \<and> opts h' = opts h \<and> maxBody h' = maxBody h \<and> idle h' = idle h \<and> prefix (hooks h) (hooks h')"

lemma step_refl: "handler_inv u h \<Longrightarrow> step u h h"
  by (simp add: step_def)

lemma step_trans: "step u h h1 \<Longrightarrow> step v h1 h2 \<Longrightarrow> step v h h2"
  by (auto simp: step_def)

lemma step_inv: "step u h h' \<Longrightarrow> handler_inv u h'"
  by (simp add: step_def)

lemma handler_inv_at:
  "handler_inv u h \<Longrightarrow> map_of (tracks h) k = Some tr \<Longrightarrow> keys_inv tr \<and> Path_ingest (it_Track tr) = k \<and> users tr = u k"
  unfolding handler_inv_def by (blast dest: map_of_SomeD)

lemma handler_inv_update:
  assumes h: "handler_inv u h" and tr: "keys_inv tr" "Path_ingest (it_Track tr) = k"
  shows "handler_inv (u(k := users tr)) (h\<lparr>tracks := AList.update k tr (tracks h)\<rparr>)"
proof -
  have d: "distinct (map fst (AList.update k tr (tracks h)))"
    using h distinct_update [of "tracks h" k tr] by (simp add: handler_inv_def)
  have "keys_inv tr' \<and> Path_ingest (it_Track tr') = k' \<and> users tr' = (u(k := users tr)) k'"
    if "(k', tr') \<in> set (AList.update k tr (tracks h))" for k' tr'
  proof -
    from that d have m: "map_of (AList.update k tr (tracks h)) k' = Some tr'" by simp
    show ?thesis
    proof (cases "k' = k")
      case True
      with m tr show ?thesis by (simp add: update_conv')
    next
      case False
      with m have "map_of (tracks h) k' = Some tr'" by (simp add: update_conv')
      from handler_inv_at [OF h this] False show ?thesis by simp
    qed
  qed
  with d show ?thesis by (auto simp: handler_inv_def)
qed

lemma step_hooks: "handler_inv u h \<Longrightarrow> step u h (h\<lparr>hooks := hooks h @ xs\<rparr>)"
  by (auto simp: step_def handler_inv_def)

lemma handler_inv_absent:
  assumes "handler_inv u h" and "map_of (tracks h) k = None"
  shows "handler_inv (u(k := n)) h"
proof -
  have "k' \<noteq> k" if "(k', tr) \<in> set (tracks h)" for k' tr
    using assms(2) that by (metis fst_conv image_eqI map_of_eq_None_iff)
  with assms(1) show ?thesis by (auto simp: handler_inv_def)
qed

lemma step_update:
  assumes h: "handler_inv u h"
    and f: "\<And>tr. keys_inv tr \<Longrightarrow> Path_ingest (it_Track tr) = k \<Longrightarrow> users tr = u k \<Longrightarrow>
      keys_inv (f tr) \<and> Path_ingest (it_Track (f tr)) = k \<and> users (f tr) = n"
  shows "step (u(k := n)) h (update_track k f h)"
proof (cases "map_of (tracks h) k")
  case None
  with handler_inv_absent [OF h] show ?thesis by (simp add: update_track_def step_def)
next
  case (Some tr)
  with handler_inv_at [OF h Some] f have "keys_inv (f tr)" "Path_ingest (it_Track (f tr)) = k" "users (f tr) = n" by auto
  from handler_inv_update [OF h this(1,2)] this(3) Some show ?thesis by (simp add: update_track_def step_def)
qed

lemma step_closeIdle: "handler_inv u h \<Longrightarrow> step u h (closeIdle tm h)"
  by (auto simp: step_def closeIdle_def handler_inv_def distinct_map_filter)

lemma keys_inv_fields [simp]:
  "keys_inv (tr\<lparr>users := u\<rparr>) = keys_inv tr" "keys_inv (tr\<lparr>users := u, lastUsed := t\<rparr>) = keys_inv tr"
  "keys_inv (tr\<lparr>it_writer := w\<rparr>) = keys_inv tr" "keys_inv (tr\<lparr>it_limit := b, senders := bs\<rparr>) = keys_inv tr"
  by (simp_all add: keys_inv_def)

lemma delete_dom: "fst ` set (AList.delete a xs) = fst ` set xs - {a}"
  by (metis delete_keys set_map set_removeAll)

lemma keys_inv_remember:
  assumes "keys_inv tr" and "key \<notin> set (it_keys tr)"
  shows "keys_inv (remember key rep tr)" and "map_of (replies (remember key rep tr)) key = Some rep"
    and "it_Track (remember key rep tr) = it_Track tr" and "users (remember key rep tr) = users tr"
proof -
  define tr1 where "tr1 = (if length (it_keys tr) = idempotencyKeys
    then tr\<lparr>replies := AList.delete (hd (it_keys tr)) (replies tr), it_keys := tl (it_keys tr)\<rparr> else tr)"
  have rem: "remember key rep tr = tr1\<lparr>replies := AList.update key rep (replies tr1), it_keys := it_keys tr1 @ [key]\<rparr>"
    by (simp add: remember_def tr1_def Let_def)
  have ne: "it_keys tr \<noteq> []" if "length (it_keys tr) = idempotencyKeys" using that by (auto simp: idempotencyKeys_def)
  have k: "set (tl (it_keys tr)) = set (it_keys tr) - {hd (it_keys tr)}" if "it_keys tr \<noteq> []"
    using that assms(1) by (cases "it_keys tr") (auto simp: keys_inv_def)
  have 1: "distinct (it_keys tr1)" "distinct (map fst (replies tr1))" "set (map fst (replies tr1)) = set (it_keys tr1)"
      "length (it_keys tr1) < idempotencyKeys" "key \<notin> set (it_keys tr1)"
    using assms ne k distinct_delete [of "replies tr" "hd (it_keys tr)"]
    by (auto simp: tr1_def keys_inv_def distinct_tl delete_dom idempotencyKeys_def dest: list.set_sel(2))
  have "set (map fst (AList.update key rep (replies tr1))) = insert key (set (map fst (replies tr1)))"
    by (simp add: dom_update)
  with 1 distinct_update [of "replies tr1" key rep] show "keys_inv (remember key rep tr)"
    by (simp add: rem keys_inv_def)
  show "map_of (replies (remember key rep tr)) key = Some rep" by (simp add: rem update_conv')
  show "it_Track (remember key rep tr) = it_Track tr" "users (remember key rep tr) = users tr"
    by (simp_all add: rem tr1_def)
qed

lemma step_open_track:
  assumes h: "handler_inv nobody h" and r: "open_track S clk N c t h W = (x, h', W')"
  shows "x = Inl e \<Longrightarrow> step nobody h h'"
    and "x = Inr k \<Longrightarrow> step (nobody(k := 1)) h h' \<and> k = Path_ingest t \<and> (\<exists>tr. map_of (tracks h') k = Some tr)"
proof -
  let ?k = "Path_ingest t" and ?h = "closeIdle (clk (ticks W)) h" and ?W = "W\<lparr>ticks := Suc (ticks W)\<rparr>"
  have i: "step nobody h ?h" "handler_inv nobody ?h" using step_closeIdle [OF h] step_inv by blast+
  have "(\<forall>e. x = Inl e \<longrightarrow> step nobody h h') \<and>
    (\<forall>k. x = Inr k \<longrightarrow> step (nobody(k := 1)) h h' \<and> k = ?k \<and> (\<exists>tr. map_of (tracks h') k = Some tr))"
  proof (cases "map_of (tracks ?h) ?k")
    case (Some tr)
    then have e: "x = Inr ?k" "h' = update_track ?k (\<lambda>tr. tr\<lparr>users := users tr + 1\<rparr>) ?h"
      using r by (auto simp: open_track_def now_def Let_def)
    have "step (nobody(?k := 1)) ?h h'" unfolding e(2) by (rule step_update [OF i(2)]) (simp add: nobody_def)
    with i(1) step_trans have "step (nobody(?k := 1)) h h'" by blast
    moreover have "\<exists>tr. map_of (tracks h') ?k = Some tr" using Some by (simp add: e(2) update_track_def update_conv')
    ultimately show ?thesis using e(1) by simp
  next
    case None
    obtain y W1 where o: "on_store (Open_Track S clk c ?k (op_Config (opts ?h))) ?W = (y, W1)" by fastforce
    show ?thesis
    proof (cases y)
      case (Inl e)
      with r None o i show ?thesis by (auto simp: open_track_def now_def Let_def)
    next
      case (Inr lt)
      obtain z lt' W2 where w: "Writer_Track S c N lt W1 = (z, lt', W2)" using prod_cases3 by blast
      show ?thesis
      proof (cases z)
        case (Inl e)
        with r None o Inr w i show ?thesis by (auto simp: open_track_def now_def Let_def)
      next
        case wr: (Inr wr)
        let ?h1 = "?h\<lparr>tracks := AList.update ?k (new_track t wr) (tracks ?h)\<rparr>"
        have i1: "handler_inv (nobody(?k := 1)) ?h1"
          using handler_inv_update [OF i(2), of "new_track t wr" ?k] by (simp add: new_track_def keys_inv_def)
        then have s1: "step (nobody(?k := 1)) ?h ?h1" by (simp add: step_def)
        have e: "x = Inr ?k" "h' = ?h1\<lparr>hooks := hooks ?h1 @ (if OnOpen (opts ?h) then [Opened t] else [])\<rparr>"
          using r None o Inr w wr by (auto simp: open_track_def now_def Let_def)
        have "step (nobody(?k := 1)) ?h1 h'" unfolding e(2) by (rule step_hooks) fact
        from step_trans [OF step_trans [OF i(1) s1] this] show ?thesis using e by (simp add: update_conv')
      qed
    qed
  qed
  then show "x = Inl e \<Longrightarrow> step nobody h h'"
    and "x = Inr k \<Longrightarrow> step (nobody(k := 1)) h h' \<and> k = Path_ingest t \<and> (\<exists>tr. map_of (tracks h') k = Some tr)"
    by auto
qed

lemma step_release:
  assumes "handler_inv (nobody(k := 1)) h" and "release clk k h W = (h', W')"
  shows "step nobody h h'"
  using assms step_update [of "nobody(k := 1)" h k _ 0] by (auto simp: release_def now_def)

lemma commit_track:
  assumes "commit S N tr d h W = ((g, err), tr', h', W')"
  shows "\<exists>w. tr' = tr\<lparr>it_writer := w\<rparr>" and "handler_inv u h \<Longrightarrow> step u h h'" and "tracks h' = tracks h"
  using assms step_hooks [of u h] by (auto simp: commit_def split: prod.splits)

lemma record_locked_step:
  assumes h: "handler_inv u h" "map_of (tracks h) path = Some tr"
    and r: "record_locked S clk N sender key d tr h W = (rep, tr', h', W')"
  shows "step u h h' \<and> keys_inv tr' \<and> Path_ingest (it_Track tr') = path \<and> users tr' = u path \<and> tracks h' = tracks h"
proof (cases "key \<noteq> '''' \<and> map_of (replies tr) key \<noteq> None")
  case True
  with r h handler_inv_at [OF h] step_refl show ?thesis by (auto simp: record_locked_def)
next
  case False
  let ?W = "W\<lparr>ticks := Suc (ticks W)\<rparr>"
  obtain w b bs where ad: "admit (TrackLimit (opts h)) (SenderLimit (opts h)) (clk (ticks W)) sender (it_limit tr) (senders tr) = (w, b, bs)"
    by (metis prod_cases3)
  let ?tr = "tr\<lparr>it_limit := b, senders := bs\<rparr>"
  obtain g err tr1 h1 W1 where c: "commit S N ?tr d h ?W = ((g, err), tr1, h1, W1)" by (metis prod.collapse)
  note ct = commit_track [OF c]
  have k: "keys_inv ?tr" "Path_ingest (it_Track ?tr) = path" "users ?tr = u path" using handler_inv_at [OF h] by simp_all
  obtain wr where tr1: "tr1 = ?tr\<lparr>it_writer := wr\<rparr>" using ct(1) by blast
  have nk: "key \<notin> set (it_keys tr1)" if "key \<noteq> ''''"
    using False that k tr1 by (auto simp: keys_inv_def map_of_eq_None_iff)
  have k1: "keys_inv tr1" "Path_ingest (it_Track tr1) = path" "users tr1 = u path" using k tr1 by simp_all
  have run: "(rep, tr', h', W') = (if w > 0 then ((answer 429 ErrorBody)\<lparr>Retry_After := Some (int64_of_float (Seconds w) + 1)\<rparr>, ?tr, h, ?W)
      else if ObjectKey g = '''' then (internalError, tr1, h1, W1)
      else (answer 201 (RecordBody (record_response g)), if key \<noteq> '''' then remember key (record_response g) tr1 else tr1, h1, W1))"
    using r False ad c by (auto simp: record_locked_def now_def Let_def)
  show ?thesis
    using run h(1) k k1 ct(2,3) step_refl keys_inv_remember [OF k1(1) nk] by (auto split: if_splits)
qed

section \<open>Requests keep the state sound\<close>

text \<open>A body the server takes, with the record it makes of it.\<close>

definition record_key :: "string \<Rightarrow> ingest_request \<Rightarrow> string" where
  "record_key sender rq = (if rq_key rq \<noteq> '''' then sender @ [CHR 0x00] @ rq_key rq else '''')"

definition body_record :: "codec \<Rightarrow> int \<Rightarrow> string \<Rightarrow> ingest_request \<Rightarrow> http_reply + bytes" where
  "body_record J mb sender rq =
     (case read_body mb (rq_body rq) of
        Inl r \<Rightarrow> Inl r
      | Inr payload \<Rightarrow>
          if \<not> json_Valid J payload \<or> \<not> valid_utf8 payload then Inl (answer 400 ErrorBody)
          else case Marshal J \<lparr>Sender = sender, Payload = payload, Redacts = ''''\<rparr> of
            Inl e \<Rightarrow> Inl internalError
          | Inr d \<Rightarrow> Inr d)"

lemma body_record_status: "body_record J mb sender rq = Inl r \<Longrightarrow> Status r \<noteq> 201"
  by (auto simp: body_record_def read_body_def answer_def internalError_def split: prod.splits if_splits option.splits sum.splits)

lemma serveRecord_opened:
  assumes "resolve_request h rq WriteAccess = Inr (t, sender)" and "length (rq_key rq) \<le> maxIdempotencyKeyLen"
    and "open_track S clk N (rq_ctx rq) t h W = (Inr path, h1, W1)" and "map_of (tracks h1) path = Some tr"
  shows "serveRecord J S clk N rq h W =
    (case body_record J (maxBody h1) sender rq of
       Inl r \<Rightarrow> (r, release clk path h1 W1)
     | Inr d \<Rightarrow> (case record_locked S clk N sender (record_key sender rq) d tr h1 W1 of
         (r, tr', h2, W2) \<Rightarrow> (r, release clk path (update_track path (\<lambda>_. tr') h2) W2)))"
proof (cases "read_body (maxBody h1) (rq_body rq)")
  case (Inl r)
  with assms show ?thesis by (simp add: serveRecord_def body_record_def Let_def split: prod.splits)
next
  case (Inr payload)
  show ?thesis
  proof (cases "\<not> json_Valid J payload \<or> \<not> valid_utf8 payload")
    case True
    with assms Inr show ?thesis by (simp add: serveRecord_def body_record_def Let_def split: prod.splits)
  next
    case False
    show ?thesis
    proof (cases "Marshal J \<lparr>Sender = sender, Payload = payload, Redacts = ''''\<rparr>")
      case (Inl e)
      with assms Inr False show ?thesis by (simp add: serveRecord_def body_record_def Let_def split: prod.splits)
    next
      case d: (Inr d)
      with assms Inr False show ?thesis
        by (simp add: serveRecord_def body_record_def record_key_def Let_def split: prod.splits)
    qed
  qed
qed

lemma serve_held:
  assumes h: "handler_inv nobody h" and o: "open_track S clk N c t h W = (Inr path, h1, W1)"
    and s: "step (nobody(path := 1)) h1 h2"
    and tr: "keys_inv tr" "Path_ingest (it_Track tr) = path" "users tr = 1"
    and rl: "release clk path (update_track path (\<lambda>_. tr) h2) W2 = (h', W')"
  shows "step nobody h h'"
proof -
  have "step (nobody(path := 1)) h h1" using step_open_track(2) [OF h o] by blast
  moreover have "step ((nobody(path := 1))(path := 1)) h2 (update_track path (\<lambda>_. tr) h2)"
    by (rule step_update) (use s tr step_inv in auto)
  then have u: "step (nobody(path := 1)) h2 (update_track path (\<lambda>_. tr) h2)" by simp
  moreover note step_release [OF step_inv [OF u] rl] s
  ultimately show ?thesis using step_trans by blast
qed

lemma serve_unheld:
  assumes h: "handler_inv nobody h" and o: "open_track S clk N c t h W = (Inr path, h1, W1)"
    and rl: "release clk path h1 W2 = (h', W')"
  shows "step nobody h h'"
  using step_open_track(2) [OF h o] step_release [OF _ rl] step_inv step_trans by blast

lemma serveRecord_step:
  assumes h: "handler_inv nobody h" and r: "serveRecord J S clk N rq h W = (rep, h', W')"
  shows "step nobody h h'"
proof (cases "\<exists>t sender. resolve_request h rq WriteAccess = Inr (t, sender) \<and> length (rq_key rq) \<le> maxIdempotencyKeyLen")
  case False
  with r step_refl [OF h] show ?thesis
    by (cases "resolve_request h rq WriteAccess") (auto simp: serveRecord_def split: if_splits)
next
  case True
  then obtain t sender where t: "resolve_request h rq WriteAccess = Inr (t, sender)" "length (rq_key rq) \<le> maxIdempotencyKeyLen"
    by blast
  obtain x h1 W1 where o: "open_track S clk N (rq_ctx rq) t h W = (x, h1, W1)" using prod_cases3 by blast
  show ?thesis
  proof (cases x)
    case (Inl e)
    with r t o step_open_track(1) [OF h o] show ?thesis by (auto simp: serveRecord_def Let_def)
  next
    case (Inr path)
    note s1 = step_open_track(2) [OF h o Inr] and o1 = o [unfolded Inr]
    obtain tr where tr: "map_of (tracks h1) path = Some tr" using s1 by blast
    note run = serveRecord_opened [OF t o1 tr, of J]
    show ?thesis
    proof (cases "body_record J (maxBody h1) sender rq")
      case (Inl e)
      with run r have "release clk path h1 W1 = (h', W')" by simp
      from serve_unheld [OF h o1 this] show ?thesis .
    next
      case d: (Inr d)
      obtain rp tr' h2 W2 where l: "record_locked S clk N sender (record_key sender rq) d tr h1 W1 = (rp, tr', h2, W2)"
        by (metis prod.collapse)
      have i1: "handler_inv (nobody(path := 1)) h1" using s1 step_inv by blast
      note k = record_locked_step [OF i1 tr l]
      have "release clk path (update_track path (\<lambda>_. tr') h2) W2 = (h', W')" using run r d l by simp
      from serve_held [OF h o1 _ _ _ _ this] k show ?thesis by simp
    qed
  qed
qed

lemma serveCreate_step:
  assumes h: "handler_inv nobody h" and r: "serveCreate S clk N rq h W = (rep, h', W')"
  shows "step nobody h h'"
  using r h unfolding serveCreate_def
  by (auto simp: step_refl dest: step_open_track(1) [OF h] serve_unheld [OF h] split: sum.splits prod.splits if_splits)

lemma serveHistory_step:
  assumes h: "handler_inv u h" and r: "serveHistory J S clk N rq h W = (rep, h', W')"
  shows "step u h h'"
proof -
  have "h' = h \<or> (\<exists>tm. h' = closeIdle tm h)"
    using r unfolding serveHistory_def
    by (auto simp: Let_def split: sum.splits option.splits prod.splits)
  with step_refl [OF h] step_closeIdle [OF h] show ?thesis by blast
qed

lemma redact_locked_track:
  assumes "redact_locked J S N tr lt info sender h W = (y, tr', h', W')"
  shows "(\<exists>w. tr' = tr\<lparr>it_writer := w\<rparr>) \<and> (handler_inv u h \<longrightarrow> step u h h')"
proof -
  have same: "\<exists>w. tr = tr\<lparr>it_writer := w\<rparr>" for tr :: itrack by (rule exI [of _ "it_writer tr"]) simp
  have c: "(\<exists>w. tr1 = tr\<lparr>it_writer := w\<rparr>) \<and> (handler_inv u h \<longrightarrow> step u h h1)"
    if "commit S N tr d h W1 = (x, tr1, h1, W2)" for d W1 x tr1 h1 W2
    using that commit_track [of S N tr d h W1] by (cases x) blast
  show ?thesis
    using assms unfolding redact_locked_def
    by (auto simp: same step_refl dest!: c split: sum.splits bool.splits option.splits prod.splits if_splits)
qed

lemma serveRedact_step:
  assumes h: "handler_inv nobody h" and r: "serveRedact J S clk N rq h W = (rep, h', W')"
  shows "step nobody h h'"
proof -
  have held: "step nobody h h4"
    if o: "open_track S clk N (rq_ctx rq) t h W1 = (Inr path, h2, W2)" and tr: "map_of (tracks h2) path = Some tr"
      and l: "redact_locked J S N tr lt info sender h2 W2 = (y, tr', h3, W3)"
      and rl: "release clk path (update_track path (\<lambda>_. tr') h3) W3 = (h4, W4)"
    for t W1 path h2 W2 tr lt info sender y tr' h3 W3 h4 W4
  proof -
    have i: "handler_inv (nobody(path := 1)) h2" using step_open_track(2) [OF h o] step_inv by blast
    from redact_locked_track [OF l, of "nobody(path := 1)"] i
    have s2: "step (nobody(path := 1)) h2 h3" and tr': "\<exists>w. tr' = tr\<lparr>it_writer := w\<rparr>" by auto
    have "keys_inv tr' \<and> Path_ingest (it_Track tr') = path \<and> users tr' = 1" using handler_inv_at [OF i tr] tr' by auto
    with serve_held [OF h o s2 _ _ _ rl] show ?thesis by blast
  qed
  have gone: "step nobody h h2" if "open_track S clk N (rq_ctx rq) t h W1 = (Inr path, h2, W2)" "map_of (tracks h2) path = None"
    for t W1 path h2 W2
    using step_open_track(2) [OF h that(1)] that(2) by auto
  show ?thesis
    using r h unfolding serveRedact_def
    by (auto simp: Let_def step_refl dest: step_open_track(1) [OF h] held gone
      split: sum.splits option.splits prod.splits if_splits)
qed

end
