(* ===== verification/Ingest_Rows.thy ===== *)
theory Ingest_Rows
  imports Ingest_Inv
begin

text \<open>
  What requests do beyond one handler's step: the states a server reaches, the replies it remembers, and
  the rows of a track before and after a record, on any store that keeps the contract and on one that
  always answers.
\<close>

section \<open>Runs of requests\<close>

text \<open>
  The states a server reaches: requests come one after the other and anyone else may change the store
  between them.
\<close>

inductive serving ::
  "codec \<Rightarrow> 's store \<Rightarrow> clock \<Rightarrow> nat \<Rightarrow> Options \<Rightarrow> Handler \<Rightarrow> 's world \<Rightarrow> bool"
  for J S clk N op where
  serving_new: "NewHandler op = Inr h \<Longrightarrow> serving J S clk N op h W"
| serving_request: "serving J S clk N op h W \<Longrightarrow> ServeHTTP J S clk N verb rq h W = (rep, h', W') \<Longrightarrow> serving J S clk N op h' W'"
| serving_others: "serving J S clk N op h W \<Longrightarrow> serving J S clk N op h (W\<lparr>objs := s\<rparr>)"

lemma NewHandler_inv: "NewHandler op = Inr h \<Longrightarrow> handler_inv nobody h \<and> opts h = op"
  by (auto simp: NewHandler_def handler_inv_def split: if_splits)

lemma ServeHTTP_step:
  assumes "handler_inv nobody h" and "ServeHTTP J S clk N verb rq h W = (rep, h', W')"
  shows "step nobody h h'"
  using assms unfolding ServeHTTP_def
  by (auto simp: step_refl split: if_splits
    dest: serveCreate_step serveRecord_step serveHistory_step serveRedact_step)

lemma serving_inv: "serving J S clk N op h W \<Longrightarrow> handler_inv nobody h \<and> opts h = op"
proof (induction rule: serving.induct)
  case (serving_new h W)
  then show ?case by (rule NewHandler_inv)
next
  case (serving_request h W verb rq rep h' W')
  then show ?case using ServeHTTP_step unfolding step_def by blast
qed simp

section \<open>A remembered reply\<close>

lemma map_of_filter:
  "distinct (map fst xs) \<Longrightarrow> map_of xs k = Some v \<Longrightarrow> P (k, v) \<Longrightarrow> map_of (filter P xs) k = Some v"
  by (simp add: distinct_map_filter)

lemma closeIdle_keeps:
  assumes h: "handler_inv u h" and tr: "map_of (tracks h) k = Some tr" and tm: "tm - lastUsed tr < idle h"
  shows "map_of (tracks (closeIdle tm h)) k = Some tr"
  using assms map_of_filter [of "tracks h" k tr] by (simp add: closeIdle_def handler_inv_def)

lemma open_held:
  assumes h: "handler_inv u h" and tr: "map_of (tracks h) (Path_ingest t) = Some tr" and tm: "clk (ticks W) - lastUsed tr < idle h"
  shows "\<exists>h1. open_track S clk N c t h W = (Inr (Path_ingest t), h1, W\<lparr>ticks := Suc (ticks W)\<rparr>) \<and>
    map_of (tracks h1) (Path_ingest t) = Some (tr\<lparr>users := users tr + 1\<rparr>) \<and> maxBody h1 = maxBody h \<and> opts h1 = opts h \<and> hooks h1 = hooks h"
  using closeIdle_keeps [OF assms]
  by (simp add: open_track_def now_def Let_def update_track_def update_conv') (simp add: closeIdle_def)

lemma update_track_here: "map_of (tracks h) k = Some tr \<Longrightarrow> map_of (tracks (update_track k f h)) k = Some (f tr)"
  by (simp add: update_track_def update_conv')

lemma update_track_fields [simp]:
  "hooks (update_track k f h) = hooks h" "opts (update_track k f h) = opts h" "maxBody (update_track k f h) = maxBody h"
  "idle (update_track k f h) = idle h"
  by (simp_all add: update_track_def split: option.splits)

text \<open>A record that was answered with 201 under a key is remembered under that key.\<close>

lemma record_locked_remembers:
  assumes h: "handler_inv u h" "map_of (tracks h) path = Some tr"
    and r: "record_locked S clk N sender key d tr h W = (rep, tr', h', W')" and ok: "Status rep = 201" and key: "key \<noteq> ''''"
  shows "\<exists>x. rep = answer 201 (RecordBody x) \<and> map_of (replies tr') key = Some x"
proof (cases "map_of (replies tr) key")
  case (Some x)
  with r key show ?thesis by (auto simp: record_locked_def)
next
  case None
  obtain w b bs where ad: "admit (TrackLimit (opts h)) (SenderLimit (opts h)) (clk (ticks W)) sender (it_limit tr) (senders tr) = (w, b, bs)"
    by (metis prod_cases3)
  let ?W = "W\<lparr>ticks := Suc (ticks W)\<rparr>" and ?tr = "tr\<lparr>it_limit := b, senders := bs\<rparr>"
  obtain g err tr1 h1 W1 where c: "commit S N ?tr d h ?W = ((g, err), tr1, h1, W1)" by (metis prod.collapse)
  have k: "keys_inv tr" using handler_inv_at [OF h] by simp
  then have "key \<notin> set (it_keys tr)" using None by (auto simp: keys_inv_def map_of_eq_None_iff)
  then have k1: "keys_inv tr1" "key \<notin> set (it_keys tr1)" using commit_track(1) [OF c] k by auto
  have "rep = answer 201 (RecordBody (record_response g)) \<and> tr' = remember key (record_response g) tr1"
    using r None ad c ok key by (auto simp: record_locked_def now_def answer_def internalError_def Let_def split: if_splits)
  with keys_inv_remember(2) [OF k1] show ?thesis by blast
qed

lemma serveRecord_201:
  assumes h: "handler_inv nobody h" and r: "serveRecord J S clk N rq h W = (rep, h', W')" and ok: "Status rep = 201"
  obtains t sender h1 W1 tr d tr' h2 W2 where "resolve_request h rq WriteAccess = Inr (t, sender)"
    "length (rq_key rq) \<le> maxIdempotencyKeyLen" "open_track S clk N (rq_ctx rq) t h W = (Inr (Path_ingest t), h1, W1)"
    "map_of (tracks h1) (Path_ingest t) = Some tr" "handler_inv (nobody(Path_ingest t := 1)) h1" "step (nobody(Path_ingest t := 1)) h h1"
    "body_record J (maxBody h) sender rq = Inr d"
    "record_locked S clk N sender (record_key sender rq) d tr h1 W1 = (rep, tr', h2, W2)"
    "release clk (Path_ingest t) (update_track (Path_ingest t) (\<lambda>_. tr') h2) W2 = (h', W')"
proof -
  from r ok obtain t sender where t: "resolve_request h rq WriteAccess = Inr (t, sender)" "length (rq_key rq) \<le> maxIdempotencyKeyLen"
    by (auto simp: serveRecord_def resolve_request_def answer_def split: sum.splits prod.splits if_splits option.splits)
  obtain x h1 W1 where o: "open_track S clk N (rq_ctx rq) t h W = (x, h1, W1)" using prod_cases3 by blast
  obtain path where x: "x = Inr path"
    using r t o ok by (cases x) (auto simp: serveRecord_def answer_def internalError_def split: if_splits)
  note s = step_open_track(2) [OF h o x]
  then have path: "path = Path_ingest t" and i1: "handler_inv (nobody(path := 1)) h1" and mb: "maxBody h1 = maxBody h"
    by (auto simp: step_def)
  obtain tr where tr: "map_of (tracks h1) path = Some tr" using s by blast
  note run = serveRecord_opened [OF t o [unfolded x] tr, of J]
  obtain d where d: "body_record J (maxBody h) sender rq = Inr d"
    using run r ok mb body_record_status by (cases "body_record J (maxBody h) sender rq") (auto split: prod.splits)
  obtain rp tr' h2 W2 where l: "record_locked S clk N sender (record_key sender rq) d tr h1 W1 = (rp, tr', h2, W2)"
    by (metis prod.collapse)
  have "rp = rep" "release clk path (update_track path (\<lambda>_. tr') h2) W2 = (h', W')" using run r d l mb by auto
  with that [OF t _ _ _ _ d] o x tr i1 s l show thesis unfolding path by blast
qed

lemma keyed_reply_is_held:
  assumes h: "handler_inv nobody h" and r: "serveRecord J S clk N rq h W = (rep, h', W')" and ok: "Status rep = 201"
    and key: "rq_key rq \<noteq> ''''" and t: "resolve_request h rq WriteAccess = Inr (t, sender)"
  shows "\<exists>x tr. rep = answer 201 (RecordBody x) \<and> map_of (tracks h') (Path_ingest t) = Some tr \<and>
    map_of (replies tr) (record_key sender rq) = Some x \<and> lastUsed tr = clk (ticks W' - 1)"
proof -
  obtain h1 W1 tr d tr' h2 W2 where s: "map_of (tracks h1) (Path_ingest t) = Some tr" "handler_inv (nobody(Path_ingest t := 1)) h1"
    and l: "record_locked S clk N sender (record_key sender rq) d tr h1 W1 = (rep, tr', h2, W2)"
    and rl: "release clk (Path_ingest t) (update_track (Path_ingest t) (\<lambda>_. tr') h2) W2 = (h', W')"
    using serveRecord_201 [OF h r ok] t by (metis Inr_inject Pair_inject)
  have k: "record_key sender rq \<noteq> ''''" using key by (simp add: record_key_def)
  obtain x where x: "rep = answer 201 (RecordBody x)" "map_of (replies tr') (record_key sender rq) = Some x"
    using record_locked_remembers [OF s(2,1) l ok k] by blast
  have "map_of (tracks h2) (Path_ingest t) = Some tr" using record_locked_step [OF s(2,1) l] s(1) by simp
  then have "map_of (tracks (update_track (Path_ingest t) (\<lambda>_. tr') h2)) (Path_ingest t) = Some tr'" by (rule update_track_here)
  from update_track_here [OF this] rl x show ?thesis by (auto simp: release_def now_def)
qed

section \<open>Records in the log\<close>

text \<open>
  A track the server may serve: its latest epoch holds the rows \<open>ds\<close>, and if the server has the track open
  its writer is in step with them or knows that it must reload.
\<close>

definition track_ready :: "view \<Rightarrow> Handler \<Rightarrow> TrackPath \<Rightarrow> u64 \<Rightarrow> GroupInfo list list \<Rightarrow> bool" where
  "track_ready v h p e ds \<longleftrightarrow> e \<noteq> 0 \<and> e \<le> maxGroupEpoch \<and> (\<exists>R ver. root_at v p R ver \<and> LatestEpoch R = e) \<and>
     (\<exists>L ver. log_inv v p e ds L ver) \<and>
     (\<forall>tr. map_of (tracks h) p = Some tr \<longrightarrow>
        writer_inv v (it_writer tr) ds \<and> w_path (it_writer tr) = p \<and> w_epoch (it_writer tr) = e)"

lemma writer_inv_log: "writer_inv v w ds \<Longrightarrow> \<exists>L ver. log_inv v (w_path w) (w_epoch w) ds L ver"
  by (auto simp: writer_inv_def dest: synced_log split: if_splits)

lemma closeIdle_sub:
  assumes "handler_inv u h" and "map_of (tracks (closeIdle tm h)) k = Some tr"
  shows "map_of (tracks h) k = Some tr"
proof -
  have "(k, tr) \<in> set (tracks h)"
    using map_of_SomeD [OF assms(2)] by (auto simp: closeIdle_def split: if_splits)
  then show ?thesis using assms(1) by (simp add: handler_inv_def)
qed

lemma track_ready_closeIdle: "handler_inv u h \<Longrightarrow> track_ready v h p e ds \<Longrightarrow> track_ready v (closeIdle tm h) p e ds"
  unfolding track_ready_def using closeIdle_sub by blast

lemma track_ready_update:
  assumes "track_ready v h p e ds" and "\<And>tr. it_writer (f tr) = it_writer tr"
  shows "track_ready v (update_track p f h) p e ds"
  using assms by (auto simp: track_ready_def update_track_def update_conv' split: option.splits)

context store_contract
begin

lemma Writer_Track_reads:
  assumes r: "Writer_Track S c N t W = (x, t', W')" and i: "inv (objs W)" and e: "LatestEpoch (t_root t) \<noteq> 0"
    and li: "log_inv (view (objs W)) (t_path t) (LatestEpoch (t_root t)) ds L ver"
  shows "inv (objs W') \<and> view (objs W') = view (objs W)"
proof -
  let ?e = "LatestEpoch (t_root t)" and ?w = "newWriter t (LatestEpoch (t_root t)) (schema (t_root t))"
  obtain y s1 where f: "fetchEpochLog S c (t_path t) ?e (objs W) = (y, s1)" by fastforce
  have v1: "inv s1" "view s1 = view (objs W)" using fetchEpochLog_view [OF f i] by auto
  have "\<not> (case y of Inl err \<Rightarrow> errors_Is err ErrEpochNotFound | Inr _ \<Rightarrow> False)"
    using fetchEpochLog_not_found [of c "t_path t" ?e "objs W" _ s1] f i log_invD(1) [OF li]
    by (cases y) (auto simp: log_at_def)
  then have "open_writer S c N ?w y (W\<lparr>objs := s1\<rparr>) = (x, W')"
    using r f e by (auto simp: Writer_Track_def on_store_def Let_def split: prod.splits)
  then show ?thesis
    using v1 recover_view [OF _ v1(1)] unfolding open_writer_def
    by (auto split: sum.splits prod.splits option.splits)
qed

lemma Open_Track_reads:
  assumes "Open_Track S clk c p cfg s = (x, s')" and "inv s"
  shows "inv s' \<and> view s' = view s"
    and "x = Inr t \<Longrightarrow> root_at (view s) p R ver \<Longrightarrow>
      t_root t = R \<and> t_path t = p \<and> t_clock t = t_clock (resolveConfig clk p cfg)"
  using assms fetchTrackRoot_at [OF _ assms(2)]
  by (auto simp: Open_Track_def resolveConfig_def split: option.splits prod.splits sum.splits)

text \<open>Opening a track, whatever it answers, leaves the store and the rows of the track as they were.\<close>

lemma open_track_ready:
  assumes o: "open_track S clk N c t h W = (x, h1, W1)" and h: "handler_inv nobody h" and i: "inv (objs W)"
    and ok: "valid_utf8 (Path_ingest t)" "clock_ok (t_clock (resolveConfig clk (Path_ingest t) (op_Config (opts h))))"
    and tr: "track_ready (view (objs W)) h (Path_ingest t) e ds"
  shows "inv (objs W1) \<and> view (objs W1) = view (objs W) \<and> track_ready (view (objs W)) h1 (Path_ingest t) e ds"
proof -
  let ?p = "Path_ingest t" and ?h = "closeIdle (clk (ticks W)) h" and ?W = "W\<lparr>ticks := Suc (ticks W)\<rparr>"
  have rd: "track_ready (view (objs W)) ?h ?p e ds" using track_ready_closeIdle [OF h tr] .
  obtain R ver L lv where R: "root_at (view (objs W)) ?p R ver" "LatestEpoch R = e" "e \<noteq> 0" "e \<le> maxGroupEpoch"
    and li: "log_inv (view (objs W)) ?p e ds L lv" using tr by (auto simp: track_ready_def)
  show ?thesis
  proof (cases "map_of (tracks ?h) ?p")
    case (Some tr)
    then have "W1 = ?W" "h1 = update_track ?p (\<lambda>tr. tr\<lparr>users := users tr + 1\<rparr>) ?h"
      using o by (auto simp: open_track_def now_def Let_def)
    with i track_ready_update [OF rd] show ?thesis by simp
  next
    case None
    obtain y s1 where op: "Open_Track S clk c ?p (op_Config (opts ?h)) (objs W) = (y, s1)" by fastforce
    note k1 = Open_Track_reads [OF op i]
    show ?thesis
    proof (cases y)
      case (Inl err)
      with o None op k1 rd show ?thesis by (auto simp: open_track_def on_store_def now_def Let_def)
    next
      case (Inr lt)
      let ?W1 = "?W\<lparr>objs := s1\<rparr>"
      have lt: "t_root lt = R" "t_path lt = ?p" "t_clock lt = t_clock (resolveConfig clk ?p (op_Config (opts h)))"
        using k1(2) [OF Inr R(1)] by (auto simp: closeIdle_def)
      obtain z lt' W2 where w: "Writer_Track S c N lt ?W1 = (z, lt', W2)" using prod_cases3 by blast
      have li1: "log_inv (view (objs ?W1)) (t_path lt) (LatestEpoch (t_root lt)) ds L lv" using li k1(1) lt R(2) by simp
      have k2: "inv (objs W2)" "view (objs W2) = view (objs W)"
        using Writer_Track_reads [OF w _ _ li1] k1(1) lt R by auto
      show ?thesis
      proof (cases z)
        case (Inl err)
        with o None op Inr w k2 rd show ?thesis by (auto simp: open_track_def on_store_def now_def Let_def)
      next
        case wr: (Inr wr)
        have "track_ok lt" using lt ok R by (simp add: track_ok_def)
        from Writer_Track_recovers [OF w [unfolded wr] _ this li1] k1(1) lt R(2)
        have "writer_inv (view (objs W)) wr ds \<and> w_path wr = ?p \<and> w_epoch wr = e" by simp
        with o None op Inr w wr k2 rd show ?thesis
          by (auto simp: open_track_def on_store_def now_def Let_def track_ready_def new_track_def update_conv')
      qed
    qed
  qed
qed

lemma commit_rows:
  assumes c: "commit S N tr d h W = ((g, err), tr', h', W')" and i: "inv (objs W)" and wi: "writer_inv (view (objs W)) (it_writer tr) ds"
    and room: "int (Suc (length (concat ds))) \<le> MaxInt64" and d: "int (length d) \<le> MaxInt64"
  shows "inv (objs W')" "written (w_path (it_writer tr)) (w_epoch (it_writer tr)) (view (objs W)) (view (objs W'))"
    "appended ds d (it_writer tr) ((g, err), it_writer tr', W')"
proof -
  have a: "Append S Live N 0 d (it_writer tr) W = ((g, err), it_writer tr', W')"
    using c by (auto simp: commit_def split: prod.splits)
  show "inv (objs W')" "written (w_path (it_writer tr)) (w_epoch (it_writer tr)) (view (objs W)) (view (objs W'))"
    using Append_within [OF a, unfolded within_def, of "view (objs W)"] i by auto
  show "appended ds d (it_writer tr) ((g, err), it_writer tr', W')"
    using Append_appended [OF i wi room _ d, of 0 Live N] a by (simp add: i64_bounds)
qed

text \<open>What a record does to the rows of its track, by its answer.\<close>

definition recorded :: "GroupInfo list list \<Rightarrow> itrack \<Rightarrow> string \<Rightarrow> bytes \<Rightarrow> http_reply \<Rightarrow> itrack \<Rightarrow> 's world \<Rightarrow> GroupInfo list list \<Rightarrow> bool" where
  "recorded ds tr key d rep tr' W' ds' \<longleftrightarrow>
     writer_inv (view (objs W')) (it_writer tr') ds' \<and> same_writer (it_writer tr) (it_writer tr') \<and>
     (ds' = ds \<or> (\<exists>row. ds' = ds @ [[row]])) \<and>
     (Status rep = 201 \<longrightarrow> (\<exists>x. rep = answer 201 (RecordBody x) \<and>
        (key \<noteq> '''' \<and> map_of (replies tr) key = Some x \<and> ds' = ds \<or>
         (\<exists>g u. x = record_response g \<and> ds' = ds @ [[g]] \<and> view (objs W') (ObjectKey g) = Some (d, u)))))"

lemma record_locked_rows:
  assumes r: "record_locked S clk N sender key d tr h W = (rep, tr', h', W')" and i: "inv (objs W)"
    and wi: "writer_inv (view (objs W)) (it_writer tr) ds"
    and room: "int (Suc (length (concat ds))) \<le> MaxInt64" and d: "int (length d) \<le> MaxInt64"
  shows "inv (objs W') \<and> written (w_path (it_writer tr)) (w_epoch (it_writer tr)) (view (objs W)) (view (objs W')) \<and>
    (\<exists>ds'. recorded ds tr key d rep tr' W' ds')"
proof (cases "key \<noteq> '''' \<and> map_of (replies tr) key \<noteq> None")
  case True
  then have "rep = answer 201 (RecordBody (the (map_of (replies tr) key)))" "tr' = tr" "W' = W"
    using r by (auto simp: record_locked_def)
  with True i wi have "recorded ds tr key d rep tr' W' ds" by (auto simp: recorded_def)
  with \<open>W' = W\<close> i show ?thesis by auto
next
  case False
  let ?W = "W\<lparr>ticks := Suc (ticks W)\<rparr>"
  obtain w b bs where ad: "admit (TrackLimit (opts h)) (SenderLimit (opts h)) (clk (ticks W)) sender (it_limit tr) (senders tr) = (w, b, bs)"
    by (metis prod_cases3)
  let ?tr = "tr\<lparr>it_limit := b, senders := bs\<rparr>"
  obtain g err tr1 h1 W1 where c: "commit S N ?tr d h ?W = ((g, err), tr1, h1, W1)" by (metis prod.collapse)
  have run: "(rep, tr', h', W') = (if w > 0 then ((answer 429 ErrorBody)\<lparr>Retry_After := Some (int64_of_float (Seconds w) + 1)\<rparr>, ?tr, h, ?W)
      else if ObjectKey g = '''' then (internalError, tr1, h1, W1)
      else (answer 201 (RecordBody (record_response g)), if key \<noteq> '''' then remember key (record_response g) tr1 else tr1, h1, W1))"
    using r False ad c by (auto simp: record_locked_def now_def Let_def)
  have same: "it_writer (remember key x tr1) = it_writer tr1" for x by (simp add: remember_def Let_def)
  note k = commit_rows [OF c _ _ room d, simplified, OF i wi]
  show ?thesis
  proof (cases "w > 0")
    case True
    with run i wi have "recorded ds tr key d rep tr' W' ds" by (auto simp: recorded_def answer_def)
    with True run i show ?thesis by auto
  next
    case w: False
    obtain ds' where ds': "writer_inv (view (objs W1)) (it_writer tr1) ds'" "same_writer (it_writer tr) (it_writer tr1)"
      "ds' = ds \<or> (\<exists>row. ds' = ds @ [[row]])" "ObjectKey g \<noteq> '''' \<longrightarrow> ds' = ds @ [[g]] \<and> (\<exists>u. view (objs W1) (ObjectKey g) = Some (d, u))"
      using k(3) by (auto simp: appended_def split: if_splits)
    have "recorded ds tr key d rep tr' W' ds'"
    proof (cases "ObjectKey g = ''''")
      case True
      with run w ds' show ?thesis by (auto simp: recorded_def internalError_def answer_def)
    next
      case False
      with run w ds' same show ?thesis by (auto simp: recorded_def)
    qed
    moreover have "W' = W1" using run w by (auto split: if_splits)
    ultimately show ?thesis using k by auto
  qed
qed

end

lemma open_track_replies:
  assumes o: "open_track S clk N c t h W = (Inr p, h1, W1)" and h: "handler_inv u h"
    and tr: "map_of (tracks h1) (Path_ingest t) = Some tr" "map_of (replies tr) k = Some x"
  shows "\<exists>tr0. map_of (tracks h) (Path_ingest t) = Some tr0 \<and> map_of (replies tr0) k = Some x"
proof -
  let ?p = "Path_ingest t" and ?h = "closeIdle (clk (ticks W)) h"
  show ?thesis
  proof (cases "map_of (tracks ?h) ?p")
    case (Some tr0)
    then have "h1 = update_track ?p (\<lambda>tr. tr\<lparr>users := users tr + 1\<rparr>) ?h"
      using o by (auto simp: open_track_def now_def Let_def)
    then have "tr = tr0\<lparr>users := users tr0 + 1\<rparr>" using update_track_here [OF Some] tr(1) by auto
    with tr(2) closeIdle_sub [OF h Some] show ?thesis by auto
  next
    case None
    then have "replies tr = []"
      using o tr(1) by (auto simp: open_track_def now_def Let_def new_track_def update_conv' split: sum.splits prod.splits)
    with tr(2) show ?thesis by simp
  qed
qed

lemma track_ready_release:
  assumes "track_ready v h p e ds" and "release clk p h W = (h', W')"
  shows "track_ready v h' p e ds \<and> objs W' = objs W"
  using assms track_ready_update by (auto simp: release_def now_def)

context store_contract
begin

lemma track_ready_recorded:
  assumes rd: "track_ready v h p e ds" and tr: "map_of (tracks h) p = Some tr"
    and v: "written p e v (view (objs W))" and wi: "writer_inv (view (objs W)) (it_writer tr') ds'"
    and same: "same_writer (it_writer tr) (it_writer tr')"
  shows "track_ready (view (objs W)) (update_track p (\<lambda>_. tr') h) p e ds'"
proof -
  have w: "w_path (it_writer tr') = p" "w_epoch (it_writer tr') = e"
    using rd tr same by (auto simp: track_ready_def same_writer_def)
  obtain R ver where "root_at v p R ver" "LatestEpoch R = e" using rd by (auto simp: track_ready_def)
  then have "\<exists>R ver. root_at (view (objs W)) p R ver \<and> LatestEpoch R = e"
    using root_at_cong [of v p "view (objs W)"] writtenD(1) [OF v, of p] by metis
  moreover have "\<exists>L ver. log_inv (view (objs W)) p e ds' L ver" using writer_inv_log [OF wi] w by simp
  ultimately show ?thesis
    using rd tr wi w by (auto simp: track_ready_def update_track_def update_conv')
qed

lemma serveRecord_rows:
  assumes r: "serveRecord J S clk N rq h W = (rep, h', W')" and h: "handler_inv nobody h" and i: "inv (objs W)"
    and t: "resolve_request h rq WriteAccess = Inr (t, sender)" and p: "p = Path_ingest t"
    and ok: "valid_utf8 p" "clock_ok (t_clock (resolveConfig clk p (op_Config (opts h))))"
    and rd: "track_ready (view (objs W)) h p e ds" and room: "int (Suc (length (concat ds))) \<le> MaxInt64"
    and d: "\<And>d. body_record J (maxBody h) sender rq = Inr d \<Longrightarrow> int (length d) \<le> MaxInt64"
  shows "inv (objs W') \<and> (\<exists>ds'. track_ready (view (objs W')) h' p e ds' \<and> (ds' = ds \<or> (\<exists>row. ds' = ds @ [[row]])) \<and>
    (Status rep = 201 \<longrightarrow> (\<exists>x. rep = answer 201 (RecordBody x) \<and>
      (ds' = ds \<and> (\<exists>tr. map_of (tracks h) p = Some tr \<and> map_of (replies tr) (record_key sender rq) = Some x) \<or>
       (\<exists>g u d. x = record_response g \<and> ds' = ds @ [[g]] \<and> body_record J (maxBody h) sender rq = Inr d \<and>
          view (objs W') (ObjectKey g) = Some (d, u))))))"
proof (cases "length (rq_key rq) \<le> maxIdempotencyKeyLen")
  case False
  with r t have "rep = answer 400 ErrorBody" "h' = h" "W' = W" by (auto simp: serveRecord_def)
  with i rd show ?thesis by (auto simp: answer_def)
next
  case key: True
  obtain x h1 W1 where o: "open_track S clk N (rq_ctx rq) t h W = (x, h1, W1)" using prod_cases3 by blast
  have k: "inv (objs W1)" "view (objs W1) = view (objs W)" "track_ready (view (objs W1)) h1 p e ds"
    using open_track_ready [OF o h i, of e ds] ok rd p by auto
  show ?thesis
  proof (cases x)
    case (Inl err)
    with r t key o have "Status rep \<noteq> 201" "h' = h1" "W' = W1"
      by (auto simp: serveRecord_def answer_def internalError_def split: if_splits)
    with k show ?thesis by auto
  next
    case (Inr path)
    note s = step_open_track(2) [OF h o Inr]
    then have path: "path = p" and i1: "handler_inv (nobody(p := 1)) h1" and mb: "maxBody h1 = maxBody h"
      using p by (auto simp: step_def)
    obtain tr where tr: "map_of (tracks h1) p = Some tr" using s path by blast
    note run = serveRecord_opened [OF t key o [unfolded Inr path] tr, of J]
    show ?thesis
    proof (cases "body_record J (maxBody h) sender rq")
      case (Inl rp)
      with run r mb have "rep = rp" "release clk p h1 W1 = (h', W')" by auto
      with track_ready_release [OF k(3)] body_record_status [OF Inl] k(1) show ?thesis by fastforce
    next
      case b: (Inr bs)
      obtain rp tr' h2 W2 where l: "record_locked S clk N sender (record_key sender rq) bs tr h1 W1 = (rp, tr', h2, W2)"
        by (metis prod.collapse)
      have wi: "writer_inv (view (objs W1)) (it_writer tr) ds" "w_path (it_writer tr) = p" "w_epoch (it_writer tr) = e"
        using k(3) tr by (auto simp: track_ready_def)
      obtain ds' where k2: "inv (objs W2)" "written p e (view (objs W1)) (view (objs W2))"
        and rc: "recorded ds tr (record_key sender rq) bs rp tr' W2 ds'"
        using record_locked_rows [OF l k(1) wi(1) room d [OF b]] wi(2,3) by auto
      have h2: "map_of (tracks h2) p = Some tr" "track_ready (view (objs W1)) h2 p e ds"
        using record_locked_step [OF i1 tr l] tr k(3) by (auto simp: track_ready_def)
      have "rep = rp" and rl: "release clk p (update_track p (\<lambda>_. tr') h2) W2 = (h', W')" using run r b l mb by auto
      have "track_ready (view (objs W2)) (update_track p (\<lambda>_. tr') h2) p e ds'"
        using track_ready_recorded [OF h2(2,1) k2(2)] rc by (auto simp: recorded_def)
      from track_ready_release [OF this rl] have rd': "track_ready (view (objs W')) h' p e ds'" "objs W' = objs W2" by auto
      have "\<exists>tr0. map_of (tracks h) p = Some tr0 \<and> map_of (replies tr0) (record_key sender rq) = Some y"
        if "map_of (replies tr) (record_key sender rq) = Some y" for y
        using open_track_replies [OF o [unfolded Inr] h _ that] tr p by simp
      with rc b rd' k2(1) \<open>rep = rp\<close> show ?thesis
        unfolding recorded_def by (intro conjI exI [of _ ds']) auto
    qed
  qed
qed

end

section \<open>Records that are accepted\<close>

context reliable_store
begin

lemma open_track_ends:
  assumes h: "handler_inv nobody h" and i: "inv (objs W)" and path: "validate_TrackPath (Path_ingest t) = None"
    and ok: "valid_utf8 (Path_ingest t)" "clock_ok (t_clock (resolveConfig clk (Path_ingest t) (op_Config (opts h))))"
    and rd: "track_ready (view (objs W)) h (Path_ingest t) e ds" and N: "length ds < N"
  shows "\<exists>h1 W1. open_track S clk N Live t h W = (Inr (Path_ingest t), h1, W1)"
proof (cases "map_of (tracks (closeIdle (clk (ticks W)) h)) (Path_ingest t)")
  case (Some tr)
  then show ?thesis by (simp add: open_track_def now_def Let_def)
next
  case None
  let ?p = "Path_ingest t"
  obtain R ver L lv where R: "root_at (view (objs W)) ?p R ver" "LatestEpoch R = e" "e \<noteq> 0" "e \<le> maxGroupEpoch"
    and li: "log_inv (view (objs W)) ?p e ds L lv" using rd by (auto simp: track_ready_def)
  obtain s1 where f: "fetchTrackRoot S Live ?p (objs W) = (Inr (R, ver), s1)" "inv s1" "view s1 = view (objs W)"
    using fetchTrackRoot_Live [OF i R(1)] by blast
  let ?t = "(resolveConfig clk ?p (op_Config (opts h)))\<lparr>t_root := R, t_rootVersion := ver\<rparr>"
  let ?W = "W\<lparr>ticks := Suc (ticks W), objs := s1\<rparr>"
  have "t_path ?t = ?p" by (simp add: resolveConfig_def)
  moreover have "track_ok ?t" using ok R by (simp add: track_ok_def resolveConfig_def)
  ultimately obtain w t' W' where "Writer_Track S Live N ?t ?W = (Inr w, t', W')"
    using Writer_Track_ends [of ?W ?t ds N L lv] f N li R by auto
  with None f path show ?thesis
    by (simp add: open_track_def now_def Let_def on_store_def Open_Track_def closeIdle_def)
qed

lemma record_locked_ends:
  assumes i: "inv (objs W)" and wi: "writer_inv (view (objs W)) (it_writer tr) ds" and N: "length ds < N"
    and lim: "\<not> active (TrackLimit (opts h))" "\<not> active (SenderLimit (opts h))"
    and pl: "int (length d) \<le> MaxInt64" and room: "int (Suc (length (concat ds))) \<le> MaxInt64"
    and k: "unat (next_seq ds) + k < 2 ^ 40" "k \<le> 16"
    and taken: "\<And>j. j < k \<Longrightarrow> view (objs W) (groupKey (w_path (it_writer tr)) (NewGroupID (w_epoch (it_writer tr)) (next_seq ds + of_nat j))) \<noteq> None"
    and free: "view (objs W) (groupKey (w_path (it_writer tr)) (NewGroupID (w_epoch (it_writer tr)) (next_seq ds + of_nat k))) = None"
  shows "Status (fst (record_locked S clk N sender key d tr h W)) = 201"
proof -
  let ?W = "W\<lparr>ticks := Suc (ticks W)\<rparr>"
  have "next_start ds + 0 \<le> MaxInt64"
    by (simp add: next_start_def i64_bounds) (use mediaEnd_i64 in \<open>auto simp: i64_bounds\<close>)
  then obtain g w' W' where a: "Append S Live N 0 d (it_writer tr) ?W = ((g, None), w', W')"
    "ID g = NewGroupID (w_epoch (it_writer tr)) (next_seq ds + of_nat k)" "writer_inv (view (objs W')) w' (ds @ [[g]])"
    using Append_ends [of ?W "it_writer tr" ds N 0 d k] i wi N pl room k taken free by (auto simp: i64_bounds)
  have "appended ds d (it_writer tr) ((g, None), w', W')"
    using Append_appended [of ?W "it_writer tr" ds 0 d Live N] i wi room pl a(1) by (simp add: i64_bounds)
  then have "ObjectKey g \<noteq> ''''" by (auto simp: appended_def split: if_splits)
  then show ?thesis
    using a(1) lim by (simp add: record_locked_def admit_def now_def commit_def answer_def Let_def)
qed

lemma serveRecord_accepts:
  assumes h: "handler_inv nobody h" and i: "inv (objs W)" and t: "resolve_request h rq WriteAccess = Inr (t, sender)"
    and rq: "rq_ctx rq = Live" "length (rq_key rq) \<le> maxIdempotencyKeyLen" "body_record J (maxBody h) sender rq = Inr d"
    and p: "p = Path_ingest t" "validate_TrackPath p = None"
    and ok: "valid_utf8 p" "clock_ok (t_clock (resolveConfig clk p (op_Config (opts h))))"
    and rd: "track_ready (view (objs W)) h p e ds" and N: "length ds < N"
    and lim: "\<not> active (TrackLimit (opts h))" "\<not> active (SenderLimit (opts h))"
    and pl: "int (length d) \<le> MaxInt64" and room: "int (Suc (length (concat ds))) \<le> MaxInt64"
    and k: "unat (next_seq ds) + k < 2 ^ 40" "k \<le> 16"
    and taken: "\<And>j. j < k \<Longrightarrow> view (objs W) (groupKey p (NewGroupID e (next_seq ds + of_nat j))) \<noteq> None"
    and free: "view (objs W) (groupKey p (NewGroupID e (next_seq ds + of_nat k))) = None"
  shows "Status (fst (serveRecord J S clk N rq h W)) = 201"
proof -
  obtain h1 W1 where o: "open_track S clk N (rq_ctx rq) t h W = (Inr p, h1, W1)"
    using open_track_ends [of h W t clk e ds N] h i p ok rd N rq(1) by auto
  note s = step_open_track(2) [OF h o refl]
  obtain tr where tr: "map_of (tracks h1) p = Some tr" using s by blast
  have st: "maxBody h1 = maxBody h" "opts h1 = opts h" using s by (auto simp: step_def)
  have k1: "inv (objs W1)" "view (objs W1) = view (objs W)" "track_ready (view (objs W)) h1 p e ds"
    using open_track_ready [OF o h i, of e ds] ok rd p by auto
  have wi: "writer_inv (view (objs W)) (it_writer tr) ds" "w_path (it_writer tr) = p" "w_epoch (it_writer tr) = e"
    using k1(3) tr by (auto simp: track_ready_def)
  have "Status (fst (record_locked S clk N sender (record_key sender rq) d tr h1 W1)) = 201"
    by (rule record_locked_ends [OF k1(1) _ N _ _ pl room k]) (use wi k1 lim st taken free in auto)
  with serveRecord_opened [OF t rq(2) o tr, of J] rq(3) st(1) show ?thesis by (simp split: prod.splits)
qed

end

end
