(* ===== verification/Reader_Reads.thy ===== *)
theory Reader_Reads
  imports Reader Epoch_Log Writer_Live "HOL-Library.Sublist"
begin

text \<open>
  What the reader's requests answer on a store that represents a track: its segments, the walk over
  every epoch with its pruning, and the lookup of one group. Each operation has a lemma for any store
  that keeps the contract, where a call may fail, and one for a store that answers.
\<close>

section \<open>The track a store represents\<close>

lemma set_epochs: "set (epochs lat) = {e. 1 \<le> e \<and> e \<le> lat}"
proof -
  have "e \<in> of_nat ` {1..<Suc (unat lat)}" if "1 \<le> e" "e \<le> lat" for e
  proof
    show "e = of_nat (unat e)" by simp
    show "unat e \<in> {1..<Suc (unat lat)}" using that by (simp add: word_le_nat_alt)
  qed
  moreover have "1 \<le> (of_nat n :: u64) \<and> (of_nat n :: u64) \<le> lat" if "1 \<le> n" "n < Suc (unat lat)" for n
  proof -
    have "unat (of_nat n :: u64) = n" using that le_unat_uoi [of n lat] by simp
    then show ?thesis using that by (simp add: word_le_nat_alt)
  qed
  ultimately show ?thesis unfolding epochs_def set_map set_upt by fastforce
qed

text \<open>The rows of all epochs, in commit order.\<close>

definition track_rows :: "(u64 \<Rightarrow> GroupInfo list list) \<Rightarrow> u64 \<Rightarrow> GroupInfo list" where
  "track_rows dss lat = concat (map (\<lambda>e. concat (dss e)) (epochs lat))"

definition logs_hold ::
  "view \<Rightarrow> TrackPath \<Rightarrow> u64 \<Rightarrow> (u64 \<Rightarrow> GroupInfo list list) \<Rightarrow> (u64 \<Rightarrow> epochLogRoot) \<Rightarrow> bool" where
  "logs_hold v p lat dss Ls \<longleftrightarrow> (\<forall>e. 1 \<le> e \<and> e \<le> lat \<longrightarrow> (\<exists>ver. log_inv v p e (dss e) (Ls e) ver))"

lemma logs_holdD: "logs_hold v p lat dss Ls \<Longrightarrow> 1 \<le> e \<Longrightarrow> e \<le> lat \<Longrightarrow> \<exists>ver. log_inv v p e (dss e) (Ls e) ver"
  by (simp add: logs_hold_def)

text \<open>
  A log root an epoch had at some time: its runs are still there, though newer ones may have followed.
\<close>

definition snapshot :: "view \<Rightarrow> TrackPath \<Rightarrow> u64 \<Rightarrow> GroupInfo list list \<Rightarrow> epochLogRoot \<Rightarrow> bool" where
  "snapshot v p e ds L \<longleftrightarrow> unat (OpenFrom L) \<le> length ds \<and> runs p e ds 0 (Sealed L) (unat (OpenFrom L)) \<and>
     (\<forall>r\<in>set (Sealed L). v (Key r) \<noteq> None)"

lemma log_inv_snapshot: "log_inv v p e ds L ver \<Longrightarrow> snapshot v p e ds L"
  using log_invD by (simp add: snapshot_def)

definition run_rows :: "GroupInfo list list \<Rightarrow> sealedRef \<Rightarrow> GroupInfo list" where
  "run_rows ds ref = rows_between ds (unat (FirstDelta ref)) (Suc (unat (LastDelta ref)))"

lemma runs_rows: "runs p e ds a rs b \<Longrightarrow> concat (map (run_rows ds) rs) = rows_between ds a b"
proof (induction rs arbitrary: a)
  case (Cons r rs)
  then have "a \<le> Suc (unat (LastDelta r))" "Suc (unat (LastDelta r)) \<le> b" using runs_le by (auto simp: word_le_nat_alt)
  then show ?case using Cons rows_between_split [of a "Suc (unat (LastDelta r))" b ds] by (auto simp: run_rows_def)
qed simp

lemma runs_ref:
  "runs p e ds a rs b \<Longrightarrow> r \<in> set rs \<Longrightarrow> r = run_ref p e (FirstDelta r) (LastDelta r) (run_rows ds r) \<and>
    FirstDelta r \<le> LastDelta r \<and> a \<le> unat (FirstDelta r) \<and> unat (LastDelta r) < b \<and> unat (LastDelta r) < length ds"
proof (induction rs arbitrary: a)
  case (Cons x rs)
  show ?case
  proof (cases "r = x")
    case True
    then show ?thesis using Cons.prems runs_le [of p e ds _ rs b] by (fastforce simp: run_rows_def)
  next
    case False
    then show ?thesis using Cons.IH [of "Suc (unat (LastDelta x))"] Cons.prems by (auto simp: word_le_nat_alt)
  qed
qed simp

lemma run_rows_nonempty:
  "runs p e ds a rs b \<Longrightarrow> r \<in> set rs \<Longrightarrow> \<forall>gs\<in>set ds. gs \<noteq> [] \<Longrightarrow> run_rows ds r \<noteq> []"
  using runs_ref [of p e ds a rs b r] rows_between_nonempty [of "unat (FirstDelta r)" "Suc (unat (LastDelta r))" ds]
  by (auto simp: run_rows_def word_le_nat_alt)

lemma runs_covering:
  "runs p e ds a rs b \<Longrightarrow> a \<le> unat n \<Longrightarrow> unat n < b \<Longrightarrow>
    \<exists>r. sealedCovering_in rs n = Some r \<and> r \<in> set rs \<and> FirstDelta r \<le> n \<and> n \<le> LastDelta r"
proof (induction rs arbitrary: a)
  case (Cons r rs)
  show ?case
  proof (cases "n \<le> LastDelta r")
    case True
    then show ?thesis using Cons.prems by (simp add: word_le_nat_alt)
  next
    case False
    then have "Suc (unat (LastDelta r)) \<le> unat n" by (simp add: word_le_nat_alt)
    then show ?thesis using Cons.IH [of "Suc (unat (LastDelta r))"] Cons.prems False by auto
  qed
qed simp

section \<open>Segments\<close>

text \<open>Which errors a reading request answers: none the reader's own queries give a meaning.\<close>

definition foreign :: "error \<Rightarrow> bool" where
  "foreign err \<longleftrightarrow> \<not> errors_Is err ErrNotCommitted \<and> \<not> errors_Is err ErrGroupNotFound \<and> \<not> errors_Is err EOF"

lemma foreign_simps [simp]:
  "store_error err \<Longrightarrow> foreign err" "foreign [ErrManifestMismatch]" "foreign [ErrEpochNotFound]" "foreign [Unfinished]"
  "foreign [ErrTrackNotFound]" "foreign []"
  by (simp_all add: foreign_def)

lemma foreignD:
  "foreign err \<Longrightarrow> \<not> errors_Is err ErrNotCommitted" "foreign err \<Longrightarrow> \<not> errors_Is err ErrGroupNotFound"
  "foreign err \<Longrightarrow> \<not> errors_Is err EOF"
  by (simp_all add: foreign_def)

lemma decode_foreign [simp]: "decodeManifest um ver d = Inl e \<Longrightarrow> foreign e"
  using decode_error_foreign [of um ver d e] by (simp add: foreign_def)

context store_contract
begin

lemma delta_reads:
  assumes "delta S c p e n s = (x, s')" and "inv s" and li: "log_inv (view s) p e ds L ver"
  shows "inv s' \<and> view s' = view s \<and> (\<forall>D. x = Inr D \<longrightarrow> unat n < length ds \<and> dm_Groups D = ds ! unat n) \<and>
    (\<forall>err. x = Inl err \<longrightarrow> (if errors_Is err ErrNotCommitted then view s (deltaKey p e n) = None \<and> err = [ErrNotCommitted] else foreign err))"
proof -
  let ?k = "deltaKey p e n"
  obtain y s1 where g: "Get S c ?k s = (y, s1)" by fastforce
  have v: "inv s1" "view s1 = view s" using get_view [OF assms(2) g] by auto
  show ?thesis
  proof (cases y)
    case (Inl err)
    then have e: "store_error err" "errors_Is err ErrNotExist \<longrightarrow> view s ?k = None" using get_Inl [OF assms(2)] g by auto
    with Inl g v assms(1) show ?thesis by (cases "errors_Is err ErrNotExist") (auto simp: delta_def foreignD)
  next
    case (Inr z)
    obtain d u where z: "z = (d, u)" by (cases z)
    have k: "view s ?k = Some (d, u)" using get_Inr [OF assms(2)] g Inr z by auto
    then have "unat n < length ds" "delta_holds (view s) p e n (ds ! unat n)" using log_invD(13) [OF li, of n] by auto
    moreover then obtain D where "decode_delta d = Inr D" "dm_Groups D = ds ! unat n"
      using k by (auto simp: delta_holds_def)
    ultimately show ?thesis using Inr z g v assms(1) by (auto simp: delta_def)
  qed
qed

lemma sealed_reads:
  assumes "sealed S c p e ref s = (x, s')" and "inv s" and li: "log_inv (view s) p e ds L ver"
    and "snapshot (view s) p e ds L'" and "ref \<in> set (Sealed L')"
  shows "inv s' \<and> view s' = view s \<and> (\<forall>M. x = Inr M \<longrightarrow> sm_Groups M = run_rows ds ref) \<and> (\<forall>err. x = Inl err \<longrightarrow> foreign err)"
proof -
  have r: "Key ref = sealedKey p e (FirstDelta ref) (LastDelta ref)" "view s (Key ref) \<noteq> None"
    using assms(4,5) runs_Key by (auto simp: snapshot_def)
  then have h: "sealed_holds (view s) p e (FirstDelta ref) (LastDelta ref) (run_rows ds ref)"
    using log_invD(8) [OF li] by (simp add: run_rows_def)
  obtain y s1 where g: "Get S c (Key ref) s = (y, s1)" by fastforce
  have v: "inv s1" "view s1 = view s" using get_view [OF assms(2) g] by auto
  show ?thesis
  proof (cases y)
    case (Inl err)
    then have "store_error err" using get_Inl [OF assms(2)] g by auto
    with Inl g v assms(1) show ?thesis by (auto simp: sealed_def)
  next
    case (Inr z)
    obtain d u where z: "z = (d, u)" by (cases z)
    have "view s (Key ref) = Some (d, u)" using get_Inr [OF assms(2)] g Inr z by auto
    then obtain M where "decode_sealed d = Inr M" "sm_Track M = p" "sm_Epoch M = e" "sm_FirstDelta M = FirstDelta ref"
      "sm_LastDelta M = LastDelta ref" "sm_Groups M = run_rows ds ref"
      using h r(1) by (auto simp: sealed_holds_def)
    then show ?thesis using Inr z g v assms(1) by (auto simp: sealed_def)
  qed
qed

lemma fetchEpochLog_reads:
  assumes "fetchEpochLog S c p e s = (x, s')" and "inv s" and "log_inv (view s) p e ds L ver"
  shows "inv s' \<and> view s' = view s \<and> (\<forall>y. x = Inr y \<longrightarrow> y = (L, ver)) \<and> (\<forall>err. x = Inl err \<longrightarrow> foreign err)"
proof -
  have "foreign err" if x: "x = Inl err" for err
  proof -
    have "store_error y" if "Get S c (epochLogKey p e) s = (Inl y, s1)" for y s1 using get_Inl [OF assms(2) that] by blast
    then show ?thesis using assms(1) x
      by (auto simp: fetchEpochLog_def split: prod.splits sum.splits if_splits intro: decode_foreign)
  qed
  then show ?thesis
    using fetchEpochLog_view [OF assms(1,2)] fetchEpochLog_at [of c p e s L] assms log_invD(1) [OF assms(3)]
    by (cases x) (auto dest: fetchEpochLog_at)
qed

end

context reliable_store
begin

lemma delta_Live:
  assumes "inv s" and li: "log_inv (view s) p e ds L ver" and "OpenFrom L \<le> n" and "unat n < length ds"
  shows "\<exists>D s'. delta S Live p e n s = (Inr D, s') \<and> dm_Groups D = ds ! unat n \<and> inv s' \<and> view s' = view s"
proof -
  obtain d u D where "view s (deltaKey p e n) = Some (d, u)" and D: "decode_delta d = Inr D" "dm_Groups D = ds ! unat n"
    using log_invD(6) [OF li assms(3,4)] by (auto simp: delta_holds_def)
  then obtain s' where "Get S Live (deltaKey p e n) s = (Inr (d, u), s')" "inv s'" "view s' = view s"
    using Get_present_Live [OF assms(1)] by metis
  then show ?thesis using D by (simp add: delta_def)
qed

lemma delta_absent_Live:
  assumes "inv s" and "view s (deltaKey p e n) = None"
  shows "\<exists>s'. delta S Live p e n s = (Inl [ErrNotCommitted], s') \<and> inv s' \<and> view s' = view s"
proof -
  obtain err s' where "Get S Live (deltaKey p e n) s = (Inl err, s')" "errors_Is err ErrNotExist" "inv s'" "view s' = view s"
    using Get_absent_Live [OF assms] .
  then show ?thesis by (simp add: delta_def)
qed

lemma sealed_Live:
  assumes "inv s" and li: "log_inv (view s) p e ds L ver" and "snapshot (view s) p e ds L'" and "ref \<in> set (Sealed L')"
  shows "\<exists>M s'. sealed S Live p e ref s = (Inr M, s') \<and> sm_Groups M = run_rows ds ref \<and> inv s' \<and> view s' = view s"
proof -
  have r: "Key ref = sealedKey p e (FirstDelta ref) (LastDelta ref)" "view s (Key ref) \<noteq> None"
    using assms(3,4) runs_Key by (auto simp: snapshot_def)
  then obtain d u M where k: "view s (Key ref) = Some (d, u)" and M: "decode_sealed d = Inr M" "sm_Track M = p" "sm_Epoch M = e"
      "sm_FirstDelta M = FirstDelta ref" "sm_LastDelta M = LastDelta ref" "sm_Groups M = run_rows ds ref"
    using log_invD(8) [OF li, of "FirstDelta ref" "LastDelta ref"] by (fastforce simp: sealed_holds_def run_rows_def)
  obtain s' where "Get S Live (Key ref) s = (Inr (d, u), s')" "inv s'" "view s' = view s"
    using Get_present_Live [OF assms(1) k] .
  then show ?thesis using M by (simp add: sealed_def)
qed

end

section \<open>The walk\<close>

text \<open>The rows a walk of one epoch yields: those of the runs it includes, and the open ones.\<close>

definition epoch_walk :: "(sealedRef \<Rightarrow> bool) \<Rightarrow> GroupInfo list list \<Rightarrow> epochLogRoot \<Rightarrow> GroupInfo list" where
  "epoch_walk incl ds L =
     concat (map (run_rows ds) (filter incl (Sealed L))) @ rows_between ds (unat (OpenFrom L)) (length ds)"

definition track_walk ::
  "(sealedRef \<Rightarrow> bool) \<Rightarrow> (u64 \<Rightarrow> GroupInfo list list) \<Rightarrow> (u64 \<Rightarrow> epochLogRoot) \<Rightarrow> u64 list \<Rightarrow> GroupInfo list" where
  "track_walk incl dss Ls es = concat (map (\<lambda>e. epoch_walk incl (dss e) (Ls e)) es)"

text \<open>An iteration that yields what it should: all of it, or a part when it ends with an error.\<close>

definition iterates :: "groups_iter \<Rightarrow> GroupInfo list \<Rightarrow> bool" where
  "iterates it rows \<longleftrightarrow> prefix (fst it) rows \<and> (snd it = None \<longrightarrow> fst it = rows)"

lemma iterates_Cons_err [simp]: "iterates ([], Some err) rows"
  by (simp add: iterates_def)

lemma iterates_append: "iterates (gs, e) rows \<Longrightarrow> iterates (xs @ gs, e) (xs @ rows)"
  by (simp add: iterates_def)

lemma iterates_then:
  assumes "iter_then x k = (it, s')" and "iterates (fst x) xs" and "\<And>y s1. k (snd x) = (y, s1) \<Longrightarrow> iterates y ys"
  shows "iterates it (xs @ ys)"
proof -
  obtain gs e s where x: "x = ((gs, e), s)" by (metis surj_pair)
  show ?thesis
  proof (cases e)
    case None
    obtain hs e' s1 where k: "k s = ((hs, e'), s1)" by (metis surj_pair)
    have "gs = xs" using assms(2) x None by (simp add: iterates_def)
    then show ?thesis using assms(1) assms(3) [of "(hs, e')" s1] x k None by (auto simp: iter_then_def iterates_append)
  next
    case (Some err)
    then show ?thesis using assms(1,2) x by (auto simp: iter_then_def iterates_def)
  qed
qed

lemma filterGroups_iterates: "iterates it rows \<Longrightarrow> iterates (filterGroups it P) (filter P rows)"
  by (cases it) (auto simp: iterates_def filterGroups_def prefix_def)

context store_contract
begin

definition reads :: "'s \<Rightarrow> 's \<Rightarrow> bool" where
  "reads s s' \<longleftrightarrow> inv s' \<and> view s' = view s"

lemma iter_then_reads:
  assumes "iter_then x k = (it, s')" and "reads s (snd x)" and "\<And>y s1 s2. k s1 = (y, s2) \<Longrightarrow> reads s s1 \<Longrightarrow> reads s s2"
  shows "reads s s'"
proof -
  obtain gs e s0 where x: "x = ((gs, e), s0)" by (metis surj_pair)
  obtain hs e' s1 where k: "k s0 = ((hs, e'), s1)" by (metis surj_pair)
  show ?thesis using assms(1,2) assms(3) [OF k] x k by (cases e) (auto simp: iter_then_def)
qed

lemma walk_sealed_reads:
  assumes "walk_sealed S c p e incl refs s = (it, s')" and "inv s" and "log_inv (view s) p e ds L ver"
    and "set refs \<subseteq> set (Sealed L)"
  shows "reads s s' \<and> iterates it (concat (map (run_rows ds) (filter incl refs)))"
  using assms
proof (induction refs arbitrary: s it s')
  case Nil
  then show ?case by (auto simp: reads_def iterates_def)
next
  case (Cons ref refs)
  show ?case
  proof (cases "incl ref")
    case True
    obtain x s1 where x: "sealed S c p e ref s = (x, s1)" by fastforce
    note r = sealed_reads [OF x Cons.prems(2,3) log_inv_snapshot [OF Cons.prems(3)]]
    have ref: "ref \<in> set (Sealed L)" using Cons.prems(4) by simp
    obtain gs e' s2 where w: "walk_sealed S c p e incl refs s1 = ((gs, e'), s2)" by (metis surj_pair)
    show ?thesis
    proof (cases x)
      case (Inr M)
      have v1: "inv s1" "view s1 = view s" and gs: "sm_Groups M = run_rows ds ref" using r [OF ref] Inr by auto
      have "reads s1 s2 \<and> iterates (gs, e') (concat (map (run_rows ds) (filter incl refs)))"
        using Cons.IH [OF w v1(1)] Cons.prems v1(2) by simp
      then show ?thesis using Cons.prems(1) True x Inr w gs v1 by (auto simp: reads_def iterates_append)
    qed (use Cons.prems(1) True x r [OF ref] in \<open>auto simp: reads_def\<close>)
  qed (use Cons in auto)
qed

lemma walk_open_reads:
  assumes "walk_open S c N p e n s = (it, s')" and "inv s" and "log_inv (view s) p e ds L ver"
    and "OpenFrom L \<le> n" and "unat n \<le> length ds"
  shows "reads s s' \<and> iterates it (rows_between ds (unat n) (length ds))"
  using assms
proof (induction N arbitrary: n s it s')
  case 0
  then show ?case by (auto simp: reads_def)
next
  case (Suc N)
  note li = Suc.prems(3)
  obtain x s1 where x: "delta S c p e n s = (x, s1)" by fastforce
  note r = delta_reads [OF x Suc.prems(2) li]
  show ?case
  proof (cases x)
    case (Inl err)
    show ?thesis
    proof (cases "errors_Is err ErrNotCommitted")
      case True
      then have "view s (deltaKey p e n) = None" using r Inl by simp
      then have "\<not> unat n < length ds" using log_invD(6) [OF li Suc.prems(4)] by (auto simp: delta_holds_def)
      then show ?thesis using Suc.prems(1,5) x Inl True r by (auto simp: reads_def iterates_def)
    qed (use Suc.prems(1) x Inl r in \<open>auto simp: reads_def\<close>)
  next
    case (Inr D)
    have v1: "inv s1" "view s1 = view s" and n: "unat n < length ds" and D: "dm_Groups D = ds ! unat n" using r Inr by auto
    have n1: "unat (n + 1) = Suc (unat n)" using word_next n log_inv_length [OF li] by blast
    obtain gs e' s2 where w: "walk_open S c N p e (n + 1) s1 = ((gs, e'), s2)" by (metis surj_pair)
    have "OpenFrom L \<le> n + 1" using Suc.prems(4) n1 by (simp add: word_le_nat_alt)
    then have "reads s1 s2 \<and> iterates (gs, e') (rows_between ds (unat (n + 1)) (length ds))"
      using Suc.IH [OF w v1(1)] li v1(2) n n1 by simp
    moreover have "rows_between ds (unat n) (length ds) = ds ! unat n @ rows_between ds (unat (n + 1)) (length ds)"
      using rows_between_split [of "unat n" "Suc (unat n)" "length ds" ds] rows_between_Suc [of "unat n" "unat n" ds] n n1 by simp
    ultimately show ?thesis using Suc.prems(1) x Inr w D v1 by (auto simp: reads_def iterates_append)
  qed
qed

lemma walk_epoch_reads:
  assumes "walk_epoch S c N p incl e s = (it, s')" and "inv s" and li: "log_inv (view s) p e ds L ver"
  shows "reads s s' \<and> iterates it (epoch_walk incl ds L)"
proof -
  obtain x s1 where x: "fetchEpochLog S c p e s = (x, s1)" by fastforce
  note f = fetchEpochLog_reads [OF x assms(2) li]
  show ?thesis
  proof (cases x)
    case (Inr y)
    have v1: "inv s1" "view s1 = view s" and y: "y = (L, ver)" using f Inr by auto
    then have li1: "log_inv (view s1) p e ds L ver" using li by simp
    let ?x = "walk_sealed S c p e incl (Sealed L) s1"
    have run: "iter_then ?x (walk_open S c N p e (OpenFrom L)) = (it, s')" using assms(1) x Inr y by (simp add: walk_epoch_def)
    have a: "reads s1 (snd ?x)" "iterates (fst ?x) (concat (map (run_rows ds) (filter incl (Sealed L))))"
      using walk_sealed_reads [of c p e incl "Sealed L" s1 "fst ?x" "snd ?x"] v1(1) li1 by auto
    have o: "reads s1 s3 \<and> iterates z (rows_between ds (unat (OpenFrom L)) (length ds))"
      if "walk_open S c N p e (OpenFrom L) s2 = (z, s3)" "reads s1 s2" for z s2 s3
      using walk_open_reads [OF that(1), of ds L ver] that(2) li1 log_invD(3) [OF li] by (auto simp: reads_def)
    have "iterates it (epoch_walk incl ds L)"
      unfolding epoch_walk_def using iterates_then [OF run a(2)] o a(1) by blast
    moreover have "reads s1 s'" using iter_then_reads [OF run a(1)] o by blast
    ultimately show ?thesis using v1 by (simp add: reads_def)
  qed (use assms(1) x f in \<open>auto simp: walk_epoch_def reads_def\<close>)
qed

lemma walk_epochs_reads:
  assumes "walk_epochs S c N p incl es s = (it, s')" and "inv s" and "logs_hold (view s) p lat dss Ls"
    and "set es \<subseteq> set (epochs lat)"
  shows "reads s s' \<and> iterates it (track_walk incl dss Ls es)"
  using assms
proof (induction es arbitrary: s it s')
  case Nil
  then show ?case by (auto simp: reads_def iterates_def track_walk_def)
next
  case (Cons e es)
  have "1 \<le> e" "e \<le> lat" using Cons.prems(4) by (auto simp: set_epochs)
  then obtain ver where li: "log_inv (view s) p e (dss e) (Ls e) ver" using logs_holdD [OF Cons.prems(3)] by blast
  let ?x = "walk_epoch S c N p incl e s"
  have run: "iter_then ?x (walk_epochs S c N p incl es) = (it, s')" using Cons.prems(1) by simp
  have a: "reads s (snd ?x)" "iterates (fst ?x) (epoch_walk incl (dss e) (Ls e))"
    using walk_epoch_reads [of c N p incl e s "fst ?x" "snd ?x"] Cons.prems(2) li by auto
  have o: "reads s s2 \<and> iterates z (track_walk incl dss Ls es)"
    if w: "walk_epochs S c N p incl es s1 = (z, s2)" and s1: "reads s s1" for z s1 s2
    using Cons.IH [OF w] Cons.prems(3,4) s1 by (auto simp: reads_def)
  have "iterates it (epoch_walk incl (dss e) (Ls e) @ track_walk incl dss Ls es)"
    using iterates_then [OF run a(2)] o a(1) by blast
  moreover have "reads s s'" using iter_then_reads [OF run a(1)] o by blast
  ultimately show ?case by (simp add: track_walk_def)
qed

end

text \<open>On a store that answers, the walk reaches its end.\<close>

lemma iter_then_ends:
  "x = ((gs, None), s) \<Longrightarrow> k s = ((hs, None), s') \<Longrightarrow> \<exists>rs. iter_then x k = ((rs, None), s')"
  by (simp add: iter_then_def)

context reliable_store
begin

lemma walk_sealed_ends:
  assumes "inv s" and "log_inv (view s) p e ds L ver" and "set refs \<subseteq> set (Sealed L)"
  shows "\<exists>gs s'. walk_sealed S Live p e incl refs s = ((gs, None), s')"
  using assms
proof (induction refs arbitrary: s)
  case (Cons ref refs)
  obtain M s1 where m: "sealed S Live p e ref s = (Inr M, s1)" "inv s1" "view s1 = view s"
    using sealed_Live [OF Cons.prems(1,2) log_inv_snapshot [OF Cons.prems(2)], of ref] Cons.prems(3) by auto
  obtain gs s' where "walk_sealed S Live p e incl refs s1 = ((gs, None), s')" using Cons m by fastforce
  moreover obtain gs2 s2 where "walk_sealed S Live p e incl refs s = ((gs2, None), s2)" using Cons by fastforce
  ultimately show ?case using m by simp
qed simp

lemma walk_open_ends:
  assumes "inv s" and "log_inv (view s) p e ds L ver" and "OpenFrom L \<le> n" and "unat n \<le> length ds" and "length ds - unat n < N"
  shows "\<exists>gs s'. walk_open S Live N p e n s = ((gs, None), s')"
  using assms
proof (induction N arbitrary: n s)
  case (Suc N)
  show ?case
  proof (cases "unat n < length ds")
    case True
    obtain D s1 where d: "delta S Live p e n s = (Inr D, s1)" "inv s1" "view s1 = view s"
      using delta_Live [OF Suc.prems(1-3) True] by auto
    have n1: "unat (n + 1) = Suc (unat n)" using word_next True log_inv_length [OF Suc.prems(2)] by blast
    then have "OpenFrom L \<le> n + 1" using Suc.prems(3) by (simp add: word_le_nat_alt)
    then obtain gs s' where "walk_open S Live N p e (n + 1) s1 = ((gs, None), s')"
      using Suc.IH [of s1 "n + 1"] Suc.prems d n1 True by (metis Suc_diff_Suc Suc_leI less_Suc_eq_le less_le_trans not_less_eq)
    then show ?thesis using d by simp
  next
    case False
    then have "view s (deltaKey p e n) = None" using log_invD(7) [OF Suc.prems(2)] by simp
    then show ?thesis using delta_absent_Live [OF Suc.prems(1), of p e n] by auto
  qed
qed simp

lemma walk_epochs_ends:
  assumes "inv s" and "logs_hold (view s) p lat dss Ls" and "set es \<subseteq> set (epochs lat)" and "\<forall>e\<in>set es. length (dss e) < N"
  shows "\<exists>gs s'. walk_epochs S Live N p incl es s = ((gs, None), s')"
  using assms
proof (induction es arbitrary: s)
  case (Cons e es)
  have "1 \<le> e" "e \<le> lat" using Cons.prems(3) by (auto simp: set_epochs)
  then obtain ver where li: "log_inv (view s) p e (dss e) (Ls e) ver" using logs_holdD [OF Cons.prems(2)] by blast
  obtain s1 where f: "fetchEpochLog S Live p e s = (Inr (Ls e, ver), s1)" "inv s1" "view s1 = view s"
    using fetchEpochLog_Live [OF Cons.prems(1) log_invD(1) [OF li]] by blast
  have li1: "log_inv (view s1) p e (dss e) (Ls e) ver" using li f(3) by simp
  obtain gs s2 where a: "walk_sealed S Live p e incl (Sealed (Ls e)) s1 = ((gs, None), s2)"
    using walk_sealed_ends [OF f(2) li1] by blast
  have v2: "inv s2" "view s2 = view s" using walk_sealed_reads [OF a f(2) li1] f(3) by (auto simp: reads_def)
  have li2: "log_inv (view s2) p e (dss e) (Ls e) ver" using li v2(2) by simp
  obtain hs s3 where b: "walk_open S Live N p e (OpenFrom (Ls e)) s2 = ((hs, None), s3)"
    using walk_open_ends [OF v2(1) li2, of "OpenFrom (Ls e)" N] log_invD(3) [OF li] Cons.prems(4) by fastforce
  obtain rs where w: "walk_epoch S Live N p incl e s = ((rs, None), s3)"
    using f(1) iter_then_ends [OF a, of "walk_open S Live N p e (OpenFrom (Ls e))"] b by (auto simp: walk_epoch_def)
  have "reads s s3" using walk_epoch_reads [OF w Cons.prems(1) li] by simp
  then obtain ks s4 where "walk_epochs S Live N p incl es s3 = ((ks, None), s4)"
    using Cons.IH [of s3] Cons.prems by (auto simp: reads_def)
  then show ?case using iter_then_ends [OF w] by fastforce
qed simp

end

text \<open>Pruning loses nothing when no row of a skipped run passes the filter.\<close>

lemma epoch_rows_split:
  assumes "log_inv v p e ds L ver"
  shows "concat ds = concat (map (run_rows ds) (Sealed L)) @ rows_between ds (unat (OpenFrom L)) (length ds)"
proof -
  have "concat ds = rows_between ds 0 (unat (OpenFrom L)) @ rows_between ds (unat (OpenFrom L)) (length ds)"
    using rows_between_split [of 0 "unat (OpenFrom L)" "length ds" ds] rows_between_all [of ds] log_invD(3) [OF assms] by simp
  then show ?thesis using runs_rows [OF log_invD(4) [OF assms]] by simp
qed

lemma filter_runs:
  "\<forall>r\<in>set rs. \<not> incl r \<longrightarrow> filter P (f r) = [] \<Longrightarrow>
    filter P (concat (map f (filter incl rs))) = filter P (concat (map f rs))"
  by (induction rs) auto

lemma epoch_walk_filter:
  assumes "log_inv v p e ds L ver" and "\<forall>r\<in>set (Sealed L). \<not> incl r \<longrightarrow> filter P (run_rows ds r) = []"
  shows "filter P (epoch_walk incl ds L) = filter P (concat ds)"
  using filter_runs [OF assms(2)] epoch_rows_split [OF assms(1)] by (simp add: epoch_walk_def)

lemma track_walk_filter:
  assumes "logs_hold v p lat dss Ls" and "set es \<subseteq> set (epochs lat)"
    and "\<And>e r. e \<in> set es \<Longrightarrow> r \<in> set (Sealed (Ls e)) \<Longrightarrow> \<not> incl r \<Longrightarrow> filter P (run_rows (dss e) r) = []"
  shows "filter P (track_walk incl dss Ls es) = filter P (concat (map (\<lambda>e. concat (dss e)) es))"
  using assms(2,3)
proof (induction es)
  case (Cons e es)
  obtain ver where "log_inv v p e (dss e) (Ls e) ver" using assms(1) Cons.prems(1) logs_holdD by (fastforce simp: set_epochs)
  then have "filter P (epoch_walk incl (dss e) (Ls e)) = filter P (concat (dss e))"
    using epoch_walk_filter Cons.prems(2) by auto
  then show ?case using Cons by (simp add: track_walk_def)
qed (simp add: track_walk_def)

lemma wallclock_bounds_lo:
  assumes "\<forall>g\<in>set gs. 0 \<le> Wallclock g" and "0 \<le> lo" and "wallclock_bounds gs (lo, hi) = (a, b)"
  shows "(lo \<noteq> 0 \<longrightarrow> a \<le> lo \<and> a \<noteq> 0) \<and> (\<forall>g\<in>set gs. hasWallclock g \<longrightarrow> a \<noteq> 0 \<and> a \<le> Wallclock g)"
  using assms
proof (induction gs arbitrary: lo hi)
  case (Cons g gs)
  show ?case
  proof (cases "hasWallclock g")
    case True
    let ?lo = "if lo = 0 \<or> Wallclock g < lo then Wallclock g else lo"
    have "0 \<le> ?lo" "?lo \<noteq> 0" using Cons.prems True by (auto simp: hasWallclock_def)
    then have "(?lo \<noteq> 0 \<longrightarrow> a \<le> ?lo \<and> a \<noteq> 0) \<and> (\<forall>g\<in>set gs. hasWallclock g \<longrightarrow> a \<noteq> 0 \<and> a \<le> Wallclock g)"
      using Cons.IH [of ?lo "max hi (Wallclock g)"] Cons.prems True by simp
    with \<open>?lo \<noteq> 0\<close> show ?thesis by (auto split: if_splits)
  qed (use Cons in auto)
qed simp

lemma run_ref_wallclock:
  assumes "gs \<noteq> []" and "\<forall>g\<in>set gs. 0 \<le> Wallclock g" and "g \<in> set gs" and "hasWallclock g"
  shows "WallclockStart (run_ref p e a b gs) \<noteq> 0 \<and> WallclockStart (run_ref p e a b gs) \<le> Wallclock g"
proof -
  obtain lo hi where w: "wallclock_bounds gs (0, 0) = (lo, hi)" by fastforce
  then have "WallclockStart (run_ref p e a b gs) = lo" using assms(1) by (simp add: run_ref_def summarize_def Let_def)
  then show ?thesis using wallclock_bounds_lo [OF assms(2) _ w] assms(3,4) by simp
qed

section \<open>Looking up one group\<close>

lemma find_SomeD: "find P xs = Some x \<Longrightarrow> x \<in> set xs \<and> P x"
  by (auto simp: find_Some_iff)

lemma find_NoneD: "None = find P xs \<Longrightarrow> \<forall>x\<in>set xs. \<not> P x"
  by (metis find_None_iff)

lemma find_append_case: "find P (xs @ ys) = (case find P xs of None \<Rightarrow> find P ys | Some x \<Rightarrow> Some x)"
  by (induction xs) auto

context store_contract
begin

lemma lookup_open_reads:
  assumes "lookup_open S c N p e i n s = (x, s')" and "inv s" and "log_inv (view s) p e ds L ver"
    and "OpenFrom L \<le> n" and "unat n \<le> length ds"
  shows "reads s s' \<and> (\<forall>y. x = Inr y \<longrightarrow> y = find (\<lambda>g. ID g = i) (rows_between ds (unat n) (length ds))) \<and>
    (\<forall>err. x = Inl err \<longrightarrow> foreign err)"
  using assms
proof (induction N arbitrary: n s)
  case 0
  then show ?case by (auto simp: reads_def)
next
  case (Suc N)
  note li = Suc.prems(3)
  obtain y s1 where y: "delta S c p e n s = (y, s1)" by fastforce
  note r = delta_reads [OF y Suc.prems(2) li]
  show ?case
  proof (cases y)
    case (Inl err)
    show ?thesis
    proof (cases "errors_Is err ErrNotCommitted")
      case True
      then have "view s (deltaKey p e n) = None" using r Inl by simp
      then have "\<not> unat n < length ds" using log_invD(6) [OF li Suc.prems(4)] by (auto simp: delta_holds_def)
      then show ?thesis using Suc.prems(1,5) y Inl True r by (auto simp: reads_def)
    qed (use Suc.prems(1) y Inl r in \<open>auto simp: reads_def\<close>)
  next
    case (Inr D)
    have v1: "inv s1" "view s1 = view s" and n: "unat n < length ds" and D: "dm_Groups D = ds ! unat n" using r Inr by auto
    have n1: "unat (n + 1) = Suc (unat n)" using word_next n log_inv_length [OF li] by blast
    have split: "rows_between ds (unat n) (length ds) = ds ! unat n @ rows_between ds (unat (n + 1)) (length ds)"
      using rows_between_split [of "unat n" "Suc (unat n)" "length ds" ds] rows_between_Suc [of "unat n" "unat n" ds] n n1 by simp
    have o: "OpenFrom L \<le> n + 1" using Suc.prems(4) n1 by (simp add: word_le_nat_alt)
    show ?thesis
    proof (cases "find (\<lambda>g. ID g = i) (ds ! unat n)")
      case None
      then have "lookup_open S c N p e i (n + 1) s1 = (x, s')" using Suc.prems(1) y Inr D by simp
      from Suc.IH [OF this v1(1)] show ?thesis
        using li v1 o n n1 None split by (simp add: reads_def find_append_case)
    next
      case (Some g)
      then show ?thesis using Suc.prems(1) y Inr D v1 split by (auto simp: reads_def find_append_case)
    qed
  qed
qed

lemma lookup_sealed_reads:
  assumes "lookup_sealed S c p e i refs s = (x, s')" and "inv s" and "log_inv (view s) p e ds L ver"
    and "set refs \<subseteq> set (Sealed L)"
  shows "reads s s' \<and> (\<forall>y. x = Inr y \<longrightarrow> y = find (\<lambda>g. ID g = i) (concat (map (run_rows ds) refs))) \<and>
    (\<forall>err. x = Inl err \<longrightarrow> foreign err)"
  using assms
proof (induction refs arbitrary: s)
  case Nil
  then show ?case by (auto simp: reads_def)
next
  case (Cons ref refs)
  obtain y s1 where y: "sealed S c p e ref s = (y, s1)" by fastforce
  have ref: "ref \<in> set (Sealed L)" using Cons.prems(4) by simp
  note r = sealed_reads [OF y Cons.prems(2,3) log_inv_snapshot [OF Cons.prems(3)] ref]
  show ?case
  proof (cases y)
    case (Inr M)
    have v1: "inv s1" "view s1 = view s" and gs: "sm_Groups M = run_rows ds ref" using r Inr by auto
    show ?thesis
    proof (cases "find (\<lambda>g. ID g = i) (run_rows ds ref)")
      case None
      then have "lookup_sealed S c p e i refs s1 = (x, s')" using Cons.prems(1) y Inr gs by simp
      from Cons.IH [OF this v1(1)] show ?thesis using Cons.prems(3,4) v1 None by (simp add: reads_def find_append_case)
    next
      case (Some g)
      then show ?thesis using Cons.prems(1) y Inr gs v1 by (auto simp: reads_def find_append_case)
    qed
  qed (use Cons.prems(1) y r in \<open>auto simp: reads_def\<close>)
qed

lemma Lookup_in_epoch:
  assumes run: "Lookup S c N r i s = (x, s')" and "inv s" and e: "Epoch i \<noteq> 0" "\<not> Epoch i > latest r"
    and li: "log_inv (view s) (r_path r) (Epoch i) ds L ver"
  shows "reads s s' \<and> (\<forall>g. x = Inr g \<longrightarrow> g \<in> set (concat ds) \<and> ID g = i) \<and>
    (\<forall>err. x = Inl err \<and> errors_Is err ErrGroupNotFound \<longrightarrow> (\<forall>g\<in>set (concat ds). ID g \<noteq> i))"
proof -
  let ?e = "Epoch i" and ?p = "r_path r"
  let ?o = "rows_between ds (unat (OpenFrom L)) (length ds)" and ?z = "concat (map (run_rows ds) (Sealed L))"
  have rows: "set (concat ds) = set ?z \<union> set ?o" using arg_cong [OF epoch_rows_split [OF li], of set] by simp
  obtain f s1 where f: "fetchEpochLog S c ?p ?e s = (f, s1)" by fastforce
  note fr = fetchEpochLog_reads [OF f assms(2) li]
  then have v1: "inv s1" "view s1 = view s" and li1: "log_inv (view s1) ?p ?e ds L ver" using li by auto
  obtain a s2 where a: "lookup_open S c N ?p ?e i (OpenFrom L) s1 = (a, s2)" by fastforce
  note ar = lookup_open_reads [OF a v1(1) li1 order_refl log_invD(3) [OF li]]
  then have v2: "inv s2" "view s2 = view s" and li2: "log_inv (view s2) ?p ?e ds L ver" using v1 li by (auto simp: reads_def)
  obtain b s3 where b: "lookup_sealed S c ?p ?e i (Sealed L) s2 = (b, s3)" by fastforce
  note br = lookup_sealed_reads [OF b v2(1) li2 order_refl]
  have x: "(x, s') = (case f of Inl err \<Rightarrow> (Inl err, s1) | Inr _ \<Rightarrow>
      (case a of Inl err \<Rightarrow> (Inl err, s2) | Inr (Some g) \<Rightarrow> (Inr g, s2) | Inr None \<Rightarrow>
      (case b of Inl err \<Rightarrow> (Inl err, s3) | Inr (Some g) \<Rightarrow> (Inr g, s3) | Inr None \<Rightarrow> (Inl [ErrGroupNotFound], s3))))"
  proof (cases f)
    case (Inr y)
    then have "y = (L, ver)" using fr by blast
    then show ?thesis
      using run e f a b Inr by (cases a; cases b) (simp_all add: Lookup_def split: option.splits)
  qed (use run e f in \<open>simp add: Lookup_def\<close>)
  have R: "reads s s1" "reads s s2" "reads s s3" using v1 v2 br by (auto simp: reads_def)
  have A: "a = Inr y \<Longrightarrow> y = find (\<lambda>g. ID g = i) ?o" for y using ar by blast
  have B: "b = Inr y \<Longrightarrow> y = find (\<lambda>g. ID g = i) ?z" for y using br by blast
  have E: "f = Inl y \<Longrightarrow> \<not> errors_Is y ErrGroupNotFound" "a = Inl y \<Longrightarrow> \<not> errors_Is y ErrGroupNotFound"
    "b = Inl y \<Longrightarrow> \<not> errors_Is y ErrGroupNotFound" for y
    using fr ar br foreignD(2) by blast+
  note A' = A [symmetric, THEN find_SomeD] A [THEN find_NoneD] and B' = B [symmetric, THEN find_SomeD] B [THEN find_NoneD]
  show ?thesis
  proof (cases "f = Inr (L, ver) \<and> a = Inr None")
    case True
    then show ?thesis
      using x R(3) E(3) A'(2) B' unfolding rows by (cases b) (simp_all add: ball_Un split: option.splits)
  next
    case False
    then show ?thesis
      using x R(1,2) E(1,2) A'(1) fr unfolding rows by (cases f; cases a) (simp_all split: option.splits)
  qed
qed

lemma Lookup_reads:
  assumes "Lookup S c N r i s = (x, s')" and "inv s" and "logs_hold (view s) (r_path r) (latest r) dss Ls"
  shows "reads s s' \<and> (\<forall>g. x = Inr g \<longrightarrow> g \<in> set (track_rows dss (latest r)) \<and> ID g = i) \<and>
    (\<forall>err. x = Inl err \<and> errors_Is err ErrGroupNotFound \<longrightarrow>
      \<not> (1 \<le> Epoch i \<and> Epoch i \<le> latest r \<and> (\<exists>g\<in>set (concat (dss (Epoch i))). ID g = i)))"
proof (cases "Epoch i = 0 \<or> Epoch i > latest r")
  case True
  then show ?thesis using assms(1,2) by (auto simp: Lookup_def reads_def)
next
  case False
  then have e: "1 \<le> Epoch i" "Epoch i \<le> latest r" by (auto simp: word_le_nat_alt Suc_le_eq unat_gt_0 not_less)
  then obtain ver where li: "log_inv (view s) (r_path r) (Epoch i) (dss (Epoch i)) (Ls (Epoch i)) ver"
    using logs_holdD [OF assms(3)] by blast
  have "set (concat (dss (Epoch i))) \<subseteq> set (track_rows dss (latest r))" using e by (auto simp: track_rows_def set_epochs)
  then show ?thesis using Lookup_in_epoch [OF assms(1,2) _ _ li] False by blast
qed

end

end
