(* ===== verification/Reader_Cursor.thy ===== *)
theory Reader_Cursor
  imports Reader_Reads
begin

text \<open>
  The cursor's position. A reader stands at an index of the rows of all epochs in commit order: what
  is left of its batch, then the deltas from its next one on, then the later epochs. \<open>Next\<close> returns the
  row at the position and moves one on; its log root may be older than the stored one. A reader whose
  next delta lies inside a run sealed since then is taken back to the run's start, never forward.
\<close>

section \<open>Positions\<close>

definition track_holds ::
  "view \<Rightarrow> TrackPath \<Rightarrow> u64 \<Rightarrow> (u64 \<Rightarrow> GroupInfo list list) \<Rightarrow> (u64 \<Rightarrow> epochLogRoot) \<Rightarrow> bool" where
  "track_holds v p lat dss Ls \<longleftrightarrow> (\<exists>R ver. root_at v p R ver \<and> LatestEpoch R = lat) \<and> 1 \<le> lat \<and> logs_hold v p lat dss Ls"

text \<open>The number of rows in the epochs before \<open>e\<close>.\<close>

definition offset :: "(u64 \<Rightarrow> GroupInfo list list) \<Rightarrow> u64 \<Rightarrow> nat" where
  "offset dss e = length (track_rows dss (e - 1))"

definition cursor ::
  "view \<Rightarrow> u64 \<Rightarrow> (u64 \<Rightarrow> GroupInfo list list) \<Rightarrow> (u64 \<Rightarrow> epochLogRoot) \<Rightarrow> Reader \<Rightarrow> nat \<Rightarrow> bool" where
  "cursor v lat dss Ls r j \<longleftrightarrow> (let e = r_epoch r; ds = dss e in
     1 \<le> e \<and> e \<le> latest r \<and> latest r \<le> lat \<and>
     snapshot v (r_path r) e ds (r_logRoot r) \<and> (e < latest r \<longrightarrow> r_logRoot r = Ls e) \<and>
     snapshot v (r_path r) 1 (dss 1) (epoch1Log r) \<and> (1 < latest r \<longrightarrow> epoch1Log r = Ls 1) \<and>
     unat (r_next r) \<le> length ds \<and>
     (\<exists>k\<le>length (concat ds). j = offset dss e + k \<and>
        drop k (concat ds) = drop (r_idx r) (batch r) @ rows_between ds (unat (r_next r)) (length ds)))"

text \<open>The next delta is not inside a sealed run of the reader's log root.\<close>

definition at_edge :: "Reader \<Rightarrow> bool" where
  "at_edge r \<longleftrightarrow> (\<forall>ref\<in>set (Sealed (r_logRoot r)). FirstDelta ref < r_next r \<longrightarrow> LastDelta ref < r_next r)"

section \<open>Rows and offsets\<close>

lemma epochs_snoc: "e \<noteq> 0 \<Longrightarrow> epochs e = epochs (e - 1) @ [e]"
proof -
  assume "e \<noteq> 0"
  then have "Suc (unat (e - 1)) = unat e" by (simp add: unat_minus_one unat_gt_0 Suc_pred)
  then show ?thesis using \<open>e \<noteq> 0\<close> by (simp add: epochs_def unat_gt_0 Suc_leI)
qed

lemma epochs_append: "e \<le> lat \<Longrightarrow> \<exists>es. epochs lat = epochs e @ es"
proof -
  assume "e \<le> lat"
  then have "[1..<Suc (unat lat)] = [1..<Suc (unat e)] @ [Suc (unat e)..<Suc (unat lat)]"
    using upt_add_eq_append [of 1 "Suc (unat e)" "unat lat - unat e"] by (simp add: word_le_nat_alt del: upt_Suc)
  then show ?thesis by (metis epochs_def map_append)
qed

lemma one_le_word [simp]: "1 \<le> (e :: u64) \<longleftrightarrow> e \<noteq> 0"
  by (simp add: word_le_nat_alt Suc_le_eq unat_gt_0)

lemma track_rows_snoc: "e \<noteq> 0 \<Longrightarrow> track_rows dss e = track_rows dss (e - 1) @ concat (dss e)"
  by (simp add: track_rows_def epochs_snoc)

lemma track_rows_append: "e \<le> lat \<Longrightarrow> \<exists>xs. track_rows dss lat = track_rows dss e @ xs"
  using epochs_append by (fastforce simp: track_rows_def)

lemma track_rows_nth:
  assumes "1 \<le> e" and "e \<le> lat" and "k < length (concat (dss e))"
  shows "offset dss e + k < length (track_rows dss lat)" "track_rows dss lat ! (offset dss e + k) = concat (dss e) ! k"
proof -
  obtain xs where "track_rows dss lat = track_rows dss (e - 1) @ concat (dss e) @ xs"
    using track_rows_append [OF assms(2), of dss] track_rows_snoc [of e dss] assms(1) by auto
  then show "offset dss e + k < length (track_rows dss lat)" "track_rows dss lat ! (offset dss e + k) = concat (dss e) ! k"
    using assms(3) by (simp_all add: offset_def nth_append)
qed

lemma offset_next: "e \<noteq> 0 \<Longrightarrow> e + 1 \<noteq> 0 \<Longrightarrow> offset dss (e + 1) = offset dss e + length (concat (dss e))"
  using track_rows_snoc [of e dss] by (simp add: offset_def)

lemma offset_one [simp]: "offset dss 1 = 0"
  by (simp add: offset_def track_rows_def epochs_def)

lemma rows_between_drop: "n \<le> length ds \<Longrightarrow> rows_between ds n (length ds) = drop (length (rows_between ds 0 n)) (concat ds)"
  using rows_between_split [of 0 n "length ds" ds] rows_between_all [of ds] by (metis append_eq_conv_conj le0)

lemma length_rows_before: "n \<le> length ds \<Longrightarrow> length (rows_between ds 0 n) \<le> length (concat ds)"
  using length_rows_between [of ds 0 n] .

lemma runs_order:
  "runs p e ds a rs b \<Longrightarrow> r1 \<in> set rs \<Longrightarrow> r2 \<in> set rs \<Longrightarrow> FirstDelta r2 \<le> LastDelta r1 \<Longrightarrow> LastDelta r2 \<le> LastDelta r1"
proof (induction rs arbitrary: a)
  case (Cons x rs)
  have later: "LastDelta x < FirstDelta y" if "y \<in> set rs" for y
    using runs_ref [of p e ds "Suc (unat (LastDelta x))" rs b y] Cons.prems(1) that by (auto simp: word_less_nat_alt)
  have own: "FirstDelta y \<le> LastDelta y" if "y \<in> set rs" for y
    using runs_ref [of p e ds "Suc (unat (LastDelta x))" rs b y] Cons.prems(1) that by auto
  show ?case
  proof (cases "r1 = x")
    case True
    then show ?thesis using Cons.prems(3,4) later [of r2] by auto
  next
    case False
    then show ?thesis using Cons later [of r1] own [of r1] by (metis (no_types, lifting) runs.simps(2) leD le_less_trans
          less_imp_le not_le_imp_less set_ConsD)
  qed
qed simp

lemma edge_open: "snapshot v p e ds (r_logRoot r) \<Longrightarrow> OpenFrom (r_logRoot r) \<le> r_next r \<Longrightarrow> at_edge r"
  unfolding at_edge_def snapshot_def
  using runs_ref [of p e ds 0 "Sealed (r_logRoot r)" "unat (OpenFrom (r_logRoot r))"]
  by (metis (no_types, lifting) le_less_trans not_less word_le_nat_alt word_less_nat_alt)

section \<open>Moves of the cursor\<close>

lemma rows_between_mono: "a \<le> b \<Longrightarrow> length (rows_between ds 0 a) \<le> length (rows_between ds 0 b)"
  using rows_between_split [of 0 a b ds] by (metis le0 le_add1 length_append)

lemma drop_eq_length: "drop k xs = drop m xs \<Longrightarrow> k \<le> length xs \<Longrightarrow> m \<le> length xs \<Longrightarrow> k = m"
  by (metis diff_diff_cancel length_drop)

text \<open>The unread rows of the batch are the next ones.\<close>

lemma cursor_take:
  assumes "cursor v lat dss Ls r j" and "r_idx r < length (batch r)"
  shows "j < length (track_rows dss lat)" "batch r ! r_idx r = track_rows dss lat ! j"
    "cursor v lat dss Ls (r\<lparr>r_idx := Suc (r_idx r), r_last := i\<rparr>) (Suc j)"
proof -
  let ?e = "r_epoch r" and ?ds = "dss (r_epoch r)"
  obtain k where k: "k \<le> length (concat ?ds)" "j = offset dss ?e + k"
      "drop k (concat ?ds) = drop (r_idx r) (batch r) @ rows_between ?ds (unat (r_next r)) (length ?ds)"
    and e: "1 \<le> ?e" "?e \<le> lat"
    using assms(1) by (auto simp: cursor_def Let_def)
  have c: "drop k (concat ?ds) = batch r ! r_idx r # drop (Suc (r_idx r)) (batch r) @ rows_between ?ds (unat (r_next r)) (length ?ds)"
    using k(3) assms(2) by (simp add: Cons_nth_drop_Suc [symmetric])
  then have lt: "k < length (concat ?ds)" and nth: "concat ?ds ! k = batch r ! r_idx r"
    by (metis drop_all not_le_imp_less list.distinct(1), metis drop_all hd_drop_conv_nth list.sel(1) not_le_imp_less list.distinct(1))
  have d: "drop (Suc k) (concat ?ds) = drop (Suc (r_idx r)) (batch r) @ rows_between ?ds (unat (r_next r)) (length ?ds)"
    using c by (metis Cons_nth_drop_Suc lt list.inject)
  show "j < length (track_rows dss lat)" "batch r ! r_idx r = track_rows dss lat ! j"
    using track_rows_nth [of "r_epoch r" lat k dss] e lt k(2) nth by simp_all
  show "cursor v lat dss Ls (r\<lparr>r_idx := Suc (r_idx r), r_last := i\<rparr>) (Suc j)"
    using assms(1) k(2) d lt unfolding cursor_def Let_def by (auto intro!: exI [of _ "Suc k"])
qed

text \<open>With an empty batch the position is that of the next delta.\<close>

lemma cursor_exhausted:
  assumes "cursor v lat dss Ls r j" and "\<not> r_idx r < length (batch r)"
  shows "j = offset dss (r_epoch r) + length (rows_between (dss (r_epoch r)) 0 (unat (r_next r)))"
proof -
  let ?ds = "dss (r_epoch r)"
  obtain k where k: "k \<le> length (concat ?ds)" "j = offset dss (r_epoch r) + k"
      "drop k (concat ?ds) = rows_between ?ds (unat (r_next r)) (length ?ds)" and n: "unat (r_next r) \<le> length ?ds"
    using assms by (auto simp: cursor_def Let_def)
  then show ?thesis
    using drop_eq_length [OF _ k(1) length_rows_before [OF n]] rows_between_drop [OF n] by simp
qed

lemma cursor_segment:
  assumes "cursor v lat dss Ls r j" and "a \<le> b" and "unat n = b" and "b \<le> length (dss (r_epoch r))"
    and "gs = rows_between (dss (r_epoch r)) a b"
  shows "cursor v lat dss Ls (r\<lparr>batch := gs, r_idx := 0, r_next := n, misses := m\<rparr>)
    (offset dss (r_epoch r) + length (rows_between (dss (r_epoch r)) 0 a))"
proof -
  let ?ds = "dss (r_epoch r)"
  have a: "a \<le> length ?ds" using assms(2,4) by simp
  have "drop (length (rows_between ?ds 0 a)) (concat ?ds) = gs @ rows_between ?ds (unat n) (length ?ds)"
    using rows_between_drop [OF a] rows_between_split [of a b "length ?ds" ?ds] assms(2-5) by simp
  then show ?thesis
    using assms(1,3,4) length_rows_before [OF a] unfolding cursor_def Let_def by auto
qed

lemma cursor_sealed:
  assumes cur: "cursor v lat dss Ls r j" and ex: "\<not> r_idx r < length (batch r)" and lt: "r_next r < OpenFrom (r_logRoot r)"
    and len: "length (dss (r_epoch r)) < 2 ^ 63"
  obtains ref i where "sealedCovering (r_logRoot r) (r_next r) = Some ref" "ref \<in> set (Sealed (r_logRoot r))" "i \<le> j"
    "at_edge r \<Longrightarrow> i = j"
    "\<And>m. cursor v lat dss Ls (r\<lparr>batch := run_rows (dss (r_epoch r)) ref, r_idx := 0, r_next := LastDelta ref + 1, misses := m\<rparr>) i"
    "\<And>gs m. at_edge (r\<lparr>batch := gs, r_idx := 0, r_next := LastDelta ref + 1, misses := m\<rparr>)"
proof -
  let ?L = "r_logRoot r" and ?n = "r_next r" and ?ds = "dss (r_epoch r)"
  have runs: "runs (r_path r) (r_epoch r) ?ds 0 (Sealed ?L) (unat (OpenFrom ?L))"
    using cur by (simp add: cursor_def Let_def snapshot_def)
  obtain ref where ref: "sealedCovering ?L ?n = Some ref" "ref \<in> set (Sealed ?L)" "FirstDelta ref \<le> ?n" "?n \<le> LastDelta ref"
    using runs_covering [OF runs, of ?n] lt by (auto simp: sealedCovering_def word_less_nat_alt)
  have l: "unat (LastDelta ref) < length ?ds" "FirstDelta ref \<le> LastDelta ref" using runs_ref [OF runs ref(2)] by auto
  have l1: "unat (LastDelta ref + 1) = Suc (unat (LastDelta ref))" using word_next l(1) len by blast
  let ?i = "offset dss (r_epoch r) + length (rows_between ?ds 0 (unat (FirstDelta ref)))"
  have j: "j = offset dss (r_epoch r) + length (rows_between ?ds 0 (unat ?n))" using cursor_exhausted [OF cur ex] .
  show thesis
  proof (rule that [OF ref(1,2), of ?i])
    show "?i \<le> j" using j ref(3) rows_between_mono [of "unat (FirstDelta ref)" "unat ?n" ?ds] by (simp add: word_le_nat_alt)
    show "?i = j" if "at_edge r"
    proof -
      have "FirstDelta ref = ?n" using that ref unfolding at_edge_def by fastforce
      then show ?thesis using j by simp
    qed
    show "cursor v lat dss Ls (r\<lparr>batch := run_rows ?ds ref, r_idx := 0, r_next := LastDelta ref + 1, misses := m\<rparr>) ?i" for m
      by (rule cursor_segment [OF cur _ l1]) (use l in \<open>auto simp: run_rows_def word_le_nat_alt\<close>)
    show "at_edge (r\<lparr>batch := gs, r_idx := 0, r_next := LastDelta ref + 1, misses := m\<rparr>)" for gs m
      using runs_order [OF runs ref(2)] l1 by (simp add: at_edge_def word_less_nat_alt word_le_nat_alt less_Suc_eq_le)
  qed
qed

lemma cursor_delta:
  assumes cur: "cursor v lat dss Ls r j" and ex: "\<not> r_idx r < length (batch r)"
    and n: "unat (r_next r) < length (dss (r_epoch r))" and len: "length (dss (r_epoch r)) < 2 ^ 63"
  shows "cursor v lat dss Ls (r\<lparr>batch := dss (r_epoch r) ! unat (r_next r), r_idx := 0, r_next := r_next r + 1, misses := m\<rparr>) j"
proof -
  let ?ds = "dss (r_epoch r)" and ?n = "unat (r_next r)"
  have "unat (r_next r + 1) = Suc ?n" using word_next n len by blast
  moreover have "?ds ! ?n = rows_between ?ds ?n (Suc ?n)" using rows_between_Suc [of ?n ?n ?ds] n by simp
  ultimately show ?thesis using cursor_segment [OF cur, of ?n "Suc ?n"] cursor_exhausted [OF cur ex] n by simp
qed

lemma cursor_epoch:
  assumes cur: "cursor v lat dss Ls r j" and ex: "\<not> r_idx r < length (batch r)"
    and n: "unat (r_next r) = length (dss (r_epoch r))" and e: "r_epoch r < latest r"
    and logs: "logs_hold v (r_path r) lat dss Ls"
  shows "cursor v lat dss Ls
    (r\<lparr>r_epoch := r_epoch r + 1, r_logRoot := Ls (r_epoch r + 1), r_next := 0, r_idx := 0, batch := [], misses := 0\<rparr>) j"
proof -
  let ?e = "r_epoch r + 1"
  have e1: "unat ?e = Suc (unat (r_epoch r))" using word_Suc_unat [OF e] .
  then have "?e \<noteq> 0" "?e \<le> latest r" "latest r \<le> lat"
    using e cur by (auto simp: word_le_nat_alt word_less_nat_alt cursor_def Let_def)
  moreover then obtain ver where "log_inv v (r_path r) ?e (dss ?e) (Ls ?e) ver"
    using logs_holdD [OF logs, of ?e] order_trans [of ?e] by auto
  moreover have "j = offset dss ?e"
    using cursor_exhausted [OF cur ex] n rows_between_all [of "dss (r_epoch r)"] offset_next [of "r_epoch r" dss] cur \<open>?e \<noteq> 0\<close>
    by (simp add: cursor_def Let_def)
  ultimately show ?thesis
    using cur log_inv_snapshot rows_between_all [of "dss ?e"] unfolding cursor_def Let_def by auto
qed

lemma cursor_refreshed:
  assumes cur: "cursor v lat dss Ls r j" and logs: "logs_hold v (r_path r) lat dss Ls"
  shows "cursor v lat dss Ls (r\<lparr>misses := m, latest := lat, r_logRoot := Ls (r_epoch r),
    epoch1Log := (if r_epoch r = 1 then Ls (r_epoch r) else epoch1Log r)\<rparr>) j"
proof -
  have e: "1 \<le> r_epoch r" "r_epoch r \<le> latest r" "latest r \<le> lat" using cur by (auto simp: cursor_def Let_def)
  then obtain ver where li: "log_inv v (r_path r) (r_epoch r) (dss (r_epoch r)) (Ls (r_epoch r)) ver"
    using logs_holdD [OF logs, of "r_epoch r"] order_trans [of "r_epoch r"] by blast
  have one: "epoch1Log r = Ls 1" if "r_epoch r \<noteq> 1"
  proof -
    have "1 < r_epoch r" using e(1) that by (simp add: order.not_eq_order_implies_strict)
    then have "1 < latest r" using e(2) by (rule less_le_trans)
    then show ?thesis using cur by (simp add: cursor_def Let_def)
  qed
  show ?thesis
  proof (cases "r_epoch r = 1")
    case True
    then have "lat \<noteq> 0" using e by auto
    then show ?thesis using True cur e log_inv_snapshot [OF li] unfolding cursor_def Let_def by simp
  next
    case False
    then show ?thesis using cur e log_inv_snapshot [OF li] one [OF False] unfolding cursor_def Let_def by simp
  qed
qed

lemma cursor_epochs: "cursor v lat dss Ls r j \<Longrightarrow> 1 \<le> r_epoch r \<and> r_epoch r \<le> latest r \<and> latest r \<le> lat"
  by (simp add: cursor_def Let_def)

lemma cursor_older:
  assumes "cursor v lat dss Ls r j" and "r_epoch r \<le> l" and "l \<le> latest r" and "r_logRoot r = Ls (r_epoch r)"
  shows "cursor v lat dss Ls (r\<lparr>latest := l\<rparr>) j"
  using assms order_trans [of l "latest r" lat] less_le_trans [of 1 l "latest r"] unfolding cursor_def Let_def by auto

section \<open>\<open>Next\<close>\<close>

text \<open>
  What a call of \<open>Next\<close> may leave: a group comes from a position not past the reader's, and the
  reader then stands after it; an answer of \<open>EOF\<close> leaves the position. After another error the
  position is that of the reader with its old latest epoch, since \<open>Refresh\<close> takes the new one before
  the log root it belongs to is read.
\<close>

definition next_at ::
  "view \<Rightarrow> u64 \<Rightarrow> (u64 \<Rightarrow> GroupInfo list list) \<Rightarrow> (u64 \<Rightarrow> epochLogRoot) \<Rightarrow> u64 \<Rightarrow> error + GroupInfo \<Rightarrow> Reader \<Rightarrow> nat \<Rightarrow> bool" where
  "next_at v lat dss Ls old x r' i =
     (case x of
        Inr g \<Rightarrow> i < length (track_rows dss lat) \<and> g = track_rows dss lat ! i \<and> cursor v lat dss Ls r' (Suc i) \<and> r_last r' = ID g \<and>
          latest r' = old
      | Inl err \<Rightarrow> cursor v lat dss Ls (r'\<lparr>latest := old\<rparr>) i \<and> (errors_Is err EOF \<longrightarrow> cursor v lat dss Ls r' i))"

definition next_post ::
  "view \<Rightarrow> u64 \<Rightarrow> (u64 \<Rightarrow> GroupInfo list list) \<Rightarrow> (u64 \<Rightarrow> epochLogRoot) \<Rightarrow> Reader \<Rightarrow> nat \<Rightarrow> error + GroupInfo \<Rightarrow> Reader \<Rightarrow> bool" where
  "next_post v lat dss Ls r j x r' \<longleftrightarrow> r_path r' = r_path r \<and>
     (\<exists>i\<le>j. (at_edge r \<longrightarrow> i = j) \<and> (isl x \<or> at_edge r' \<or> \<not> at_edge r \<and> i = j) \<and> next_at v lat dss Ls (latest r) x r' i) \<and>
     (r_logRoot r = Ls (r_epoch r) \<longrightarrow> r_logRoot r' = Ls (r_epoch r') \<and> (at_edge r \<longrightarrow> at_edge r'))"

lemma next_post_step:
  assumes "next_post v lat dss Ls r1 i x r'" and "i \<le> j" and "at_edge r \<Longrightarrow> i = j" and "latest r1 = latest r" and "r_path r1 = r_path r"
    and "at_edge r1" and "r_logRoot r = Ls (r_epoch r) \<Longrightarrow> r_logRoot r1 = Ls (r_epoch r1)"
  shows "next_post v lat dss Ls r j x r'"
  using assms unfolding next_post_def by auto

context store_contract
begin

lemma fetchTrackRoot_foreign:
  assumes "fetchTrackRoot S c p s = (Inl err, s')" and "inv s"
  shows "foreign err"
proof -
  have "store_error y" if "Get S c (rootKey p) s = (Inl y, s1)" for y s1 using get_Inl [OF assms(2) that] by blast
  then show ?thesis using assms(1)
    by (auto simp: fetchTrackRoot_def split: prod.splits sum.splits if_splits intro: decode_foreign)
qed

lemma Refresh_cursor:
  assumes r: "Refresh S c r s = (x, r', s')" and i: "inv s" and t: "track_holds (view s) (r_path r) lat dss Ls"
    and cur: "cursor (view s) lat dss Ls r j"
  shows "reads s s' \<and> r_path r' = r_path r \<and> r_epoch r' = r_epoch r \<and> r_next r' = r_next r \<and>
    (x = None \<longrightarrow> cursor (view s) lat dss Ls r' j \<and> r_logRoot r' = Ls (r_epoch r) \<and> latest r' = lat) \<and>
    (\<forall>err. x = Some err \<longrightarrow> foreign err \<and> r_logRoot r' = r_logRoot r \<and> cursor (view s) lat dss Ls (r'\<lparr>latest := latest r\<rparr>) j)"
proof -
  obtain R ver where R: "root_at (view s) (r_path r) R ver" "LatestEpoch R = lat"
    and logs: "logs_hold (view s) (r_path r) lat dss Ls" using t by (auto simp: track_holds_def)
  have e: "1 \<le> r_epoch r" "r_epoch r \<le> lat" using cur by (auto simp: cursor_def Let_def)
  then obtain u where li: "log_inv (view s) (r_path r) (r_epoch r) (dss (r_epoch r)) (Ls (r_epoch r)) u"
    using logs_holdD [OF logs] by blast
  obtain y s1 where f: "fetchTrackRoot S c (r_path r) s = (y, s1)" by fastforce
  have v1: "inv s1" "view s1 = view s" using fetchTrackRoot_view [OF f i] by auto
  obtain z s2 where l: "fetchEpochLog S c (r_path r) (r_epoch r) s1 = (z, s2)" by fastforce
  have li1: "log_inv (view s1) (r_path r) (r_epoch r) (dss (r_epoch r)) (Ls (r_epoch r)) u" using li v1(2) by simp
  note lr = fetchEpochLog_reads [OF l v1(1) li1]
  show ?thesis
  proof (cases y)
    case (Inl err)
    then show ?thesis using r f v1 cur fetchTrackRoot_foreign [of c "r_path r" s err s1] i by (auto simp: Refresh_def reads_def)
  next
    case (Inr w)
    obtain R' u' where "w = (R', u')" by (cases w)
    then have w: "w = (R, u')" using fetchTrackRoot_at [of c "r_path r" s R' u' s1 R] f Inr i R(1) by auto
    show ?thesis
    proof (cases z)
      case (Inl err)
      then show ?thesis using r f Inr w l lr v1 cur by (auto simp: Refresh_def Let_def reads_def)
    next
      case z: (Inr q)
      have q: "q = (Ls (r_epoch r), u)" using lr z by blast
      have "r' = r\<lparr>misses := misses r, latest := lat, r_logRoot := Ls (r_epoch r),
          epoch1Log := (if r_epoch r = 1 then Ls (r_epoch r) else epoch1Log r)\<rparr>" "x = None" "s' = s2"
        using r f Inr w l z q R(2) by (auto simp: Refresh_def Let_def)
      then show ?thesis using cursor_refreshed [OF cur logs, of "misses r"] lr v1 by (simp add: reads_def)
    qed
  qed
qed

lemma cursor_misses [simp]: "cursor v lat dss Ls (r\<lparr>misses := m\<rparr>) j = cursor v lat dss Ls r j"
  by (simp add: cursor_def)

text \<open>One turn of the loop in each of its cases, from what the rest of the loop does.\<close>

definition next_loop :: "ctx \<Rightarrow> nat \<Rightarrow> u64 \<Rightarrow> (u64 \<Rightarrow> GroupInfo list list) \<Rightarrow> (u64 \<Rightarrow> epochLogRoot) \<Rightarrow> bool" where
  "next_loop c N lat dss Ls \<longleftrightarrow> (\<forall>r s j x r' s'. Next S c N r s = (x, r', s') \<longrightarrow> inv s \<longrightarrow>
     track_holds (view s) (r_path r) lat dss Ls \<longrightarrow> cursor (view s) lat dss Ls r j \<longrightarrow>
     reads s s' \<and> next_post (view s) lat dss Ls r j x r')"

lemma next_loop_go:
  assumes "next_loop c N lat dss Ls" and "Next S c N r1 s1 = (x, r', s')" and "reads s s1" and "cursor (view s) lat dss Ls r1 i"
    and "track_holds (view s) (r_path r) lat dss Ls" and "i \<le> j" and "at_edge r \<Longrightarrow> i = j"
    and "latest r1 = latest r" and "r_path r1 = r_path r" and "at_edge r1"
    and "r_logRoot r = Ls (r_epoch r) \<Longrightarrow> r_logRoot r1 = Ls (r_epoch r1)"
  shows "reads s s' \<and> next_post (view s) lat dss Ls r j x r'"
proof -
  have v: "inv s1" "view s1 = view s" using assms(3) by (auto simp: reads_def)
  then have "reads s1 s' \<and> next_post (view s) lat dss Ls r1 i x r'"
    using assms(1,2,4,5,9) unfolding next_loop_def by metis
  then show ?thesis using next_post_step [of "view s" lat dss Ls r1 i x r' j r] assms(6-11) v by (auto simp: reads_def)
qed

lemma next_stop:
  "x = Inl err \<Longrightarrow> foreign err \<Longrightarrow> r' = r \<Longrightarrow> reads s s' \<Longrightarrow> cursor (view s) lat dss Ls r j \<Longrightarrow>
    reads s s' \<and> next_post (view s) lat dss Ls r j x r'"
  by (auto simp: next_post_def next_at_def foreignD)

lemma Next_sealed:
  assumes loop: "next_loop c N lat dss Ls" and run: "Next S c (Suc N) r s = (x, r', s')" and i: "inv s"
    and t: "track_holds (view s) (r_path r) lat dss Ls" and cur: "cursor (view s) lat dss Ls r j"
    and li: "log_inv (view s) (r_path r) (r_epoch r) (dss (r_epoch r)) L u"
    and ex: "\<not> r_idx r < length (batch r)" and lt: "r_next r < OpenFrom (r_logRoot r)"
  shows "reads s s' \<and> next_post (view s) lat dss Ls r j x r'"
proof -
  let ?e = "r_epoch r" and ?p = "r_path r" and ?L = "r_logRoot r"
  have snap: "snapshot (view s) ?p ?e (dss ?e) ?L" using cur by (simp add: cursor_def Let_def)
  obtain ref i where ref: "sealedCovering ?L (r_next r) = Some ref" "ref \<in> set (Sealed ?L)" "i \<le> j" "at_edge r \<Longrightarrow> i = j"
      "\<And>m. cursor (view s) lat dss Ls (r\<lparr>batch := run_rows (dss ?e) ref, r_idx := 0, r_next := LastDelta ref + 1, misses := m\<rparr>) i"
      "\<And>gs m. at_edge (r\<lparr>batch := gs, r_idx := 0, r_next := LastDelta ref + 1, misses := m\<rparr>)"
    using cursor_sealed [OF cur ex lt log_inv_length [OF li]] by blast
  obtain y s1 where y: "sealed S c ?p ?e ref s = (y, s1)" by fastforce
  note yr = sealed_reads [OF y i li snap ref(2)]
  show ?thesis
  proof (cases y)
    case (Inl err)
    then have "x = Inl err" "r' = r" "s' = s1" using run ex lt ref(1) y by auto
    then show ?thesis using next_stop [OF _ _ _ _ cur] yr Inl by (auto simp: reads_def)
  next
    case (Inr M)
    let ?r = "r\<lparr>batch := sm_Groups M, r_idx := 0, r_next := LastDelta ref + 1, misses := 0\<rparr>"
    have "Next S c N ?r s1 = (x, r', s')" using run ex lt ref(1) y Inr by simp
    moreover have "cursor (view s) lat dss Ls ?r i" "reads s s1" using ref(5) yr Inr by (auto simp: reads_def)
    ultimately show ?thesis using next_loop_go [OF loop _ _ _ t ref(3,4), of ?r s1 x r' s'] ref(6) by simp
  qed
qed

lemma Next_delta:
  assumes loop: "next_loop c N lat dss Ls" and run: "Next S c (Suc N) r s = (x, r', s')"
    and t: "track_holds (view s) (r_path r) lat dss Ls" and cur: "cursor (view s) lat dss Ls r j"
    and ex: "\<not> r_idx r < length (batch r)" and ge: "\<not> r_next r < OpenFrom (r_logRoot r)" and len: "length (dss (r_epoch r)) < 2 ^ 63"
    and y: "delta S c (r_path r) (r_epoch r) (r_next r) s = (Inr D, s1)" and R: "reads s s1"
    and D: "unat (r_next r) < length (dss (r_epoch r))" "dm_Groups D = dss (r_epoch r) ! unat (r_next r)"
  shows "reads s s' \<and> next_post (view s) lat dss Ls r j x r'"
proof -
  let ?r = "r\<lparr>batch := dm_Groups D, r_idx := 0, r_next := r_next r + 1, misses := 0\<rparr>"
  have "unat (r_next r + 1) = Suc (unat (r_next r))" using word_next D(1) len by blast
  then have "at_edge ?r"
    using edge_open [of "view s" "r_path r" "r_epoch r" "dss (r_epoch r)" ?r] cur ge
    by (simp add: word_le_nat_alt word_less_nat_alt cursor_def Let_def)
  moreover have "cursor (view s) lat dss Ls ?r j" using cursor_delta [OF cur ex D(1) len] D(2) by simp
  moreover have "Next S c N ?r s1 = (x, r', s')" using run ex ge y by simp
  ultimately show ?thesis using next_loop_go [OF loop _ R _ t order_refl, of ?r x r' s'] by simp
qed

lemma Next_advance:
  assumes loop: "next_loop c N lat dss Ls" and run: "Next S c (Suc N) r s = (x, r', s')"
    and t: "track_holds (view s) (r_path r) lat dss Ls" and cur: "cursor (view s) lat dss Ls r j"
    and li: "log_inv (view s) (r_path r) (r_epoch r) (dss (r_epoch r)) (Ls (r_epoch r)) u"
    and ex: "\<not> r_idx r < length (batch r)" and ge: "\<not> r_next r < OpenFrom (r_logRoot r)"
    and y: "delta S c (r_path r) (r_epoch r) (r_next r) s = (Inl [ErrNotCommitted], s1)" and R: "reads s s1"
    and none: "view s (deltaKey (r_path r) (r_epoch r) (r_next r)) = None" and e: "r_epoch r < latest r"
  shows "reads s s' \<and> next_post (view s) lat dss Ls r j x r'"
proof -
  let ?e = "r_epoch r" and ?p = "r_path r"
  have logs: "logs_hold (view s) ?p lat dss Ls" using t by (simp add: track_holds_def)
  have v1: "inv s1" "view s1 = view s" using R by (auto simp: reads_def)
  have "r_logRoot r = Ls ?e" using cur e by (simp add: cursor_def Let_def)
  then have "\<not> unat (r_next r) < length (dss ?e)"
    using log_invD(6) [OF li, of "r_next r"] none ge by (fastforce simp: delta_holds_def not_less)
  then have n: "unat (r_next r) = length (dss ?e)" using cur by (simp add: cursor_def Let_def)
  have e1: "?e + 1 \<noteq> 0" "?e + 1 \<le> lat"
    using word_Suc_unat [OF e] e cur by (auto simp: word_le_nat_alt word_less_nat_alt cursor_def Let_def)
  then obtain u2 where li2: "log_inv (view s1) ?p (?e + 1) (dss (?e + 1)) (Ls (?e + 1)) u2"
    using logs_holdD [OF logs, of "?e + 1"] v1(2) by auto
  obtain z s2 where z: "fetchEpochLog S c ?p (?e + 1) s1 = (z, s2)" by fastforce
  note zr = fetchEpochLog_reads [OF z v1(1) li2]
  show ?thesis
  proof (cases z)
    case (Inl err)
    then have "x = Inl err" "r' = r" "s' = s2" using run ex ge y e z by (auto simp: loadEpoch_def)
    then show ?thesis using next_stop [OF _ _ _ _ cur] zr Inl v1 by (auto simp: reads_def)
  next
    case (Inr q)
    let ?r = "r\<lparr>r_epoch := ?e + 1, r_logRoot := Ls (?e + 1), r_next := 0, r_idx := 0, batch := [], misses := 0\<rparr>"
    have "q = (Ls (?e + 1), u2)" using zr Inr by blast
    then have "Next S c N ?r s2 = (x, r', s')" using run ex ge y e z Inr by (simp add: loadEpoch_def)
    moreover have "reads s s2" using zr v1 by (simp add: reads_def)
    ultimately show ?thesis
      using next_loop_go [OF loop _ _ cursor_epoch [OF cur ex n e logs] t order_refl, of s2 x r' s'] by (simp add: at_edge_def)
  qed
qed

lemma Next_tip:
  assumes run: "Next S c (Suc N) r s = (x, r', s')"
    and t: "track_holds (view s) (r_path r) lat dss Ls" and cur: "cursor (view s) lat dss Ls r j"
    and ex: "\<not> r_idx r < length (batch r)" and ge: "\<not> r_next r < OpenFrom (r_logRoot r)"
    and y: "delta S c (r_path r) (r_epoch r) (r_next r) s = (Inl [ErrNotCommitted], s1)" and R: "reads s s1"
    and e: "\<not> r_epoch r < latest r"
  shows "reads s s' \<and> next_post (view s) lat dss Ls r j x r'"
proof -
  let ?r = "r\<lparr>misses := Suc (misses r)\<rparr>"
  have v1: "inv s1" "view s1 = view s" using R by (auto simp: reads_def)
  have edge: "at_edge r" by (rule edge_open [of "view s"]) (use cur ge in \<open>auto simp: cursor_def Let_def\<close>)
  obtain z r2 s2 where z: "Refresh S c ?r s1 = (z, r2, s2)" using prod_cases3 by blast
  have t1: "track_holds (view s1) (r_path ?r) lat dss Ls" and c1: "cursor (view s1) lat dss Ls ?r j"
    using t cur v1(2) by simp_all
  note zr = Refresh_cursor [OF z v1(1) t1 c1]
  show ?thesis
  proof (cases "misses ?r = 1 \<or> misses ?r mod rootRecheckEvery = 0")
    case True
    then have x: "(x, r', s') = (case z of Some e \<Rightarrow> (Inl e, r2, s2) | None \<Rightarrow> (Inl [EOF], r2, s2))"
      using run ex ge y e z by (cases z) (simp_all add: Let_def)
    show ?thesis
    proof (cases z)
      case None
      then have c: "cursor (view s) lat dss Ls r' j" "r_path r' = r_path r" "r_epoch r' = r_epoch r" "r_next r' = r_next r"
        "r_logRoot r' = Ls (r_epoch r)" "x = Inl [EOF]" "reads s s'" and "latest r' = lat"
        using x zr v1 by (auto simp: reads_def)
      moreover then have "cursor (view s) lat dss Ls (r'\<lparr>latest := latest r\<rparr>) j"
        using cursor_older [OF c(1), of "latest r"] cursor_epochs [OF cur] by simp
      ultimately show ?thesis using edge by (auto simp: next_post_def next_at_def at_edge_def)
    next
      case (Some err)
      then have "cursor (view s) lat dss Ls (r'\<lparr>latest := latest r\<rparr>) j" "r_path r' = r_path r" "r_epoch r' = r_epoch r"
        "r_next r' = r_next r" "r_logRoot r' = r_logRoot r" "x = Inl err" "foreign err" "reads s s'"
        using x zr v1 by (auto simp: reads_def)
      then show ?thesis using edge by (auto simp: next_post_def next_at_def at_edge_def foreignD)
    qed
  next
    case False
    then have "(x, r', s') = (Inl [EOF], ?r, s1)" using run ex ge y e by (simp add: Let_def)
    then show ?thesis using cur v1 by (auto simp: reads_def next_post_def next_at_def at_edge_def)
  qed
qed

lemma Next_reads: "next_loop c N lat dss Ls"
proof (induction N)
  case 0
  then show ?case by (auto simp: next_loop_def reads_def next_post_def next_at_def)
next
  case (Suc N)
  show ?case unfolding next_loop_def
  proof (intro allI impI)
    fix r s j x r' s'
    assume run: "Next S c (Suc N) r s = (x, r', s')" and i: "inv s" and t: "track_holds (view s) (r_path r) lat dss Ls"
      and cur: "cursor (view s) lat dss Ls r j"
    let ?e = "r_epoch r" and ?p = "r_path r"
    have e: "1 \<le> ?e" "?e \<le> lat" using cur by (auto simp: cursor_def Let_def)
    then obtain u where li: "log_inv (view s) ?p ?e (dss ?e) (Ls ?e) u" using logs_holdD t by (fastforce simp: track_holds_def)
    obtain y s1 where y: "delta S c ?p ?e (r_next r) s = (y, s1)" by fastforce
    note yr = delta_reads [OF y i li]
    then have R: "reads s s1" by (simp add: reads_def)
    show "reads s s' \<and> next_post (view s) lat dss Ls r j x r'"
    proof (cases "r_idx r < length (batch r)")
      case True
      then show ?thesis using run i cursor_take [OF cur True]
        by (auto simp: Let_def reads_def next_post_def next_at_def at_edge_def intro!: exI [of _ j])
    next
      case ex: False
      show ?thesis
      proof (cases "r_next r < OpenFrom (r_logRoot r)")
        case ge: False
        show ?thesis
        proof (cases y)
          case (Inr D)
          then show ?thesis using Next_delta [OF Suc run t cur ex ge log_inv_length [OF li] _ R, of D] y yr by auto
        next
          case (Inl err)
          show ?thesis
          proof (cases "errors_Is err ErrNotCommitted")
            case True
            then have "y = Inl [ErrNotCommitted]" "view s (deltaKey ?p ?e (r_next r)) = None" using yr Inl by auto
            then show ?thesis
              using Next_advance [OF Suc run t cur li ex ge _ R] Next_tip [OF run t cur ex ge _ R] y by blast
          next
            case False
            then have "x = Inl err" "r' = r" "s' = s1" using run ex ge y Inl by auto
            then show ?thesis using next_stop [OF _ _ _ R cur] yr Inl False by auto
          qed
        qed
      qed (use Next_sealed [OF Suc run i t cur li ex] in blast)
    qed
  qed
qed

end

section \<open>\<open>Next\<close> makes progress\<close>

declare Next.simps [simp del]

lemmas Next_Suc = Next.simps(2)

lemma cursor_before_end:
  assumes cur: "cursor v lat dss Ls r j" and "r_idx r < length (batch r) \<or> unat (r_next r) < length (dss (r_epoch r))"
    and ne: "\<forall>gs\<in>set (dss (r_epoch r)). gs \<noteq> []"
  shows "j < length (track_rows dss (latest r))"
proof -
  let ?ds = "dss (r_epoch r)"
  obtain k where k: "j = offset dss (r_epoch r) + k"
      "drop k (concat ?ds) = drop (r_idx r) (batch r) @ rows_between ?ds (unat (r_next r)) (length ?ds)"
    and e: "1 \<le> r_epoch r" "r_epoch r \<le> latest r"
    using cur by (auto simp: cursor_def Let_def)
  have "rows_between ?ds (unat (r_next r)) (length ?ds) \<noteq> []" if "unat (r_next r) < length ?ds"
    using rows_between_nonempty [OF that order_refl ne] .
  then have "drop k (concat ?ds) \<noteq> []" using k(2) assms(2) by auto
  then have "k < length (concat ?ds)" by simp
  then show ?thesis using track_rows_nth(1) [OF e, of k dss] k(1) by simp
qed

lemma cursor_at_end:
  assumes cur: "cursor v lat dss Ls r j" and "\<not> r_idx r < length (batch r)" and "unat (r_next r) = length (dss (r_epoch r))"
    and "r_epoch r = latest r"
  shows "j = length (track_rows dss (latest r))"
  using cursor_exhausted [OF cur assms(2)] assms(3,4) track_rows_snoc [of "latest r" dss] cursor_epochs [OF cur]
    rows_between_all [of "dss (latest r)"] by (simp add: offset_def)

context reliable_store
begin

lemma Next_batch:
  "r_idx r < length (batch r) \<Longrightarrow> \<exists>r'. Next S Live (Suc N) r s = (Inr (batch r ! r_idx r), r', s)"
  by (simp add: Next_Suc Let_def)

lemma Next_loads:
  assumes i: "inv s" and li: "log_inv (view s) (r_path r) (r_epoch r) (dss (r_epoch r)) (Ls (r_epoch r)) u"
    and cur: "cursor (view s) lat dss Ls r j" and L: "r_logRoot r = Ls (r_epoch r)"
    and ex: "\<not> r_idx r < length (batch r)" and n: "unat (r_next r) < length (dss (r_epoch r))"
  shows "\<exists>g r' s'. Next S Live (Suc (Suc N)) r s = (Inr g, r', s')"
proof (cases "r_next r < OpenFrom (r_logRoot r)")
  case True
  let ?ds = "dss (r_epoch r)"
  obtain ref where ref: "sealedCovering (r_logRoot r) (r_next r) = Some ref" "ref \<in> set (Sealed (r_logRoot r))"
    using runs_covering [OF log_invD(4) [OF li], of "r_next r"] True L by (auto simp: sealedCovering_def word_less_nat_alt)
  obtain M s1 where m: "sealed S Live (r_path r) (r_epoch r) ref s = (Inr M, s1)" "sm_Groups M = run_rows ?ds ref"
    using sealed_Live [OF i li log_inv_snapshot [OF li], of ref] ref(2) L by auto
  have "run_rows ?ds ref \<noteq> []" using run_rows_nonempty [OF log_invD(4) [OF li]] log_invD(10) [OF li] ref(2) L by auto
  moreover have "Next S Live (Suc (Suc N)) r s =
      Next S Live (Suc N) (r\<lparr>batch := sm_Groups M, r_idx := 0, r_next := LastDelta ref + 1, misses := 0\<rparr>) s1"
    using ex True ref(1) m(1) by (subst Next_Suc) simp
  ultimately show ?thesis
    using Next_batch [of "r\<lparr>batch := sm_Groups M, r_idx := 0, r_next := LastDelta ref + 1, misses := 0\<rparr>" N s1] m(2) by auto
next
  case False
  then have "OpenFrom (Ls (r_epoch r)) \<le> r_next r" using L by simp
  then obtain D s1 where "delta S Live (r_path r) (r_epoch r) (r_next r) s = (Inr D, s1)" "dm_Groups D = dss (r_epoch r) ! unat (r_next r)"
    using delta_Live [OF i li _ n] by blast
  moreover have "dss (r_epoch r) ! unat (r_next r) \<noteq> []" using log_invD(10) [OF li] n by simp
  moreover have "Next S Live (Suc (Suc N)) r s =
      Next S Live (Suc N) (r\<lparr>batch := dm_Groups D, r_idx := 0, r_next := r_next r + 1, misses := 0\<rparr>) s1"
    using ex False calculation(1) by (subst Next_Suc) simp
  ultimately show ?thesis
    using Next_batch [of "r\<lparr>batch := dm_Groups D, r_idx := 0, r_next := r_next r + 1, misses := 0\<rparr>" N s1] by auto
qed

lemma Next_tip_EOF:
  assumes i: "inv s" and t: "track_holds (view s) (r_path r) lat dss Ls" and cur: "cursor (view s) lat dss Ls r j"
    and L: "r_logRoot r = Ls (r_epoch r)" and ex: "\<not> r_idx r < length (batch r)"
    and n: "unat (r_next r) = length (dss (r_epoch r))" and e: "r_epoch r = latest r"
  shows "\<exists>r' s'. Next S Live (Suc N) r s = (Inl [EOF], r', s')"
proof -
  have logs: "logs_hold (view s) (r_path r) lat dss Ls" and lat: "1 \<le> r_epoch r" "r_epoch r \<le> lat"
    using t cursor_epochs [OF cur] by (auto simp: track_holds_def)
  then obtain u where li: "log_inv (view s) (r_path r) (r_epoch r) (dss (r_epoch r)) (Ls (r_epoch r)) u" using logs_holdD by blast
  have "\<not> r_next r < OpenFrom (r_logRoot r)" using log_invD(3) [OF li] n L by (simp add: word_less_nat_alt)
  moreover obtain s1 where d: "delta S Live (r_path r) (r_epoch r) (r_next r) s = (Inl [ErrNotCommitted], s1)" "inv s1" "view s1 = view s"
    using delta_absent_Live [OF i log_invD(7) [OF li, of "r_next r"]] n by auto
  moreover have "\<exists>r' s'. Refresh S Live (r\<lparr>misses := m\<rparr>) s1 = (None, r', s')" for m
  proof -
    obtain R ver where "root_at (view s1) (r_path r) R ver" using t d(3) by (auto simp: track_holds_def)
    then obtain s2 where f: "fetchTrackRoot S Live (r_path r) s1 = (Inr (R, ver), s2)" "inv s2" "view s2 = view s1"
      using fetchTrackRoot_Live [OF d(2)] by blast
    then obtain s3 where "fetchEpochLog S Live (r_path r) (r_epoch r) s2 = (Inr (Ls (r_epoch r), u), s3)"
      using fetchEpochLog_Live [OF f(2)] log_invD(1) [OF li] d(3) by fastforce
    then show ?thesis using f by (simp add: Refresh_def Let_def)
  qed
  moreover from this obtain r2 s2 where "Refresh S Live (r\<lparr>misses := Suc (misses r)\<rparr>) s1 = (None, r2, s2)" by blast
  ultimately show ?thesis using ex e by (simp add: Next_Suc Let_def)
qed

lemma Next_Live:
  assumes "inv s" and "track_holds (view s) (r_path r) lat dss Ls" and "cursor (view s) lat dss Ls r j"
    and "r_logRoot r = Ls (r_epoch r)" and "unat (latest r) - unat (r_epoch r) + 2 \<le> N"
  shows "if j < length (track_rows dss (latest r)) then \<exists>g r' s'. Next S Live N r s = (Inr g, r', s')
    else \<exists>r' s'. Next S Live N r s = (Inl [EOF], r', s')"
  using assms
proof (induction N arbitrary: r s)
  case (Suc N)
  note cur = Suc.prems(3)
  let ?e = "r_epoch r" and ?p = "r_path r" and ?ds = "dss (r_epoch r)"
  have logs: "logs_hold (view s) ?p lat dss Ls" and e: "1 \<le> ?e" "?e \<le> latest r" "latest r \<le> lat"
    using Suc.prems(2) cursor_epochs [OF cur] by (auto simp: track_holds_def)
  then obtain u where li: "log_inv (view s) ?p ?e ?ds (Ls ?e) u" using logs_holdD order_trans by blast
  obtain N' where N: "N = Suc N'" using Suc.prems(5) by (cases N) auto
  have ne: "\<forall>gs\<in>set ?ds. gs \<noteq> []" using log_invD(10) [OF li] .
  have nle: "unat (r_next r) \<le> length ?ds" using cur by (simp add: cursor_def Let_def)
  show ?case
  proof (cases "r_idx r < length (batch r) \<or> unat (r_next r) < length ?ds")
    case True
    then have "\<exists>g r' s'. Next S Live (Suc N) r s = (Inr g, r', s')"
      using Next_batch [of r N s] Next_loads [OF Suc.prems(1) li cur Suc.prems(4), of N'] N by blast
    then show ?thesis using cursor_before_end [OF cur True ne] by simp
  next
    case False
    then have ex: "\<not> r_idx r < length (batch r)" and n: "unat (r_next r) = length ?ds" using nle by auto
    show ?thesis
    proof (cases "?e = latest r")
      case True
      then show ?thesis using cursor_at_end [OF cur ex n True] Next_tip_EOF [OF Suc.prems(1,2) cur Suc.prems(4) ex n True, of N] by simp
    next
      case ne: False
      then have lt: "?e < latest r" using e(2) by simp
      have e1: "unat (?e + 1) = Suc (unat ?e)" using word_Suc_unat [OF lt] .
      let ?r = "r\<lparr>r_epoch := ?e + 1, r_logRoot := Ls (?e + 1), r_next := 0, r_idx := 0, batch := [], misses := 0\<rparr>"
      have ge: "\<not> r_next r < OpenFrom (r_logRoot r)" using log_invD(3) [OF li] n Suc.prems(4) by (simp add: word_less_nat_alt)
      obtain s1 where d: "delta S Live ?p ?e (r_next r) s = (Inl [ErrNotCommitted], s1)" "inv s1" "view s1 = view s"
        using delta_absent_Live [OF Suc.prems(1) log_invD(7) [OF li, of "r_next r"]] n by auto
      have "?e + 1 \<le> lat" "?e + 1 \<noteq> 0" using e1 lt e(3) by (auto simp: word_le_nat_alt word_less_nat_alt)
      then obtain u2 where "log_inv (view s1) ?p (?e + 1) (dss (?e + 1)) (Ls (?e + 1)) u2"
        using logs_holdD [OF logs, of "?e + 1"] d(3) by auto
      then obtain s2 where f: "fetchEpochLog S Live ?p (?e + 1) s1 = (Inr (Ls (?e + 1), u2), s2)" "inv s2" "view s2 = view s"
        using fetchEpochLog_Live [OF d(2) log_invD(1)] d(3) by metis
      have "Next S Live (Suc N) r s = Next S Live N ?r s2" using ex ge d(1) lt f(1) by (simp add: Next_Suc loadEpoch_def)
      moreover have "unat (latest r) - unat (?e + 1) + 2 \<le> N" using Suc.prems(5) e1 lt by (simp add: word_less_nat_alt)
      ultimately show ?thesis
        using Suc.IH [of s2 ?r] cursor_epoch [OF cur ex n lt logs] f Suc.prems(2) by simp
    qed
  qed
qed simp

end

end
