(* ===== verification/Reader_Queries.thy ===== *)
theory Reader_Queries
  imports Reader_Reads Writer_Frame
begin

text \<open>
  The bounded queries: the ranges by wallclock and media time, and the lookup of one group, against the
  rows the track holds.
\<close>

section \<open>A track with one group\<close>

text \<open>The row a demo append commits, and the world it leaves; then the same after a seal.\<close>

lemma demo_append:
  assumes "meta_ok m ''data''" and "validate_GroupInfo (m\<lparr>ID := NewGroupID 1 (Sequence (ID m))\<rparr>) = None"
  obtains g w W where "AppendGroup mem_store Live 1 m ''data'' demo_writer demo_log_world = ((g, None), w, W)"
    "mem_inv (objs W)" "synced (mem_view (objs W)) w [[g]]" "writer_ok w" "w_path w = ''cam''" "w_epoch w = 1" "\<not> stale w"
    "MediaTime g = MediaTime m" "Duration g = Duration m" "ID g = NewGroupID 1 (Sequence (ID m))"
    "written ''cam'' 1 (mem_view (objs demo_log_world)) (mem_view (objs W))"
proof -
  note d = demo_writer_inv
  obtain g w W where a: "AppendGroup mem_store Live 1 m ''data'' demo_writer demo_log_world = ((g, None), w, W)"
    using mem.AppendGroup_succeeds [OF d(1,2) _ assms(1) demo_meta_ok(2), of 1] assms(2) by (auto simp: d(4,5,6))
  have "mem.within ''cam'' 1 (mem_view (objs demo_log_world)) (objs demo_log_world)" using d(1) by (simp add: mem.within_def)
  then have f: "written ''cam'' 1 (mem_view (objs demo_log_world)) (mem_view (objs W))"
    using mem.AppendGroup_within [OF a, of "mem_view (objs demo_log_world)"] by (simp add: d(4,5) mem.within_def)
  from mem.AppendGroup_keeps [OF a d(1,2) assms(1) demo_meta_ok(2)]
  obtain wc where k: "mem_inv (objs W)" "same_writer demo_writer w" "writer_inv (mem_view (objs W)) w [[g]]" "\<not> stale w"
    "g = committed_row demo_writer m ''data'' wc" by auto
  show thesis
    by (rule that [OF a k(1)]) (use k f in \<open>auto simp: writer_inv_def same_writer_def d(4,5) committed_row_def Let_def\<close>)
qed

lemma demo_seal:
  assumes "mem_inv (objs W)" and sy: "synced (mem_view (objs W)) w [[g]]" and "writer_ok w" and "w_path w = ''cam''" and "w_epoch w = 1"
  obtains w' W' L ver where "Seal mem_store Live w W = (None, w', W')" "mem_inv (objs W')" "OpenFrom L = 1"
    "log_inv (mem_view (objs W')) ''cam'' 1 [[g]] L ver" "written ''cam'' 1 (mem_view (objs W)) (mem_view (objs W'))"
proof -
  obtain w' W' where s: "Seal mem_store Live w W = (None, w', W')" using mem.seal_succeeds [OF assms(1) sy] by (auto simp: Seal_def)
  then have k: "mem_inv (objs W')" "same_writer w w'" "synced (mem_view (objs W')) w' [[g]]" "openGroups w' = []"
    using mem.seal_keeps [OF _ assms(1,3) sy, of Live None w' W'] by (auto simp: Seal_def)
  have "mem.within ''cam'' 1 (mem_view (objs W)) (objs W)" using assms(1) by (simp add: mem.within_def)
  then have f: "written ''cam'' 1 (mem_view (objs W)) (mem_view (objs W'))"
    using mem.seal_within [of Live w W None w' W' "mem_view (objs W)"] s assms(4,5) by (simp add: Seal_def mem.within_def)
  have li: "log_inv (mem_view (objs W')) ''cam'' 1 [[g]] (logRoot w') (logVersion w')"
    using k assms(4,5) by (simp add: synced_def same_writer_def)
  have "unat (OpenFrom (logRoot w')) \<le> 1" using log_invD(3) [OF li] by simp
  moreover have "unat (OpenFrom (logRoot w')) \<noteq> 0"
    using k(3,4) by (cases "unat (OpenFrom (logRoot w'))") (auto simp: synced_def rows_between_def)
  ultimately have "OpenFrom (logRoot w') = 1" by (simp add: word_unat_eq_iff)
  then show thesis using that [OF s k(1) _ li f] by blast
qed

lemma log_inv_logs_hold: "log_inv v p 1 ds L ver \<Longrightarrow> logs_hold v p 1 (\<lambda>_. ds) (\<lambda>_. L)"
proof -
  assume li: "log_inv v p 1 ds L ver"
  have "e = 1" if "1 \<le> e" "e \<le> 1" for e :: u64 using that by (rule antisym [rotated])
  then show ?thesis using li unfolding logs_hold_def by metis
qed

lemma epochs_1 [simp]: "epochs 1 = [1]"
  by (simp add: epochs_def)

text \<open>A reader of the demo track.\<close>

definition demo_reader :: Reader where
  "demo_reader = \<lparr>r_path = ''cam'', r_schema = demo_schema, latest = 1, epoch1Log = zero_epochLogRoot, r_epoch = 1,
     r_logRoot = zero_epochLogRoot, r_next = 0, r_idx = 0, batch = [], misses = 0, r_last = GroupID 0\<rparr>"

section \<open>Ranges\<close>

context store_contract
begin

lemma walk_reads:
  assumes "walk S c N r incl s = (it, s')" and "inv s" and "logs_hold (view s) (r_path r) (latest r) dss Ls"
  shows "reads s s' \<and> iterates it (track_walk incl dss Ls (epochs (latest r)))"
  using walk_epochs_reads [of c N "r_path r" incl "epochs (latest r)" s it s' "latest r" dss Ls] assms by (simp add: walk_def)

end

context reliable_store
begin

lemma walk_ends:
  assumes "inv s" and "logs_hold (view s) (r_path r) (latest r) dss Ls" and "\<forall>e\<in>set (epochs (latest r)). length (dss e) < N"
  shows "\<exists>gs s'. walk S Live N r incl s = ((gs, None), s')"
  using walk_epochs_ends [OF assms(1,2) order_refl assms(3)] by (simp add: walk_def)

end

text \<open>A filtered walk, of the rows the pruning cannot lose.\<close>

lemma filtered_walk:
  assumes S: "store_contract S view I" and i: "I s" and logs: "logs_hold (view s) (r_path r) (latest r) dss Ls"
    and w: "walk S c N r incl s = (it, s')"
    and prune: "\<And>e ref. e \<in> set (epochs (latest r)) \<Longrightarrow> ref \<in> set (Sealed (Ls e)) \<Longrightarrow> \<not> incl ref \<Longrightarrow> filter P (run_rows (dss e) ref) = []"
  shows "view s' = view s \<and> iterates (filterGroups it P) (filter P (track_rows dss (latest r)))"
proof -
  note k = store_contract.walk_reads [OF S w i logs]
  have "filter P (track_walk incl dss Ls (epochs (latest r))) = filter P (track_rows dss (latest r))"
    unfolding track_rows_def by (rule track_walk_filter [OF logs order_refl prune])
  then show ?thesis
    using k filterGroups_iterates [of it "track_walk incl dss Ls (epochs (latest r))" P]
    by (simp add: store_contract.reads_def [OF S])
qed

text \<open>The runs a range by wallclock skips have no row in its window.\<close>

lemma wallclock_pruned:
  assumes li: "log_inv v p e ds L ver" and ref: "ref \<in> set (Sealed L)" "WallclockStart ref \<noteq> 0" "to \<le> WallclockStart ref"
  shows "filter (\<lambda>g. overlapsWallclock g frm to ts) (run_rows ds ref) = []"
proof -
  have r: "ref = run_ref p e (FirstDelta ref) (LastDelta ref) (run_rows ds ref)" using runs_ref [OF log_invD(4) [OF li] ref(1)] by blast
  have ne: "run_rows ds ref \<noteq> []" using run_rows_nonempty [OF log_invD(4) [OF li] ref(1) log_invD(10) [OF li]] .
  have "0 \<le> Wallclock g" if "g \<in> set (run_rows ds ref)" for g
  proof -
    have "g \<in> set (concat ds)" using that set_rows_between unfolding run_rows_def by blast
    then have "row_wf p e g" using log_invD(11) [OF li] by blast
    then show ?thesis using validate_GroupInfo_None [of g] by (simp add: row_wf_def row_ok_def)
  qed
  then have "WallclockStart ref \<le> Wallclock g" if "g \<in> set (run_rows ds ref)" "hasWallclock g" for g
    using run_ref_wallclock [OF ne _ that, of p e "FirstDelta ref" "LastDelta ref"] r by auto
  then show ?thesis
    using ref(3) by (fastforce simp: filter_empty_conv overlapsWallclock_def split: option.splits)
qed

text \<open>
  C27. \<open>RangeWallclock\<close> is exact: on any store that keeps the contract it yields, in commit order, a
  part of the rows whose wallclock extent meets the window, and all of them unless it ends with an
  error, which on a store that answers it does not; an empty window yields nothing. Skipping the
  sealed runs that start after the window loses nothing. The store is not changed.
\<close>

theorem range_wallclock_is_exact:
  assumes S: "store_contract S view I" and i: "I s" and logs: "logs_hold (view s) (r_path r) (latest r) dss Ls"
    and run: "RangeWallclock S c N r frm to s = ((gs, err), s')"
    and rows: "rows = filter (\<lambda>g. frm < to \<and> overlapsWallclock g frm to (Timescale (r_schema r))) (track_rows dss (latest r))"
  shows "view s' = view s \<and> prefix gs rows \<and> (err = None \<longrightarrow> gs = rows) \<and>
    (reliable_store S view I \<and> c = Live \<and> (\<forall>e\<in>set (epochs (latest r)). length (dss e) < N) \<longrightarrow> err = None)"
proof (cases "frm < to")
  case False
  then show ?thesis using run rows by (auto simp: RangeWallclock_def emptyGroups_def)
next
  case True
  let ?incl = "\<lambda>ref. WallclockStart ref = 0 \<or> WallclockStart ref < to"
  let ?P = "\<lambda>g. overlapsWallclock g frm to (Timescale (r_schema r))"
  obtain it s1 where w: "walk S c N r ?incl s = (it, s1)" by fastforce
  have x: "filterGroups it ?P = (gs, err)" "s' = s1" using run w True by (auto simp: RangeWallclock_def)
  have "view s1 = view s \<and> iterates (filterGroups it ?P) (filter ?P (track_rows dss (latest r)))"
  proof (rule filtered_walk [OF S i logs w])
    fix e ref assume e: "e \<in> set (epochs (latest r))" and ref: "ref \<in> set (Sealed (Ls e))" "\<not> ?incl ref"
    obtain ver where "log_inv (view s) (r_path r) e (dss e) (Ls e) ver" using logs_holdD [OF logs, of e] e by (auto simp: set_epochs)
    then show "filter ?P (run_rows (dss e) ref) = []" using wallclock_pruned ref by fastforce
  qed
  moreover have "err = None" if rel: "reliable_store S view I" and live: "c = Live"
    and fuel: "\<forall>e\<in>set (epochs (latest r)). length (dss e) < N"
  proof -
    obtain xs s2 where "walk S Live N r ?incl s = ((xs, None), s2)"
      using reliable_store.walk_ends [OF rel i logs fuel, of ?incl] by blast
    then show ?thesis using w x live by (auto simp: filterGroups_def)
  qed
  ultimately show ?thesis using x rows True by (auto simp: iterates_def)
qed

theorem range_wallclock_is_exact_witness:
  "\<exists>g w W s'. AppendGroup mem_store Live 1 demo_meta ''data'' demo_writer demo_log_world = ((g, None), w, W) \<and>
    RangeWallclock mem_store Live 2 demo_reader 1 9 (objs W) =
      ((filter (\<lambda>h. overlapsWallclock h 1 9 (Timescale demo_schema)) [g], None), s')"
proof -
  obtain g w W where a: "AppendGroup mem_store Live 1 demo_meta ''data'' demo_writer demo_log_world = ((g, None), w, W)"
      "mem_inv (objs W)" "synced (mem_view (objs W)) w [[g]]" "w_path w = ''cam''" "w_epoch w = 1"
    using demo_append [OF demo_meta_ok(1) demo_meta_valid] by metis
  have "log_inv (mem_view (objs W)) ''cam'' 1 [[g]] (logRoot w) (logVersion w)" using a by (simp add: synced_def)
  from log_inv_logs_hold [OF this]
  have logs: "logs_hold (mem_view (objs W)) (r_path demo_reader) (latest demo_reader) (\<lambda>_. [[g]]) (\<lambda>_. logRoot w)"
    by (simp add: demo_reader_def)
  obtain gs err s2 where r: "RangeWallclock mem_store Live 2 demo_reader 1 9 (objs W) = ((gs, err), s2)"
    by (metis surj_pair)
  have rows: "track_rows (\<lambda>_. [[g]]) (latest demo_reader) = [g]" "\<forall>e\<in>set (epochs (latest demo_reader)). length [[g]] < 2"
    by (simp_all add: track_rows_def demo_reader_def)
  show ?thesis
    using range_wallclock_is_exact [OF mem.store_contract_axioms a(2) logs r refl] rows mem.reliable_store_axioms a(1) r
    by (simp add: demo_reader_def)
qed

section \<open>Ranges by media time\<close>

lemma serial_rows_between: "serial (concat ds) \<Longrightarrow> serial (rows_between ds a b)"
proof -
  have "concat ds = concat (take a ds) @ rows_between ds a b @ concat (drop (b - a) (drop a ds))"
    unfolding rows_between_def by (metis append_take_drop_id concat_append)
  then show "serial (concat ds) \<Longrightarrow> serial (rows_between ds a b)" by (simp add: serial_def sorted_wrt_append)
qed

lemma serial_bounds:
  assumes "serial gs" and "\<forall>g\<in>set gs. MediaTime g \<le> mediaEnd g" and "g \<in> set gs"
  shows "MediaTime (hd gs) \<le> MediaTime g" and "mediaEnd g \<le> mediaEnd (last gs)"
proof -
  show "MediaTime (hd gs) \<le> MediaTime g"
    using assms by (cases gs) (auto simp: serial_def intro: order_trans)
  have "g = last gs \<or> mediaEnd g \<le> MediaTime (last gs)"
  proof (cases gs rule: rev_cases)
    case (snoc xs x)
    then show ?thesis using assms(1,3) by (auto simp: serial_def sorted_wrt_append)
  qed (use assms(3) in simp)
  then show "mediaEnd g \<le> mediaEnd (last gs)"
    using assms(2,3) by (metis last_in_set length_greater_0_conv length_pos_if_in_set order_trans order_refl)
qed

lemma run_media:
  assumes li: "log_inv v p e ds L ver" and ref: "ref \<in> set (Sealed L)" and g: "g \<in> set (run_rows ds ref)"
  shows "MediaStart ref \<le> MediaTime g" and "mediaEnd g \<le> MediaEnd ref" and "MediaTime g \<le> mediaEnd g" and "g \<in> set (concat ds)"
proof -
  have r: "ref = run_ref p e (FirstDelta ref) (LastDelta ref) (run_rows ds ref)" using runs_ref [OF log_invD(4) [OF li] ref] by blast
  have ne: "run_rows ds ref \<noteq> []" using g by auto
  have sub: "set (run_rows ds ref) \<subseteq> set (concat ds)" unfolding run_rows_def by (rule set_rows_between)
  then have wf: "\<forall>h\<in>set (run_rows ds ref). MediaTime h \<le> mediaEnd h" using log_invD(11) [OF li] row_wf_media by blast
  have s: "serial (run_rows ds ref)" unfolding run_rows_def by (rule serial_rows_between [OF log_invD(12) [OF li]])
  note b = serial_bounds [OF s wf g] and m = run_ref_rows [OF ne, of p e "FirstDelta ref" "LastDelta ref"]
  show "MediaStart ref \<le> MediaTime g" "mediaEnd g \<le> MediaEnd ref" using b m(3,4) r by simp_all
  show "MediaTime g \<le> mediaEnd g" "g \<in> set (concat ds)" using wf sub g by auto
qed

lemma subseq_runs: "subseq (concat (map f (filter incl rs))) (concat (map f rs))"
  by (induction rs) (auto intro: list_emb_append_mono subseq_append_le_same_iff)

lemma track_walk_subseq:
  assumes "logs_hold v p lat dss Ls" and "set es \<subseteq> set (epochs lat)"
  shows "subseq (track_walk incl dss Ls es) (concat (map (\<lambda>e. concat (dss e)) es))"
  using assms(2)
proof (induction es)
  case (Cons e es)
  obtain ver where li: "log_inv v p e (dss e) (Ls e) ver" using assms(1) Cons.prems logs_holdD by (fastforce simp: set_epochs)
  have "subseq (epoch_walk incl (dss e) (Ls e)) (concat (dss e))"
    unfolding epoch_walk_def epoch_rows_split [OF li] by (rule list_emb_append_mono [OF subseq_runs subseq_order.refl])
  then show ?case using Cons list_emb_append_mono by (simp add: track_walk_def)
qed (simp add: track_walk_def)

lemma media_pruned:
  assumes "log_inv v p e ds L ver" and "ref \<in> set (Sealed L)" and "\<not> (MediaStart ref < to \<and> MediaEnd ref > frm)"
  shows "filter (\<lambda>g. overlapsMedia g frm to \<and> frm < mediaEnd g) (run_rows ds ref) = []"
proof -
  have "\<not> (overlapsMedia g frm to \<and> frm < mediaEnd g)" if "g \<in> set (run_rows ds ref)" for g
    using run_media(1,2) [OF assms(1,2) that] assms(3) by (auto simp: overlapsMedia_def split: if_splits)
  then show ?thesis by (simp add: filter_empty_conv)
qed

lemma RangeMedia_walk:
  assumes S: "store_contract S view I" and i: "I s" and logs: "logs_hold (view s) (r_path r) (latest r) dss Ls"
    and run: "RangeMedia S c N r frm to s = ((gs, err), s')" and win: "frm < to"
  shows "view s' = view s" and "err = None \<Longrightarrow> gs = filter (\<lambda>g. overlapsMedia g frm to)
      (track_walk (\<lambda>ref. MediaStart ref < to \<and> MediaEnd ref > frm) dss Ls (epochs (latest r)))"
    and "reliable_store S view I \<Longrightarrow> c = Live \<Longrightarrow> \<forall>e\<in>set (epochs (latest r)). length (dss e) < N \<Longrightarrow> err = None"
proof -
  let ?incl = "\<lambda>ref. MediaStart ref < to \<and> MediaEnd ref > frm" and ?P = "\<lambda>g. overlapsMedia g frm to"
  obtain xs e s1 where w: "walk S c N r ?incl s = ((xs, e), s1)" by (metis surj_pair)
  then have x: "gs = filter ?P xs" "err = e" "s' = s1" using run win by (auto simp: RangeMedia_def filterGroups_def)
  show "view s' = view s" and "err = None \<Longrightarrow> gs = filter ?P (track_walk ?incl dss Ls (epochs (latest r)))"
    using store_contract.walk_reads [OF S w i logs] x by (auto simp: iterates_def store_contract.reads_def [OF S])
  show "err = None" if rel: "reliable_store S view I" and live: "c = Live" and fuel: "\<forall>e\<in>set (epochs (latest r)). length (dss e) < N"
    using reliable_store.walk_ends [OF rel i logs fuel, of ?incl] w x live by auto
qed

text \<open>
  C29. \<open>RangeMedia\<close> finds every group that reaches into the window: unless it ends with an error, which
  on a store that answers it does not, it yields rows that meet the window, in commit order and each
  at most as often as it is committed, and among them every row that ends after the window's start. A
  row it can miss is a point exactly at the start. The store is not changed.
\<close>

theorem range_media_finds_overlapping:
  assumes S: "store_contract S view I" and i: "I s" and logs: "logs_hold (view s) (r_path r) (latest r) dss Ls"
    and run: "RangeMedia S c N r frm to s = ((gs, err), s')" and win: "frm < to"
    and rows: "rows = filter (\<lambda>g. overlapsMedia g frm to) (track_rows dss (latest r))"
  shows "view s' = view s \<and>
    (err = None \<longrightarrow> subseq gs rows \<and> filter (\<lambda>g. frm < mediaEnd g) gs = filter (\<lambda>g. frm < mediaEnd g) rows) \<and>
    (reliable_store S view I \<and> c = Live \<and> (\<forall>e\<in>set (epochs (latest r)). length (dss e) < N) \<longrightarrow> err = None)"
proof -
  let ?incl = "\<lambda>ref. MediaStart ref < to \<and> MediaEnd ref > frm" and ?P = "\<lambda>g. overlapsMedia g frm to"
  let ?Q = "\<lambda>g. overlapsMedia g frm to \<and> frm < mediaEnd g" and ?xs = "track_walk ?incl dss Ls (epochs (latest r))"
  note w = RangeMedia_walk [OF S i logs run win]
  have "subseq ?xs (track_rows dss (latest r))" using track_walk_subseq [OF logs order_refl] by (simp add: track_rows_def)
  then have sub: "err = None \<Longrightarrow> subseq gs rows" using w(2) rows by (simp add: subseq_filter)
  have "filter ?Q ?xs = filter ?Q (track_rows dss (latest r))"
    unfolding track_rows_def
  proof (rule track_walk_filter [OF logs order_refl])
    fix e ref assume e: "e \<in> set (epochs (latest r))" and ref: "ref \<in> set (Sealed (Ls e))" "\<not> ?incl ref"
    obtain ver where "log_inv (view s) (r_path r) e (dss e) (Ls e) ver"
      using logs_holdD [OF logs, of e] e by (auto simp: set_epochs)
    then show "filter ?Q (run_rows (dss e) ref) = []" using media_pruned ref by blast
  qed
  then show ?thesis using sub w rows by (auto simp: conj_commute)
qed

theorem range_media_finds_overlapping_witness:
  "\<exists>g w W s'. AppendGroup mem_store Live 1 demo_meta ''data'' demo_writer demo_log_world = ((g, None), w, W) \<and>
    RangeMedia mem_store Live 2 demo_reader 500 2000 (objs W) = (([g], None), s')"
proof -
  obtain g w W where a: "AppendGroup mem_store Live 1 demo_meta ''data'' demo_writer demo_log_world = ((g, None), w, W)"
      "mem_inv (objs W)" "synced (mem_view (objs W)) w [[g]]" "w_path w = ''cam''" "w_epoch w = 1"
      "MediaTime g = MediaTime demo_meta" "Duration g = Duration demo_meta"
    using demo_append [OF demo_meta_ok(1) demo_meta_valid] by metis
  have "log_inv (mem_view (objs W)) ''cam'' 1 [[g]] (logRoot w) (logVersion w)" using a by (simp add: synced_def)
  from log_inv_logs_hold [OF this]
  have logs: "logs_hold (mem_view (objs W)) (r_path demo_reader) (latest demo_reader) (\<lambda>_. [[g]]) (\<lambda>_. logRoot w)"
    by (simp add: demo_reader_def)
  obtain gs err s2 where r: "RangeMedia mem_store Live 2 demo_reader 500 2000 (objs W) = ((gs, err), s2)"
    by (metis surj_pair)
  have rows: "track_rows (\<lambda>_. [[g]]) (latest demo_reader) = [g]" "\<forall>e\<in>set (epochs (latest demo_reader)). length [[g]] < 2"
    by (simp_all add: track_rows_def demo_reader_def)
  have m: "mediaEnd g = 1000" "overlapsMedia g 500 2000"
    using a(6,7) by (simp_all add: mediaEnd_def overlapsMedia_def hasDuration_def demo_meta_def zero_GroupInfo_def i64_def)
  have "err = None" "subseq gs [g]" "filter (\<lambda>g. 500 < mediaEnd g) gs = [g]"
    using range_media_finds_overlapping [OF mem.store_contract_axioms a(2) logs r _ refl] rows mem.reliable_store_axioms m by auto
  moreover then have "gs = [g]" by (cases gs) (auto simp: subseq_Cons' split: if_splits)
  ultimately show ?thesis using a(1) r by auto
qed

text \<open>
  The pruning of sealed runs drops a point group at the window's start: when all rows of a
  one-epoch track are sealed and the last is a point exactly at \<open>from\<close>, \<open>RangeMedia\<close> yields nothing,
  though the point lies in the half-open window and is yielded while its delta is open.
\<close>

theorem range_media_drops_sealed_point:
  assumes S: "reliable_store S view I" and i: "I s" and logs: "logs_hold (view s) (r_path r) (latest r) dss Ls"
    and one: "latest r = 1" "length (dss 1) < N" and all: "unat (OpenFrom (Ls 1)) = length (dss 1)" and ne: "dss 1 \<noteq> []"
    and g: "g = last (concat (dss 1))" "MediaTime g = frm" "Duration g = 0" and win: "frm < to"
  shows "g \<in> set (track_rows dss (latest r)) \<and> overlapsMedia g frm to \<and> (\<exists>s'. RangeMedia S Live N r frm to s = (([], None), s'))"
proof -
  note C = reliable_store.axioms(1) [OF S]
  obtain ver where li: "log_inv (view s) (r_path r) 1 (dss 1) (Ls 1) ver" using logs_holdD [OF logs, of 1] one by auto
  have cne: "concat (dss 1) \<noteq> []" using log_invD(10) [OF li] ne by (cases "dss 1") auto
  then have gin: "g \<in> set (concat (dss 1))" using g(1) last_in_set by blast
  then have fin: "mediaEnd g = frm" using log_invD(11) [OF li] g(2,3) mediaEnd_valid(1) by (auto simp: row_wf_def row_ok_def)
  have "MediaEnd ref \<le> frm" if ref: "ref \<in> set (Sealed (Ls 1))" for ref
  proof -
    have rne: "run_rows (dss 1) ref \<noteq> []" using run_rows_nonempty [OF log_invD(4) [OF li] ref log_invD(10) [OF li]] .
    have "ref = run_ref (r_path r) 1 (FirstDelta ref) (LastDelta ref) (run_rows (dss 1) ref)"
      using runs_ref [OF log_invD(4) [OF li] ref] by blast
    then have e: "MediaEnd ref = mediaEnd (last (run_rows (dss 1) ref))" using run_ref_rows(4) [OF rne] by metis
    have "last (run_rows (dss 1) ref) \<in> set (concat (dss 1))" using run_media(4) [OF li ref] rne by simp
    then show ?thesis
      using serial_bounds(2) [OF log_invD(12) [OF li]] log_invD(11) [OF li] row_wf_media e fin g(1) by metis
  qed
  then have "filter (\<lambda>ref. MediaStart ref < to \<and> MediaEnd ref > frm) (Sealed (Ls 1)) = []" by (fastforce simp: filter_empty_conv)
  then have "track_walk (\<lambda>ref. MediaStart ref < to \<and> MediaEnd ref > frm) dss Ls (epochs (latest r)) = []"
    using one(1) all by (simp add: track_walk_def epoch_walk_def)
  moreover obtain gs err s' where run: "RangeMedia S Live N r frm to s = ((gs, err), s')" by (metis surj_pair)
  ultimately have "gs = []" "err = None" using RangeMedia_walk [OF C i logs run win] S one by auto
  then show ?thesis using run gin one(1) g(2,3) win by (simp add: track_rows_def overlapsMedia_def hasDuration_def)
qed

definition point_meta :: GroupInfo where
  "point_meta = zero_GroupInfo\<lparr>ID := NewGroupID 1 4\<rparr>"

theorem range_media_drops_sealed_point_witness:
  "\<exists>g w W w' W' s'. AppendGroup mem_store Live 1 point_meta ''data'' demo_writer demo_log_world = ((g, None), w, W) \<and>
    Seal mem_store Live w W = (None, w', W') \<and> overlapsMedia g 0 10 \<and>
    RangeMedia mem_store Live 2 demo_reader 0 10 (objs W') = (([], None), s')"
proof -
  have m: "meta_ok point_meta ''data''" "validate_GroupInfo (point_meta\<lparr>ID := NewGroupID 1 (Sequence (ID point_meta))\<rparr>) = None"
    using demo_meta_ok(1) demo_meta_valid
    by (auto simp: meta_ok_def demo_meta_def point_meta_def zero_GroupInfo_def typed_GroupInfo_def validate_GroupInfo_def
        i64_bounds split: if_splits)
  obtain g w W where a: "AppendGroup mem_store Live 1 point_meta ''data'' demo_writer demo_log_world = ((g, None), w, W)"
      "mem_inv (objs W)" "synced (mem_view (objs W)) w [[g]]" "writer_ok w" "w_path w = ''cam''" "w_epoch w = 1"
      "MediaTime g = MediaTime point_meta" "Duration g = Duration point_meta"
    using demo_append [OF m] by metis
  obtain w' W' L ver where s: "Seal mem_store Live w W = (None, w', W')" "mem_inv (objs W')" "OpenFrom L = 1"
      "log_inv (mem_view (objs W')) ''cam'' 1 [[g]] L ver"
    using demo_seal [OF a(2-6)] by metis
  from log_inv_logs_hold [OF s(4)]
  have logs: "logs_hold (mem_view (objs W')) (r_path demo_reader) (latest demo_reader) (\<lambda>_. [[g]]) (\<lambda>_. L)"
    by (simp add: demo_reader_def)
  have t: "MediaTime g = 0" "Duration g = 0" using a(7,8) by (simp_all add: point_meta_def zero_GroupInfo_def)
  have "overlapsMedia g 0 10 \<and> (\<exists>s'. RangeMedia mem_store Live 2 demo_reader 0 10 (objs W') = (([], None), s'))"
    using range_media_drops_sealed_point [OF mem.reliable_store_axioms s(2) logs, of 2 g 0 10] s(3) t by (simp add: demo_reader_def)
  then show ?thesis using a(1) s(1) by blast
qed

section \<open>Looking up one group\<close>

context reliable_store
begin

lemma lookup_open_ends:
  assumes "inv s" and "log_inv (view s) p e ds L ver" and "OpenFrom L \<le> n" and "unat n \<le> length ds" and "length ds - unat n < N"
  shows "\<exists>y s'. lookup_open S Live N p e i n s = (Inr y, s')"
  using assms
proof (induction N arbitrary: n s)
  case (Suc N)
  show ?case
  proof (cases "unat n < length ds")
    case True
    obtain D s1 where d: "delta S Live p e n s = (Inr D, s1)" "inv s1" "view s1 = view s"
      using delta_Live [OF Suc.prems(1-3) True] by auto
    have n1: "unat (n + 1) = Suc (unat n)" using word_next True log_inv_length [OF Suc.prems(2)] by blast
    then have o: "OpenFrom L \<le> n + 1" using Suc.prems(3) by (simp add: word_le_nat_alt)
    have "length ds - unat (n + 1) < N" using Suc.prems(5) n1 True by simp
    then obtain y s' where "lookup_open S Live N p e i (n + 1) s1 = (Inr y, s')"
      using Suc.IH [of s1 "n + 1"] Suc.prems(2) d(2,3) o n1 True by auto
    then show ?thesis using d(1) by (auto split: option.splits)
  next
    case False
    then show ?thesis using delta_absent_Live [OF Suc.prems(1) log_invD(7) [OF Suc.prems(2)], of n] by auto
  qed
qed simp

lemma lookup_sealed_ends:
  assumes "inv s" and "log_inv (view s) p e ds L ver" and "set refs \<subseteq> set (Sealed L)"
  shows "\<exists>y s'. lookup_sealed S Live p e i refs s = (Inr y, s')"
  using assms
proof (induction refs arbitrary: s)
  case (Cons ref refs)
  obtain M s1 where m: "sealed S Live p e ref s = (Inr M, s1)" "inv s1" "view s1 = view s"
    using sealed_Live [OF Cons.prems(1,2) log_inv_snapshot [OF Cons.prems(2)], of ref] Cons.prems(3) by auto
  obtain y s' where "lookup_sealed S Live p e i refs s1 = (Inr y, s')" using Cons m by fastforce
  then show ?case using m(1) by (auto split: option.splits)
qed simp

lemma Lookup_ends:
  assumes i: "inv s" and logs: "logs_hold (view s) (r_path r) (latest r) dss Ls" and fuel: "length (dss (Epoch i)) < N"
  shows "\<exists>s'. (\<exists>g. Lookup S Live N r i s = (Inr g, s')) \<or> Lookup S Live N r i s = (Inl [ErrGroupNotFound], s')"
proof (cases "Epoch i = 0 \<or> Epoch i > latest r")
  case False
  then have e: "1 \<le> Epoch i" "Epoch i \<le> latest r" by (auto simp: word_le_nat_alt Suc_le_eq unat_gt_0 not_less)
  let ?e = "Epoch i" and ?p = "r_path r"
  obtain ver where li: "log_inv (view s) ?p ?e (dss ?e) (Ls ?e) ver" using logs_holdD [OF logs e] by blast
  obtain s1 where f: "fetchEpochLog S Live ?p ?e s = (Inr (Ls ?e, ver), s1)" "inv s1" "view s1 = view s"
    using fetchEpochLog_Live [OF i log_invD(1) [OF li]] by blast
  have li1: "log_inv (view s1) ?p ?e (dss ?e) (Ls ?e) ver" using li f(3) by simp
  obtain y s2 where o: "lookup_open S Live N ?p ?e i (OpenFrom (Ls ?e)) s1 = (Inr y, s2)"
    using lookup_open_ends [OF f(2) li1 order_refl log_invD(3) [OF li]] fuel by fastforce
  have "reads s1 s2" using lookup_open_reads [OF o f(2) li1 order_refl log_invD(3) [OF li]] by simp
  then obtain z s3 where "lookup_sealed S Live ?p ?e i (Sealed (Ls ?e)) s2 = (Inr z, s3)"
    using lookup_sealed_ends [of s2 ?p ?e "dss ?e" "Ls ?e" ver "Sealed (Ls ?e)" i] li1 by (auto simp: reads_def)
  then show ?thesis using False f(1) o by (auto simp: Lookup_def Let_def split: option.splits)
qed (simp add: Lookup_def)

end

text \<open>
  C30. \<open>Lookup\<close> decides membership: on any store a group it returns is a committed row with the
  identity asked for, and \<open>ErrGroupNotFound\<close> means the track's epochs hold none; on a store that
  answers, with fuel above the epoch's number of deltas, it gives one of the two answers.
\<close>

theorem lookup_finds_exactly_the_committed:
  assumes S: "store_contract S view I" and i: "I s" and logs: "logs_hold (view s) (r_path r) (latest r) dss Ls"
    and run: "Lookup S c N r k s = (x, s')"
  shows "view s' = view s \<and>
    (\<forall>g. x = Inr g \<longrightarrow> g \<in> set (track_rows dss (latest r)) \<and> ID g = k) \<and>
    (\<forall>err. x = Inl err \<and> errors_Is err ErrGroupNotFound \<longrightarrow> (\<forall>g\<in>set (track_rows dss (latest r)). ID g \<noteq> k)) \<and>
    (reliable_store S view I \<and> c = Live \<and> length (dss (Epoch k)) < N \<longrightarrow> (\<exists>g. x = Inr g) \<or> x = Inl [ErrGroupNotFound])"
proof -
  note l = store_contract.Lookup_reads [OF S run i logs]
  have ep: "1 \<le> Epoch (ID g) \<and> Epoch (ID g) \<le> latest r \<and> g \<in> set (concat (dss (Epoch (ID g))))"
    if g: "g \<in> set (track_rows dss (latest r))" for g
  proof -
    obtain e where e: "1 \<le> e" "e \<le> latest r" "g \<in> set (concat (dss e))" using g by (auto simp: track_rows_def set_epochs)
    then obtain ver where "log_inv (view s) (r_path r) e (dss e) (Ls e) ver" using logs_holdD [OF logs] by blast
    then have "Epoch (ID g) = e" using log_invD(11) e(3) by (fastforce simp: row_wf_def)
    then show ?thesis using e by simp
  qed
  have "\<forall>g\<in>set (track_rows dss (latest r)). ID g \<noteq> k" if "x = Inl err" "errors_Is err ErrGroupNotFound" for err
    using l ep that by blast
  moreover have "(\<exists>g. x = Inr g) \<or> x = Inl [ErrGroupNotFound]" if "reliable_store S view I" "c = Live" "length (dss (Epoch k)) < N"
    using reliable_store.Lookup_ends [OF that(1) i logs that(3)] run that(2) by auto
  ultimately show ?thesis using l by (auto simp: store_contract.reads_def [OF S])
qed

theorem lookup_finds_exactly_the_committed_witness:
  "\<exists>g w W s1 s2. AppendGroup mem_store Live 1 demo_meta ''data'' demo_writer demo_log_world = ((g, None), w, W) \<and>
    Lookup mem_store Live 2 demo_reader (ID g) (objs W) = (Inr g, s1) \<and>
    Lookup mem_store Live 2 demo_reader (GroupID 0) (objs W) = (Inl [ErrGroupNotFound], s2)"
proof -
  obtain g w W where a: "AppendGroup mem_store Live 1 demo_meta ''data'' demo_writer demo_log_world = ((g, None), w, W)"
      "mem_inv (objs W)" "synced (mem_view (objs W)) w [[g]]" "w_path w = ''cam''" "w_epoch w = 1"
    using demo_append [OF demo_meta_ok(1) demo_meta_valid] by metis
  have "log_inv (mem_view (objs W)) ''cam'' 1 [[g]] (logRoot w) (logVersion w)" using a by (simp add: synced_def)
  from log_inv_logs_hold [OF this]
  have logs: "logs_hold (mem_view (objs W)) (r_path demo_reader) (latest demo_reader) (\<lambda>_. [[g]]) (\<lambda>_. logRoot w)"
    by (simp add: demo_reader_def)
  have rows: "track_rows (\<lambda>_. [[g]]) (latest demo_reader) = [g]" by (simp add: track_rows_def demo_reader_def)
  obtain x s1 where r: "Lookup mem_store Live 2 demo_reader (ID g) (objs W) = (x, s1)" by fastforce
  have "\<exists>h. x = Inr h \<and> h = g"
    using lookup_finds_exactly_the_committed [OF mem.store_contract_axioms a(2) logs r] rows mem.reliable_store_axioms by auto
  moreover have "Lookup mem_store Live 2 demo_reader (GroupID 0) (objs W) = (Inl [ErrGroupNotFound], objs W)"
    by (simp add: Lookup_def Epoch_def)
  ultimately show ?thesis using a(1) r by auto
qed

end
