(* ===== verification/Sample_Track.thy ===== *)
theory Sample_Track
  imports Reader_Cursor Reader_Queries
begin

text \<open>
  A concrete track for the witnesses: one epoch with two groups, once with both deltas open and once
  sealed into one run.
\<close>

definition sample_row :: "nat \<Rightarrow> GroupInfo" where
  "sample_row n = zero_GroupInfo\<lparr>ID := NewGroupID 1 (of_nat n), MediaTime := 1000 * int n, Duration := 1000,
     ObjectKey := groupKey ''cam'' (NewGroupID 1 (of_nat n)), Size := 4\<rparr>"

definition sample_log :: epochLogRoot where
  "sample_log = new_log ''cam'' 1 7"

definition sealed_log :: epochLogRoot where
  "sealed_log = sample_log\<lparr>Sealed := [run_ref ''cam'' 1 0 1 [sample_row 0, sample_row 1]], OpenFrom := 2\<rparr>"

lemma mem_put: "mem_inv s \<Longrightarrow> \<exists>s'. mem_inv s' \<and> mem_view s' = (mem_view s)(k \<mapsto> (d, ''1''))"
proof -
  let ?s = "s\<lparr>nextVersion := 0, objects := Mapping.update k \<lparr>data = d, obj_version = ''1''\<rparr> (objects s)\<rparr>"
  assume "mem_inv s"
  then have "mem_inv ?s" by (rule mem_inv_update) (simp add: NoVersion_def)
  moreover have "mem_view ?s = (mem_view s)(k \<mapsto> (d, ''1''))" by simp
  ultimately show ?thesis by blast
qed

lemma sample_row_fields [simp]:
  "ID (sample_row n) = NewGroupID 1 (of_nat n)" "MediaTime (sample_row n) = 1000 * int n" "Duration (sample_row n) = 1000"
  "ObjectKey (sample_row n) = groupKey ''cam'' (NewGroupID 1 (of_nat n))" "Size (sample_row n) = 4" "Wallclock (sample_row n) = 0"
  by (simp_all add: sample_row_def zero_GroupInfo_def)

lemma sample_epoch [simp]: "Epoch (NewGroupID 1 x) = 1"
  by (rule Epoch_New) (simp add: le_maxGroupEpoch)

lemma sample_row_wf: "n < 2 \<Longrightarrow> row_wf ''cam'' 1 (sample_row n)"
  using validate_GroupInfo_None [of "sample_row n"]
  by (simp add: row_wf_def row_ok_def typed_GroupInfo_def i64_bounds, simp add: sample_row_def zero_GroupInfo_def)

lemma sample_rows_distinct [simp]: "NewGroupID 1 1 \<noteq> NewGroupID 1 0"
proof -
  have "Sequence (NewGroupID 1 1) = 1" "Sequence (NewGroupID 1 0) = 0" by (simp_all add: Sequence_NewGroupID)
  then show ?thesis by (metis zero_neq_one)
qed

definition sample_delta :: "nat \<Rightarrow> deltaManifest" where
  "sample_delta n = \<lparr>dm_Version = manifestVersion, dm_Seq = of_nat n, dm_Groups = [sample_row n], CommittedAt = 7\<rparr>"

definition sample_sealed :: sealedManifest where
  "sample_sealed = \<lparr>sm_Version = manifestVersion, sm_Track = ''cam'', sm_Epoch = 1, sm_Seq = 1, sm_FirstDelta = 0, sm_LastDelta = 1,
     sm_Groups = [sample_row 0, sample_row 1], SealedAt = 7\<rparr>"

definition open_view :: view where
  "open_view = (mem_view (objs demo_world))(epochLogKey ''cam'' 1 \<mapsto> (encode_logRoot sample_log, ''1''),
     groupKey ''cam'' (NewGroupID 1 0) \<mapsto> (''data'', ''1''), groupKey ''cam'' (NewGroupID 1 1) \<mapsto> (''data'', ''1''),
     deltaKey ''cam'' 1 0 \<mapsto> (encode_delta (sample_delta 0), ''1''), deltaKey ''cam'' 1 1 \<mapsto> (encode_delta (sample_delta 1), ''1''))"

definition sealed_view :: view where
  "sealed_view = open_view(sealedKey ''cam'' 1 0 1 \<mapsto> (encode_sealed sample_sealed, ''1''),
     epochLogKey ''cam'' 1 \<mapsto> (encode_logRoot sealed_log, ''1''))"

definition sample_ds :: "GroupInfo list list" where
  "sample_ds = [[sample_row 0], [sample_row 1]]"

lemma sample_delta_ok: "n < 2 \<Longrightarrow> delta_ok (sample_delta n) \<and> dm_Version (sample_delta n) \<le> manifestVersion \<and> dm_Groups (sample_delta n) = [sample_row n]"
  using sample_row_wf [of n] by (simp add: sample_delta_def delta_ok_def row_wf_def manifestVersion_def i64_bounds)

lemma open_log_inv: "log_inv open_view ''cam'' 1 sample_ds sample_log ''1''"
proof -
  let ?v1 = "(mem_view (objs demo_world))(epochLogKey ''cam'' 1 \<mapsto> (encode_logRoot sample_log, ''1''))"
  let ?v2 = "?v1(groupKey ''cam'' (NewGroupID 1 0) \<mapsto> (''data'', ''1''), groupKey ''cam'' (NewGroupID 1 1) \<mapsto> (''data'', ''1''))"
  let ?v3 = "?v2(deltaKey ''cam'' 1 0 \<mapsto> (encode_delta (sample_delta 0), ''1''))"
  have "log_at ?v1 ''cam'' 1 sample_log ''1''"
    unfolding sample_log_def by (rule new_log_at) (simp_all add: new_log_ok i64_bounds)
  then have "log_inv ?v1 ''cam'' 1 [] sample_log ''1''"
    unfolding sample_log_def by (rule log_inv_new) (simp add: fresh_epoch_def demo_view)
  then have 2: "log_inv ?v2 ''cam'' 1 [] sample_log ''1''" by (intro log_inv_payload) (simp_all add: demo_view)
  have 3: "log_inv ?v3 ''cam'' 1 ([] @ [[sample_row 0]]) sample_log ''1''"
    by (rule log_inv_commit [OF 2]) (use sample_delta_ok [of 0] sample_row_wf [of 0] in \<open>auto simp: payload_held_def i64_bounds\<close>)
  have "log_inv (?v3(deltaKey ''cam'' 1 1 \<mapsto> (encode_delta (sample_delta 1), ''1''))) ''cam'' 1 (([] @ [[sample_row 0]]) @ [[sample_row 1]]) sample_log ''1''"
    by (rule log_inv_commit [OF 3])
      (use sample_delta_ok [of 1] sample_row_wf [of 1] in \<open>auto simp: payload_held_def i64_bounds mediaEnd_def i64_def\<close>)
  then show ?thesis by (simp add: open_view_def sample_ds_def)
qed

lemma sealed_log_inv: "log_inv sealed_view ''cam'' 1 sample_ds sealed_log ''1''"
proof -
  let ?v = "open_view(sealedKey ''cam'' 1 0 1 \<mapsto> (encode_sealed sample_sealed, ''1''))"
  have rows: "rows_between sample_ds 0 (Suc 1) = [sample_row 0, sample_row 1]" by (simp add: rows_between_def sample_ds_def)
  have 1: "log_inv (open_view(sealedKey ''cam'' 1 (sm_FirstDelta sample_sealed) (sm_LastDelta sample_sealed) \<mapsto> (encode_sealed sample_sealed, ''1'')))
      ''cam'' 1 sample_ds sample_log ''1''"
    by (rule log_inv_sealed [OF open_log_inv])
      (use sample_row_wf [of 0] sample_row_wf [of 1] rows in \<open>auto simp: sample_sealed_def sealed_ok_def row_wf_def manifestVersion_def i64_bounds sample_ds_def\<close>)
  have "log_inv (?v(epochLogKey ''cam'' 1 \<mapsto> (encode_logRoot sealed_log, ''1''))) ''cam'' 1 sample_ds sealed_log ''1''"
    by (rule log_inv_rotate [where l = 1 and L = sample_log])
      (use 1 rows in \<open>auto simp: sample_sealed_def sealed_log_def sample_log_def new_log_def sample_ds_def\<close>)
  then show ?thesis by (simp add: sealed_view_def)
qed

lemma view_state: "\<exists>s. mem_inv s \<and> mem_view s = open_view" "\<exists>s. mem_inv s \<and> mem_view s = sealed_view"
proof -
  have put: "\<exists>s. mem_inv s \<and> mem_view s = v(k \<mapsto> (d, ''1''))" if "\<exists>s. mem_inv s \<and> mem_view s = v" for v k d
    using that mem_put by metis
  show o: "\<exists>s. mem_inv s \<and> mem_view s = open_view" unfolding open_view_def by (intro put) (use demo_inv in blast)
  show "\<exists>s. mem_inv s \<and> mem_view s = sealed_view" unfolding sealed_view_def by (intro put o)
qed

lemma sample_track_holds:
  "track_holds open_view ''cam'' 1 (\<lambda>_. sample_ds) (\<lambda>_. sample_log)" "track_holds sealed_view ''cam'' 1 (\<lambda>_. sample_ds) (\<lambda>_. sealed_log)"
proof -
  have "LatestEpoch demo_root = 1" by (simp add: demo_root_def new_root_def)
  moreover have "open_view (rootKey ''cam'') = mem_view (objs demo_world) (rootKey ''cam'')"
      "sealed_view (rootKey ''cam'') = mem_view (objs demo_world) (rootKey ''cam'')"
    by (simp_all add: sealed_view_def open_view_def)
  then have "root_at open_view ''cam'' demo_root ''1''" "root_at sealed_view ''cam'' demo_root ''1''"
    using demo_root_at root_at_cong [of _ "''cam''" "mem_view (objs demo_world)"] by blast+
  moreover have "(1 :: u64) \<le> 1" by simp
  ultimately show "track_holds open_view ''cam'' 1 (\<lambda>_. sample_ds) (\<lambda>_. sample_log)"
    "track_holds sealed_view ''cam'' 1 (\<lambda>_. sample_ds) (\<lambda>_. sealed_log)"
    using log_inv_logs_hold [OF open_log_inv] log_inv_logs_hold [OF sealed_log_inv] unfolding track_holds_def by blast+
qed

lemma sample_rows [simp]: "track_rows (\<lambda>_. sample_ds) 1 = [sample_row 0, sample_row 1]"
  by (simp add: track_rows_def sample_ds_def)

lemma length_sample_ds [simp]: "length sample_ds = 2"
  by (simp add: sample_ds_def)

end
