(* ===== verification/Reader_Before.thy ===== *)
theory Reader_Before
  imports Sample_Track
begin

text \<open>
  The history query of \<open>ledger/before.go\<close>: read backwards from the newest delta, it returns exactly the
  last rows before an identity, as one would cut them from the list of all rows.
\<close>

section \<open>Pages\<close>

definition earlier :: "GroupID \<Rightarrow> GroupInfo \<Rightarrow> bool" where
  "earlier i g \<longleftrightarrow> i = GroupID 0 \<or> Compare (ID g) i < 0"

text \<open>What a page of at most \<open>n\<close> groups has become after more rows, newest first.\<close>

definition collect :: "nat \<Rightarrow> GroupInfo list \<Rightarrow> GroupInfo list \<Rightarrow> page" where
  "collect n acc xs = (if n \<le> length (acc @ xs) then Full (take n (acc @ xs)) else More (acc @ xs))"

lemma collect_append:
  "collect n acc (xs @ ys) = (case collect n acc xs of Full gs \<Rightarrow> Full gs | More gs \<Rightarrow> collect n gs ys | Resealed \<Rightarrow> Resealed)"
  by (simp add: collect_def)

lemma collect_Nil [simp]: "length acc < n \<Longrightarrow> collect n acc [] = More acc"
  by (simp add: collect_def)

lemma collect_MoreD: "collect n acc xs = More gs \<Longrightarrow> length gs < n \<and> gs = acc @ xs"
  by (auto simp: collect_def split: if_splits)

lemma collect_not_resealed [simp]: "collect n acc xs \<noteq> Resealed"
  by (simp add: collect_def)

lemma take_back_collects:
  "length acc < n \<Longrightarrow> take_back i n gs acc =
    (case collect n acc (filter (earlier i) gs) of Full gs \<Rightarrow> (True, gs) | More gs \<Rightarrow> (False, gs) | Resealed \<Rightarrow> (False, []))"
proof (induction gs arbitrary: acc)
  case (Cons g gs)
  have e: "earlier i g \<longleftrightarrow> \<not> (i \<noteq> GroupID 0 \<and> Compare (ID g) i \<ge> 0)" by (auto simp: earlier_def)
  show ?case
  proof (cases "earlier i g \<and> length (acc @ [g]) < n")
    case True
    then show ?thesis using Cons.IH [of "acc @ [g]"] e by (auto simp: collect_def Let_def)
  next
    case full: False
    show ?thesis
    proof (cases "earlier i g")
      case True
      then have "n = Suc (length acc)" using full Cons.prems by auto
      then show ?thesis using True e by (auto simp: collect_def Let_def)
    next
      case False
      then show ?thesis using Cons.IH [OF Cons.prems] e by simp
    qed
  qed
qed simp

lemma take_batch_collects:
  "length acc < n \<Longrightarrow> take_batch i n gs acc =
    (case collect n acc (filter (earlier i) (rev gs)) of Full gs \<Rightarrow> (True, gs) | More gs \<Rightarrow> (False, gs) | Resealed \<Rightarrow> (False, []))"
  by (simp add: take_batch_def take_back_collects)

text \<open>Rows whose identities ascend, as \<open>Append\<close> gives them out.\<close>

definition ascending :: "GroupInfo list \<Rightarrow> bool" where
  "ascending gs \<longleftrightarrow> sorted_wrt (\<lambda>g h. Compare (ID g) (ID h) < 0) gs"

lemma skipped_run_has_none:
  assumes li: "log_inv v p e ds L ver" and ref: "ref \<in> set (Sealed L)" and asc: "ascending (concat ds)"
    and skip: "i \<noteq> GroupID 0" "Compare (First ref) i \<ge> 0"
  shows "filter (earlier i) (run_rows ds ref) = []"
proof -
  have ne: "run_rows ds ref \<noteq> []" using run_rows_nonempty [OF log_invD(4) [OF li] ref log_invD(10) [OF li]] .
  have "ref = run_ref p e (FirstDelta ref) (LastDelta ref) (run_rows ds ref)" using runs_ref [OF log_invD(4) [OF li] ref] by blast
  then have first: "First ref = ID (hd (run_rows ds ref))" using run_ref_rows(1) [OF ne] by metis
  have "concat ds = concat (take (unat (FirstDelta ref)) ds) @ run_rows ds ref @
      concat (drop (Suc (unat (LastDelta ref)) - unat (FirstDelta ref)) (drop (unat (FirstDelta ref)) ds))"
    unfolding run_rows_def rows_between_def by (metis append_take_drop_id concat_append)
  then have "ascending (run_rows ds ref)" using asc by (simp add: ascending_def sorted_wrt_append)
  then have "\<not> earlier i g" if "g \<in> set (run_rows ds ref)" for g
    using that skip ne unfolding first
    by (cases "run_rows ds ref") (auto simp: ascending_def earlier_def Compare_def split: if_splits)
  then show ?thesis by (simp add: filter_empty_conv)
qed

section \<open>One epoch\<close>

lemma unat_small: "m < 2 ^ 63 \<Longrightarrow> unat (of_nat m :: u64) = m"
  by (simp add: unsigned_of_nat take_bit_nat_eq_self)

lemma noDelta_big: "unat d < 2 ^ 63 \<Longrightarrow> d \<noteq> noDelta"
  by (auto simp: noDelta_def unsigned_minus_1_eq_mask mask_eq_exp_minus_1)

text \<open>The newest delta, or none when the open region is empty.\<close>

definition newest :: "GroupInfo list list \<Rightarrow> epochLogRoot \<Rightarrow> nat \<Rightarrow> u64" where
  "newest ds L m = (if m = unat (OpenFrom L) then noDelta else of_nat m - 1)"

lemma newest_Suc:
  assumes "unat (OpenFrom L) \<le> m"
  shows "newest ds L (Suc m) = of_nat m"
  using assms by (simp add: newest_def)

context store_contract
begin

lemma last_delta_loop_reads:
  assumes "last_delta_loop S c N p e (newest ds L m) (of_nat m) s = (x, s')" and "inv s" and "log_inv (view s) p e ds L ver"
    and "unat (OpenFrom L) \<le> m" and "m \<le> length ds"
  shows "reads s s' \<and> (\<forall>d. x = Inr d \<longrightarrow> d = newest ds L (length ds))"
  using assms
proof (induction N arbitrary: m s)
  case (Suc N)
  note li = Suc.prems(3)
  have um: "unat (of_nat m :: u64) = m" using Suc.prems(5) log_inv_length [OF li] by (intro unat_small) simp
  obtain y s1 where g: "Get S c (deltaKey p e (of_nat m)) s = (y, s1)" by fastforce
  have v: "inv s1" "view s1 = view s" using get_view [OF Suc.prems(2) g] by auto
  show ?case
  proof (cases y)
    case (Inl err)
    have "m = length ds" if "errors_Is err ErrNotExist"
    proof -
      have "view s (deltaKey p e (of_nat m)) = None" using get_Inl [OF Suc.prems(2)] g Inl that by auto
      then have "\<not> m < length ds"
        using log_invD(6) [OF li, of "of_nat m"] Suc.prems(4) um by (auto simp: delta_holds_def word_le_nat_alt)
      then show ?thesis using Suc.prems(5) by simp
    qed
    then show ?thesis using Suc.prems(1) g Inl v by (auto simp: reads_def split: if_splits)
  next
    case (Inr z)
    then have "view s (deltaKey p e (of_nat m)) \<noteq> None" using get_Inr [OF Suc.prems(2)] g by (cases z) auto
    then have "m < length ds" using log_invD(13) [OF li, of "of_nat m"] um by simp
    moreover have "last_delta_loop S c N p e (newest ds L (Suc m)) (of_nat (Suc m)) s1 = (x, s')"
      using Suc.prems(1) g Inr newest_Suc [OF Suc.prems(4), of ds] by (simp add: add.commute)
    ultimately show ?thesis using Suc.IH [of "Suc m" s1] v li Suc.prems(4) by (auto simp: reads_def)
  qed
qed (auto simp: reads_def)

lemma lastDelta_reads:
  assumes r: "lastDelta S c N p e (OpenFrom L) s = (x, s')" and i: "inv s" and li: "log_inv (view s) p e ds L ver"
  shows "reads s s' \<and> (\<forall>d. x = Inr d \<longrightarrow> d = newest ds L (length ds))"
proof -
  obtain y s1 where f: "fetchHead S c p e s = (y, s1)" by fastforce
  have v: "inv s1" "view s1 = view s" using fetchHead_view [OF f i] by auto
  have li1: "log_inv (view s1) p e ds L ver" using li v by simp
  note o = log_invD(3) [OF li]
  have probe: "reads s s' \<and> (\<forall>d. x = Inr d \<longrightarrow> d = newest ds L (length ds))"
    if "last_delta_loop S c N p e (newest ds L m) (of_nat m) s1 = (x, s')" "unat (OpenFrom L) \<le> m" "m \<le> length ds" for m
    using last_delta_loop_reads [OF that(1) v(1) li1 that(2,3)] v by (simp add: reads_def)
  have nohead: "last_delta_loop S c N p e noDelta (OpenFrom L) s1 = (x, s') \<Longrightarrow> ?thesis"
    using probe [of "unat (OpenFrom L)"] o by (simp add: newest_def)
  show ?thesis
  proof (cases y)
    case (Inl err)
    then show ?thesis using r f v nohead by (auto simp: lastDelta_def reads_def split: if_splits)
  next
    case (Inr z)
    obtain h u where z: "z = (h, u)" by fastforce
    have hb: "unat (h_Delta h) < length ds"
      using fetchHead_Inr [of c p e s h u s1] f Inr z i log_invD(9) [OF li] by (auto simp: head_below_def)
    have nd: "h_Delta h \<noteq> noDelta" using hb log_inv_length [OF li] by (intro noDelta_big) simp
    show ?thesis
    proof (cases "h_Delta h \<ge> OpenFrom L")
      case True
      have m: "newest ds L (Suc (unat (h_Delta h))) = h_Delta h" "of_nat (Suc (unat (h_Delta h))) = h_Delta h + 1"
        using newest_Suc [of L "unat (h_Delta h)" ds] True by (simp_all add: word_le_nat_alt add.commute)
      have "last_delta_loop S c N p e (h_Delta h) (h_Delta h + 1) s1 = (x, s')"
        using r f Inr z True nd by (simp add: lastDelta_def)
      then show ?thesis using probe [of "Suc (unat (h_Delta h))"] True hb unfolding m by (simp add: word_le_nat_alt)
    next
      case False
      then show ?thesis using r f Inr z nohead by (simp add: lastDelta_def)
    qed
  qed
qed

lemma before_open_reads:
  assumes "before_open S c p e i n (OpenFrom L) d acc s = (x, s')" and "inv s" and "log_inv (view s) p e ds L ver"
    and "unat (OpenFrom L) \<le> m" and "m \<le> length ds" and "d = of_nat m - 1 \<or> d = noDelta \<and> m = unat (OpenFrom L)" and "length acc < n"
  shows "reads s s' \<and> (\<forall>y. x = Inr y \<longrightarrow> y = collect n acc (filter (earlier i) (rev (rows_between ds (unat (OpenFrom L)) m))))"
  using assms
proof (induction m arbitrary: d acc s)
  case 0
  then have "d = noDelta" by (auto simp: noDelta_def)
  moreover have "before_open S c p e i n (OpenFrom L) noDelta acc s = (Inr (More acc), s)"
    by (simp add: before_open.simps [of _ _ _ _ _ _ _ noDelta])
  ultimately show ?case using 0 by (auto simp: reads_def)
next
  case (Suc m)
  note li = Suc.prems(3)
  have um: "unat (of_nat m :: u64) = m" "unat (of_nat (Suc m) :: u64) = Suc m"
    using Suc.prems(5) log_inv_length [OF li] unat_small [of m] unat_small [of "Suc m"] by simp_all
  show ?case
  proof (cases "Suc m = unat (OpenFrom L)")
    case True
    then have "of_nat m < OpenFrom L" using um by (simp add: word_less_nat_alt)
    then have "\<not> (d \<ge> OpenFrom L \<and> d \<noteq> noDelta)" using Suc.prems(6) by auto
    then show ?thesis using Suc.prems(1,2,7) True by (auto simp: before_open.simps [of S c p e i n _ d] reads_def)
  next
    case False
    then have d: "d = of_nat m" and o: "unat (OpenFrom L) \<le> m" using Suc.prems(4,6) by auto
    have go: "d \<ge> OpenFrom L" "d \<noteq> noDelta" "m < length ds"
      using o um d Suc.prems(5) log_inv_length [OF li] noDelta_big [of d] by (auto simp: word_le_nat_alt)
    obtain y s1 where y: "delta S c p e d s = (y, s1)" by fastforce
    note r = delta_reads [OF y Suc.prems(2) li]
    have rows: "rev (rows_between ds (unat (OpenFrom L)) (Suc m)) = rev (ds ! m) @ rev (rows_between ds (unat (OpenFrom L)) m)"
      using rows_between_Suc [OF o go(3)] by simp
    show ?thesis
    proof (cases y)
      case (Inl err)
      have "view s (deltaKey p e d) \<noteq> None" using log_invD(6) [OF li go(1)] um(1) d go(3) by (auto simp: delta_holds_def)
      then have "\<not> errors_Is err ErrNotCommitted" using r Inl by auto
      then show ?thesis using Suc.prems(1) y Inl go r by (auto simp: before_open.simps [of S c p e i n _ d] reads_def)
    next
      case (Inr M)
      have v1: "inv s1" "view s1 = view s" and M: "dm_Groups M = ds ! m" using r Inr um(1) d by auto
      let ?c = "collect n acc (filter (earlier i) (rev (ds ! m)))"
      show ?thesis
      proof (cases ?c)
        case (More gs)
        have "before_open S c p e i n (OpenFrom L) (d - 1) gs s1 = (x, s')"
          using Suc.prems(1,7) y Inr go M More take_batch_collects [of acc n i "ds ! m"]
          by (simp add: before_open.simps [of S c p e i n _ d])
        from Suc.IH [OF this v1(1)] collect_MoreD [OF More] show ?thesis
          using v1 li o d Suc.prems(5) More rows by (auto simp: reads_def collect_append)
      next
        case (Full gs)
        then have "x = Inr (Full gs)" "s' = s1"
          using Suc.prems(1,7) y Inr go M take_batch_collects [of acc n i "ds ! m"]
          by (simp_all add: before_open.simps [of S c p e i n _ d])
        then show ?thesis using v1 rows Full by (simp add: reads_def collect_append)
      qed simp
    qed
  qed
qed

lemma before_sealed_reads:
  assumes "before_sealed S c p e i n refs acc s = (x, s')" and "inv s" and "log_inv (view s) p e ds L ver"
    and "set refs \<subseteq> set (Sealed L)" and asc: "ascending (concat ds)" and "length acc < n"
  shows "reads s s' \<and> (\<forall>y. x = Inr y \<longrightarrow> y = collect n acc (filter (earlier i) (concat (map (\<lambda>r. rev (run_rows ds r)) refs))))"
  using assms
proof (induction refs arbitrary: acc s)
  case Nil
  then show ?case by (auto simp: reads_def)
next
  case (Cons ref refs)
  note li = Cons.prems(3)
  have ref: "ref \<in> set (Sealed L)" using Cons.prems(4) by simp
  show ?case
  proof (cases "i \<noteq> GroupID 0 \<and> Compare (First ref) i \<ge> 0")
    case True
    then have "filter (earlier i) (rev (run_rows ds ref)) = []"
      using skipped_run_has_none [OF li ref asc] by (simp flip: rev_filter)
    then show ?thesis using Cons.IH [OF _ Cons.prems(2,3) _ asc Cons.prems(6)] Cons.prems(1,4) True by simp
  next
    case False
    obtain y s1 where y: "sealed S c p e ref s = (y, s1)" by fastforce
    note r = sealed_reads [OF y Cons.prems(2) li log_inv_snapshot [OF li] ref]
    show ?thesis
    proof (cases y)
      case (Inl err)
      then show ?thesis using Cons.prems(1) y False r by (auto simp: reads_def)
    next
      case (Inr M)
      have v1: "inv s1" "view s1 = view s" and M: "sm_Groups M = run_rows ds ref" using r Inr by auto
      show ?thesis
      proof (cases "collect n acc (filter (earlier i) (rev (run_rows ds ref)))")
        case (More gs)
        have "before_sealed S c p e i n refs gs s1 = (x, s')"
          using Cons.prems(1,6) y Inr False M More take_batch_collects [of acc n i "run_rows ds ref"] by simp
        from Cons.IH [OF this v1(1)] collect_MoreD [OF More] show ?thesis
          using v1 li asc Cons.prems(4) More by (auto simp: reads_def collect_append)
      next
        case (Full gs)
        then have "x = Inr (Full gs)" "s' = s1"
          using Cons.prems(1,6) y Inr False M take_batch_collects [of acc n i "run_rows ds ref"] by auto
        then show ?thesis using v1 Full by (simp add: reads_def collect_append)
      qed simp
    qed
  qed
qed

lemma rev_runs: "concat (map (\<lambda>r. rev (f r)) (rev rs)) = rev (concat (map f rs))"
  by (simp add: rev_concat rev_map comp_def)

lemma beforeIn_reads:
  assumes r: "beforeIn S c N p e i n acc s = (x, s')" and i: "inv s" and li: "log_inv (view s) p e ds L ver"
    and asc: "ascending (concat ds)" and n: "length acc < n"
  shows "reads s s' \<and> (\<forall>y. x = Inr y \<longrightarrow> y = collect n acc (filter (earlier i) (rev (concat ds))))"
proof -
  obtain f s1 where f: "fetchEpochLog S c p e s = (f, s1)" by fastforce
  note fr = fetchEpochLog_reads [OF f i li]
  then have v1: "inv s1" "view s1 = view s" and li1: "log_inv (view s1) p e ds L ver" using li by auto
  obtain l s2 where l: "lastDelta S c N p e (OpenFrom L) s1 = (l, s2)" by fastforce
  note lr = lastDelta_reads [OF l v1(1) li1]
  then have v2: "inv s2" "view s2 = view s" and li2: "log_inv (view s2) p e ds L ver" using v1 li by (auto simp: reads_def)
  let ?d = "newest ds L (length ds)" and ?o = "rows_between ds (unat (OpenFrom L)) (length ds)"
  obtain a s3 where a: "before_open S c p e i n (OpenFrom L) ?d acc s2 = (a, s3)" by fastforce
  have "?d = of_nat (length ds) - 1 \<or> ?d = noDelta \<and> length ds = unat (OpenFrom L)" by (simp add: newest_def)
  note ar = before_open_reads [OF a v2(1) li2 log_invD(3) [OF li] order_refl this n]
  then have v3: "inv s3" "view s3 = view s" and li3: "log_inv (view s3) p e ds L ver" using v2 li by (auto simp: reads_def)
  have rows: "rev (concat ds) = rev ?o @ concat (map (\<lambda>r. rev (run_rows ds r)) (rev (Sealed L)))"
    unfolding rev_runs using arg_cong [OF epoch_rows_split [OF li], of rev] by simp
  have R: "reads s s1" "reads s s2" "reads s s3" using v1 v2 v3 by (auto simp: reads_def)
  have run: "(x, s') = (case f of Inl err \<Rightarrow> (Inl err, s1) | Inr _ \<Rightarrow> (case l of Inl err \<Rightarrow> (Inl err, s2) | Inr _ \<Rightarrow>
      (case a of Inr (More gs) \<Rightarrow> before_sealed S c p e i n (rev (Sealed L)) gs s3 | _ \<Rightarrow> (a, s3))))"
  proof (cases "\<exists>y z. f = Inr y \<and> l = Inr z")
    case True
    then have "f = Inr (L, ver)" "l = Inr ?d" using fr lr by auto
    then show ?thesis using r f l a by (auto simp: beforeIn_def split: sum.splits page.splits)
  next
    case False
    show ?thesis
    proof (cases f)
      case (Inr y)
      moreover have "y = (L, ver)" using fr Inr by blast
      ultimately show ?thesis using False r f l by (cases l) (simp_all add: beforeIn_def)
    qed (use r f in \<open>simp add: beforeIn_def\<close>)
  qed
  show ?thesis
  proof (cases "\<exists>y z gs. f = Inr y \<and> l = Inr z \<and> a = Inr (More gs)")
    case True
    then obtain gs where gs: "a = Inr (More gs)" "before_sealed S c p e i n (rev (Sealed L)) gs s3 = (x, s')" using run by auto
    then have c: "collect n acc (filter (earlier i) (rev ?o)) = More gs" using ar by auto
    from before_sealed_reads [OF gs(2) v3(1) li3 _ asc] collect_MoreD [OF c] show ?thesis
      using R(3) by (auto simp: reads_def rows collect_append c)
  next
    case False
    then show ?thesis
      using run R ar collect_not_resealed [of n acc] by (auto simp: rows collect_append split: sum.splits page.splits)
  qed
qed

end

section \<open>All epochs\<close>

context store_contract
begin

lemma before_attempts_reads:
  assumes r: "before_attempts S c N p e i n k acc s = (x, s')" and k: "0 < k" and i: "inv s" and li: "log_inv (view s) p e ds L ver"
    and asc: "ascending (concat ds)" and n: "length acc < n"
  shows "reads s s' \<and> (\<forall>y. x = Inr y \<longrightarrow> y = collect n acc (filter (earlier i) (rev (concat ds))))"
proof -
  obtain y s1 where b: "beforeIn S c N p e i n acc s = (y, s1)" by fastforce
  note br = beforeIn_reads [OF b i li asc n]
  obtain k' where "k = Suc k'" using k by (cases k) auto
  moreover have "y \<noteq> Inr Resealed" using br collect_not_resealed by metis
  ultimately have "x = y" "s' = s1" using r b by (auto split: sum.splits page.splits)
  then show ?thesis using br by simp
qed

lemma before_epochs_reads:
  assumes "before_epochs S c N p i n es acc s = (x, s')" and "inv s" and logs: "logs_hold (view s) p lat dss Ls"
    and "set es \<subseteq> set (epochs lat)" and asc: "\<forall>e\<in>set (epochs lat). ascending (concat (dss e))" and "length acc < n"
  shows "reads s s' \<and> (\<forall>gs. x = Inr gs \<longrightarrow> gs = rev (take n (acc @ filter (earlier i) (concat (map (\<lambda>e. rev (concat (dss e))) es)))))"
  using assms
proof (induction es arbitrary: acc s)
  case Nil
  then show ?case by (auto simp: reads_def)
next
  case (Cons e es)
  obtain ver where li: "log_inv (view s) p e (dss e) (Ls e) ver"
    using logs_holdD [OF Cons.prems(3)] Cons.prems(4) by (fastforce simp: set_epochs)
  have a: "ascending (concat (dss e))" using Cons.prems(4,5) by simp
  obtain y s1 where y: "before_attempts S c N p e i n beforeAttempts acc s = (y, s1)" by fastforce
  note r = before_attempts_reads [OF y _ Cons.prems(2) li a Cons.prems(6)]
  have v1: "inv s1" "view s1 = view s" using r by (auto simp: reads_def beforeAttempts_def)
  show ?case
  proof (cases y)
    case (Inl err)
    then show ?thesis using Cons.prems(1) y v1 by (auto simp: reads_def)
  next
    case (Inr z)
    then have z: "z = collect n acc (filter (earlier i) (rev (concat (dss e))))" using r by (simp add: beforeAttempts_def)
    show ?thesis
    proof (cases "n \<le> length (acc @ filter (earlier i) (rev (concat (dss e))))")
      case True
      then have "x = Inr (rev (take n (acc @ filter (earlier i) (rev (concat (dss e))))))" "s' = s1"
        using Cons.prems(1) y Inr z by (auto simp: collect_def)
      then show ?thesis using True v1 by (simp add: reads_def)
    next
      case False
      let ?acc = "acc @ filter (earlier i) (rev (concat (dss e)))"
      have "before_epochs S c N p i n es ?acc s1 = (x, s')" using Cons.prems(1) y Inr z False by (simp add: collect_def)
      from Cons.IH [OF this v1(1)] show ?thesis using Cons.prems(3-5) v1 False by (simp add: reads_def)
    qed
  qed
qed

end

context reliable_store
begin

lemma last_delta_loop_ends:
  assumes "inv s" and "log_inv (view s) p e ds L ver" and "unat (OpenFrom L) \<le> m" and "m \<le> length ds" and "length ds - m < N"
  shows "\<exists>d s'. last_delta_loop S Live N p e l (of_nat m) s = (Inr d, s')"
  using assms
proof (induction N arbitrary: m l s)
  case (Suc N)
  note li = Suc.prems(2)
  have um: "unat (of_nat m :: u64) = m" using Suc.prems(4) log_inv_length [OF li] by (intro unat_small) simp
  show ?case
  proof (cases "m < length ds")
    case True
    obtain b u where "view s (deltaKey p e (of_nat m)) = Some (b, u)"
      using log_invD(6) [OF li, of "of_nat m"] True Suc.prems(3) um by (auto simp: delta_holds_def word_le_nat_alt)
    then obtain s1 where g: "Get S Live (deltaKey p e (of_nat m)) s = (Inr (b, u), s1)" "inv s1" "view s1 = view s"
      using Get_present_Live [OF Suc.prems(1)] by metis
    have "length ds - Suc m < N" using Suc.prems(5) True by simp
    then obtain d s' where "last_delta_loop S Live N p e (of_nat m) (of_nat (Suc m)) s1 = (Inr d, s')"
      using Suc.IH [of s1 "Suc m" "of_nat m"] g li Suc.prems(3) True by auto
    then show ?thesis using g(1) by (simp add: add.commute)
  next
    case False
    then have "view s (deltaKey p e (of_nat m)) = None" using log_invD(7) [OF li, of "of_nat m"] um by simp
    then obtain err s1 where "Get S Live (deltaKey p e (of_nat m)) s = (Inl err, s1)" "errors_Is err ErrNotExist"
      using Get_absent_Live [OF Suc.prems(1)] by metis
    then show ?thesis by simp
  qed
qed simp

lemma lastDelta_ends:
  assumes i: "inv s" and li: "log_inv (view s) p e ds L ver" and N: "length ds < N"
  shows "\<exists>d s'. lastDelta S Live N p e (OpenFrom L) s = (Inr d, s')"
proof -
  have probe: "\<exists>d s'. last_delta_loop S Live N p e l (of_nat m) s1 = (Inr d, s')"
    if "inv s1" "view s1 = view s" "unat (OpenFrom L) \<le> m" "m \<le> length ds" for l m s1
    using last_delta_loop_ends [of s1 p e ds L ver m N l] that li N by auto
  note start = probe [of _ "unat (OpenFrom L)" noDelta, simplified, OF _ _ log_invD(3) [OF li]]
  show ?thesis
  proof (cases "view s (headKey p e)")
    case None
    then obtain err s1 where "Get S Live (headKey p e) s = (Inl err, s1)" "errors_Is err ErrNotExist" "inv s1" "view s1 = view s"
      using Get_absent_Live [OF i] by metis
    moreover from this have "errors_Is err ErrNotExist" by simp
    ultimately show ?thesis using start [of s1] by (simp add: lastDelta_def fetchHead_def)
  next
    case (Some z)
    obtain d u where z: "z = (d, u)" by fastforce
    obtain h where h: "decode_head d = Inr h" "unat (h_Delta h) < length ds"
      using log_invD(9) [OF li] Some z by (auto simp: head_below_def)
    obtain s1 where g: "Get S Live (headKey p e) s = (Inr (d, u), s1)" "inv s1" "view s1 = view s"
      using Get_present_Live [OF i] Some z by metis
    have nd: "h_Delta h \<noteq> noDelta" using h(2) log_inv_length [OF li] by (intro noDelta_big) simp
    have m: "of_nat (Suc (unat (h_Delta h))) = h_Delta h + 1" by (simp add: add.commute)
    show ?thesis
    proof (cases "h_Delta h \<ge> OpenFrom L")
      case True
      then show ?thesis
        using probe [of s1 "Suc (unat (h_Delta h))" "h_Delta h"] g h nd unfolding m
        by (simp add: lastDelta_def fetchHead_def word_le_nat_alt)
    next
      case False
      then show ?thesis using start [of s1] g h by (simp add: lastDelta_def fetchHead_def)
    qed
  qed
qed

lemma before_open_ends:
  assumes "inv s" and "log_inv (view s) p e ds L ver"
    and "unat (OpenFrom L) \<le> m" and "m \<le> length ds" and "d = of_nat m - 1 \<or> d = noDelta \<and> m = unat (OpenFrom L)"
  shows "\<exists>y s'. before_open S Live p e i n (OpenFrom L) d acc s = (Inr y, s')"
  using assms
proof (induction m arbitrary: d acc s)
  case 0
  then have "d = noDelta" by (auto simp: noDelta_def)
  then show ?case by (simp add: before_open.simps [of _ _ _ _ _ _ _ noDelta])
next
  case (Suc m)
  note li = Suc.prems(2)
  have um: "unat (of_nat m :: u64) = m" using Suc.prems(4) log_inv_length [OF li] by (intro unat_small) simp
  show ?case
  proof (cases "d \<ge> OpenFrom L \<and> d \<noteq> noDelta")
    case True
    then have d: "d = of_nat m" using Suc.prems(5) by auto
    have o: "unat (OpenFrom L) \<le> m" using True um d by (simp add: word_le_nat_alt)
    obtain M s1 where y: "delta S Live p e d s = (Inr M, s1)" "inv s1" "view s1 = view s"
      using delta_Live [OF Suc.prems(1) li] True um d Suc.prems(4) by fastforce
    have "\<exists>y s'. before_open S Live p e i n (OpenFrom L) (d - 1) acc' s1 = (Inr y, s')" for acc'
      using Suc.IH [of s1 "d - 1" acc'] y li o d Suc.prems(4) by simp
    then show ?thesis using True y by (auto simp: before_open.simps [of _ _ _ _ _ _ _ d] split: prod.splits bool.splits)
  next
    case False
    then show ?thesis by (auto simp: before_open.simps [of _ _ _ _ _ _ _ d])
  qed
qed

lemma before_sealed_ends:
  assumes "inv s" and "log_inv (view s) p e ds L ver" and "set refs \<subseteq> set (Sealed L)"
  shows "\<exists>y s'. before_sealed S Live p e i n refs acc s = (Inr y, s')"
  using assms
proof (induction refs arbitrary: acc s)
  case (Cons ref refs)
  obtain M s1 where m: "sealed S Live p e ref s = (Inr M, s1)" "inv s1" "view s1 = view s"
    using sealed_Live [OF Cons.prems(1,2) log_inv_snapshot [OF Cons.prems(2)], of ref] Cons.prems(3) by auto
  have "\<exists>y s'. before_sealed S Live p e i n refs acc' s1 = (Inr y, s')"
    "\<exists>y s'. before_sealed S Live p e i n refs acc' s = (Inr y, s')" for acc'
    using Cons m by auto
  then show ?case using m(1) by (auto split: prod.splits bool.splits)
qed simp

lemma beforeIn_ends:
  assumes i: "inv s" and li: "log_inv (view s) p e ds L ver" and N: "length ds < N" and n: "length acc < n"
  shows "\<exists>y s'. beforeIn S Live N p e i n acc s = (Inr y, s')"
proof -
  obtain s1 where f: "fetchEpochLog S Live p e s = (Inr (L, ver), s1)" "inv s1" "view s1 = view s"
    using fetchEpochLog_Live [OF i log_invD(1) [OF li]] by blast
  have li1: "log_inv (view s1) p e ds L ver" using li f by simp
  obtain d s2 where l: "lastDelta S Live N p e (OpenFrom L) s1 = (Inr d, s2)" using lastDelta_ends [OF f(2) li1 N] by blast
  have d: "d = newest ds L (length ds)" and v2: "inv s2" "view s2 = view s"
    using lastDelta_reads [OF l f(2) li1] f(3) by (auto simp: reads_def)
  have li2: "log_inv (view s2) p e ds L ver" using li v2 by simp
  have nd: "d = of_nat (length ds) - 1 \<or> d = noDelta \<and> length ds = unat (OpenFrom L)" using d by (simp add: newest_def)
  obtain a s3 where a: "before_open S Live p e i n (OpenFrom L) d acc s2 = (Inr a, s3)"
    using before_open_ends [OF v2(1) li2 log_invD(3) [OF li] order_refl nd] by blast
  have "reads s2 s3" using before_open_reads [OF a v2(1) li2 log_invD(3) [OF li] order_refl nd n] by blast
  then have "inv s3" "log_inv (view s3) p e ds L ver" using v2 li by (auto simp: reads_def)
  then show ?thesis
    using f(1) l a before_sealed_ends [of s3 p e ds L ver "rev (Sealed L)" i n]
    by (auto simp: beforeIn_def split: page.splits)
qed

lemma before_epochs_ends:
  assumes "inv s" and "logs_hold (view s) p lat dss Ls" and "set es \<subseteq> set (epochs lat)"
    and asc: "\<forall>e\<in>set (epochs lat). ascending (concat (dss e))" and N: "\<forall>e\<in>set es. length (dss e) < N" and "length acc < n"
  shows "\<exists>gs s'. before_epochs S Live N p i n es acc s = (Inr gs, s')"
  using assms
proof (induction es arbitrary: acc s)
  case (Cons e es)
  obtain ver where li: "log_inv (view s) p e (dss e) (Ls e) ver"
    using logs_holdD [OF Cons.prems(2)] Cons.prems(3) by (fastforce simp: set_epochs)
  have a: "ascending (concat (dss e))" and N: "length (dss e) < N" using Cons.prems(3-5) by auto
  obtain y s1 where b: "beforeIn S Live N p e i n acc s = (Inr y, s1)"
    using beforeIn_ends [OF Cons.prems(1) li N Cons.prems(6)] by blast
  note br = beforeIn_reads [OF b Cons.prems(1) li a Cons.prems(6)]
  then have y: "y = collect n acc (filter (earlier i) (rev (concat (dss e))))" and v: "inv s1" "view s1 = view s"
    by (auto simp: reads_def)
  have at: "before_attempts S Live N p e i n beforeAttempts acc s = (Inr y, s1)"
    using b y collect_not_resealed [of n acc] by (simp add: beforeAttempts_def numeral_3_eq_3 split: page.splits)
  show ?case
  proof (cases y)
    case (More gs)
    then have "length gs < n" using y collect_MoreD by metis
    then obtain hs s' where "before_epochs S Live N p i n es gs s1 = (Inr hs, s')"
      using Cons.IH [of s1 gs] Cons.prems(2-5) v by auto
    then show ?thesis using at More by simp
  next
    case Resealed
    then show ?thesis using y by (simp add: collect_def split: if_splits)
  qed (use at in simp)
qed simp

end

section \<open>The property\<close>

lemma epochs_take:
  assumes "e \<le> lat"
  shows "\<exists>later. epochs lat = epochs e @ later \<and> (\<forall>e'\<in>set later. e < e')"
proof -
  have le: "unat e \<le> unat lat" using assms by (simp add: word_le_nat_alt)
  then have up: "[1..<Suc (unat lat)] = [1..<Suc (unat e)] @ [Suc (unat e)..<Suc (unat lat)]"
    using upt_add_eq_append [of 1 "Suc (unat e)" "unat lat - unat e"] by simp
  have "e < of_nat k" if "Suc (unat e) \<le> k" "k < Suc (unat lat)" for k
  proof -
    have "unat (of_nat k :: u64) = k" using that le_unat_uoi [of k lat] by simp
    then show ?thesis using that by (simp add: word_less_nat_alt)
  qed
  then show ?thesis unfolding epochs_def up by auto
qed

text \<open>Epochs after the identity's hold no earlier row.\<close>

lemma earlier_rows:
  assumes logs: "logs_hold v p lat dss Ls" and e: "e = (if i \<noteq> GroupID 0 \<and> Epoch i < lat then Epoch i else lat)"
  shows "filter (earlier i) (track_rows dss lat) = filter (earlier i) (track_rows dss e)"
proof -
  have "e \<le> lat" using e by auto
  then obtain later where l: "epochs lat = epochs e @ later" "\<forall>e'\<in>set later. e < e'" using epochs_take by blast
  have "\<not> earlier i g" if "e' \<in> set later" "g \<in> set (concat (dss e'))" for e' g
  proof -
    have lt: "e < e'" "1 \<le> e'" "e' \<le> lat" using l that(1) set_epochs [of lat] by auto
    then have i: "i \<noteq> GroupID 0" "Epoch i = e" using e by (auto split: if_splits)
    obtain ver where "log_inv v p e' (dss e') (Ls e') ver" using logs_holdD [OF logs lt(2,3)] by blast
    then have "Epoch (ID g) = e'" using log_invD(11) that(2) by (fastforce simp: row_wf_def)
    then have "i < ID g" using lt(1) i(2) by (simp add: less_GroupID_lex)
    then show ?thesis using i(1) by (auto simp: earlier_def Compare_def group_id_order)
  qed
  then have "filter (earlier i) (concat (map (\<lambda>e. concat (dss e)) later)) = []" by (auto simp: filter_empty_conv)
  then show ?thesis by (simp add: track_rows_def l(1))
qed

lemma rev_track_rows: "concat (map (\<lambda>e. rev (concat (dss e))) (rev (epochs e))) = rev (track_rows dss e)"
  by (simp add: track_rows_def rev_concat rev_map comp_def)

context store_contract
begin

lemma Before_page:
  assumes run: "Before S c N r k n s = (x, s')" and i: "inv s" and logs: "logs_hold (view s) (r_path r) (latest r) dss Ls"
    and asc: "\<forall>e\<in>set (epochs (latest r)). ascending (concat (dss e))"
  shows "reads s s' \<and> (\<forall>gs. x = Inr gs \<longrightarrow> gs = rev (take (nat n) (rev (filter (earlier k) (track_rows dss (latest r))))))"
proof (cases "n \<le> 0")
  case True
  then show ?thesis using run i by (auto simp: Before_def reads_def)
next
  case False
  define e where "e = (if k \<noteq> GroupID 0 \<and> Epoch k < latest r then Epoch k else latest r)"
  have b: "before_epochs S c N (r_path r) k (nat n) (rev (epochs e)) [] s = (x, s')"
    using run False by (simp add: Before_def e_def)
  have "e \<le> latest r" by (auto simp: e_def)
  then have sub: "set (rev (epochs e)) \<subseteq> set (epochs (latest r))" by (auto simp: set_epochs)
  have n: "length ([] :: GroupInfo list) < nat n" using False by simp
  have "rev (filter (earlier k) (track_rows dss (latest r))) = filter (earlier k) (rev (track_rows dss e))"
    using earlier_rows [OF logs e_def] by (simp add: rev_filter)
  then show ?thesis using before_epochs_reads [OF b i logs sub asc n] by (simp add: rev_track_rows)
qed

end

context reliable_store
begin

lemma Before_ends:
  assumes i: "inv s" and logs: "logs_hold (view s) (r_path r) (latest r) dss Ls"
    and asc: "\<forall>e\<in>set (epochs (latest r)). ascending (concat (dss e))" and N: "\<forall>e\<in>set (epochs (latest r)). length (dss e) < N"
  shows "\<exists>gs s'. Before S Live N r k n s = (Inr gs, s')"
proof (cases "n \<le> 0")
  case False
  define e where "e = (if k \<noteq> GroupID 0 \<and> Epoch k < latest r then Epoch k else latest r)"
  have "e \<le> latest r" by (auto simp: e_def)
  then have sub: "set (rev (epochs e)) \<subseteq> set (epochs (latest r))" by (auto simp: set_epochs)
  then have f: "\<forall>e\<in>set (rev (epochs e)). length (dss e) < N" using N by blast
  have n: "length ([] :: GroupInfo list) < nat n" using False by simp
  from before_epochs_ends [OF i logs sub asc f n, of k] False show ?thesis by (simp add: Before_def e_def)
qed (simp add: Before_def)

end

text \<open>
  C22. \<open>Before\<close> pages backwards through the history: on a track whose identities ascend, on any store,
  whatever fails, a page it returns is exactly the last \<open>n\<close> of the rows before the identity, all epochs
  together and in commit order; on a store that answers, with fuel above every epoch's number of deltas,
  it returns one. The store is not changed.
\<close>

theorem before_returns_the_page:
  assumes S: "store_contract S view I" and i: "I s" and logs: "logs_hold (view s) (r_path r) (latest r) dss Ls"
    and asc: "\<forall>e\<in>set (epochs (latest r)). ascending (concat (dss e))" and run: "Before S c N r k n s = (x, s')"
  shows "view s' = view s \<and>
    (\<forall>gs. x = Inr gs \<longrightarrow> gs = rev (take (nat n) (rev (filter (earlier k) (track_rows dss (latest r)))))) \<and>
    (reliable_store S view I \<and> c = Live \<and> (\<forall>e\<in>set (epochs (latest r)). length (dss e) < N) \<longrightarrow> (\<exists>gs. x = Inr gs))"
proof -
  have "\<exists>gs. x = Inr gs" if "reliable_store S view I" "c = Live" "\<forall>e\<in>set (epochs (latest r)). length (dss e) < N"
    using reliable_store.Before_ends [OF that(1) i logs asc that(3), of k n] run that(2) by auto
  then show ?thesis
    using store_contract.Before_page [OF S run i logs asc] by (auto simp: store_contract.reads_def [OF S])
qed

theorem before_returns_the_page_witness:
  "\<exists>s s1 s2. mem_view s = sealed_view \<and> Before mem_store Live 3 demo_reader (GroupID 0) 1 s = (Inr [sample_row 1], s1) \<and>
    Before mem_store Live 3 demo_reader (ID (sample_row 1)) 5 s = (Inr [sample_row 0], s2)"
proof -
  obtain s where s: "mem_inv s" "mem_view s = sealed_view" using view_state(2) by blast
  have logs: "logs_hold (mem_view s) (r_path demo_reader) (latest demo_reader) (\<lambda>_. sample_ds) (\<lambda>_. sealed_log)"
    using log_inv_logs_hold [OF sealed_log_inv] s(2) by (simp add: demo_reader_def)
  have c: "Compare (NewGroupID 1 0) (NewGroupID 1 1) < 0" "\<not> Compare (NewGroupID 1 1) (NewGroupID 1 1) < 0" "NewGroupID 1 1 \<noteq> GroupID 0"
    by code_simp+
  have asc: "\<forall>e\<in>set (epochs (latest demo_reader)). ascending (concat sample_ds)"
    using c by (simp add: ascending_def sample_ds_def)
  have rows: "track_rows (\<lambda>_. sample_ds) (latest demo_reader) = [sample_row 0, sample_row 1]" by (simp add: demo_reader_def)
  obtain x s1 where 1: "Before mem_store Live 3 demo_reader (GroupID 0) 1 s = (x, s1)" by fastforce
  obtain y s2 where 2: "Before mem_store Live 3 demo_reader (ID (sample_row 1)) 5 s = (y, s2)" by fastforce
  have "x = Inr [sample_row 1]"
    using before_returns_the_page [OF mem.store_contract_axioms s(1) logs asc 1] mem.reliable_store_axioms
    by (auto simp: rows earlier_def)
  moreover have "y = Inr [sample_row 0]"
    using before_returns_the_page [OF mem.store_contract_axioms s(1) logs asc 2] mem.reliable_store_axioms c
    by (auto simp: rows earlier_def)
  ultimately show ?thesis using 1 2 s(2) by blast
qed

end
