(* ===== verification/Reader_Props.thy ===== *)
theory Reader_Props
  imports Sample_Track
begin

text \<open>
  What the cursor promises: rows come in commit order across epochs and none is skipped, whatever
  store calls fail; a reader drains a track exactly; it keeps its place while a writer appends and
  seals; and the one case where rows come again.
\<close>

section \<open>Opening a reader\<close>

context store_contract
begin

lemma Reader_Track_opens:
  assumes r: "Reader_Track S c t s = (Inr r, s')" and i: "inv s" and t: "track_holds (view s) (t_path t) lat dss Ls"
    and l: "LatestEpoch (t_root t) \<le> lat"
  shows "reads s s' \<and> cursor (view s) lat dss Ls r 0 \<and> r_path r = t_path t \<and> latest r = LatestEpoch (t_root t) \<and>
    r_logRoot r = Ls (r_epoch r) \<and> at_edge r \<and> r_schema r = schema (t_root t)"
proof -
  have lat: "LatestEpoch (t_root t) \<noteq> 0" using r by (auto simp: Reader_Track_def Let_def)
  have one: "1 \<le> lat" using t by (simp add: track_holds_def)
  obtain u where li: "log_inv (view s) (t_path t) 1 (dss 1) (Ls 1) u"
    using t logs_holdD [of "view s" "t_path t" lat dss Ls 1] one by (auto simp: track_holds_def)
  obtain x s1 where f: "fetchEpochLog S c (t_path t) 1 s = (x, s1)" by fastforce
  note fr = fetchEpochLog_reads [OF f i li]
  obtain y where y: "x = Inr y" using r lat f by (cases x) (auto simp: Reader_Track_def loadEpoch_def Let_def)
  then have q: "y = (Ls 1, u)" using fr by blast
  have "r = \<lparr>r_path = t_path t, r_schema = schema (t_root t), latest = LatestEpoch (t_root t), epoch1Log = Ls 1,
      r_epoch = 1, r_logRoot = Ls 1, r_next = 0, r_idx = 0, batch = [], misses = 0, r_last = GroupID 0\<rparr>" "s' = s1"
    using r lat f y q by (auto simp: Reader_Track_def loadEpoch_def Let_def)
  then show ?thesis
    using fr log_inv_snapshot [OF li] lat l rows_between_all [of "dss 1"]
    by (auto simp: cursor_def at_edge_def reads_def)
qed

end

context reliable_store
begin

lemma Reader_Track_Live:
  assumes i: "inv s" and t: "track_holds (view s) (t_path t) lat dss Ls" and l: "LatestEpoch (t_root t) \<noteq> 0"
  shows "\<exists>r s'. Reader_Track S Live t s = (Inr r, s')"
proof -
  have one: "1 \<le> lat" using t by (simp add: track_holds_def)
  obtain u where li: "log_inv (view s) (t_path t) 1 (dss 1) (Ls 1) u"
    using t logs_holdD [of "view s" "t_path t" lat dss Ls 1] one by (auto simp: track_holds_def)
  obtain s1 where "fetchEpochLog S Live (t_path t) 1 s = (Inr (Ls 1, u), s1)"
    using fetchEpochLog_Live [OF i log_invD(1) [OF li]] by blast
  then show ?thesis using l by (simp add: Reader_Track_def loadEpoch_def Let_def)
qed

end

section \<open>Draining\<close>

text \<open>The consumer's loop: \<open>Next\<close> until it answers an error, at most \<open>M\<close> times.\<close>

fun drain :: "'s store \<Rightarrow> ctx \<Rightarrow> nat \<Rightarrow> nat \<Rightarrow> Reader \<Rightarrow> 's \<Rightarrow> GroupInfo list \<times> error option \<times> Reader \<times> 's" where
  "drain S c N 0 r s = ([], None, r, s)"
| "drain S c N (Suc M) r s =
     (case Next S c N r s of
        (Inl err, r, s) \<Rightarrow> ([], Some err, r, s)
      | (Inr g, r, s) \<Rightarrow> (case drain S c N M r s of (gs, e, r, s) \<Rightarrow> (g # gs, e, r, s)))"

context reliable_store
begin

lemma drain_all:
  assumes "inv s" and "track_holds (view s) (r_path r) lat dss Ls" and "cursor (view s) lat dss Ls r j" and "latest r = lat"
    and "r_logRoot r = Ls (r_epoch r)" and "at_edge r" and "unat lat + 2 \<le> N" and "length (track_rows dss lat) - j < M"
  shows "\<exists>r' s'. drain S Live N M r s = (drop j (track_rows dss lat), Some [EOF], r', s')"
  using assms
proof (induction M arbitrary: r s j)
  case (Suc M)
  let ?rows = "track_rows dss lat"
  obtain x r1 s1 where n: "Next S Live N r s = (x, r1, s1)" using prod_cases3 by blast
  have p: "reads s s1" "next_post (view s) lat dss Ls r j x r1"
    using Next_reads [of Live N lat dss Ls] n Suc.prems(1-3) unfolding next_loop_def by blast+
  have l: "if j < length ?rows then \<exists>g. x = Inr g else x = Inl [EOF]"
    using Next_Live [OF Suc.prems(1-3,5), of N] Suc.prems(4,7) n by (auto split: if_splits)
  show ?case
  proof (cases "j < length ?rows")
    case True
    then obtain g where x: "x = Inr g" using l by auto
    have k: "g = ?rows ! j" "cursor (view s) lat dss Ls r1 (Suc j)" "latest r1 = lat" "r_path r1 = r_path r"
      "r_logRoot r1 = Ls (r_epoch r1)" "at_edge r1"
      using p(2) x Suc.prems(4-6) by (auto simp: next_post_def next_at_def)
    have "\<exists>r' s'. drain S Live N M r1 s1 = (drop (Suc j) ?rows, Some [EOF], r', s')"
      using Suc.IH [of s1 r1 "Suc j"] k p(1) Suc.prems(2,7,8) True by (simp add: reads_def)
    moreover have "drop j ?rows = g # drop (Suc j) ?rows" using True k(1) by (simp add: Cons_nth_drop_Suc)
    ultimately show ?thesis using n x by auto
  next
    case False
    then show ?thesis using n l by simp
  qed
qed simp

end

section \<open>A reader beside a writer\<close>

lemma payload_held_written: "written p e v v' \<Longrightarrow> payload_held v p g \<Longrightarrow> payload_held v' p g"
  using writtenD(2,8) unfolding payload_held_def by (metis option.distinct(1))

lemma log_inv_written:
  assumes "written p e v v'" and "log_inv v p e' ds L ver" and "e' \<noteq> e"
  shows "log_inv v' p e' ds L ver"
  using log_inv_cong [OF assms(2)] writtenD(3-6) [OF assms(1) assms(3)] payload_held_written [OF assms(1)] by metis

lemma track_holds_written:
  assumes t: "track_holds v p lat dss Ls" and w: "written p lat v v'" and li: "log_inv v' p lat ds L ver"
  shows "track_holds v' p lat (dss(lat := ds)) (Ls(lat := L))"
proof -
  have "\<exists>u. log_inv v' p e ((dss(lat := ds)) e) ((Ls(lat := L)) e) u" if e: "1 \<le> e" "e \<le> lat" for e
  proof (cases "e = lat")
    case False
    obtain u where "log_inv v p e (dss e) (Ls e) u" using t e logs_holdD by (fastforce simp: track_holds_def)
    then show ?thesis using log_inv_written [OF w _ False] False by auto
  qed (use li in auto)
  moreover obtain R ver' where "root_at v p R ver'" "LatestEpoch R = lat" using t by (auto simp: track_holds_def)
  moreover have "root_at v' p R ver'" using root_at_cong [of v' p v] writtenD(1) [OF w] calculation(2) by blast
  ultimately show ?thesis using t by (auto simp: track_holds_def logs_hold_def)
qed

lemma snapshot_grows:
  assumes "snapshot v p e ds L" and "written p e' v v'"
  shows "snapshot v' p e (ds @ xs) L"
proof -
  have "v' (Key r) \<noteq> None" if "r \<in> set (Sealed L)" for r
  proof -
    have k: "Key r = sealedKey p e (FirstDelta r) (LastDelta r)" "v (Key r) \<noteq> None"
      using assms(1) runs_Key that by (auto simp: snapshot_def)
    then show ?thesis using writtenD(6,7) [OF assms(2)] by (metis (no_types))
  qed
  then show ?thesis using assms(1) runs_append by (auto simp: snapshot_def)
qed

lemma track_rows_upd: "e < lat \<Longrightarrow> track_rows (dss(lat := x)) e = track_rows dss e"
proof -
  assume "e < lat"
  then have "map (\<lambda>d. concat ((dss(lat := x)) d)) (epochs e) = map (\<lambda>d. concat (dss d)) (epochs e)"
    by (intro map_cong refl) (auto simp: set_epochs)
  then show ?thesis unfolding track_rows_def by (rule arg_cong)
qed

lemma track_rows_grow:
  "lat \<noteq> 0 \<Longrightarrow> track_rows (dss(lat := dss lat @ xs)) lat = track_rows dss lat @ concat xs"
proof -
  assume "lat \<noteq> 0"
  then have "lat - 1 < lat" by (simp add: word_less_nat_alt unat_minus_one unat_gt_0)
  then show ?thesis using track_rows_snoc [OF \<open>lat \<noteq> 0\<close>] track_rows_upd [of "lat - 1" lat dss] by simp
qed

lemma offset_upd: "e \<noteq> 0 \<Longrightarrow> e \<le> lat \<Longrightarrow> offset (dss(lat := x)) e = offset dss e"
proof -
  assume e: "e \<noteq> 0" "e \<le> lat"
  then have "e - 1 < e" by (simp add: word_less_nat_alt unat_minus_one unat_gt_0)
  then have "e - 1 < lat" using e(2) by (rule less_le_trans)
  then show ?thesis by (simp add: offset_def track_rows_upd)
qed

lemma cursor_grows:
  assumes cur: "cursor v lat dss Ls r j" and w: "written (r_path r) lat v v'"
  shows "cursor v' lat (dss(lat := dss lat @ xs)) (Ls(lat := L)) r j"
proof -
  let ?e = "r_epoch r" and ?dss = "dss(lat := dss lat @ xs)"
  note ep = cursor_epochs [OF cur]
  have snap: "snapshot v' (r_path r) e (?dss e) M" if "snapshot v (r_path r) e (dss e) M" for e M
    using snapshot_grows [OF that w, of xs] snapshot_grows [OF that w, of "[]"] by (cases "e = lat") auto
  obtain k where k: "k \<le> length (concat (dss ?e))" "j = offset dss ?e + k"
      "drop k (concat (dss ?e)) = drop (r_idx r) (batch r) @ rows_between (dss ?e) (unat (r_next r)) (length (dss ?e))"
    and n: "unat (r_next r) \<le> length (dss ?e)"
    using cur by (auto simp: cursor_def Let_def)
  have rb: "rows_between (dss lat @ xs) m (length (dss lat @ xs)) = rows_between (dss lat) m (length (dss lat)) @ concat xs"
    if "m \<le> length (dss lat)" for m
    using that by (simp add: rows_between_def)
  have "k \<le> length (concat (?dss ?e)) \<and> drop k (concat (?dss ?e)) =
      drop (r_idx r) (batch r) @ rows_between (?dss ?e) (unat (r_next r)) (length (?dss ?e))"
    using k n rb by (cases "?e = lat") auto
  moreover have "j = offset ?dss ?e + k" using k(2) ep offset_upd [of ?e lat dss] order_trans [of ?e "latest r" lat] by auto
  moreover have "?e < latest r \<Longrightarrow> (Ls(lat := L)) ?e = Ls ?e" using ep by (auto simp: less_le_trans)
  moreover have "1 < latest r \<Longrightarrow> (Ls(lat := L)) 1 = Ls 1" using ep by (auto dest: less_le_trans)
  moreover have "unat (r_next r) \<le> length (?dss ?e)" using n by auto
  moreover have C: "snapshot v (r_path r) ?e (dss ?e) (r_logRoot r)" "?e < latest r \<Longrightarrow> r_logRoot r = Ls ?e"
      "snapshot v (r_path r) 1 (dss 1) (epoch1Log r)" "1 < latest r \<Longrightarrow> epoch1Log r = Ls 1"
    using cur by (auto simp: cursor_def Let_def)
  ultimately show ?thesis
    unfolding cursor_def Let_def using ep snap [OF C(1)] snap [OF C(3)] by (metis (no_types, lifting))
qed

lemma runs_covering_unique:
  "runs p e ds a rs b \<Longrightarrow> ref \<in> set rs \<Longrightarrow> FirstDelta ref \<le> n \<Longrightarrow> n \<le> LastDelta ref \<Longrightarrow> sealedCovering_in rs n = Some ref"
proof (induction rs arbitrary: a)
  case (Cons x rs)
  have "LastDelta x < FirstDelta ref" if "ref \<in> set rs"
    using runs_ref [of p e ds "Suc (unat (LastDelta x))" rs b ref] Cons.prems(1) that by (auto simp: word_less_nat_alt)
  then show ?case using Cons by (cases "ref = x") (auto simp: not_le dest: less_le_trans)
qed simp

lemma AppendGroup_grows:
  assumes S: "store_contract S view I" and i: "I (objs W)" and t: "track_holds (view (objs W)) p lat dss Ls"
    and wi: "writer_inv (view (objs W)) w (dss lat)" and w: "w_path w = p" "w_epoch w = lat"
    and meta: "meta_ok meta payload" and room: "int (Suc (length (concat (dss lat)))) \<le> MaxInt64"
    and run: "AppendGroup S c N meta payload w W = ((g, err), w', W')"
  shows "I (objs W') \<and> written p lat (view (objs W)) (view (objs W')) \<and>
    (\<exists>xs L. track_holds (view (objs W')) p lat (dss(lat := dss lat @ xs)) (Ls(lat := L)) \<and>
      (xs = [] \<and> err \<noteq> None \<or> (\<exists>row. xs = [[row]] \<and> (err = None \<longrightarrow> row = g))))"
proof -
  have start: "store_contract.within view I (w_path w) (w_epoch w) (view (objs W)) (objs W)"
    using i by (simp add: store_contract.within_def [OF S])
  have fr: "I (objs W')" "written p lat (view (objs W)) (view (objs W'))"
    using store_contract.AppendGroup_within [OF S run start] w by (auto simp: store_contract.within_def [OF S])
  have ok: "\<exists>L ver. log_inv (view (objs W')) p lat ds L ver" if "writer_inv (view (objs W')) w' ds" "same_writer w w'" for ds
    using that w synced_log [of "view (objs W')" w' ds] by (auto simp: writer_inv_def same_writer_def split: if_splits)
  have go: ?thesis if wi': "writer_inv (view (objs W')) w' (dss lat @ xs)" "same_writer w w'"
      and xs: "xs = [] \<and> err \<noteq> None \<or> xs = [[row]] \<and> (err = None \<longrightarrow> row = g)" for xs row
    using ok [OF wi'] track_holds_written [OF t fr(2)] fr xs by blast
  from store_contract.AppendGroup_keeps [OF S run i wi meta room] show ?thesis using go [of "[]"] go [of "[[_]]"] by auto
qed

section \<open>A refresh that fails half way\<close>

text \<open>
  \<open>Refresh\<close> takes the new latest epoch before it reads the log root again. When that read fails the reader
  holds an old log root in an epoch it no longer takes for the latest.
\<close>

lemma refresh_fails_half_way:
  assumes "fetchTrackRoot S c (r_path r) s = (Inr (root, ver), s1)" "fetchEpochLog S c (r_path r) (r_epoch r) s1 = (Inl err, s2)"
  shows "Refresh S c r s = (Some err, r\<lparr>latest := LatestEpoch root\<rparr>, s2)"
  using assms by (simp add: Refresh_def)

text \<open>
  Such a reader takes a delta that was sealed and reclaimed since for the end of its epoch, and goes on with the
  next epoch: the rows of the run are never read.
\<close>

lemma old_log_root_ends_the_epoch:
  assumes S: "reliable_store S view I" and i: "I s" and li: "log_inv (view s) (r_path r) (r_epoch r) ds L u"
    and gone: "r_next r < OpenFrom L" "view s (deltaKey (r_path r) (r_epoch r) (r_next r)) = None"
    and old: "OpenFrom (r_logRoot r) \<le> r_next r" "\<not> r_idx r < length (batch r)" "r_epoch r < latest r"
  shows "rows_between ds (unat (r_next r)) (length ds) \<noteq> []"
    and "\<exists>s1. I s1 \<and> view s1 = view s \<and> Next S Live (Suc N) r s =
      (case loadEpoch S Live (r_epoch r + 1) r s1 of (Some err, r1, s2) \<Rightarrow> (Inl err, r1, s2) | (None, r1, s2) \<Rightarrow> Next S Live N r1 s2)"
proof -
  show "rows_between ds (unat (r_next r)) (length ds) \<noteq> []"
    by (rule rows_between_nonempty) (use gone(1) log_invD(3,10) [OF li] in \<open>auto simp: word_less_nat_alt\<close>)
  obtain s1 where "delta S Live (r_path r) (r_epoch r) (r_next r) s = (Inl [ErrNotCommitted], s1)" "I s1" "view s1 = view s"
    using reliable_store.delta_absent_Live [OF S i gone(2)] by auto
  then show "\<exists>s1. I s1 \<and> view s1 = view s \<and> Next S Live (Suc N) r s =
      (case loadEpoch S Live (r_epoch r + 1) r s1 of (Some err, r1, s2) \<Rightarrow> (Inl err, r1, s2) | (None, r1, s2) \<Rightarrow> Next S Live N r1 s2)"
    using old by (subst Next_Suc) auto
qed

section \<open>The properties\<close>

text \<open>
  C4. \<open>Next\<close> skips nothing: on any store that keeps the contract, a call by a reader in step with the track
  (\<open>cursor\<close>: in an epoch before the latest it knows of it holds that epoch's log root, in the latest one that
  or an older one) returns the committed row at the reader's position or before it, and the reader then stands
  right after that row, in step again. It is exactly the row at the position unless the next delta lies inside a
  run sealed since the reader last read the log. With \<open>EOF\<close> the reader stays in step and does not move on. After
  any other error it stands where it stood, with the latest epoch it knew before: a refresh that failed half way
  may have given it a newer one without the log root that goes with it, and such a reader is out of step
  (\<open>old_log_root_ends_the_epoch\<close>). The store is not changed.
\<close>

theorem next_skips_nothing:
  assumes S: "store_contract S view I" and "I s" and "track_holds (view s) (r_path r) lat dss Ls"
    and "cursor (view s) lat dss Ls r j" and "Next S c N r s = (x, r', s')"
  shows "I s' \<and> view s' = view s \<and> (\<exists>i\<le>j. (at_edge r \<longrightarrow> i = j) \<and>
    (\<forall>g. x = Inr g \<longrightarrow> i < length (track_rows dss lat) \<and> g = track_rows dss lat ! i \<and>
       cursor (view s) lat dss Ls r' (Suc i) \<and> Position r' = ID g) \<and>
    (\<forall>err. x = Inl err \<longrightarrow> cursor (view s) lat dss Ls (r'\<lparr>latest := latest r\<rparr>) i \<and>
       (errors_Is err EOF \<longrightarrow> cursor (view s) lat dss Ls r' i)))"
proof -
  have r: "store_contract.reads view I s s'" and p: "next_post (view s) lat dss Ls r j x r'"
    using store_contract.Next_reads [OF S, of c N lat dss Ls] assms(2-5)
    unfolding store_contract.next_loop_def [OF S] by blast+
  obtain i where i: "i \<le> j" "at_edge r \<longrightarrow> i = j" "next_at (view s) lat dss Ls (latest r) x r' i"
    using p unfolding next_post_def by blast
  have "\<forall>g. x = Inr g \<longrightarrow> i < length (track_rows dss lat) \<and> g = track_rows dss lat ! i \<and>
      cursor (view s) lat dss Ls r' (Suc i) \<and> Position r' = ID g"
    and "\<forall>err. x = Inl err \<longrightarrow> cursor (view s) lat dss Ls (r'\<lparr>latest := latest r\<rparr>) i \<and>
       (errors_Is err EOF \<longrightarrow> cursor (view s) lat dss Ls r' i)"
    using i(3) by (auto simp: next_at_def Position_def)
  then show ?thesis using r i(1,2) unfolding store_contract.reads_def [OF S] by blast
qed

definition sample_reader :: "epochLogRoot \<Rightarrow> Reader" where
  "sample_reader L = demo_reader\<lparr>epoch1Log := L, r_logRoot := L\<rparr>"

lemma sample_reader_at:
  assumes "track_holds v ''cam'' 1 (\<lambda>_. ds) (\<lambda>_. L)" and "unat n \<le> length ds"
  shows "cursor v 1 (\<lambda>_. ds) (\<lambda>_. L) ((sample_reader L)\<lparr>r_next := n\<rparr>) (length (rows_between ds 0 (unat n)))"
proof -
  obtain ver where "log_inv v ''cam'' 1 ds L ver" using assms(1) logs_holdD [of v "''cam''" 1 "\<lambda>_. ds" "\<lambda>_. L" 1] by (auto simp: track_holds_def)
  then show ?thesis
    using log_inv_snapshot assms(2) length_rows_before [OF assms(2)] rows_between_drop [OF assms(2)]
    by (auto simp: cursor_def sample_reader_def demo_reader_def)
qed

theorem next_skips_nothing_witness:
  "\<exists>s x r' s'. mem_view s = sealed_view \<and> Next mem_store Live 3 (sample_reader sealed_log) s = (x, r', s') \<and>
    (\<forall>g. x = Inr g \<longrightarrow> g = sample_row 0 \<and> Position r' = ID (sample_row 0))"
proof -
  obtain s where s: "mem_inv s" "mem_view s = sealed_view" using view_state(2) by blast
  let ?r = "(sample_reader sealed_log)\<lparr>r_next := 0\<rparr>"
  have r: "?r = sample_reader sealed_log" "r_path ?r = ''cam''" "at_edge ?r"
    by (simp_all add: sample_reader_def demo_reader_def at_edge_def)
  have c: "cursor (mem_view s) 1 (\<lambda>_. sample_ds) (\<lambda>_. sealed_log) ?r 0"
    using sample_reader_at [OF sample_track_holds(2), of 0] s(2) by simp
  have t: "track_holds (mem_view s) (r_path ?r) 1 (\<lambda>_. sample_ds) (\<lambda>_. sealed_log)" using sample_track_holds(2) r(2) s(2) by simp
  obtain x r' s' where n: "Next mem_store Live 3 ?r s = (x, r', s')" using prod_cases3 by blast
  have "\<forall>g. x = Inr g \<longrightarrow> g = track_rows (\<lambda>_. sample_ds) 1 ! 0 \<and> Position r' = ID g"
    using next_skips_nothing [OF mem.store_contract_axioms s(1) t c n] r(3) by blast
  then have "\<forall>g. x = Inr g \<longrightarrow> g = sample_row 0 \<and> Position r' = ID (sample_row 0)" by simp
  then show ?thesis using s(2) n unfolding r(1) by blast
qed

text \<open>
  C5. A reader drains the track: on a store that answers, a reader opened on a track whose root its
  handle knows yields the rows of all epochs, each once and in commit order, and then \<open>EOF\<close>. The fuel
  is one turn per epoch and two more.
\<close>

theorem reader_drains_the_track:
  assumes S: "reliable_store S view I" and i: "I s" and t: "track_holds (view s) (t_path t) lat dss Ls"
    and l: "LatestEpoch (t_root t) = lat" and N: "unat lat + 2 \<le> N" "length (track_rows dss lat) < M"
  shows "\<exists>r s1 r' s'. Reader_Track S Live t s = (Inr r, s1) \<and>
    drain S Live N M r s1 = (track_rows dss lat, Some [EOF], r', s')"
proof -
  note C = reliable_store.axioms(1) [OF S]
  have "LatestEpoch (t_root t) \<noteq> 0" using t l by (auto simp: track_holds_def)
  then obtain r s1 where r: "Reader_Track S Live t s = (Inr r, s1)" using reliable_store.Reader_Track_Live [OF S i t] by blast
  from store_contract.Reader_Track_opens [OF C r i t] l
  have o: "I s1" "view s1 = view s" "cursor (view s) lat dss Ls r 0" "r_path r = t_path t" "latest r = lat"
    "r_logRoot r = Ls (r_epoch r)" "at_edge r"
    by (auto simp: store_contract.reads_def [OF C])
  have "\<exists>r' s'. drain S Live N M r s1 = (drop 0 (track_rows dss lat), Some [EOF], r', s')"
    by (rule reliable_store.drain_all [OF S o(1)]) (use o t N in simp_all)
  then show ?thesis using r by simp
qed

theorem reader_drains_the_track_witness:
  "\<exists>s r s1 r' s'. mem_view s = sealed_view \<and> Reader_Track mem_store Live demo_track s = (Inr r, s1) \<and>
    drain mem_store Live 3 3 r s1 = ([sample_row 0, sample_row 1], Some [EOF], r', s')"
proof -
  obtain s where s: "mem_inv s" "mem_view s = sealed_view" using view_state(2) by blast
  have t: "track_holds (mem_view s) (t_path demo_track) 1 (\<lambda>_. sample_ds) (\<lambda>_. sealed_log)" using sample_track_holds(2) s(2) by simp
  have "LatestEpoch (t_root demo_track) = 1" by (simp add: demo_root_def new_root_def)
  from reader_drains_the_track [OF mem.reliable_store_axioms s(1) t this, of 3 3] show ?thesis using s(2) by auto
qed

text \<open>
  C6. Readers and the writer compose: while a writer of the latest epoch appends, sealing or failing as
  it may, on any store, a reader keeps its position, and the rows of the track are the same as before or
  gain the appended one at the end. What the reader returns next is then a row of the longer track.
\<close>

theorem reader_keeps_its_place:
  assumes S: "store_contract S view I" and i: "I (objs W)" and t: "track_holds (view (objs W)) (r_path r) lat dss Ls"
    and cur: "cursor (view (objs W)) lat dss Ls r j"
    and wi: "writer_inv (view (objs W)) w (dss lat)" and w: "w_path w = r_path r" "w_epoch w = lat"
    and meta: "meta_ok meta payload" and room: "int (Suc (length (concat (dss lat)))) \<le> MaxInt64"
    and run: "AppendGroup S c N meta payload w W = ((g, err), w', W')"
  shows "\<exists>dss' Ls'. track_holds (view (objs W')) (r_path r) lat dss' Ls' \<and> cursor (view (objs W')) lat dss' Ls' r j \<and>
    (track_rows dss' lat = track_rows dss lat \<and> err \<noteq> None \<or>
     (\<exists>row. track_rows dss' lat = track_rows dss lat @ [row] \<and> (err = None \<longrightarrow> row = g)))"
proof -
  obtain xs L where g: "written (r_path r) lat (view (objs W)) (view (objs W'))"
    "track_holds (view (objs W')) (r_path r) lat (dss(lat := dss lat @ xs)) (Ls(lat := L))"
    "xs = [] \<and> err \<noteq> None \<or> (\<exists>row. xs = [[row]] \<and> (err = None \<longrightarrow> row = g))"
    using AppendGroup_grows [OF S i t wi w meta room run] by blast
  have "lat \<noteq> 0" using t by (auto simp: track_holds_def)
  then have "track_rows (dss(lat := dss lat @ xs)) lat = track_rows dss lat @ concat xs" by (rule track_rows_grow)
  then show ?thesis using g(2,3) cursor_grows [OF cur g(1), of xs L] by (metis append_Nil2 concat.simps(1) concat.simps(2))
qed

theorem reader_keeps_its_place_witness:
  "\<exists>r g err w' W' dss' Ls'. AppendGroup mem_store Live 1 demo_meta ''data'' demo_writer demo_log_world = ((g, err), w', W') \<and>
    cursor (mem_view (objs W')) 1 dss' Ls' r 0 \<and> (err = None \<longrightarrow> track_rows dss' 1 = [g])"
proof -
  note d = demo_writer_inv
  let ?L = "logRoot demo_writer"
  have li: "log_inv (mem_view (objs demo_log_world)) ''cam'' 1 [] ?L (logVersion demo_writer)"
    using d(2-5) by (simp add: writer_inv_def synced_def)
  then have t: "track_holds (mem_view (objs demo_log_world)) ''cam'' 1 (\<lambda>_. []) (\<lambda>_. ?L)"
    using demo_log_root_at log_inv_logs_hold by (auto simp: track_holds_def)
  let ?r = "(sample_reader ?L)\<lparr>r_next := 0\<rparr>"
  have r: "r_path ?r = ''cam''" by (simp add: sample_reader_def demo_reader_def)
  have c: "cursor (mem_view (objs demo_log_world)) 1 (\<lambda>_. []) (\<lambda>_. ?L) ?r 0" using sample_reader_at [OF t, of 0] by simp
  obtain g err w' W' where a: "AppendGroup mem_store Live 1 demo_meta ''data'' demo_writer demo_log_world = ((g, err), w', W')"
    by (metis surj_pair)
  have "track_rows (\<lambda>_. []) 1 = []" by (simp add: track_rows_def)
  then show ?thesis
    using reader_keeps_its_place [OF mem.store_contract_axioms d(1) _ c _ _ _ demo_meta_ok(1) _ a] t r d(2,4,5) a
    by (auto simp: i64_bounds)
qed

text \<open>
  C31. A reader that lags behind a seal gets groups again: when its batch is read and its next delta lies inside
  a run the log root it has refreshed to covers, though not at the run's start, \<open>Next\<close> returns the first row of
  the run, which stands before the reader's position, and the reader goes on from there.
\<close>

theorem lagging_reader_rereads_the_run:
  assumes S: "reliable_store S view I" and i: "I s" and t: "track_holds (view s) (r_path r) lat dss Ls"
    and cur: "cursor (view s) lat dss Ls r j" and L: "r_logRoot r = Ls (r_epoch r)" and ex: "\<not> r_idx r < length (batch r)"
    and ref: "ref \<in> set (Sealed (r_logRoot r))" "FirstDelta ref < r_next r" "r_next r \<le> LastDelta ref"
  shows "\<exists>k<j. k = offset dss (r_epoch r) + length (rows_between (dss (r_epoch r)) 0 (unat (FirstDelta ref))) \<and>
    track_rows dss lat ! k = run_rows (dss (r_epoch r)) ref ! 0 \<and>
    (\<exists>r' s'. Next S Live (Suc (Suc N)) r s = (Inr (track_rows dss lat ! k), r', s') \<and> cursor (view s) lat dss Ls r' (Suc k))"
proof -
  let ?ds = "dss (r_epoch r)" and ?F = "unat (FirstDelta ref)"
  have "1 \<le> r_epoch r" "r_epoch r \<le> lat" using cursor_epochs [OF cur] order_trans by blast+
  then obtain u where li: "log_inv (view s) (r_path r) (r_epoch r) ?ds (Ls (r_epoch r)) u"
    using t logs_holdD by (fastforce simp: track_holds_def)
  have runs: "runs (r_path r) (r_epoch r) ?ds 0 (Sealed (r_logRoot r)) (unat (OpenFrom (r_logRoot r)))"
    using log_invD(4) [OF li] L by simp
  note rr = runs_ref [OF runs ref(1)]
  have lt: "r_next r < OpenFrom (r_logRoot r)" using ref(3) rr by (auto simp: word_le_nat_alt word_less_nat_alt)
  have cov: "sealedCovering (r_logRoot r) (r_next r) = Some ref"
    unfolding sealedCovering_def by (rule runs_covering_unique [OF runs ref(1)]) (use ref in auto)
  obtain M s1 where m: "sealed S Live (r_path r) (r_epoch r) ref s = (Inr M, s1)" "sm_Groups M = run_rows ?ds ref"
    using reliable_store.sealed_Live [OF S i li log_inv_snapshot [OF li], of ref] ref(1) L by auto
  let ?r = "r\<lparr>batch := sm_Groups M, r_idx := 0, r_next := LastDelta ref + 1, misses := 0\<rparr>"
  let ?k = "offset dss (r_epoch r) + length (rows_between ?ds 0 ?F)"
  have l1: "unat (LastDelta ref + 1) = Suc (unat (LastDelta ref))" using word_next rr log_inv_length [OF li] by blast
  have c1: "cursor (view s) lat dss Ls ?r ?k"
    by (rule cursor_segment [OF cur _ l1]) (use rr m(2) in \<open>auto simp: run_rows_def word_le_nat_alt\<close>)
  have ne: "run_rows ?ds ref \<noteq> []" using run_rows_nonempty [OF runs ref(1) log_invD(10) [OF li]] .
  have "Next S Live (Suc (Suc N)) r s = Next S Live (Suc N) ?r s1"
    using ex lt cov m(1) by (subst Next_Suc) simp
  also have "\<dots> = (Inr (track_rows dss lat ! ?k), ?r\<lparr>r_idx := 1, r_last := ID (track_rows dss lat ! ?k)\<rparr>, s1)"
    using cursor_take(2) [OF c1] ne m(2) by (simp add: Next_Suc Let_def)
  finally have n: "Next S Live (Suc (Suc N)) r s = (Inr (track_rows dss lat ! ?k), ?r\<lparr>r_idx := Suc (r_idx ?r), r_last := ID (track_rows dss lat ! ?k)\<rparr>, s1)"
    by simp
  have "rows_between ?ds 0 (unat (r_next r)) = rows_between ?ds 0 ?F @ rows_between ?ds ?F (unat (r_next r))"
    using rows_between_split [of 0 ?F "unat (r_next r)" ?ds] ref(2) by (simp add: word_less_nat_alt)
  moreover have "rows_between ?ds ?F (unat (r_next r)) \<noteq> []"
    by (rule rows_between_nonempty) (use ref rr log_invD(10) [OF li] in \<open>auto simp: word_less_nat_alt word_le_nat_alt\<close>)
  ultimately have "?k < j" using cursor_exhausted [OF cur ex] by simp
  moreover have "cursor (view s) lat dss Ls (?r\<lparr>r_idx := Suc (r_idx ?r), r_last := ID (track_rows dss lat ! ?k)\<rparr>) (Suc ?k)"
    by (rule cursor_take(3) [OF c1]) (use ne m(2) in simp)
  moreover have "track_rows dss lat ! ?k = run_rows ?ds ref ! 0" using cursor_take(2) [OF c1] ne m(2) by simp
  ultimately show ?thesis using n by blast
qed

theorem lagging_reader_rereads_the_run_witness:
  "\<exists>s r' s'. mem_view s = sealed_view \<and>
    cursor (mem_view s) 1 (\<lambda>_. sample_ds) (\<lambda>_. sealed_log) ((sample_reader sealed_log)\<lparr>r_next := 1\<rparr>) 1 \<and>
    Next mem_store Live 2 ((sample_reader sealed_log)\<lparr>r_next := 1\<rparr>) s = (Inr (sample_row 0), r', s')"
proof -
  obtain s where s: "mem_inv s" "mem_view s = sealed_view" using view_state(2) by blast
  let ?r = "(sample_reader sealed_log)\<lparr>r_next := 1\<rparr>" and ?ref = "run_ref ''cam'' 1 0 1 [sample_row 0, sample_row 1]"
  have r: "r_path ?r = ''cam''" "r_logRoot ?r = sealed_log" "\<not> r_idx ?r < length (batch ?r)"
    by (simp_all add: sample_reader_def demo_reader_def)
  have c: "cursor (mem_view s) 1 (\<lambda>_. sample_ds) (\<lambda>_. sealed_log) ?r 1"
    using sample_reader_at [OF sample_track_holds(2), of 1] s(2) by (simp add: rows_between_def sample_ds_def)
  have t: "track_holds (mem_view s) (r_path ?r) 1 (\<lambda>_. sample_ds) (\<lambda>_. sealed_log)" using sample_track_holds(2) r(1) s(2) by simp
  have ref: "?ref \<in> set (Sealed (r_logRoot ?r))" "FirstDelta ?ref < r_next ?r" "r_next ?r \<le> LastDelta ?ref"
    unfolding r(2) by (simp_all add: sealed_log_def)
  obtain k r' s' where "k < 1" "Next mem_store Live (Suc (Suc 0)) ?r s = (Inr (track_rows (\<lambda>_. sample_ds) 1 ! k), r', s')"
    using lagging_reader_rereads_the_run [OF mem.reliable_store_axioms s(1) t c r(2,3) ref, of 0] by blast
  then have "Next mem_store Live 2 ?r s = (Inr (sample_row 0), r', s')" by (simp add: numeral_2_eq_2)
  then show ?thesis using s(2) c by blast
qed

end
