(* ===== verification/Ingest_History.thy ===== *)
theory Ingest_History
  imports Ingest_Rows Reader_Before Redact Reader_Props
begin

text \<open>
  What the ingest server's history page shows: an entry for each row of the page \<open>Reader.Before\<close> returns,
  with the record its payload decodes to or the mark that it was redacted.
\<close>

section \<open>Entries\<close>

definition shows_row :: "codec \<Rightarrow> view \<Rightarrow> GroupInfo \<Rightarrow> historyEntry \<Rightarrow> bool" where
  "shows_row J v g x \<longleftrightarrow> he_Group x = String_GroupID (ID g) \<and> he_Wallclock x = Wallclock g \<and>
     (if he_Redacted x then v (ObjectKey g) = None \<and> (\<exists>m. redactedKey (ObjectKey g) = Some m \<and> v m \<noteq> None)
      else \<exists>d u. v (ObjectKey g) = Some (d, u) \<and> Unmarshal J d = Inr (he_Record x))"

lemma shows_row_redacted:
  "v (ObjectKey g) = None \<Longrightarrow> redactedKey (ObjectKey g) = Some m \<Longrightarrow> v m = Some z \<Longrightarrow>
    shows_row J v g \<lparr>he_Group = String_GroupID (ID g), he_Wallclock = Wallclock g, he_Redacted = True, he_Record = zero_Record\<rparr>"
  by (simp add: shows_row_def)

lemma shows_row_record:
  "v (ObjectKey g) = Some (d, u) \<Longrightarrow> Unmarshal J d = Inr rec \<Longrightarrow>
    shows_row J v g \<lparr>he_Group = String_GroupID (ID g), he_Wallclock = Wallclock g, he_Redacted = False, he_Record = rec\<rparr>"
  by (simp add: shows_row_def)

text \<open>A row whose entry can be made: its payload is held and decodes, or it is gone and the row's marker is there.\<close>

definition readable :: "codec \<Rightarrow> view \<Rightarrow> GroupInfo \<Rightarrow> bool" where
  "readable J v g \<longleftrightarrow>
     (case v (ObjectKey g) of
        Some (d, _) \<Rightarrow> \<not> isl (Unmarshal J d)
      | None \<Rightarrow> (case redactedKey (ObjectKey g) of None \<Rightarrow> False | Some m \<Rightarrow> v m \<noteq> None))"

definition history_page :: "(u64 \<Rightarrow> GroupInfo list list) \<Rightarrow> u64 \<Rightarrow> GroupID \<Rightarrow> int \<Rightarrow> GroupInfo list" where
  "history_page dss lat k n = rev (take (nat n) (rev (filter (earlier k) (track_rows dss lat))))"

context store_contract
begin

lemma markerExists_reads:
  assumes "markerExists S c m s = (x, s')" and "inv s"
  shows "reads s s' \<and> (x = Inr True \<longrightarrow> view s m \<noteq> None) \<and> (\<forall>e. x = Inl e \<longrightarrow> \<not> errors_Is e ErrGroupRedacted)"
proof -
  obtain y s1 where g: "Get S c m s = (y, s1)" by fastforce
  have v: "inv s1" "view s1 = view s" using get_view [OF assms(2) g] by auto
  have e: "y = Inl err \<Longrightarrow> \<not> errors_Is err ErrGroupRedacted" for err
    using get_Inl [OF assms(2), of c m err s1] g by (auto simp: store_error_def errors_Is_def)
  have p: "y = Inr z \<Longrightarrow> view s m \<noteq> None" for z using get_Inr [OF assms(2)] g by (cases z) auto
  show ?thesis
    using assms(1) g v e p by (cases y) (auto simp: markerExists_def reads_def split: if_splits)
qed

lemma ReadGroup_reads:
  assumes "ReadGroup S c k s = (x, s')" and "inv s"
  shows "reads s s' \<and> (\<forall>d. x = Inr d \<longrightarrow> (\<exists>u. view s k = Some (d, u))) \<and>
    (\<forall>e. x = Inl e \<and> errors_Is e ErrGroupRedacted \<longrightarrow> view s k = None \<and> (\<exists>m. redactedKey k = Some m \<and> view s m \<noteq> None))"
proof -
  obtain y s1 where g: "Get S c k s = (y, s1)" by fastforce
  have v: "inv s1" "view s1 = view s" using get_view [OF assms(2) g] by auto
  show ?thesis
  proof (cases y)
    case (Inr z)
    obtain d u where z: "z = (d, u)" by fastforce
    have "view s k = Some (d, u)" using get_Inr [OF assms(2)] g Inr z by auto
    then show ?thesis using assms(1) g Inr z v by (auto simp: ReadGroup_def reads_def)
  next
    case (Inl err)
    then have e: "store_error err" "errors_Is err ErrNotExist \<longrightarrow> view s k = None" using get_Inl [OF assms(2)] g by auto
    then have nr: "\<not> errors_Is err ErrGroupRedacted" by (auto simp: store_error_def errors_Is_def)
    show ?thesis
    proof (cases "errors_Is err ErrNotExist \<and> redactedKey k \<noteq> None")
      case True
      then obtain m where m: "redactedKey k = Some m" by blast
      obtain b s2 where mk: "markerExists S c m s1 = (b, s2)" by fastforce
      show ?thesis
        using assms(1) g Inl True m mk e nr v markerExists_reads [OF mk v(1)]
        by (auto simp: ReadGroup_def reads_def split: sum.splits if_splits)
    next
      case False
      then show ?thesis using assms(1) g Inl nr v by (auto simp: ReadGroup_def reads_def split: if_splits option.splits)
    qed
  qed
qed

lemma history_entries_reads:
  assumes "history_entries J S c gs s = (x, s')" and "inv s"
  shows "reads s s' \<and> (\<forall>es. x = Inr es \<longrightarrow> list_all2 (shows_row J (view s)) gs es)"
  using assms
proof (induction gs arbitrary: s x s')
  case Nil
  then show ?case by (auto simp: reads_def)
next
  case (Cons g gs)
  obtain y s1 where r: "ReadGroup S c (ObjectKey g) s = (y, s1)" by fastforce
  note k = ReadGroup_reads [OF r Cons.prems(2)]
  then have v: "inv s1" "view s1 = view s" by (auto simp: reads_def)
  obtain z s2 where h: "history_entries J S c gs s1 = (z, s2)" by fastforce
  note ih = Cons.IH [OF h v(1)]
  show ?case
    using Cons.prems(1) r h k ih v
    by (cases y; cases z) (auto simp: reads_def Let_def shows_row_redacted shows_row_record split: if_splits sum.splits)
qed

text \<open>A request that reads leaves the store as it is, and a page it answers shows the rows.\<close>

lemma openReader_reads:
  assumes o: "openReader S clk rq t h s = (x, s')" and i: "inv s" and R: "root_at (view s) (Path_ingest t) R ver"
    and logs: "logs_hold (view s) (Path_ingest t) (LatestEpoch R) dss Ls"
  shows "reads s s' \<and> (\<forall>lt r. x = Inr (lt, r) \<longrightarrow> r_path r = Path_ingest t \<and> latest r = LatestEpoch R) \<and>
    (\<forall>rep. x = Inl rep \<longrightarrow> Status rep \<noteq> 200)"
proof -
  obtain y s1 where op: "Open_Track S clk (rq_ctx rq) (Path_ingest t) (op_Config (opts h)) s = (y, s1)" by fastforce
  note k = Open_Track_reads [OF op i]
  show ?thesis
  proof (cases y)
    case (Inl e)
    then show ?thesis using o op k by (auto simp: openReader_def reads_def answer_def internalError_def split: if_splits)
  next
    case (Inr lt)
    note lt = k(2) [OF Inr R]
    obtain z s2 where rt: "Reader_Track S (rq_ctx rq) lt s1 = (z, s2)" by fastforce
    obtain w s3 where f: "fetchEpochLog S (rq_ctx rq) (t_path lt) 1 s1 = (w, s3)" by fastforce
    have v: "inv s1" "view s1 = view s" "inv s3" "view s3 = view s1" using k(1) fetchEpochLog_view [OF f] by auto
    have "reads s s2 \<and> (\<forall>r. z = Inr r \<longrightarrow> r_path r = t_path lt \<and> latest r = LatestEpoch (t_root lt))"
      using rt f v by (auto simp: Reader_Track_def loadEpoch_def reads_def Let_def split: if_splits sum.splits prod.splits)
    then show ?thesis
      using o op Inr rt lt by (cases z) (auto simp: openReader_def internalError_def answer_def)
  qed
qed

lemma serveHistory_shows:
  assumes r: "serveHistory J S clk N rq h W = (rep, h', W')" and i: "inv (objs W)"
    and t: "resolve_request h rq ReadAccess = Inr (t, sender)" and R: "root_at (view (objs W)) (Path_ingest t) R ver"
    and logs: "logs_hold (view (objs W)) (Path_ingest t) (LatestEpoch R) dss Ls"
    and asc: "\<forall>e\<in>set (epochs (LatestEpoch R)). ascending (concat (dss e))"
  shows "view (objs W') = view (objs W) \<and> (Status rep = 200 \<longrightarrow>
    (\<exists>n k es. page_limit (rq_query rq) = Some n \<and> ParseGroupID (values_Get (rq_query rq) ''before'') = Inr k \<and>
      list_all2 (shows_row J (view (objs W))) (history_page dss (LatestEpoch R) k n) es \<and>
      rep = answer 200 (HistoryBody \<lparr>Records = es, hr_Before = (if int (length (history_page dss (LatestEpoch R) k n)) = n
        then String_GroupID (ID (hd (history_page dss (LatestEpoch R) k n))) else '''')\<rparr>)))"
proof (cases "\<exists>n k. page_limit (rq_query rq) = Some n \<and> ParseGroupID (values_Get (rq_query rq) ''before'') = Inr k")
  case False
  then show ?thesis
    using r t by (auto simp: serveHistory_def answer_def split: option.splits sum.splits)
next
  case True
  then obtain n k where nk: "page_limit (rq_query rq) = Some n" "ParseGroupID (values_Get (rq_query rq) ''before'') = Inr k" by blast
  obtain x s1 where o: "openReader S clk rq t h (objs W) = (x, s1)" by fastforce
  note ok = openReader_reads [OF o i R logs]
  then have v1: "inv s1" "view s1 = view (objs W)" by (auto simp: reads_def)
  show ?thesis
  proof (cases x)
    case (Inl e)
    then show ?thesis using r t nk o ok v1 by (auto simp: serveHistory_def on_store_def)
  next
    case x: (Inr z)
    obtain lt rd where z: "z = (lt, rd)" by fastforce
    then have rd: "r_path rd = Path_ingest t" "latest rd = LatestEpoch R" using ok x by auto
    obtain y s2 where b: "Before S (rq_ctx rq) N rd k n s1 = (y, s2)" by fastforce
    have "reads s1 s2 \<and> (\<forall>gs. y = Inr gs \<longrightarrow> gs = history_page dss (LatestEpoch R) k n)"
      using Before_page [OF b v1(1), of dss Ls] rd logs asc v1(2) by (simp add: history_page_def)
    then have v2: "inv s2" "view s2 = view (objs W)" and page: "y = Inr gs \<Longrightarrow> gs = history_page dss (LatestEpoch R) k n" for gs
      using v1 by (auto simp: reads_def)
    show ?thesis
    proof (cases y)
      case (Inl e)
      then show ?thesis using r t nk o x z b v2 by (auto simp: serveHistory_def on_store_def internalError_def answer_def)
    next
      case gs: (Inr gs)
      obtain w s3 where e: "history_entries J S (rq_ctx rq) gs s2 = (w, s3)" by fastforce
      note en = history_entries_reads [OF e v2(1)]
      show ?thesis
        using r t nk o x z b gs e en v2 page [OF gs]
        by (cases w) (auto simp: serveHistory_def on_store_def internalError_def answer_def reads_def now_def)
    qed
  qed
qed

end

context reliable_store
begin

lemma ReadGroup_readable:
  assumes "inv s" and "readable J (view s) g"
  shows "(\<exists>d s'. ReadGroup S Live (ObjectKey g) s = (Inr d, s') \<and> \<not> isl (Unmarshal J d)) \<or>
    (\<exists>s'. ReadGroup S Live (ObjectKey g) s = (Inl [ErrGroupRedacted], s'))"
proof (cases "view s (ObjectKey g)")
  case None
  then show ?thesis using assms ReadGroup_redacted [OF assms(1) None] by (auto simp: readable_def split: option.splits)
next
  case (Some du)
  obtain d u where du: "du = (d, u)" by fastforce
  then have v: "view s (ObjectKey g) = Some (d, u)" using Some by simp
  obtain s1 where "Get S Live (ObjectKey g) s = (Inr (d, u), s1)" using Get_present_Live [OF assms(1) v] .
  then show ?thesis using assms(2) v by (simp add: ReadGroup_def readable_def)
qed

lemma history_entries_Live:
  assumes "inv s" and "\<forall>g\<in>set gs. readable J (view s) g"
  shows "\<exists>es s'. history_entries J S Live gs s = (Inr es, s')"
  using assms
proof (induction gs arbitrary: s)
  case (Cons g gs)
  obtain y s1 where r: "ReadGroup S Live (ObjectKey g) s = (y, s1)" by fastforce
  then have "inv s1" "view s1 = view s" using ReadGroup_reads [OF r Cons.prems(1)] by (auto simp: reads_def)
  with Cons obtain es s' where "history_entries J S Live gs s1 = (Inr es, s')" by fastforce
  then show ?case
    using r ReadGroup_readable [OF Cons.prems(1), of J g] Cons.prems(2)
    by (auto simp: errors_Is_def split: sum.splits)
qed simp

lemma serveHistory_answers:
  assumes i: "inv (objs W)" and t: "resolve_request h rq ReadAccess = Inr (t, sender)"
    and rq: "rq_ctx rq = Live" "page_limit (rq_query rq) = Some n" "ParseGroupID (values_Get (rq_query rq) ''before'') = Inr k"
    and p: "validate_TrackPath (Path_ingest t) = None" and th: "track_holds (view (objs W)) (Path_ingest t) lat dss Ls"
    and asc: "\<forall>e\<in>set (epochs lat). ascending (concat (dss e))" and N: "\<forall>e\<in>set (epochs lat). length (dss e) < N"
    and rec: "\<forall>g\<in>set (history_page dss lat k n). readable J (view (objs W)) g"
  shows "Status (fst (serveHistory J S clk N rq h W)) = 200"
proof -
  obtain R ver where R: "root_at (view (objs W)) (Path_ingest t) R ver" "LatestEpoch R = lat" "1 \<le> lat"
    and logs: "logs_hold (view (objs W)) (Path_ingest t) (LatestEpoch R) dss Ls" using th by (auto simp: track_holds_def)
  obtain s1 where f: "fetchTrackRoot S Live (Path_ingest t) (objs W) = (Inr (R, ver), s1)" "inv s1" "view s1 = view (objs W)"
    using fetchTrackRoot_Live [OF i R(1)] by blast
  let ?t = "(resolveConfig clk (Path_ingest t) (op_Config (opts h)))\<lparr>t_root := R, t_rootVersion := ver\<rparr>"
  have tp: "t_path ?t = Path_ingest t" by (simp add: resolveConfig_def)
  have "LatestEpoch (t_root ?t) \<noteq> 0" using R by auto
  then obtain rd s2 where rt: "Reader_Track S Live ?t s1 = (Inr rd, s2)"
    using Reader_Track_Live [of s1 ?t lat dss Ls] f th tp by auto
  have o: "openReader S clk rq t h (objs W) = (Inr (?t, rd), s2)"
    using f(1) rt p rq(1) by (simp add: openReader_def Open_Track_def)
  then have v2: "inv s2" "view s2 = view (objs W)" and rd: "r_path rd = Path_ingest t" "latest rd = lat"
    using openReader_reads [OF o i R(1) logs] R(2) by (auto simp: reads_def)
  obtain gs s3 where b: "Before S Live N rd k n s2 = (Inr gs, s3)"
    using Before_ends [of s2 rd dss Ls N k n] v2 rd logs R(2) asc N by auto
  note bp = Before_page [OF b v2(1), of dss Ls]
  have v3: "inv s3" "view s3 = view (objs W)" and gs: "gs = history_page dss lat k n"
    using bp v2 rd logs R(2) asc by (auto simp: reads_def history_page_def)
  have "\<forall>g\<in>set gs. readable J (view s3) g" unfolding v3(2) gs by (rule rec)
  then obtain es s4 where "history_entries J S Live gs s3 = (Inr es, s4)" using history_entries_Live [OF v3(1)] by blast
  with t rq o b show ?thesis by (simp add: serveHistory_def on_store_def answer_def split: prod.splits)
qed

end

end
