(* ===== verification/Ingest_Keys.thy ===== *)
theory Ingest_Keys
  imports Ingest_Rows
begin

text \<open>
  How long the ingest server remembers the reply to an idempotency key: through any further requests, as long as
  the track is not swept away and fewer than 1024 newer keys have come.
\<close>

section \<open>A key among the remembered ones\<close>

text \<open>How many keys of the list are newer than a given one.\<close>

definition newer :: "string \<Rightarrow> string list \<Rightarrow> nat" where
  "newer key ks = length (tl (dropWhile (\<lambda>k. k \<noteq> key) ks))"

lemma newer_split: "key \<notin> set as \<Longrightarrow> newer key (as @ key # bs) = length bs"
  unfolding newer_def by (subst dropWhile_append2) auto

definition holds_reply :: "string \<Rightarrow> recordResponse \<Rightarrow> nat \<Rightarrow> itrack \<Rightarrow> bool" where
  "holds_reply key x n tr \<longleftrightarrow> map_of (replies tr) key = Some x \<and> key \<in> set (it_keys tr) \<and> newer key (it_keys tr) \<le> n"

lemma holds_reply_mono: "holds_reply key x m tr \<Longrightarrow> m \<le> n \<Longrightarrow> holds_reply key x n tr"
  by (auto simp: holds_reply_def)

lemma holds_reply_cong: "replies tr' = replies tr \<Longrightarrow> it_keys tr' = it_keys tr \<Longrightarrow> holds_reply key x n tr' = holds_reply key x n tr"
  by (simp add: holds_reply_def)

lemma holds_reply_remember:
  assumes h: "holds_reply key x n tr" and new: "k \<notin> set (it_keys tr)" and n: "Suc n < idempotencyKeys"
  shows "holds_reply key x (Suc n) (remember k y tr)"
proof -
  obtain as bs where ks: "it_keys tr = as @ key # bs" "key \<notin> set as"
    using h split_list_first [of key "it_keys tr"] by (auto simp: holds_reply_def)
  have bs: "length bs \<le> n" using h ks newer_split by (simp add: holds_reply_def)
  have kk: "k \<noteq> key" using new ks by auto
  show ?thesis
  proof (cases "length (it_keys tr) = idempotencyKeys")
    case False
    have "newer key ((as @ key # bs) @ [k]) = Suc (length bs)" using newer_split [OF ks(2), of "bs @ [k]"] by simp
    then show ?thesis using h False ks bs kk by (simp add: holds_reply_def remember_def update_conv')
  next
    case True
    then have "as \<noteq> []" using ks bs n by auto
    then obtain a as' where as: "as = a # as'" by (cases as) auto
    have "newer key ((as' @ key # bs) @ [k]) = Suc (length bs)" using newer_split [of key as' "bs @ [k]"] ks(2) as by simp
    then show ?thesis using h True ks as bs kk by (auto simp: holds_reply_def remember_def update_conv' delete_conv')
  qed
qed

section \<open>A track through a request\<close>

text \<open>
  The track is open, and no sweep of the next request finds it idle: a request reads the clock at most twice
  before it sweeps.
\<close>

definition in_use :: "clock \<Rightarrow> TrackPath \<Rightarrow> Handler \<Rightarrow> 's world \<Rightarrow> bool" where
  "in_use clk p h W \<longleftrightarrow> (\<exists>tr. map_of (tracks h) p = Some tr \<and> (\<forall>k\<le>2. clk (ticks W + k) - lastUsed tr < idle h))"

text \<open>A record that brings a key to the track.\<close>

definition brings_key :: "TrackPath \<Rightarrow> string \<Rightarrow> ingest_request \<Rightarrow> Handler \<Rightarrow> bool" where
  "brings_key p verb rq h \<longleftrightarrow> verb = ''POST'' \<and> rq_key rq \<noteq> '''' \<and>
     (case resolve_request h rq WriteAccess of Inr (t, _) \<Rightarrow> Path_ingest t = p | Inl _ \<Rightarrow> False)"

lemma open_track_keeps:
  assumes h: "handler_inv u h" and tr: "map_of (tracks h) p = Some tr" and tm: "clk (ticks W) - lastUsed tr < idle h"
    and r: "open_track S clk N c t h W = (x, h1, W1)"
  shows "map_of (tracks h1) p = Some (if Path_ingest t = p then tr\<lparr>users := users tr + 1\<rparr> else tr)"
proof (cases "Path_ingest t = p")
  case True
  then show ?thesis using open_held [OF h, of t tr clk W S N c] tr tm r by auto
next
  case False
  note k = closeIdle_keeps [OF h tr tm]
  show ?thesis using r False k
    by (auto simp: open_track_def now_def Let_def update_track_def update_conv'
      split: option.splits sum.splits prod.splits)
qed

lemma update_track_keeps:
  "map_of (tracks h) p = Some tr \<Longrightarrow> map_of (tracks (update_track k f h)) p = Some (if k = p then f tr else tr)"
  by (auto simp: update_track_def update_conv' split: option.splits)

lemma release_keeps:
  assumes "map_of (tracks h) p = Some tr" and "release clk k h W = (h', W')"
  shows "\<exists>tr'. map_of (tracks h') p = Some tr' \<and> replies tr' = replies tr \<and> it_keys tr' = it_keys tr"
  using assms by (auto simp: release_def now_def update_track_keeps)

lemma ticks_on_store: "on_store f W = (r, W') \<Longrightarrow> ticks W' = ticks W"
  by (auto simp: on_store_def split: prod.splits)

lemma ticks_take_bump:
  assumes "take_bump S c e f t W = (r, t', W')" and "\<And>err V r t' V'. f err V = (r, t', V') \<Longrightarrow> ticks V' = ticks V"
  shows "ticks W' = ticks W"
  using assms by (auto simp: take_bump_def bump_root_def Let_def dest: ticks_on_store split: sum.splits prod.splits)

lemma ticks_advance: "advanceTrackRootLocked S c e t W = (r, t', W') \<Longrightarrow> ticks W' = ticks W"
proof -
  have rf: "ticks V' = ticks V" if "refetch_and_bump S c e t V = (r, t', V')" for V V' r t'
    using that ticks_take_bump [of S c e "\<lambda>err W. (Some (wrap [] err), _, W)"]
    by (auto simp: refetch_and_bump_def Let_def dest!: ticks_on_store split: sum.splits prod.splits if_splits)
  assume "advanceTrackRootLocked S c e t W = (r, t', W')"
  then show ?thesis unfolding advanceTrackRootLocked_def
    by (auto dest!: ticks_take_bump rf split: if_splits)
qed

lemma ticks_Create_Track:
  assumes "Create_Track S clk c p sch cfg W = (x, W')"
  shows "\<exists>k\<le>2. ticks W' = ticks W + k"
proof -
  have cl: "ticks V' = Suc (ticks V)" if "createEpochLog S c 1 t V = (r, t', V')" for t V r t' V'
    using that by (auto simp: createEpochLog_def now_def Let_def dest!: ticks_on_store ticks_advance split: sum.splits prod.splits if_splits)
  have "ticks W' = ticks W \<or> ticks W' = ticks W + 1 \<or> ticks W' = ticks W + 2"
    using assms by (auto simp: Create_Track_def now_def Let_def dest!: ticks_on_store cl split: option.splits sum.splits prod.splits if_splits)
  then show ?thesis by auto
qed

text \<open>The reply of a key through the part of a request under the track's lock.\<close>

lemma record_locked_holds:
  assumes h: "handler_inv u h" "map_of (tracks h) path = Some tr"
    and r: "record_locked S clk N sender key d tr h W = (rep, tr', h', W')"
    and k: "holds_reply k0 x n tr" and n: "key \<noteq> '''' \<longrightarrow> Suc n < idempotencyKeys"
  shows "holds_reply k0 x (if key \<noteq> '''' then Suc n else n) tr'"
proof (cases "key \<noteq> '''' \<and> map_of (replies tr) key \<noteq> None")
  case True
  then have "tr' = tr" using r by (auto simp: record_locked_def)
  then show ?thesis using k by (auto intro: holds_reply_mono)
next
  case False
  obtain w b bs where ad: "admit (TrackLimit (opts h)) (SenderLimit (opts h)) (clk (ticks W)) sender (it_limit tr) (senders tr) = (w, b, bs)"
    by (metis prod_cases3)
  let ?W = "W\<lparr>ticks := Suc (ticks W)\<rparr>" and ?tr = "tr\<lparr>it_limit := b, senders := bs\<rparr>"
  obtain g err tr1 h1 W1 where c: "commit S N ?tr d h ?W = ((g, err), tr1, h1, W1)" by (metis prod.collapse)
  have k1: "holds_reply k0 x n ?tr" "holds_reply k0 x n tr1" using k commit_track(1) [OF c] by (auto simp: holds_reply_def)
  have "keys_inv tr" using handler_inv_at [OF h] by simp
  then have "key \<notin> set (it_keys tr1)" if "key \<noteq> ''''"
    using False that commit_track(1) [OF c] by (auto simp: keys_inv_def map_of_eq_None_iff)
  then have rem: "holds_reply k0 x (Suc n) (remember key y tr1)" if "key \<noteq> ''''" for y
    using holds_reply_remember [OF k1(2)] n that by blast
  show ?thesis
    using r False ad c k1 rem holds_reply_mono [of k0 x n _ "Suc n"] by (auto simp: record_locked_def now_def Let_def split: if_splits)
qed

text \<open>
  One request: the reply stays, and no more than one newer key joins it, and only when the request brings one to
  the track.
\<close>

definition still_holds :: "TrackPath \<Rightarrow> string \<Rightarrow> recordResponse \<Rightarrow> nat \<Rightarrow> Handler \<Rightarrow> bool" where
  "still_holds p key x n h \<longleftrightarrow> (\<exists>tr. map_of (tracks h) p = Some tr \<and> holds_reply key x n tr)"

lemma still_holds_mono: "still_holds p key x m h \<Longrightarrow> m \<le> n \<Longrightarrow> still_holds p key x n h"
  using holds_reply_mono by (fastforce simp: still_holds_def)

lemma still_holds_update:
  assumes "still_holds p key x n h" and "\<And>tr. map_of (tracks h) k = Some tr \<Longrightarrow> k = p \<Longrightarrow> holds_reply key x n tr \<Longrightarrow> holds_reply key x m (f tr)"
    and "n \<le> m"
  shows "still_holds p key x m (update_track k f h)"
proof -
  obtain tr where "map_of (tracks h) p = Some tr" "holds_reply key x n tr" using assms(1) by (auto simp: still_holds_def)
  then show ?thesis using update_track_keeps [of h p tr k f] assms(2) holds_reply_mono [OF _ assms(3)] by (auto simp: still_holds_def)
qed

lemma still_holds_release: "still_holds p key x n h \<Longrightarrow> release clk k h W = (h', W') \<Longrightarrow> still_holds p key x n h'"
  by (auto simp: release_def now_def holds_reply_def intro!: still_holds_update)

lemma still_holds_open:
  assumes h: "handler_inv u h" and k: "still_holds p key x n h" and "in_use clk p h W0" "ticks W = ticks W0 + j" "j \<le> 2"
    and r: "open_track S clk N c t h W = (y, h1, W1)"
  shows "still_holds p key x n h1"
proof -
  obtain tr where tr: "map_of (tracks h) p = Some tr" "holds_reply key x n tr" "clk (ticks W) - lastUsed tr < idle h"
    using assms by (auto simp: still_holds_def in_use_def)
  then show ?thesis using open_track_keeps [OF h tr(1,3) r] by (auto simp: still_holds_def holds_reply_def)
qed

lemma serveRecord_holds:
  assumes h: "handler_inv nobody h" and k: "still_holds p key x n h" and u: "in_use clk p h W"
    and n: "brings_key p ''POST'' rq h \<longrightarrow> Suc n < idempotencyKeys"
    and r: "serveRecord J S clk N rq h W = (rep, h', W')"
  shows "still_holds p key x (if brings_key p ''POST'' rq h then Suc n else n) h'"
proof (cases "\<exists>t sender. resolve_request h rq WriteAccess = Inr (t, sender) \<and> length (rq_key rq) \<le> maxIdempotencyKeyLen")
  case False
  then have "h' = h" using r by (cases "resolve_request h rq WriteAccess") (auto simp: serveRecord_def split: if_splits)
  then show ?thesis using k still_holds_mono [of p key x n h "Suc n"] by auto
next
  case True
  then obtain t sender where t: "resolve_request h rq WriteAccess = Inr (t, sender)" "length (rq_key rq) \<le> maxIdempotencyKeyLen" by blast
  let ?m = "if brings_key p ''POST'' rq h then Suc n else n"
  obtain y h1 W1 where o: "open_track S clk N (rq_ctx rq) t h W = (y, h1, W1)" using prod_cases3 by blast
  have k1: "still_holds p key x n h1" by (rule still_holds_open [OF h k u _ _ o, of 0]) simp_all
  have up: "still_holds p key x n h2 \<Longrightarrow> still_holds p key x ?m h2" for h2 using still_holds_mono [of p key x n h2 ?m] by simp
  show ?thesis
  proof (cases y)
    case (Inl e)
    then have "h' = h1" using r t o by (auto simp: serveRecord_def Let_def)
    then show ?thesis using up k1 by simp
  next
    case (Inr path)
    note s1 = step_open_track(2) [OF h o Inr] and o1 = o [unfolded Inr]
    obtain tr where tr: "map_of (tracks h1) path = Some tr" using s1 by blast
    have path: "path = Path_ingest t" and i1: "handler_inv (nobody(path := 1)) h1" using s1 step_inv by blast+
    note run = serveRecord_opened [OF t o1 tr, of J]
    show ?thesis
    proof (cases "body_record J (maxBody h1) sender rq")
      case (Inl e)
      with run r have "release clk path h1 W1 = (h', W')" by simp
      then show ?thesis using still_holds_release k1 up by blast
    next
      case d: (Inr d)
      obtain rp tr' h2 W2 where l: "record_locked S clk N sender (record_key sender rq) d tr h1 W1 = (rp, tr', h2, W2)"
        by (metis prod.collapse)
      have rl: "release clk path (update_track path (\<lambda>_. tr') h2) W2 = (h', W')" using run r d l by simp
      have k2: "still_holds p key x n h2" using k1 record_locked_step [OF i1 tr l] by (simp add: still_holds_def)
      have "still_holds p key x ?m (update_track path (\<lambda>_. tr') h2)"
      proof (rule still_holds_update [OF k2])
        fix tr2 assume "map_of (tracks h2) path = Some tr2" "path = p" "holds_reply key x n tr2"
        then have "holds_reply key x n tr" using record_locked_step [OF i1 tr l] tr by simp
        from record_locked_holds [OF i1 tr l this] n show "holds_reply key x ?m tr'"
          using t(1) path \<open>path = p\<close> by (auto simp: brings_key_def record_key_def split: if_splits)
      qed simp
      then show ?thesis using still_holds_release rl by blast
    qed
  qed
qed

lemma serveHistory_holds:
  assumes h: "handler_inv u h" and k: "still_holds p key x n h" and u: "in_use clk p h W"
    and r: "serveHistory J S clk N rq h W = (rep, h', W')"
  shows "still_holds p key x n h'"
proof -
  have "h' = h \<or> h' = closeIdle (clk (ticks W)) h"
    using r by (auto simp: serveHistory_def now_def Let_def dest!: ticks_on_store split: sum.splits option.splits prod.splits)
  moreover obtain tr where tr: "map_of (tracks h) p = Some tr" "holds_reply key x n tr" "clk (ticks W) - lastUsed tr < idle h"
    using k u by (auto simp: still_holds_def in_use_def)
  ultimately show ?thesis using k closeIdle_keeps [OF h tr(1,3)] by (auto simp: still_holds_def)
qed

lemma serveCreate_holds:
  assumes h: "handler_inv nobody h" and k: "still_holds p key x n h" and u: "in_use clk p h W"
    and r: "serveCreate S clk N rq h W = (rep, h', W')"
  shows "still_holds p key x n h'"
proof (cases "resolve_request h rq CreateAccess")
  case (Inl e)
  then show ?thesis using r k by (simp add: serveCreate_def)
next
  case (Inr ts)
  obtain t sender where t: "ts = (t, sender)" by fastforce
  obtain x1 W1 where c: "Create_Track S clk (rq_ctx rq) (Path_ingest t) ingest_schema (op_Config (opts h)) W = (x1, W1)" by fastforce
  obtain j where j: "j \<le> 2" "ticks W1 = ticks W + j" using ticks_Create_Track [OF c] by blast
  obtain y h1 W2 where o: "open_track S clk N (rq_ctx rq) t h W1 = (y, h1, W2)" using prod_cases3 by blast
  have k1: "still_holds p key x n h1" by (rule still_holds_open [OF h k u j(2,1) o])
  show ?thesis
    using r Inr t c o k k1 still_holds_release [OF k1] by (auto simp: serveCreate_def split: sum.splits prod.splits if_splits)
qed

lemma serveRedact_holds:
  assumes h: "handler_inv nobody h" and k: "still_holds p key x n h" and u: "in_use clk p h W"
    and r: "serveRedact J S clk N rq h W = (rep, h', W')"
  shows "still_holds p key x n h'"
proof -
  have opened: "still_holds p key x n h1"
    if "open_track S clk N (rq_ctx rq) t h W1 = (y, h1, W2)" "ticks W1 = ticks W" for t W1 y h1 W2
    by (rule still_holds_open [OF h k u _ _ that(1), of 0]) (simp_all add: that(2))
  have held: "still_holds p key x n h4"
    if o: "open_track S clk N (rq_ctx rq) t h W1 = (Inr path, h2, W2)" "ticks W1 = ticks W" and tr: "map_of (tracks h2) path = Some tr"
      and l: "redact_locked J S N tr lt info sender h2 W2 = (y, tr', h3, W3)"
      and rl: "release clk path (update_track path (\<lambda>_. tr') h3) W3 = (h4, W4)"
    for t W1 path h2 W2 tr lt info sender y tr' h3 W3 h4 W4
  proof -
    have w: "\<exists>w. tr' = tr\<lparr>it_writer := w\<rparr>" using redact_locked_track [OF l] by blast
    have tracks: "tracks h3 = tracks h2" using l commit_track(3)
      by (fastforce simp: redact_locked_def split: sum.splits bool.splits option.splits prod.splits if_splits)
    have "still_holds p key x n h3" using opened [OF o] tracks by (simp add: still_holds_def)
    then have "still_holds p key x n (update_track path (\<lambda>_. tr') h3)"
      by (rule still_holds_update) (use w tr tracks in \<open>auto simp: holds_reply_def\<close>)
    then show ?thesis using still_holds_release rl by blast
  qed
  show ?thesis
    using r k unfolding serveRedact_def
    by (auto simp: Let_def dest!: ticks_on_store dest: opened held split: sum.splits option.splits prod.splits if_splits)
qed

lemma ServeHTTP_holds:
  assumes h: "handler_inv nobody h" and k: "still_holds p key x n h" and u: "in_use clk p h W"
    and n: "n + (if brings_key p verb rq h then 1 else 0) < idempotencyKeys"
    and r: "ServeHTTP J S clk N verb rq h W = (rep, h', W')"
  shows "still_holds p key x (n + (if brings_key p verb rq h then 1 else 0)) h'"
proof (cases "verb = ''POST''")
  case True
  then show ?thesis using serveRecord_holds [OF h k u, of rq J S N rep h' W'] r n by (auto simp: ServeHTTP_def split: if_splits)
next
  case False
  then have "\<not> brings_key p verb rq h" by (simp add: brings_key_def)
  then show ?thesis
    using r False k serveCreate_holds [OF h k u] serveHistory_holds [OF h k u] serveRedact_holds [OF h k u]
    by (auto simp: ServeHTTP_def split: if_splits)
qed

section \<open>A run of requests\<close>

text \<open>
  What the server may do between a record and its retry: any requests, each at a time when the track is in use, and
  others changing the store. The number counts the requests that bring a key to the track.
\<close>

inductive meanwhile ::
  "codec \<Rightarrow> 's store \<Rightarrow> clock \<Rightarrow> nat \<Rightarrow> TrackPath \<Rightarrow> Handler \<Rightarrow> 's world \<Rightarrow> nat \<Rightarrow> Handler \<Rightarrow> 's world \<Rightarrow> bool"
  for J S clk N p h W where
  meanwhile_start: "meanwhile J S clk N p h W 0 h W"
| meanwhile_request: "meanwhile J S clk N p h W n h1 W1 \<Longrightarrow> in_use clk p h1 W1 \<Longrightarrow>
    ServeHTTP J S clk N verb rq h1 W1 = (rep, h2, W2) \<Longrightarrow>
    meanwhile J S clk N p h W (n + (if brings_key p verb rq h1 then 1 else 0)) h2 W2"
| meanwhile_others: "meanwhile J S clk N p h W n h1 W1 \<Longrightarrow> meanwhile J S clk N p h W n h1 (W1\<lparr>objs := s\<rparr>)"

lemma meanwhile_holds:
  assumes "meanwhile J S clk N p h W n h2 W2" and "handler_inv nobody h" and "still_holds p key x m h" and "m + n < idempotencyKeys"
  shows "step nobody h h2 \<and> still_holds p key x (m + n) h2"
  using assms
proof (induction rule: meanwhile.induct)
  case meanwhile_start
  then show ?case using step_refl by simp
next
  case (meanwhile_request n h1 W1 verb rq rep h2 W2)
  let ?b = "if brings_key p verb rq h1 then 1 else 0 :: nat"
  have ih: "step nobody h h1" "still_holds p key x (m + n) h1" using meanwhile_request by auto
  have "m + n + ?b < idempotencyKeys" using meanwhile_request.prems(3) by (simp add: add.assoc)
  from ServeHTTP_holds [OF step_inv [OF ih(1)] ih(2) meanwhile_request.hyps(2) this meanwhile_request.hyps(3)]
    ServeHTTP_step [OF step_inv [OF ih(1)] meanwhile_request.hyps(3)] ih(1) step_trans
  show ?case by (auto simp: add.assoc)
qed simp

text \<open>How many keys the track has remembered after a given one.\<close>

definition newer_keys :: "TrackPath \<Rightarrow> string \<Rightarrow> Handler \<Rightarrow> nat" where
  "newer_keys p key h = (case map_of (tracks h) p of None \<Rightarrow> 0 | Some tr \<Rightarrow> newer key (it_keys tr))"

lemma reply_is_held:
  assumes h: "handler_inv u h" and tr: "map_of (tracks h) p = Some tr" "map_of (replies tr) key = Some x"
  shows "still_holds p key x (newer_keys p key h) h"
proof -
  have "key \<in> fst ` set (replies tr)" using map_of_SomeD [OF tr(2)] by force
  then have "key \<in> set (it_keys tr)" using handler_inv_at [OF h tr(1)] by (simp add: keys_inv_def)
  then show ?thesis using tr by (simp add: still_holds_def holds_reply_def newer_keys_def)
qed

lemma newer_keys_bound:
  assumes h: "handler_inv u h" and tr: "map_of (tracks h) p = Some tr" "map_of (replies tr) key = Some x"
  shows "newer_keys p key h < idempotencyKeys"
proof -
  have k: "keys_inv tr" using handler_inv_at [OF h tr(1)] by simp
  have "key \<in> set (it_keys tr)" using reply_is_held [OF h tr] tr(1) by (simp add: still_holds_def holds_reply_def)
  then obtain as bs where ks: "it_keys tr = as @ key # bs" "key \<notin> set as" using split_list_first by metis
  then have "newer key (it_keys tr) < length (it_keys tr)" using newer_split [OF ks(2), of bs] by simp
  with k tr(1) show ?thesis by (simp add: newer_keys_def keys_inv_def)
qed

end
