(* ===== verification/Ingest_Props.thy ===== *)
theory Ingest_Props
  imports Ingest_History Ingest_Keys
begin

text \<open>
  What the ingest server promises: its state stays sound over every run of requests, a keyed record sent
  twice is stored once, a record answered with 201 is committed with its payload, and on a store that
  answers a valid record is accepted, and a history page shows the rows of the track.
\<close>

section \<open>A server to run the properties on\<close>

definition sample_options :: Options where
  "sample_options = \<lparr>Authorize = None, Challenge = '''', SenderLimit = \<lparr>Rate = Fin 0, Burst = 0\<rparr>, TrackLimit = \<lparr>Rate = Fin 0, Burst = 0\<rparr>,
     OnOpen = False, TrackIdleTimeout = 0, OnRecord = True, MaxBodyBytes = 0, op_Config = demo_config\<rparr>"

definition sample_server :: Handler where
  "sample_server = projr (NewHandler sample_options)"

definition sample_codec :: codec where
  "sample_codec = \<lparr>json_Valid = (\<lambda>d. d = ''{}''), Marshal = (\<lambda>r. Inr (Sender r @ CHR '':'' # Payload r)),
     Unmarshal = (\<lambda>d. Inr \<lparr>Sender = takeWhile (\<lambda>c. c \<noteq> CHR '':'') d, Payload = tl (dropWhile (\<lambda>c. c \<noteq> CHR '':'') d), Redacts = []\<rparr>)\<rparr>"

definition sample_post :: ingest_request where
  "sample_post = \<lparr>rq_track = ''live/cam'', rq_query = [], rq_key = ''k1'', rq_body = (''{}'', None), rq_ctx = Live\<rparr>"

definition sample_get :: ingest_request where
  "sample_get = \<lparr>rq_track = ''live/cam'', rq_query = [], rq_key = '''', rq_body = ([], None), rq_ctx = Live\<rparr>"

lemma sample_server_new: "NewHandler sample_options = Inr sample_server"
  by (simp add: sample_server_def NewHandler_def sample_options_def)

lemma sample_server_fields: "opts sample_server = sample_options" "maxBody sample_server = DefaultMaxBodyBytes"
  "idle sample_server = DefaultTrackIdleTimeout" "tracks sample_server = []"
  by (simp_all add: sample_server_def NewHandler_def sample_options_def)

lemma sample_path: "trackFromPath ''live/cam'' = Inr \<lparr>BroadcastPath = ''/live'', TrackName = ''cam''\<rparr>"
  "Path_ingest \<lparr>BroadcastPath = ''/live'', TrackName = ''cam''\<rparr> = ''live/cam''"
  "validate_TrackPath ''live/cam'' = None" "valid_utf8 ''live/cam''" "valid_utf8 ''{}''"
  by code_simp+

lemma sample_resolve:
  "opts h = sample_options \<Longrightarrow> resolve_request h sample_post WriteAccess = Inr (\<lparr>BroadcastPath = ''/live'', TrackName = ''cam''\<rparr>, '''')"
  by (simp add: resolve_request_def sample_post_def sample_path(1), simp add: sample_options_def)

lemma sample_body: "body_record sample_codec (maxBody sample_server) '''' sample_post = Inr '':{}''"
  by (simp add: body_record_def read_body_def sample_post_def sample_codec_def sample_server_fields DefaultMaxBodyBytes_def sample_path(5))

lemma sample_clock_ok: "clock_ok (t_clock (resolveConfig clk p (op_Config sample_options)))"
  by (simp add: clock_ok_def sample_options_def)

lemma sample_ready:
  obtains W :: "mem world" where "mem_inv (objs W)" "track_ready (mem_view (objs W)) sample_server ''live/cam'' 1 []"
    "\<And>i. mem_view (objs W) (groupKey ''live/cam'' i) = None"
proof -
  let ?p = "''live/cam''" and ?W = "\<lparr>objs = mem_New, ticks = 0\<rparr>"
  have "\<exists>t W at1 at2 u1 u2. Create_Track mem_store int Live ?p demo_schema demo_config ?W = (Inr t, W) \<and> mem_inv (objs W) \<and>
    Root_Track t = \<lparr>ti_TrackSchema = demo_schema, ti_Track = ?p, ti_LatestEpoch = 1\<rparr> \<and>
    mem_view (objs W) = [rootKey ?p \<mapsto> (encode_trackRoot (new_root ?p demo_schema at1), u1),
      epochLogKey ?p 1 \<mapsto> (encode_logRoot (new_log ?p 1 at2), u2)] \<and>
    root_at (mem_view (objs W)) ?p (t_root t) (t_rootVersion t) \<and> log_at (mem_view (objs W)) ?p 1 (new_log ?p 1 at2) u2"
    using mem.Create_Track_fresh [of ?W ?p demo_schema int demo_config] sample_path(3,4) by simp
  then obtain t and W :: "mem world" and at1 at2 u1 u2 where W: "mem_inv (objs W)"
    "Root_Track t = \<lparr>ti_TrackSchema = demo_schema, ti_Track = ?p, ti_LatestEpoch = 1\<rparr>"
    and v: "mem_view (objs W) = [rootKey ?p \<mapsto> (encode_trackRoot (new_root ?p demo_schema at1), u1),
      epochLogKey ?p 1 \<mapsto> (encode_logRoot (new_log ?p 1 at2), u2)]"
    and R: "root_at (mem_view (objs W)) ?p (t_root t) (t_rootVersion t)"
    and L: "log_at (mem_view (objs W)) ?p 1 (new_log ?p 1 at2) u2" by blast
  have "fresh_epoch (mem_view (objs W)) ?p 1" by (simp add: v fresh_epoch_def)
  note li = log_inv_new [OF L this]
  have "LatestEpoch (t_root t) = 1" using W(2) by (simp add: Root_Track_def)
  with R li have "track_ready (mem_view (objs W)) sample_server ?p 1 []"
    by (auto simp: track_ready_def sample_server_fields le_maxGroupEpoch)
  with W(1) that [of W] show thesis by (simp add: v)
qed

lemma sample_accepted:
  assumes "mem_inv (objs W)" and "track_ready (mem_view (objs W)) sample_server ''live/cam'' 1 []"
    and "\<And>i. mem_view (objs W) (groupKey ''live/cam'' i) = None"
  shows "Status (fst (serveRecord sample_codec mem_store (\<lambda>_. 7) 1 sample_post sample_server W)) = 201"
  by (rule mem.serveRecord_accepts [OF _ assms(1) sample_resolve _ _ sample_body _ _ _ _ assms(2), where k = 0])
    (use assms(3) NewHandler_inv [OF sample_server_new] sample_path sample_clock_ok in
      \<open>auto simp: sample_server_fields sample_post_def maxIdempotencyKeyLen_def i64_bounds next_seq_def active_def,
        simp_all add: sample_options_def\<close>)

section \<open>Properties of the server\<close>

text \<open>
  C24. The server's state stays sound: whatever requests a server has handled, and whatever others did to the
  store meanwhile, every open track stands under its own path, no request holds it, its replies are
  remembered for at most 1024 keys, and a further request keeps this, leaves the settings alone and only
  adds to the calls of the hooks.
\<close>

theorem handler_stays_sound:
  assumes "serving J S clk N op h W" and "ServeHTTP J S clk N verb rq h W = (rep, h', W')"
  shows "handler_inv nobody h \<and> handler_inv nobody h' \<and> opts h' = op \<and> maxBody h' = maxBody h \<and> idle h' = idle h \<and>
    prefix (hooks h) (hooks h')"
  using serving_inv [OF assms(1)] ServeHTTP_step [OF _ assms(2)] by (auto simp: step_def)

theorem handler_stays_sound_witness:
  "\<exists>rep h' W'. ServeHTTP sample_codec mem_store (\<lambda>_. 7) 1 ''PUT'' sample_post sample_server \<lparr>objs = mem_New, ticks = 0\<rparr> = (rep, h', W') \<and>
    handler_inv nobody h' \<and> opts h' = sample_options"
proof -
  obtain rep h' W' where r: "ServeHTTP sample_codec mem_store (\<lambda>_. 7) 1 ''PUT'' sample_post sample_server \<lparr>objs = mem_New, ticks = 0\<rparr> = (rep, h', W')"
    using prod_cases3 by blast
  with handler_stays_sound [OF serving_new [OF sample_server_new] r] show ?thesis by blast
qed

text \<open>
  C16. A keyed record is stored once: after a record was answered with 201 under an \<open>Idempotency-Key\<close>, and any
  further requests to any tracks with others changing the store meanwhile, the same sender's request with that key
  on that track neither writes to the store nor calls a hook, whatever its body is. It gets the same answer when
  its body is one the server takes, which need not be the first one, and otherwise the answer to the bad body. This
  holds as long as the track was not swept away for being idle (each request found it in use) and fewer than 1024
  newer keys were brought to it.
\<close>

theorem keyed_retry_commits_nothing:
  assumes h: "serving J S clk N op h W" and r: "serveRecord J S clk N rq h W = (rep, h', W')" and ok: "Status rep = 201"
    and key: "rq_key rq \<noteq> ''''" "rq_key rq2 = rq_key rq"
    and t: "resolve_request h rq WriteAccess = Inr (t, sender)" "resolve_request h2 rq2 WriteAccess = Inr (t, sender)"
    and run: "meanwhile J S clk N (Path_ingest t) h' W' n h2 W2"
    and few: "newer_keys (Path_ingest t) (record_key sender rq) h' + n < idempotencyKeys"
    and soon: "in_use clk (Path_ingest t) h2 W2"
    and again: "serveRecord J S clk N rq2 h2 W2 = (rep2, h3, W3)"
  shows "objs W3 = objs W2 \<and> hooks h3 = hooks h2 \<and>
    rep2 = (case body_record J (maxBody h) sender rq2 of Inl bad \<Rightarrow> bad | Inr _ \<Rightarrow> rep)"
proof -
  have i: "handler_inv nobody h" using serving_inv [OF h] by simp
  note st = serveRecord_step [OF i r]
  from keyed_reply_is_held [OF i r ok key(1) t(1)] obtain x tr where x: "rep = answer 201 (RecordBody x)"
    "map_of (tracks h') (Path_ingest t) = Some tr" "map_of (replies tr) (record_key sender rq) = Some x"
    by blast
  have i': "handler_inv nobody h'" using st step_inv by blast
  note m = meanwhile_holds [OF run i' reply_is_held [OF i' x(2,3)] few]
  have s: "maxBody h2 = maxBody h" "handler_inv nobody h2" using st m by (auto simp: step_def)
  obtain tr2 where tr2: "map_of (tracks h2) (Path_ingest t) = Some tr2" "map_of (replies tr2) (record_key sender rq) = Some x"
    using m by (auto simp: still_holds_def holds_reply_def)
  have "clk (ticks W2) - lastUsed tr2 < idle h2" using soon tr2(1) by (auto simp: in_use_def dest!: spec [of _ 0])
  then obtain h4 where o: "open_track S clk N (rq_ctx rq2) t h2 W2 = (Inr (Path_ingest t), h4, W2\<lparr>ticks := Suc (ticks W2)\<rparr>)"
    "map_of (tracks h4) (Path_ingest t) = Some (tr2\<lparr>users := users tr2 + 1\<rparr>)" "maxBody h4 = maxBody h2" "hooks h4 = hooks h2"
    using open_held [OF s(2) tr2(1)] by fastforce
  have len: "length (rq_key rq2) \<le> maxIdempotencyKeyLen" using serveRecord_201 [OF i r ok] key(2) by metis
  have k: "record_key sender rq2 = record_key sender rq" "record_key sender rq \<noteq> ''''" using key by (simp_all add: record_key_def)
  show ?thesis
    using again serveRecord_opened [OF t(2) len o(1,2), of J] o(3,4) s(1) k x(1) tr2(2)
    by (auto simp: record_locked_def release_def now_def split: sum.splits)
qed

theorem keyed_retry_commits_nothing_witness:
  "\<exists>W rep h' W' h2 W3. serveRecord sample_codec mem_store (\<lambda>_. 7) 1 sample_post sample_server W = (rep, h', W') \<and> Status rep = 201 \<and>
    serveRecord sample_codec mem_store (\<lambda>_. 7) 1 sample_post h' W' = (rep, h2, W3) \<and> objs W3 = objs W' \<and> hooks h2 = hooks h'"
proof -
  obtain W :: "mem world" where W: "mem_inv (objs W)" "track_ready (mem_view (objs W)) sample_server ''live/cam'' 1 []"
    "\<And>i. mem_view (objs W) (groupKey ''live/cam'' i) = None" using sample_ready by blast
  obtain rep h' W' where r: "serveRecord sample_codec mem_store (\<lambda>_. 7) 1 sample_post sample_server W = (rep, h', W')"
    using prod_cases3 by blast
  have ok: "Status rep = 201" using sample_accepted [OF W] r by simp
  obtain rep2 h2 W3 where r2: "serveRecord sample_codec mem_store (\<lambda>_. 7) 1 sample_post h' W' = (rep2, h2, W3)"
    using prod_cases3 by blast
  have h: "handler_inv nobody sample_server" using NewHandler_inv [OF sample_server_new] by simp
  have st: "opts h' = sample_options" "idle h' = DefaultTrackIdleTimeout" "handler_inv nobody h'"
    using serveRecord_step [OF h r] sample_server_fields step_inv by (auto simp: step_def)
  note t = sample_resolve [OF sample_server_fields(1)] sample_resolve [OF st(1)]
  have k: "rq_key sample_post \<noteq> ''''" by (simp add: sample_post_def)
  let ?p = "Path_ingest \<lparr>BroadcastPath = ''/live'', TrackName = ''cam''\<rparr>" and ?k = "record_key '''' sample_post"
  from keyed_reply_is_held [OF h r ok k t(1)] obtain x tr
    where tr: "map_of (tracks h') ?p = Some tr" "map_of (replies tr) ?k = Some x" "lastUsed tr = 7" by blast
  have few: "newer_keys ?p ?k h' + 0 < idempotencyKeys" using newer_keys_bound [OF st(3) tr(1,2)] by simp
  have soon: "in_use (\<lambda>_. 7) ?p h' W'" using tr(1,3) st(2) by (simp add: in_use_def DefaultTrackIdleTimeout_def)
  have "objs W3 = objs W' \<and> hooks h2 = hooks h' \<and> rep2 = rep"
    using keyed_retry_commits_nothing [OF serving_new [OF sample_server_new] r ok k refl t meanwhile_start few soon r2] sample_body by simp
  with r ok r2 show ?thesis by blast
qed

text \<open>
  C15. A record is committed before it is acknowledged: on any store that keeps the contract, whatever fails,
  a \<open>POST\<close> to a track whose latest epoch holds the rows \<open>ds\<close> leaves those rows or those and one more, and
  the server ready for the next record. When it answers 201, either it repeats the reply it remembers under
  the key and nothing is added, or the row it names is the one added and the payload of that row is the
  record made of the request's body.
\<close>

theorem posted_record_is_committed:
  assumes S: "store_contract S view I" and r: "serveRecord J S clk N rq h W = (rep, h', W')"
    and h: "handler_inv nobody h" and i: "I (objs W)" and t: "resolve_request h rq WriteAccess = Inr (t, sender)"
    and ok: "valid_utf8 (Path_ingest t)" "clock_ok (t_clock (resolveConfig clk (Path_ingest t) (op_Config (opts h))))"
    and rd: "track_ready (view (objs W)) h (Path_ingest t) e ds" and room: "int (Suc (length (concat ds))) \<le> MaxInt64"
    and d: "\<And>d. body_record J (maxBody h) sender rq = Inr d \<Longrightarrow> int (length d) \<le> MaxInt64"
  shows "I (objs W') \<and> (\<exists>ds'. track_ready (view (objs W')) h' (Path_ingest t) e ds' \<and> (ds' = ds \<or> (\<exists>row. ds' = ds @ [[row]])) \<and>
    (Status rep = 201 \<longrightarrow> (\<exists>x. rep = answer 201 (RecordBody x) \<and>
      (ds' = ds \<and> (\<exists>tr. map_of (tracks h) (Path_ingest t) = Some tr \<and> map_of (replies tr) (record_key sender rq) = Some x) \<or>
       (\<exists>g u d. x = record_response g \<and> ds' = ds @ [[g]] \<and> body_record J (maxBody h) sender rq = Inr d \<and>
          view (objs W') (ObjectKey g) = Some (d, u))))))"
  by (rule store_contract.serveRecord_rows [OF S r h i t refl ok rd room d])

theorem posted_record_is_committed_witness:
  "\<exists>W rep h' W' g u. serveRecord sample_codec mem_store (\<lambda>_. 7) 1 sample_post sample_server W = (rep, h', W') \<and>
    rep = answer 201 (RecordBody (record_response g)) \<and> track_ready (mem_view (objs W')) h' ''live/cam'' 1 [[g]] \<and>
    mem_view (objs W') (ObjectKey g) = Some ('':{}'', u)"
proof -
  obtain W :: "mem world" where W: "mem_inv (objs W)" "track_ready (mem_view (objs W)) sample_server ''live/cam'' 1 []"
    "\<And>i. mem_view (objs W) (groupKey ''live/cam'' i) = None" using sample_ready by blast
  obtain rep h' W' where r: "serveRecord sample_codec mem_store (\<lambda>_. 7) 1 sample_post sample_server W = (rep, h', W')"
    using prod_cases3 by blast
  have ok: "Status rep = 201" using sample_accepted [OF W] r by simp
  note t = sample_resolve [OF sample_server_fields(1)]
  have h: "handler_inv nobody sample_server" using NewHandler_inv [OF sample_server_new] by simp
  have "\<exists>g u. rep = answer 201 (RecordBody (record_response g)) \<and> track_ready (mem_view (objs W')) h' ''live/cam'' 1 [[g]] \<and>
      mem_view (objs W') (ObjectKey g) = Some ('':{}'', u)"
    using posted_record_is_committed [OF mem.store_contract_axioms r h W(1) t, of 1 "[]"] W(2) sample_path ok sample_body sample_clock_ok
    by (auto simp: sample_server_fields i64_bounds)
  with r show ?thesis by blast
qed

text \<open>
  C25. A valid record is accepted: on a store that answers, with fuel above the number of the epoch's deltas,
  a \<open>POST\<close> with a body the server takes, to a track it may serve and with no rate limit set, is answered
  with 201, though up to 16 uncommitted group objects are in the way.
\<close>

theorem valid_record_is_accepted:
  assumes S: "reliable_store S view I" and h: "handler_inv nobody h" and i: "I (objs W)" and t: "resolve_request h rq WriteAccess = Inr (t, sender)"
    and rq: "rq_ctx rq = Live" "length (rq_key rq) \<le> maxIdempotencyKeyLen" "body_record J (maxBody h) sender rq = Inr d"
    and p: "p = Path_ingest t" "validate_TrackPath p = None"
    and ok: "valid_utf8 p" "clock_ok (t_clock (resolveConfig clk p (op_Config (opts h))))"
    and rd: "track_ready (view (objs W)) h p e ds" and N: "length ds < N"
    and lm: "\<not> active (TrackLimit (opts h))" "\<not> active (SenderLimit (opts h))"
    and pl: "int (length d) \<le> MaxInt64" and room: "int (Suc (length (concat ds))) \<le> MaxInt64"
    and k: "unat (next_seq ds) + k < 2 ^ 40" "k \<le> 16"
    and taken: "\<And>j. j < k \<Longrightarrow> view (objs W) (groupKey p (NewGroupID e (next_seq ds + of_nat j))) \<noteq> None"
    and free: "view (objs W) (groupKey p (NewGroupID e (next_seq ds + of_nat k))) = None"
  shows "Status (fst (serveRecord J S clk N rq h W)) = 201"
  by (rule reliable_store.serveRecord_accepts [OF S h i t rq p ok rd N lm pl room k taken free])

theorem valid_record_is_accepted_witness:
  "\<exists>W :: mem world. Status (fst (serveRecord sample_codec mem_store (\<lambda>_. 7) 1 sample_post sample_server W)) = 201"
proof -
  obtain W :: "mem world" where W: "mem_inv (objs W)" "track_ready (mem_view (objs W)) sample_server ''live/cam'' 1 []"
    "\<And>i. mem_view (objs W) (groupKey ''live/cam'' i) = None" using sample_ready by blast
  have "Status (fst (serveRecord sample_codec mem_store (\<lambda>_. 7) 1 sample_post sample_server W)) = 201"
    by (rule valid_record_is_accepted [OF mem.reliable_store_axioms _ W(1) sample_resolve _ _ sample_body _ _ _ _ W(2), where k = 0])
      (use W(3) NewHandler_inv [OF sample_server_new] sample_path sample_clock_ok in
        \<open>auto simp: sample_server_fields sample_post_def maxIdempotencyKeyLen_def i64_bounds next_seq_def active_def,
          simp_all add: sample_options_def\<close>)
  then show ?thesis by blast
qed

text \<open>
  C23. A history page shows the track: on any store, whatever fails, \<open>GET\<close> changes no object, and a page it
  answers with 200 has one entry for each of the last rows before the identity asked for, at most as many as
  the limit, in commit order; an entry carries the record its row's payload decodes to, or says that the row
  was redacted, and then the payload is gone and the marker is there. The page names a next one exactly
  when it is full. On a store that answers, with fuel above the number of each epoch's deltas, and every row of the
  page readable (its payload is held and decodes, or it was redacted: the payload is gone and its marker is there),
  the answer is such a page. Identities ascend within each epoch, as the library's documentation says they do.
\<close>

theorem history_page_shows_the_track:
  assumes S: "store_contract S view I" and r: "serveHistory J S clk N rq h W = (rep, h', W')" and i: "I (objs W)"
    and t: "resolve_request h rq ReadAccess = Inr (t, sender)" and R: "root_at (view (objs W)) (Path_ingest t) R ver" "1 \<le> LatestEpoch R"
    and logs: "logs_hold (view (objs W)) (Path_ingest t) (LatestEpoch R) dss Ls"
    and asc: "\<forall>e\<in>set (epochs (LatestEpoch R)). ascending (concat (dss e))"
    and rq: "page_limit (rq_query rq) = Some n" "ParseGroupID (values_Get (rq_query rq) ''before'') = Inr k"
    and pg: "page = history_page dss (LatestEpoch R) k n"
  shows "view (objs W') = view (objs W) \<and>
    (Status rep = 200 \<longrightarrow> (\<exists>es. list_all2 (shows_row J (view (objs W))) page es \<and>
      rep = answer 200 (HistoryBody \<lparr>Records = es,
        hr_Before = (if int (length page) = n then String_GroupID (ID (hd page)) else '''')\<rparr>))) \<and>
    (reliable_store S view I \<and> rq_ctx rq = Live \<and> validate_TrackPath (Path_ingest t) = None \<and>
      (\<forall>e\<in>set (epochs (LatestEpoch R)). length (dss e) < N) \<and>
      (\<forall>g\<in>set page. readable J (view (objs W)) g) \<longrightarrow>
      Status rep = 200)"
proof -
  have th: "track_holds (view (objs W)) (Path_ingest t) (LatestEpoch R) dss Ls" using R logs by (auto simp: track_holds_def)
  have "Status rep = 200" if "reliable_store S view I" "rq_ctx rq = Live" "validate_TrackPath (Path_ingest t) = None"
      "\<forall>e\<in>set (epochs (LatestEpoch R)). length (dss e) < N"
      "\<forall>g\<in>set page. readable J (view (objs W)) g"
    using reliable_store.serveHistory_answers [OF that(1) i t that(2) rq that(3) th asc that(4) that(5) [unfolded pg], of clk] r by simp
  then show ?thesis
    using store_contract.serveHistory_shows [OF S r i t R(1) logs asc] rq pg by auto
qed

theorem history_page_shows_the_track_witness:
  "\<exists>W rep h W' h2 W2 g x. serveRecord sample_codec mem_store (\<lambda>_. 7) 1 sample_post sample_server W = (rep, h, W') \<and>
    serveHistory sample_codec mem_store (\<lambda>_. 7) 2 sample_get h W' = (answer 200 (HistoryBody \<lparr>Records = [x], hr_Before = ''''\<rparr>), h2, W2) \<and>
    rep = answer 201 (RecordBody (record_response g)) \<and> he_Group x = String_GroupID (ID g) \<and> Payload (he_Record x) = ''{}''"
proof -
  obtain W :: "mem world" where W: "mem_inv (objs W)" "track_ready (mem_view (objs W)) sample_server ''live/cam'' 1 []"
    "\<And>i. mem_view (objs W) (groupKey ''live/cam'' i) = None" using sample_ready by blast
  obtain rep h W' where r: "serveRecord sample_codec mem_store (\<lambda>_. 7) 1 sample_post sample_server W = (rep, h, W')"
    using prod_cases3 by blast
  have ok: "Status rep = 201" using sample_accepted [OF W] r by simp
  note t = sample_resolve [OF sample_server_fields(1)]
  have h: "handler_inv nobody sample_server" using NewHandler_inv [OF sample_server_new] by simp
  obtain g u where g: "mem_inv (objs W')" "rep = answer 201 (RecordBody (record_response g))"
      "track_ready (mem_view (objs W')) h ''live/cam'' 1 [[g]]" "mem_view (objs W') (ObjectKey g) = Some ('':{}'', u)"
    using mem.serveRecord_rows [OF r h W(1) t sample_path(2) [symmetric], of 1 "[]"] W(2) sample_path ok sample_body sample_clock_ok
    by (auto simp: sample_server_fields i64_bounds)
  obtain R ver L lv where R: "root_at (mem_view (objs W')) ''live/cam'' R ver" "LatestEpoch R = 1"
    and li: "log_inv (mem_view (objs W')) ''live/cam'' 1 [[g]] L lv" using g(3) by (auto simp: track_ready_def)
  have op: "opts h = sample_options" using serveRecord_step [OF _ r] h sample_server_fields(1) by (auto simp: step_def)
  have t2: "resolve_request h sample_get ReadAccess = Inr (\<lparr>BroadcastPath = ''/live'', TrackName = ''cam''\<rparr>, '''')"
    using op by (simp add: resolve_request_def sample_get_def sample_path(1)) (simp add: sample_options_def)
  obtain rep2 h2 W2 where r2: "serveHistory sample_codec mem_store (\<lambda>_. 7) 2 sample_get h W' = (rep2, h2, W2)"
    using prod_cases3 by blast
  have rq: "page_limit (rq_query sample_get) = Some 50" "ParseGroupID (values_Get (rq_query sample_get) ''before'') = Inr (GroupID 0)"
    by (simp_all add: page_limit_def sample_get_def values_Get_def ParseGroupID_def DefaultPageSize_def)
  have rows: "track_rows (\<lambda>_. [[g]]) 1 = [g]" by (simp add: track_rows_def)
  have page: "history_page (\<lambda>_. [[g]]) 1 (GroupID 0) 50 = [g]"
    by (simp add: history_page_def rows earlier_def)
  have rec: "readable sample_codec (mem_view (objs W')) g"
    using g(4) by (simp add: readable_def sample_codec_def)
  have "\<exists>x. shows_row sample_codec (mem_view (objs W')) g x \<and> rep2 = answer 200 (HistoryBody \<lparr>Records = [x], hr_Before = ''''\<rparr>)"
    using history_page_shows_the_track [OF mem.store_contract_axioms r2 g(1) t2, of R ver "\<lambda>_. [[g]]" "\<lambda>_. L", OF _ _ _ _ rq refl]
      R log_inv_logs_hold [OF li] mem.reliable_store_axioms rec
    by (auto simp: sample_path sample_get_def rows page ascending_def list_all2_Cons1)
  then obtain x where x: "shows_row sample_codec (mem_view (objs W')) g x" "rep2 = answer 200 (HistoryBody \<lparr>Records = [x], hr_Before = ''''\<rparr>)"
    by blast
  then have "he_Group x = String_GroupID (ID g)" "Payload (he_Record x) = ''{}''"
    using g(4) by (auto simp: shows_row_def sample_codec_def split: if_splits) (metis Record.select_convs(2))
  with r r2 x(2) g(2) show ?thesis by blast
qed

end
