(* ===== verification/Reader_Seek.thy ===== *)
theory Reader_Seek
  imports Reader_Before Reader_Props
begin

text \<open>
  Where the reader's seeks leave it. \<open>SeekAfter\<close> stands after exactly the rows with an identity up to the
  given one, over all epochs; \<open>SeekMedia\<close> finds the last row anchored at or before a time in the newest
  epoch that has one.
\<close>

section \<open>Segments and places\<close>

text \<open>
  A segment, an index in it and a next delta name the place \<open>k\<close> in an epoch's rows when the rows from
  there on are those left of the segment followed by those of the next deltas.
\<close>

definition place :: "GroupInfo list list \<Rightarrow> nat \<Rightarrow> GroupInfo list \<times> nat \<times> u64 \<Rightarrow> bool" where
  "place ds k x = (case x of (seg, i, n) \<Rightarrow> unat n \<le> length ds \<and> k \<le> length (concat ds) \<and>
     drop k (concat ds) = drop i seg @ rows_between ds (unat n) (length ds))"

lemma place_segment:
  assumes "a \<le> b" and "b \<le> length ds" and "unat n = b" and "i \<le> length (rows_between ds a b)"
  shows "place ds (length (rows_between ds 0 a) + i) (rows_between ds a b, i, n)"
proof -
  have all: "concat ds = rows_between ds 0 a @ rows_between ds a b @ rows_between ds b (length ds)"
    using rows_between_split [of 0 a "length ds" ds] rows_between_split [of a b "length ds" ds] rows_between_all [of ds] assms(1,2)
    by simp
  then show ?thesis using assms(2-4) unfolding place_def by simp
qed

text \<open>A cursor of an epoch whose log root is the stored one stands where its segment is.\<close>

lemma place_cursor:
  assumes "place ds k (batch r, r_idx r, r_next r)" and "ds = dss (r_epoch r)" and "1 \<le> r_epoch r" and "r_epoch r \<le> latest r"
    and "latest r \<le> lat" and "snapshot v (r_path r) (r_epoch r) ds (r_logRoot r)" and "r_logRoot r = Ls (r_epoch r)"
    and "snapshot v (r_path r) 1 (dss 1) (epoch1Log r)" and "1 < latest r \<longrightarrow> epoch1Log r = Ls 1"
  shows "cursor v lat dss Ls r (offset dss (r_epoch r) + k)"
  using assms unfolding cursor_def place_def Let_def by auto

lemma sealed_edge:
  assumes "log_inv v p e ds L ver" and "ref \<in> set (Sealed L)" and "r_logRoot r = L" and "r_next r = LastDelta ref + 1"
  shows "at_edge r"
proof -
  have runs: "runs p e ds 0 (Sealed L) (unat (OpenFrom L))" using log_invD(4) [OF assms(1)] .
  have "unat (LastDelta ref + 1) = Suc (unat (LastDelta ref))"
    using runs_ref [OF runs assms(2)] word_next log_inv_length [OF assms(1)] by blast
  then show ?thesis
    using runs_order [OF runs assms(2)] assms(3,4) by (simp add: at_edge_def word_less_nat_alt word_le_nat_alt less_Suc_eq_le)
qed

section \<open>The first row after a sequence\<close>

abbreviation upto_seq :: "u64 \<Rightarrow> GroupInfo \<Rightarrow> bool" where
  "upto_seq q g \<equiv> Sequence (ID g) \<le> q"

lemma first_after_takeWhile:
  "first_after q gs k = (if list_all (upto_seq q) gs then None else Some (k + length (takeWhile (upto_seq q) gs)))"
  by (induction gs arbitrary: k) auto

text \<open>The rows of one epoch: their identities are ordered as their sequences.\<close>

lemma ascending_upto:
  assumes "ascending gs" and "gs \<noteq> []" and "upto_seq q (last gs)" and "\<forall>g\<in>set gs. Epoch (ID g) = e"
  shows "list_all (upto_seq q) gs"
proof -
  have "Sequence (ID g) \<le> Sequence (ID (last gs))" if "g \<in> set gs" for g
  proof (cases "g = last gs")
    case False
    have "gs = butlast gs @ [last gs]" using assms(2) by simp
    then have "g \<in> set (butlast gs)" using that False by (metis Un_iff empty_iff list.set(1) set_append set_ConsD set_simps(2))
    moreover have "ascending (butlast gs @ [last gs])" using assms(1,2) by simp
    ultimately have "Compare (ID g) (ID (last gs)) < 0" by (auto simp: ascending_def sorted_wrt_append)
    then have "ID g < ID (last gs)" by (auto simp: Compare_def group_id_order split: if_splits)
    then show ?thesis using assms(2,4) that by (auto simp: less_GroupID_lex)
  qed simp
  then show ?thesis using assms(3) unfolding list_all_iff by (meson order_trans)
qed

lemma ascending_rows: "ascending (concat ds) \<Longrightarrow> ascending (rows_between ds a b)"
proof -
  have "concat ds = concat (take a ds) @ rows_between ds a b @ concat (drop (b - a) (drop a ds))"
    unfolding rows_between_def by (metis append_take_drop_id concat_append)
  then show "ascending (concat ds) \<Longrightarrow> ascending (rows_between ds a b)" by (simp add: ascending_def sorted_wrt_append)
qed

text \<open>The number of an epoch's rows with a sequence up to \<open>q\<close>, when those come first.\<close>

definition rank :: "GroupInfo list list \<Rightarrow> u64 \<Rightarrow> nat" where
  "rank ds q = length (takeWhile (upto_seq q) (concat ds))"

lemma rank_found:
  assumes "a \<le> b" and "b \<le> length ds" and "list_all (upto_seq q) (rows_between ds 0 a)"
    and "first_after q (rows_between ds a b) 0 = Some i" and "unat n = b"
  shows "place ds (rank ds q) (rows_between ds a b, i, n)"
proof -
  have all: "concat ds = rows_between ds 0 a @ rows_between ds a b @ rows_between ds b (length ds)"
    using rows_between_split [of 0 a "length ds" ds] rows_between_split [of a b "length ds" ds] rows_between_all [of ds] assms(1,2)
    by simp
  have i: "i = length (takeWhile (upto_seq q) (rows_between ds a b))" "\<not> list_all (upto_seq q) (rows_between ds a b)"
    using assms(4) by (auto simp: first_after_takeWhile split: if_splits)
  then obtain g where "g \<in> set (rows_between ds a b)" "\<not> upto_seq q g" by (auto simp: list_all_iff)
  then have "rank ds q = length (rows_between ds 0 a) + i"
    using assms(3) i(1) unfolding rank_def all
    by (simp add: takeWhile_append1 list_all_iff takeWhile_append2)
  then show ?thesis using place_segment [OF assms(1,2,5), of i] i(1) length_takeWhile_le by metis
qed

lemma rank_all:
  assumes "list_all (upto_seq q) (concat ds)" and "unat n = length ds"
  shows "place ds (rank ds q) ([], 0, n)"
proof -
  have "takeWhile (upto_seq q) (concat ds) = concat ds" using assms(1) by (simp add: takeWhile_eq_all_conv list_all_iff)
  then have "rank ds q = length (concat ds)" unfolding rank_def by (rule arg_cong)
  then show ?thesis using assms(2) by (simp add: place_def)
qed

context store_contract
begin

lemma locate_sealed_reads:
  assumes "locate_sealed S c p e q refs s = (x, s')" and "inv s" and "log_inv (view s) p e ds L ver" and "ascending (concat ds)"
    and "runs p e ds a refs b" and "set refs \<subseteq> set (Sealed L)" and "list_all (upto_seq q) (rows_between ds 0 a)"
  shows "reads s s' \<and> (x = Inr None \<longrightarrow> list_all (upto_seq q) (rows_between ds 0 b)) \<and>
    (\<forall>seg i n. x = Inr (Some (seg, i, n)) \<longrightarrow> place ds (rank ds q) (seg, i, n) \<and> (\<exists>ref\<in>set (Sealed L). n = LastDelta ref + 1))"
  using assms
proof (induction refs arbitrary: s a)
  case Nil
  then show ?case by (auto simp: reads_def)
next
  case (Cons ref refs)
  note li = Cons.prems(3)
  let ?n = "LastDelta ref + 1" and ?b = "Suc (unat (LastDelta ref))"
  have ref: "ref \<in> set (Sealed L)" using Cons.prems(6) by simp
  have a: "a = unat (FirstDelta ref)" "a \<le> ?b" "?b \<le> length ds" using Cons.prems(5) by (auto simp: word_le_nat_alt)
  have rows: "run_rows ds ref = rows_between ds a ?b" using a(1) by (simp add: run_rows_def)
  have n: "unat ?n = ?b" using word_next [of "LastDelta ref" "length ds"] a(3) log_inv_length [OF li] by simp
  have rest: ?case if go: "locate_sealed S c p e q refs s1 = (x, s')" and v: "inv s1" "view s1 = view s"
    and up: "list_all (upto_seq q) (rows_between ds a ?b)" for s1
  proof -
    have "list_all (upto_seq q) (rows_between ds 0 ?b)"
      using rows_between_split [of 0 a ?b ds] a(2) Cons.prems(7) up by (metis le0 list_all_append)
    from Cons.IH [OF go v(1) _ Cons.prems(4) _ _ this] show ?thesis using Cons.prems(3,5,6) v by (simp add: reads_def)
  qed
  show ?case
  proof (cases "Sequence (Last ref) \<le> q")
    case True
    have ne: "run_rows ds ref \<noteq> []" using run_rows_nonempty [OF log_invD(4) [OF li] ref log_invD(10) [OF li]] .
    have "Last ref = ID (last (run_rows ds ref))"
      using runs_ref [OF log_invD(4) [OF li] ref] run_ref_rows(2) [OF ne] by metis
    moreover have "\<forall>g\<in>set (run_rows ds ref). Epoch (ID g) = e"
      using log_invD(11) [OF li] set_rows_between [of ds a ?b] unfolding rows row_wf_def by blast
    ultimately have "list_all (upto_seq q) (rows_between ds a ?b)"
      using ascending_upto [of "run_rows ds ref" q e] ne True ascending_rows [OF Cons.prems(4)] rows by simp
    then show ?thesis using rest [of s] Cons.prems(1,2) True by simp
  next
    case False
    obtain y s1 where y: "sealed S c p e ref s = (y, s1)" by fastforce
    note r = sealed_reads [OF y Cons.prems(2) li log_inv_snapshot [OF li] ref]
    show ?thesis
    proof (cases y)
      case (Inl err)
      then show ?thesis using Cons.prems(1) False y r by (auto simp: reads_def)
    next
      case (Inr M)
      then have v: "inv s1" "view s1 = view s" and M: "sm_Groups M = rows_between ds a ?b" using r rows by auto
      show ?thesis
      proof (cases "first_after q (rows_between ds a ?b) 0")
        case None
        then have "list_all (upto_seq q) (rows_between ds a ?b)" by (simp add: first_after_takeWhile split: if_splits)
        then show ?thesis using rest [OF _ v] Cons.prems(1) False y Inr M None by simp
      next
        case (Some i)
        then have "x = Inr (Some (rows_between ds a ?b, i, ?n))" "s' = s1" using Cons.prems(1) False y Inr M by auto
        then show ?thesis using rank_found [OF a(2,3) Cons.prems(7) Some n] v ref by (auto simp: reads_def)
      qed
    qed
  qed
qed

lemma locate_open_reads:
  assumes "locate_open S c N p e q n s = (x, s')" and "inv s" and "log_inv (view s) p e ds L ver"
    and "OpenFrom L \<le> n" and "unat n \<le> length ds" and "list_all (upto_seq q) (rows_between ds 0 (unat n))"
  shows "reads s s' \<and> (\<forall>seg i m. x = Inr (seg, i, m) \<longrightarrow> place ds (rank ds q) (seg, i, m) \<and> OpenFrom L \<le> m)"
  using assms
proof (induction N arbitrary: n s)
  case 0
  then show ?case by (auto simp: reads_def)
next
  case (Suc N)
  note li = Suc.prems(3)
  obtain y s1 where y: "delta S c p e n s = (y, s1)" by fastforce
  note r = delta_reads [OF y Suc.prems(2) li]
  show ?case
  proof (cases y)
    case (Inl err)
    show ?thesis
    proof (cases "errors_Is err ErrNotCommitted")
      case True
      then have "view s (deltaKey p e n) = None" using r Inl by simp
      then have "\<not> unat n < length ds" using log_invD(6) [OF li Suc.prems(4)] by (auto simp: delta_holds_def)
      then have n: "unat n = length ds" using Suc.prems(5) by simp
      then have "place ds (rank ds q) ([], 0, n)" using rank_all [OF _ n, of q] Suc.prems(6) rows_between_all [of ds] by simp
      then show ?thesis using Suc.prems(1,4) y Inl True r by (auto simp: reads_def)
    qed (use Suc.prems(1) y Inl r in \<open>auto simp: reads_def\<close>)
  next
    case (Inr D)
    have v: "inv s1" "view s1 = view s" and n: "unat n < length ds" and D: "dm_Groups D = ds ! unat n" using r Inr by auto
    have n1: "unat (n + 1) = Suc (unat n)" using word_next n log_inv_length [OF li] by blast
    have o: "OpenFrom L \<le> n + 1" using Suc.prems(4) n1 by (simp add: word_le_nat_alt)
    have seg: "ds ! unat n = rows_between ds (unat n) (Suc (unat n))" using rows_between_Suc [of "unat n" "unat n" ds] n by simp
    show ?thesis
    proof (cases "first_after q (ds ! unat n) 0")
      case None
      then have "list_all (upto_seq q) (rows_between ds 0 (unat (n + 1)))"
        using Suc.prems(6) rows_between_Suc [of 0 "unat n" ds] n n1 by (simp add: first_after_takeWhile split: if_splits)
      moreover have "locate_open S c N p e q (n + 1) s1 = (x, s')" using Suc.prems(1) y Inr D None by simp
      ultimately show ?thesis using Suc.IH [of "n + 1" s1] v li o n n1 by (simp add: reads_def)
    next
      case (Some i)
      then have "x = Inr (ds ! unat n, i, n + 1)" "s' = s1" using Suc.prems(1) y Inr D by auto
      moreover have "place ds (rank ds q) (ds ! unat n, i, n + 1)"
        using rank_found [of "unat n" "Suc (unat n)" ds q i "n + 1"] Suc.prems(6) Some n n1 seg by simp
      ultimately show ?thesis using v o by (auto simp: reads_def)
    qed
  qed
qed

end

section \<open>The rows up to an identity\<close>

lemma takeWhile_filter_sorted:
  assumes "sorted_wrt R xs" and "\<And>x y. R x y \<Longrightarrow> P y \<Longrightarrow> P x"
  shows "takeWhile P xs = filter P xs"
  using assms(1)
proof (induction xs)
  case (Cons x xs)
  then have "filter P xs = []" if "\<not> P x" using that assms(2) by (auto simp: filter_empty_conv)
  then show ?case using Cons by simp
qed simp

lemma drop_takeWhile_sorted:
  assumes "sorted_wrt R xs" and "\<And>x y. R x y \<Longrightarrow> P y \<Longrightarrow> P x"
  shows "drop (length (takeWhile P xs)) xs = filter (\<lambda>x. \<not> P x) xs"
  using assms(1)
proof (induction xs)
  case (Cons x xs)
  then have "filter (\<lambda>x. \<not> P x) xs = xs" if "\<not> P x" using that assms(2) by (auto simp: filter_id_conv)
  then show ?case using Cons by simp
qed simp

lemma Compare_le: "Compare a b \<le> 0 \<longleftrightarrow> a \<le> b"
  by (auto simp: Compare_def group_id_order)

lemma upto_seq_Compare: "Epoch (ID g) = Epoch i \<Longrightarrow> upto_seq (Sequence i) g \<longleftrightarrow> Compare (ID g) i \<le> 0"
  by (simp add: Compare_le not_less [symmetric, of "ID g"] less_GroupID_lex not_less [symmetric, of "Sequence (ID g)"])

text \<open>The rows of a track up to an identity are those of the epochs before and the first ones of its own.\<close>

lemma rows_upto:
  assumes logs: "logs_hold v p lat dss Ls" and e: "1 \<le> Epoch i" "Epoch i \<le> lat" and asc: "ascending (concat (dss (Epoch i)))"
  defines "k \<equiv> offset dss (Epoch i) + rank (dss (Epoch i)) (Sequence i)"
  shows "length (filter (\<lambda>g. Compare (ID g) i \<le> 0) (track_rows dss lat)) = k"
    and "drop k (track_rows dss lat) = filter (\<lambda>g. Compare (ID g) i > 0) (track_rows dss lat)"
proof -
  let ?P = "\<lambda>g. Compare (ID g) i \<le> 0" and ?ds = "dss (Epoch i)" and ?before = "track_rows dss (Epoch i - 1)"
  have wf: "Epoch (ID g) = e" if "1 \<le> e" "e \<le> lat" "g \<in> set (concat (dss e))" for e g
    using logs_holdD [OF logs that(1,2)] log_invD(11) that(3) unfolding row_wf_def by blast
  obtain later where l: "epochs lat = epochs (Epoch i) @ later" "\<forall>e'\<in>set later. Epoch i < e'" using epochs_take [OF e(2)] by blast
  let ?after = "concat (map (\<lambda>e. concat (dss e)) later)"
  have rows: "track_rows dss lat = ?before @ concat ?ds @ ?after"
    using track_rows_snoc [of "Epoch i" dss] e(1) by (simp add: track_rows_def l(1))
  have before: "?P g" if g: "g \<in> set ?before" for g
  proof -
    obtain e' where e': "e' \<in> set (epochs (Epoch i - 1))" "g \<in> set (concat (dss e'))" using g unfolding track_rows_def by auto
    have "unat (Epoch i - 1) = unat (Epoch i) - 1" "0 < unat (Epoch i)" using e(1) by (simp_all add: unat_minus_one unat_gt_0)
    then have "1 \<le> e'" "e' < Epoch i" using e'(1) by (auto simp: set_epochs word_le_nat_alt word_less_nat_alt)
    then show ?thesis using wf [of e' g] e'(2) e(2) by (simp add: Compare_le less_imp_le less_GroupID_lex)
  qed
  have after: "\<not> ?P g" if g: "g \<in> set ?after" for g
  proof -
    obtain e' where e': "e' \<in> set later" "g \<in> set (concat (dss e'))" using g by auto
    then have "1 \<le> e'" "e' \<le> lat" "Epoch i < e'" using l set_epochs [of lat] by auto
    then show ?thesis using wf [of e' g] e'(2) by (simp add: Compare_le not_le less_GroupID_lex)
  qed
  have own: "upto_seq (Sequence i) g \<longleftrightarrow> ?P g" if "g \<in> set (concat ?ds)" for g
    using upto_seq_Compare wf [OF e that] by blast
  have tw: "takeWhile (upto_seq (Sequence i)) (concat ?ds) = takeWhile ?P (concat ?ds)"
    by (rule takeWhile_cong) (use own in auto)
  have sorted: "sorted_wrt (\<lambda>g h. Compare (ID g) (ID h) < 0) (concat ?ds)" using asc by (simp add: ascending_def)
  have mono: "?P g" if "Compare (ID g) (ID h) < 0" "?P h" for g h
    using that by (auto simp: Compare_def split: if_splits)
  have "takeWhile ?P (concat ?ds) = filter ?P (concat ?ds)" using sorted by (rule takeWhile_filter_sorted) (rule mono)
  then have "rank ?ds (Sequence i) = length (filter ?P (concat ?ds))" using tw by (simp add: rank_def)
  moreover have "filter ?P ?before = ?before" "filter ?P ?after = []"
    using before after by (simp_all add: filter_id_conv filter_empty_conv)
  ultimately show "length (filter ?P (track_rows dss lat)) = k"
    unfolding k_def offset_def rows filter_append length_append by simp
  have "drop (rank ?ds (Sequence i)) (concat ?ds) = filter (\<lambda>g. \<not> ?P g) (concat ?ds)"
    unfolding rank_def tw using sorted by (rule drop_takeWhile_sorted) (rule mono)
  moreover have "rank ?ds (Sequence i) \<le> length (concat ?ds)" by (simp add: rank_def length_takeWhile_le)
  moreover have "filter (\<lambda>g. \<not> ?P g) ?before = []" "filter (\<lambda>g. \<not> ?P g) ?after = ?after"
    using before after by (simp_all add: filter_id_conv filter_empty_conv)
  ultimately show "drop k (track_rows dss lat) = filter (\<lambda>g. Compare (ID g) i > 0) (track_rows dss lat)"
    unfolding k_def offset_def rows filter_append by (simp add: not_le)
qed

section \<open>\<open>SeekAfter\<close>\<close>

context store_contract
begin

lemma loadEpoch_reads:
  assumes run: "loadEpoch S c e r s = (err, r', s')" and i: "inv s" and li: "log_inv (view s) (r_path r) e ds L ver"
  shows "reads s s' \<and> (err = None \<longrightarrow>
    r' = r\<lparr>r_epoch := e, r_logRoot := L, r_next := 0, r_idx := 0, batch := [], misses := 0\<rparr>)"
proof -
  obtain x s1 where f: "fetchEpochLog S c (r_path r) e s = (x, s1)" by fastforce
  show ?thesis using fetchEpochLog_reads [OF f i li] run f by (cases x) (auto simp: loadEpoch_def reads_def)
qed

lemma locateAfter_reads:
  assumes run: "locateAfter S c N r L q s = (x, s')" and i: "inv s" and li: "log_inv (view s) (r_path r) (r_epoch r) ds L ver"
    and asc: "ascending (concat ds)"
  shows "reads s s' \<and> (\<forall>seg k n. x = Inr (seg, k, n) \<longrightarrow> place ds (rank ds q) (seg, k, n) \<and>
    (\<forall>r. r_logRoot r = L \<and> r_next r = n \<longrightarrow> at_edge r))"
proof -
  let ?p = "r_path r" and ?e = "r_epoch r" and ?o = "unat (OpenFrom L)"
  obtain y s1 where y: "locate_sealed S c ?p ?e q (Sealed L) s = (y, s1)" by fastforce
  note yr = locate_sealed_reads [OF y i li asc log_invD(4) [OF li] order_refl]
  have R: "reads s s1" using yr by simp
  have edge: "at_edge r'" if "r_logRoot r' = L" "OpenFrom L \<le> r_next r'" for r'
    using edge_open [of "view s" ?p ?e ds r'] log_inv_snapshot [OF li] that by simp
  show ?thesis
  proof (cases "y = Inr None")
    case True
    then have up: "list_all (upto_seq q) (rows_between ds 0 ?o)" using yr by simp
    have v: "inv s1" "log_inv (view s1) ?p ?e ds L ver" using R li by (auto simp: reads_def)
    have "locate_open S c N ?p ?e q (OpenFrom L) s1 = (x, s')" using run y True by (simp add: locateAfter_def)
    from locate_open_reads [OF this v order_refl log_invD(3) [OF li] up] show ?thesis using R edge by (auto simp: reads_def)
  next
    case False
    then consider err where "y = Inl err" | z where "y = Inr (Some z)" by (metis not_None_eq old.sum.exhaust)
    then show ?thesis
    proof cases
      case 1
      then show ?thesis using run y R by (auto simp: locateAfter_def)
    next
      case 2
      then have "x = Inr z" "s' = s1" using run y by (auto simp: locateAfter_def)
      then show ?thesis using R yr 2 sealed_edge [OF li] by auto
    qed
  qed
qed

lemma SeekAfter_cursor:
  assumes run: "SeekAfter S c N i r s = (err, r', s')" and iv: "inv s" and logs: "logs_hold (view s) (r_path r) lat dss Ls"
    and cur: "cursor (view s) lat dss Ls r j"
    and id: "1 \<le> Epoch i" "Epoch i \<le> latest r" "ascending (concat (dss (Epoch i)))" "i \<noteq> GroupID 0"
  shows "reads s s' \<and> (err = None \<longrightarrow> at_edge r' \<and> latest r' = latest r \<and> r_path r' = r_path r \<and> r_logRoot r' = Ls (r_epoch r') \<and>
    cursor (view s) lat dss Ls r' (offset dss (Epoch i) + rank (dss (Epoch i)) (Sequence i)))"
proof -
  let ?e = "Epoch i" and ?p = "r_path r"
  have lat: "?e \<le> lat" using id(2) cursor_epochs [OF cur] order_trans by blast
  obtain ver where li: "log_inv (view s) ?p ?e (dss ?e) (Ls ?e) ver" using logs_holdD [OF logs id(1) lat] by blast
  obtain e1 r1 s1 where l: "loadEpoch S c ?e r s = (e1, r1, s1)" using prod_cases3 by blast
  note lr = loadEpoch_reads [OF l iv li]
  have e: "\<not> latest r < ?e" using id(2) by simp
  show ?thesis
  proof (cases e1)
    case (Some err1)
    then show ?thesis using run l lr e id(4) by (auto simp: SeekAfter_def)
  next
    case None
    then have r1: "r1 = r\<lparr>r_epoch := ?e, r_logRoot := Ls ?e, r_next := 0, r_idx := 0, batch := [], misses := 0\<rparr>"
      and v: "inv s1" "view s1 = view s" using lr by (auto simp: reads_def)
    have li1: "log_inv (view s1) (r_path r1) (r_epoch r1) (dss ?e) (Ls ?e) ver" using li v r1 by simp
    obtain x s2 where x: "locateAfter S c N r1 (Ls ?e) (Sequence i) s1 = (x, s2)" by fastforce
    note xr = locateAfter_reads [OF x v(1) li1 id(3)]
    have R: "reads s s2" using xr v by (simp add: reads_def)
    show ?thesis
    proof (cases x)
      case (Inl err2)
      then show ?thesis using run l None e id(4) x r1 R by (auto simp: SeekAfter_def)
    next
      case (Inr y)
      obtain seg k n where y: "y = (seg, k, n)" by (cases y)
      let ?r = "r1\<lparr>batch := seg, r_idx := k, r_next := n, r_last := GroupID 0, misses := 0\<rparr>"
      have q: "err = None" "r' = ?r" "s' = s2" using run l None e id(4) x r1 Inr y by (auto simp: SeekAfter_def)
      have "cursor (view s) lat dss Ls ?r (offset dss (r_epoch ?r) + rank (dss ?e) (Sequence i))"
        by (rule place_cursor)
          (use xr Inr y r1 id(1,2) cur log_inv_snapshot [OF li] in \<open>auto simp: cursor_def Let_def\<close>)
      then show ?thesis using q R xr Inr y r1 by auto
    qed
  qed
qed

end

context reliable_store
begin

lemma locate_sealed_ends:
  assumes "inv s" and "log_inv (view s) p e ds L ver" and "set refs \<subseteq> set (Sealed L)"
  shows "\<exists>x s'. locate_sealed S Live p e q refs s = (Inr x, s') \<and> inv s' \<and> view s' = view s"
  using assms
proof (induction refs arbitrary: s)
  case (Cons ref refs)
  obtain M s1 where m: "sealed S Live p e ref s = (Inr M, s1)" "inv s1" "view s1 = view s"
    using sealed_Live [OF Cons.prems(1,2) log_inv_snapshot [OF Cons.prems(2)], of ref] Cons.prems(3) by auto
  have IH: "\<exists>x s'. locate_sealed S Live p e q refs s0 = (Inr x, s') \<and> inv s' \<and> view s' = view s" if "s0 = s \<or> s0 = s1" for s0
    using Cons.IH [of s0] Cons.prems m that by auto
  show ?case
    using IH [of s] IH [of s1] m by (cases "first_after q (sm_Groups M) 0") auto
qed simp

lemma locate_open_ends:
  assumes "inv s" and "log_inv (view s) p e ds L ver" and "OpenFrom L \<le> n" and "unat n \<le> length ds" and "length ds - unat n < N"
  shows "\<exists>x s'. locate_open S Live N p e q n s = (Inr x, s')"
  using assms
proof (induction N arbitrary: n s)
  case (Suc N)
  show ?case
  proof (cases "unat n < length ds")
    case True
    obtain D s1 where d: "delta S Live p e n s = (Inr D, s1)" "inv s1" "view s1 = view s"
      using delta_Live [OF Suc.prems(1-3) True] by auto
    have n1: "unat (n + 1) = Suc (unat n)" using word_next True log_inv_length [OF Suc.prems(2)] by blast
    then have "OpenFrom L \<le> n + 1" using Suc.prems(3) by (simp add: word_le_nat_alt)
    then obtain x s' where "locate_open S Live N p e q (n + 1) s1 = (Inr x, s')"
      using Suc.IH [of s1 "n + 1"] Suc.prems d n1 True by (metis Suc_diff_Suc Suc_leI less_Suc_eq_le less_le_trans not_less_eq)
    then show ?thesis using d by (cases x; cases "first_after q (dm_Groups D) 0") auto
  next
    case False
    then have "view s (deltaKey p e n) = None" using log_invD(7) [OF Suc.prems(2)] by simp
    then show ?thesis using delta_absent_Live [OF Suc.prems(1), of p e n] by auto
  qed
qed simp

lemma SeekAfter_Live:
  assumes iv: "inv s" and logs: "logs_hold (view s) (r_path r) lat dss Ls"
    and id: "1 \<le> Epoch i" "Epoch i \<le> latest r" "latest r \<le> lat" and N: "length (dss (Epoch i)) < N"
  shows "\<exists>r' s'. SeekAfter S Live N i r s = (None, r', s')"
proof (cases "i = GroupID 0")
  case False
  let ?e = "Epoch i" and ?p = "r_path r"
  obtain ver where li: "log_inv (view s) ?p ?e (dss ?e) (Ls ?e) ver" using logs_holdD [OF logs id(1)] id(2,3) order_trans by blast
  obtain s1 where f: "fetchEpochLog S Live ?p ?e s = (Inr (Ls ?e, ver), s1)" "inv s1" "view s1 = view s"
    using fetchEpochLog_Live [OF iv log_invD(1) [OF li]] by blast
  have li1: "log_inv (view s1) ?p ?e (dss ?e) (Ls ?e) ver" using li f(3) by simp
  obtain y s2 where y: "locate_sealed S Live ?p ?e (Sequence i) (Sealed (Ls ?e)) s1 = (Inr y, s2)" "inv s2" "view s2 = view s1"
    using locate_sealed_ends [OF f(2) li1 order_refl] by blast
  obtain z s3 where z: "locate_open S Live N ?p ?e (Sequence i) (OpenFrom (Ls ?e)) s2 = (Inr z, s3)"
    using locate_open_ends [OF y(2), of ?p ?e "dss ?e" "Ls ?e" ver "OpenFrom (Ls ?e)" N] li1 y(3) log_invD(3) [OF li] N by fastforce
  have "\<not> latest r < ?e" using id(2) by simp
  then show ?thesis using False f(1) y(1) z
    by (cases y; cases z) (auto simp: SeekAfter_def loadEpoch_def locateAfter_def Let_def)
qed (simp add: SeekAfter_def)

end

section \<open>Identities past the reader's epochs\<close>

text \<open>
  An identity of an epoch after the latest one the reader knows is looked for in that one, by its sequence:
  the identity \<open>SeekAfter\<close> really resumes from.
\<close>

definition resume_id :: "Reader \<Rightarrow> GroupID \<Rightarrow> GroupID" where
  "resume_id r i = (if Epoch i > latest r then NewGroupID (latest r) (Sequence i) else i)"

lemma resume_id_parts:
  "Epoch (resume_id r i) = (if Epoch i > latest r then latest r else Epoch i)" "Sequence (resume_id r i) = Sequence i"
  "1 \<le> latest r \<Longrightarrow> i \<noteq> GroupID 0 \<Longrightarrow> resume_id r i \<noteq> GroupID 0"
proof -
  have "latest r \<le> maxGroupEpoch" if "Epoch i > latest r" using that Epoch_le [of i] by (meson less_imp_le order_trans)
  then show e: "Epoch (resume_id r i) = (if Epoch i > latest r then latest r else Epoch i)" "Sequence (resume_id r i) = Sequence i"
    by (simp_all add: resume_id_def)
  have "Epoch (GroupID 0) = 0" by (simp add: Epoch_def)
  then show "1 \<le> latest r \<Longrightarrow> i \<noteq> GroupID 0 \<Longrightarrow> resume_id r i \<noteq> GroupID 0"
    using e(1) by (cases "Epoch i > latest r") (auto simp: resume_id_def)
qed

lemma SeekAfter_resume_id:
  assumes "1 \<le> latest r" shows "SeekAfter S c N i r s = SeekAfter S c N (resume_id r i) r s"
proof (cases "i = GroupID 0")
  case True
  then show ?thesis by (simp add: resume_id_def Epoch_def)
next
  case False
  then have "resume_id r i \<noteq> GroupID 0" using resume_id_parts(3) [OF assms] by blast
  then show ?thesis using False unfolding SeekAfter_def resume_id_parts(1,2) by (simp add: Let_def)
qed

lemma SeekStart_cursor:
  assumes cur: "cursor v lat dss Ls r j"
  shows "cursor v lat dss Ls (SeekStart r) 0" "at_edge (SeekStart r)"
proof -
  have "1 \<le> latest r" using cursor_epochs [OF cur] by auto
  then show "cursor v lat dss Ls (SeekStart r) 0"
    using cur rows_between_all [of "dss 1"] unfolding cursor_def Let_def by (auto simp: SeekStart_def)
  show "at_edge (SeekStart r)" by (simp add: at_edge_def SeekStart_def)
qed

lemma zero_before_rows:
  assumes t: "logs_hold v p lat dss Ls"
  shows "filter (\<lambda>g. Compare (ID g) (GroupID 0) \<le> 0) (track_rows dss lat) = []"
    "filter (\<lambda>g. Compare (ID g) (GroupID 0) > 0) (track_rows dss lat) = track_rows dss lat"
proof -
  have "Compare (ID g) (GroupID 0) > 0" if g: "g \<in> set (track_rows dss lat)" for g
  proof -
    obtain e where e: "1 \<le> e" "e \<le> lat" "g \<in> set (concat (dss e))" using g unfolding track_rows_def by (auto simp: set_epochs)
    have "Epoch (ID g) = e"
      using logs_holdD [OF t e(1,2)] log_invD(11) e(3) unfolding row_wf_def by blast
    moreover have "Epoch (GroupID 0) = 0" by (simp add: Epoch_def)
    ultimately have "GroupID 0 < ID g" using e(1) by (simp add: less_GroupID_lex word_neq_0_conv)
    then show ?thesis by (auto simp: Compare_def group_id_order)
  qed
  then show "filter (\<lambda>g. Compare (ID g) (GroupID 0) \<le> 0) (track_rows dss lat) = []"
    "filter (\<lambda>g. Compare (ID g) (GroupID 0) > 0) (track_rows dss lat) = track_rows dss lat"
    by (fastforce simp: filter_empty_conv filter_id_conv)+
qed

section \<open>The property\<close>

text \<open>
  C8. A consumer resumes where it left off: on any store, whatever fails, \<open>SeekAfter\<close> that succeeds leaves a
  reader in step after exactly the rows of all epochs with an identity up to the one it was given, the zero
  identity being before every row. Two conditions of the code show: the identities of the epoch it looks in must
  ascend in commit order, and an identity of an epoch the reader does not know of yet is looked for in its latest
  one by the sequence alone (\<open>resume_id\<close>), so the rows up to that one are passed over. On a store that answers
  the seek succeeds, with fuel above the number of the epoch's deltas, and a reader that knows the latest epoch
  (and, after the zero identity, holds the current log root of the first) then yields exactly the rows with a later
  identity, each once and in commit order, and then \<open>EOF\<close>.
\<close>

theorem seek_after_resumes:
  assumes S: "store_contract S view I" and iv: "I s" and t: "track_holds (view s) (r_path r) lat dss Ls"
    and cur: "cursor (view s) lat dss Ls r j"
    and id: "i = GroupID 0 \<or> 1 \<le> Epoch i \<and> ascending (concat (dss (Epoch (resume_id r i))))"
    and run: "SeekAfter S c N i r s = (err, r', s')"
  shows "view s' = view s \<and> (Epoch i \<le> latest r \<longrightarrow> resume_id r i = i) \<and>
    (err = None \<longrightarrow> at_edge r' \<and>
      cursor (view s) lat dss Ls r' (length (filter (\<lambda>g. Compare (ID g) (resume_id r i) \<le> 0) (track_rows dss lat)))) \<and>
    (reliable_store S view I \<and> c = Live \<and> length (dss (Epoch (resume_id r i))) < N \<longrightarrow> err = None \<and>
      ((i = GroupID 0 \<longrightarrow> epoch1Log r = Ls 1) \<and> latest r = lat \<and> unat lat + 2 \<le> N \<and> length (track_rows dss lat) < M \<longrightarrow>
        (\<exists>r'' s''. drain S Live N M r' s' = (filter (\<lambda>g. Compare (ID g) (resume_id r i) > 0) (track_rows dss lat), Some [EOF], r'', s''))))"
proof -
  have logs: "logs_hold (view s) (r_path r) lat dss Ls" using t by (simp add: track_holds_def)
  have l: "1 \<le> latest r" "latest r \<le> lat" using cursor_epochs [OF cur] by auto
  have same: "Epoch i \<le> latest r \<longrightarrow> resume_id r i = i" by (auto simp: resume_id_def)
  show ?thesis
  proof (cases "i = GroupID 0")
    case True
    have z: "resume_id r i = GroupID 0" using True by (simp add: resume_id_def Epoch_def)
    have q: "err = None" "r' = SeekStart r" "s' = s" using run True by (auto simp: SeekAfter_def)
    have "\<exists>r'' s''. drain S Live N M r' s' = (drop 0 (track_rows dss lat), Some [EOF], r'', s'')"
      if R: "reliable_store S view I" and "epoch1Log r = Ls 1" "latest r = lat" "unat lat + 2 \<le> N" "length (track_rows dss lat) < M"
      by (rule reliable_store.drain_all [OF R iv [folded q(3)]])
        (use SeekStart_cursor [OF cur] that t q in \<open>auto simp: SeekStart_def\<close>)
    then show ?thesis using q same z zero_before_rows [OF logs] SeekStart_cursor [OF cur] True by simp
  next
    case False
    let ?i = "resume_id r i"
    let ?k = "offset dss (Epoch ?i) + rank (dss (Epoch ?i)) (Sequence ?i)"
    have id': "1 \<le> Epoch ?i" "Epoch ?i \<le> latest r" "ascending (concat (dss (Epoch ?i)))" "?i \<noteq> GroupID 0"
      using id False l(1) resume_id_parts [of r i] by auto
    have run': "SeekAfter S c N ?i r s = (err, r', s')" using run SeekAfter_resume_id [OF l(1)] by metis
    have le: "Epoch ?i \<le> lat" using l(2) id'(2) order_trans by blast
    note sk = store_contract.SeekAfter_cursor [OF S run' iv logs cur id', unfolded store_contract.reads_def [OF S]]
    note up = rows_upto [OF logs id'(1) le id'(3)]
    have live: "err = None" if "reliable_store S view I" "c = Live" "length (dss (Epoch ?i)) < N"
      using reliable_store.SeekAfter_Live [OF that(1) iv logs id'(1,2) l(2) that(3)] run' that(2) by auto
    have "\<exists>r'' s''. drain S Live N M r' s' = (drop ?k (track_rows dss lat), Some [EOF], r'', s'')"
      if R: "reliable_store S view I" and "err = None" "latest r = lat" "unat lat + 2 \<le> N" "length (track_rows dss lat) < M"
      by (rule reliable_store.drain_all [OF R]) (use sk that t in auto)
    then show ?thesis using sk live up same by auto
  qed
qed

theorem seek_after_resumes_witness:
  "\<exists>s r' s' r'' s''. mem_view s = sealed_view \<and>
    SeekAfter mem_store Live 3 (ID (sample_row 0)) (sample_reader sealed_log) s = (None, r', s') \<and>
    drain mem_store Live 3 3 r' s' = ([sample_row 1], Some [EOF], r'', s'')"
proof -
  obtain s where s: "mem_inv s" "mem_view s = sealed_view" using view_state(2) by blast
  let ?r = "sample_reader sealed_log" and ?i = "NewGroupID 1 0"
  have r: "?r = ?r\<lparr>r_next := 0\<rparr>" "r_path ?r = ''cam''" "latest ?r = 1" by (simp_all add: sample_reader_def demo_reader_def)
  have c: "cursor (mem_view s) 1 (\<lambda>_. sample_ds) (\<lambda>_. sealed_log) ?r 0"
    using sample_reader_at [OF sample_track_holds(2), of 0] s(2) r(1) by simp
  have t: "track_holds (mem_view s) (r_path ?r) 1 (\<lambda>_. sample_ds) (\<lambda>_. sealed_log)" using sample_track_holds(2) r(2) s(2) by simp
  have cmp: "Compare (NewGroupID 1 0) (NewGroupID 1 1) < 0" "\<not> Compare (NewGroupID 1 1) ?i \<le> 0" "Compare ?i ?i = 0" "?i \<noteq> GroupID 0"
    by code_simp+
  have asc: "?i = GroupID 0 \<or> 1 \<le> Epoch ?i \<and> ascending (concat sample_ds)" "resume_id ?r ?i = ?i"
    using cmp r(3) by (simp_all add: ascending_def sample_ds_def resume_id_def)
  have rows: "track_rows (\<lambda>_. sample_ds) 1 = [sample_row 0, sample_row 1]" by simp
  obtain err r' s' where n: "SeekAfter mem_store Live 3 ?i ?r s = (err, r', s')" using prod_cases3 by blast
  have "err = None \<and> (\<exists>r'' s''. drain mem_store Live 3 3 r' s' = ([sample_row 1], Some [EOF], r'', s''))"
    using seek_after_resumes [OF mem.store_contract_axioms s(1) t c asc(1) n, of 3] mem.reliable_store_axioms r(3) cmp
    by (simp add: asc(2) rows length_sample_ds)
  then show ?thesis using s(2) n by auto
qed

end
