(* ===== verification/Reader_Seek_Time.thy ===== *)
theory Reader_Seek_Time
  imports Reader_Seek
begin

text \<open>
  Seeking by media time: \<open>SeekMedia\<close> agrees with a search of the rows of all epochs, and lands on the group
  it returns. The search of an epoch reads its open deltas first and then the sealed runs, newest first; the
  rows of an epoch start in media order, so the ones anchored at or before a time come first.
\<close>

section \<open>Rows in media order\<close>

definition timed :: "GroupInfo list \<Rightarrow> bool" where
  "timed = sorted_wrt (\<lambda>g h. MediaTime g \<le> MediaTime h)"

abbreviation anchored :: "int \<Rightarrow> GroupInfo \<Rightarrow> bool" where
  "anchored t g \<equiv> MediaTime g \<le> t"

text \<open>How many of the rows are anchored at or before \<open>t\<close>, when those come first.\<close>

definition reach :: "int \<Rightarrow> GroupInfo list \<Rightarrow> nat" where
  "reach t gs = length (takeWhile (anchored t) gs)"

lemma timed_log:
  assumes "log_inv v p e ds L ver"
  shows "timed (concat ds)"
proof -
  have "\<forall>g\<in>set (concat ds). MediaTime g \<le> mediaEnd g" using log_invD(11) [OF assms] row_wf_media by blast
  then show ?thesis
    using log_invD(12) [OF assms] unfolding timed_def serial_def by (induction "concat ds") (fastforce elim!: sorted_wrt_mono_rel [rotated])+
qed

lemma timed_append: "timed (xs @ ys) \<longleftrightarrow> timed xs \<and> timed ys \<and> (\<forall>x\<in>set xs. \<forall>y\<in>set ys. MediaTime x \<le> MediaTime y)"
  by (auto simp: timed_def sorted_wrt_append)

lemma reach_le: "reach t gs \<le> length gs"
  by (simp add: reach_def length_takeWhile_le)

lemma reach_nth:
  assumes "timed gs" and "i < length gs"
  shows "anchored t (gs ! i) \<longleftrightarrow> i < reach t gs"
proof
  show "anchored t (gs ! i)" if "i < reach t gs"
    using that unfolding reach_def by (metis nth_mem set_takeWhileD takeWhile_nth)
  show "i < reach t gs" if a: "anchored t (gs ! i)"
  proof (rule ccontr)
    assume n: "\<not> i < reach t gs"
    then have k: "reach t gs < length gs" using assms(2) by simp
    then have "\<not> anchored t (gs ! reach t gs)" unfolding reach_def by (rule nth_length_takeWhile)
    moreover have "MediaTime (gs ! reach t gs) \<le> MediaTime (gs ! i)"
    proof (cases "reach t gs = i")
      case False
      then show ?thesis using assms n unfolding timed_def by (metis linorder_neqE_nat sorted_wrt_nth_less)
    qed simp
    ultimately show False using a by simp
  qed
qed

lemma reach_append_none: "reach t ys = 0 \<Longrightarrow> reach t (xs @ ys) = reach t xs"
proof -
  assume y: "reach t ys = 0"
  show ?thesis
  proof (cases "\<forall>x\<in>set xs. anchored t x")
    case True
    have "takeWhile (anchored t) xs = xs" by (rule takeWhile_eq_all_conv [THEN iffD2]) (rule True)
    moreover have "takeWhile (anchored t) (xs @ ys) = xs @ takeWhile (anchored t) ys"
      by (rule takeWhile_append2) (use True in blast)
    moreover have "takeWhile (anchored t) ys = []" using y by (simp add: reach_def)
    ultimately show ?thesis unfolding reach_def by (simp only: append_Nil2)
  next
    case False
    then show ?thesis by (auto simp: reach_def takeWhile_append1)
  qed
qed

lemma reach_append_some:
  assumes "timed (xs @ ys)" and "reach t ys \<noteq> 0"
  shows "reach t (xs @ ys) = length xs + reach t ys"
proof -
  obtain y ys' where y: "ys = y # ys'" "anchored t y" using assms(2) by (cases ys) (auto simp: reach_def split: if_splits)
  then have "anchored t x" if "x \<in> set xs" for x using that assms(1) by (fastforce simp: timed_append)
  then show ?thesis by (simp add: reach_def takeWhile_append2)
qed

lemma last_anchored:
  assumes "timed gs"
  shows "filter (anchored t) gs = take (reach t gs) gs"
proof -
  have "takeWhile (anchored t) gs = filter (anchored t) gs"
    using assms unfolding timed_def by (rule takeWhile_filter_sorted) simp
  then show ?thesis by (metis reach_def takeWhile_eq_take)
qed

section \<open>The best match of a segment\<close>

abbreviation media_anchor :: "GroupInfo \<Rightarrow> int option" where
  "media_anchor \<equiv> \<lambda>g. Some (MediaTime g)"

definition best_at :: "GroupInfo list \<Rightarrow> u64 \<Rightarrow> nat \<Rightarrow> match \<Rightarrow> match" where
  "best_at seg n k best = (if k = 0 then best else Some (seg ! (k - 1), seg, k - 1, n, MediaTime (seg ! (k - 1))))"

lemma consider_upto:
  assumes "timed seg" and "case best of None \<Rightarrow> True | Some (_, _, _, _, a) \<Rightarrow> \<forall>g\<in>set seg. a \<le> MediaTime g" and "m \<le> length seg"
  shows "fold (consider_group media_anchor t seg n) [0..<m] best = best_at seg n (min m (reach t seg)) best"
  using assms(3)
proof (induction m)
  case (Suc m)
  have IH: "fold (consider_group media_anchor t seg n) [0..<m] best = best_at seg n (min m (reach t seg)) best" using Suc by simp
  show ?case
  proof (cases "m < reach t seg")
    case True
    then have a: "anchored t (seg ! m)" using reach_nth [OF assms(1)] Suc.prems by simp
    have "MediaTime (seg ! (m - 1)) \<le> MediaTime (seg ! m)" if "m \<noteq> 0"
      using that Suc.prems assms(1) sorted_wrt_nth_less [of _ seg "m - 1" m] by (simp add: timed_def)
    moreover have "b \<le> MediaTime (seg ! m)" if "\<forall>g\<in>set seg. b \<le> MediaTime g" for b using that Suc.prems by simp
    ultimately have "consider_group media_anchor t seg n m (best_at seg n m best) = best_at seg n (Suc m) best"
      using a assms(2) by (cases "m = 0"; cases best) (auto simp: best_at_def consider_group_def)
    moreover have "fold (consider_group media_anchor t seg n) [0..<Suc m] best =
        consider_group media_anchor t seg n m (best_at seg n m best)"
      using IH True by simp
    moreover have "min (Suc m) (reach t seg) = Suc m" using True by simp
    ultimately show ?thesis by (simp only:)
  next
    case False
    then have "\<not> anchored t (seg ! m)" using reach_nth [OF assms(1)] Suc.prems by simp
    then have "consider_group media_anchor t seg n m b = b" for b by (simp add: consider_group_def)
    moreover have "min (Suc m) (reach t seg) = min m (reach t seg)" using False by simp
    ultimately show ?thesis using IH by simp
  qed
qed (simp add: best_at_def)

lemma consider_all_media:
  assumes "timed seg" and "case best of None \<Rightarrow> True | Some (_, _, _, _, a) \<Rightarrow> \<forall>g\<in>set seg. a \<le> MediaTime g"
  shows "consider_all media_anchor t seg n best = best_at seg n (reach t seg) best"
  using consider_upto [OF assms order_refl, of t n] reach_le [of t seg] by (simp add: consider_all_def min_def)

section \<open>The search of one epoch\<close>

text \<open>
  The best match among the deltas from \<open>a\<close> up to \<open>b\<close>: the last anchored row, if it lies among them, with its
  place in the epoch.
\<close>

definition landed :: "GroupInfo list list \<Rightarrow> nat \<Rightarrow> nat \<Rightarrow> int \<Rightarrow> match \<Rightarrow> bool" where
  "landed ds a b t best \<longleftrightarrow> (let rows = rows_between ds 0 b; k = reach t rows in
     case best of None \<Rightarrow> k \<le> length (rows_between ds 0 a)
     | Some (g, seg, i, m, at) \<Rightarrow> length (rows_between ds 0 a) < k \<and> g = rows ! (k - 1) \<and> at = MediaTime g \<and>
         place ds (k - 1) (seg, i, m) \<and> i < length seg \<and> seg ! i = g \<and> a \<le> unat m)"

lemma landed_seg:
  assumes "timed (rows_between ds 0 b)" and "a \<le> c" and "c \<le> b" and "b \<le> length ds" and "unat n = b"
    and k: "reach t (rows_between ds c b) \<noteq> 0"
  shows "landed ds a b t (best_at (rows_between ds c b) n (reach t (rows_between ds c b)) best)"
proof -
  let ?seg = "rows_between ds c b" and ?k = "reach t (rows_between ds c b)"
  have rows: "rows_between ds 0 b = rows_between ds 0 c @ ?seg" using rows_between_split [of 0 c b ds] assms(3) by simp
  have K: "reach t (rows_between ds 0 b) = length (rows_between ds 0 c) + ?k"
    using reach_append_some [of "rows_between ds 0 c" ?seg t] assms(1) k unfolding rows by simp
  have "place ds (length (rows_between ds 0 c) + (?k - 1)) (?seg, ?k - 1, n)"
    by (rule place_segment [OF assms(3,4,5)]) (use reach_le [of t ?seg] in simp)
  moreover have "length (rows_between ds 0 c) + ?k - 1 = length (rows_between ds 0 c) + (?k - 1)" using k by simp
  ultimately show ?thesis
    using k K reach_le [of t ?seg] rows_between_mono [OF assms(2), of ds] assms(2,3,5)
    by (auto simp: landed_def best_at_def rows nth_append Let_def)
qed

lemma landed_step:
  assumes "timed (concat ds)" and "a \<le> b" and "b < length ds" and "unat n = Suc b" and l: "landed ds a b t best"
  shows "landed ds a (Suc b) t (consider_all media_anchor t (ds ! b) n best)"
proof -
  let ?rows = "rows_between ds 0 b" and ?k = "reach t (ds ! b)"
  have rows: "rows_between ds 0 (Suc b) = ?rows @ ds ! b" using rows_between_Suc [of 0 b ds] assms(3) by simp
  have seg: "ds ! b = rows_between ds b (Suc b)" using rows_between_Suc [of b b ds] assms(3) by simp
  have "concat ds = rows_between ds 0 (Suc b) @ rows_between ds (Suc b) (length ds)"
    using rows_between_split [of 0 "Suc b" "length ds" ds] rows_between_all [of ds] assms(3) by simp
  then have tm: "timed (?rows @ ds ! b)" using assms(1) rows by (metis timed_append)
  have "case best of None \<Rightarrow> True | Some (_, _, _, _, at) \<Rightarrow> \<forall>g\<in>set (ds ! b). at \<le> MediaTime g"
  proof (cases best)
    case (Some x)
    obtain g sg i m at where x: "x = (g, sg, i, m, at)" by (cases x)
    have g: "g = ?rows ! (reach t ?rows - 1)" "0 < reach t ?rows" "at = MediaTime g" using l Some x by (auto simp: landed_def Let_def)
    then have "g \<in> set ?rows" using reach_le [of t ?rows] by simp
    then show ?thesis using tm g(3) Some x by (simp add: timed_append)
  qed simp
  then have c: "consider_all media_anchor t (ds ! b) n best = best_at (ds ! b) n ?k best"
    using consider_all_media tm by (simp add: timed_append)
  show ?thesis
  proof (cases "?k = 0")
    case True
    have "reach t ?rows - 1 < length ?rows" if "0 < reach t ?rows" using that reach_le [of t ?rows] by simp
    then show ?thesis
      using l c True reach_append_none [OF True, of ?rows] rows
      by (auto simp: landed_def best_at_def Let_def nth_append split: option.splits)
  next
    case False
    then show ?thesis using landed_seg [of ds "Suc b" a b n t best] tm rows assms(2,3,4) seg c by simp
  qed
qed

text \<open>What the search of an epoch finds: the last of its anchored rows, and a reader placed there is at an edge.\<close>

definition epoch_match :: "GroupInfo list list \<Rightarrow> epochLogRoot \<Rightarrow> int \<Rightarrow> match \<Rightarrow> bool" where
  "epoch_match ds L t best \<longleftrightarrow> (let k = reach t (concat ds) in
     case best of None \<Rightarrow> k = 0
     | Some (g, seg, i, m, at) \<Rightarrow> 0 < k \<and> g = concat ds ! (k - 1) \<and> place ds (k - 1) (seg, i, m) \<and> i < length seg \<and> seg ! i = g \<and>
         (\<forall>r. r_logRoot r = L \<and> r_next r = m \<longrightarrow> at_edge r))"

lemma landed_match:
  assumes "log_inv v p e ds L ver" and "landed ds (unat (OpenFrom L)) (length ds) t best" and "best \<noteq> None"
  shows "epoch_match ds L t best"
proof -
  have "at_edge r" if "r_logRoot r = L" "unat (OpenFrom L) \<le> unat (r_next r)" for r
    using edge_open [of v p e ds r] log_inv_snapshot [OF assms(1)] that by (simp add: word_le_nat_alt)
  then show ?thesis using assms(2,3) rows_between_all [of ds] by (auto simp: landed_def epoch_match_def Let_def)
qed

lemma runs_last_split:
  assumes "runs p e ds a (rs @ [r]) b"
  shows "runs p e ds a rs (unat (FirstDelta r))" "b = Suc (unat (LastDelta r))" "FirstDelta r \<le> LastDelta r" "unat (LastDelta r) < length ds"
  using assms by (induction rs arbitrary: a) auto

lemma rows_upto_split: "b \<le> length ds \<Longrightarrow> concat ds = rows_between ds 0 b @ rows_between ds b (length ds)"
  using rows_between_split [of 0 b "length ds" ds] rows_between_all [of ds] by simp

text \<open>The last run of the sealed runs up to a delta, and the rows up to its end.\<close>

lemma last_run:
  assumes li: "log_inv v p e ds L ver" and runs: "runs p e ds 0 (refs @ [ref]) b" and ref: "ref \<in> set (Sealed L)"
  shows "runs p e ds 0 refs (unat (FirstDelta ref))" and "run_rows ds ref = rows_between ds (unat (FirstDelta ref)) b"
    and "unat (FirstDelta ref) \<le> b" and "b \<le> length ds" and "unat (LastDelta ref + 1) = b"
    and "rows_between ds 0 b = rows_between ds 0 (unat (FirstDelta ref)) @ run_rows ds ref"
    and "run_rows ds ref \<noteq> []" and "MediaStart ref = MediaTime (hd (run_rows ds ref))" and "timed (rows_between ds 0 b)"
proof -
  let ?a = "unat (FirstDelta ref)"
  have b: "runs p e ds 0 refs ?a" "b = Suc (unat (LastDelta ref))" "?a \<le> b" "b \<le> length ds"
    using runs_last_split [of p e ds 0 refs ref b] runs by (auto simp: word_le_nat_alt)
  then show "runs p e ds 0 refs ?a" "?a \<le> b" "b \<le> length ds" by blast+
  show rows: "run_rows ds ref = rows_between ds ?a b" using b(2) by (simp add: run_rows_def)
  show "unat (LastDelta ref + 1) = b" using word_next [of "LastDelta ref" "length ds"] b log_inv_length [OF li] by simp
  show "rows_between ds 0 b = rows_between ds 0 ?a @ run_rows ds ref" using rows_between_split [of 0 ?a b ds] b(3) rows by simp
  show ne: "run_rows ds ref \<noteq> []" using run_rows_nonempty [OF log_invD(4) [OF li] ref log_invD(10) [OF li]] .
  show "MediaStart ref = MediaTime (hd (run_rows ds ref))"
    using runs_ref [OF log_invD(4) [OF li] ref] run_ref_rows(3) [OF ne] by metis
  show "timed (rows_between ds 0 b)" using timed_log [OF li] rows_upto_split [OF b(4)] by (metis timed_append)
qed

lemma reach_within:
  assumes li: "log_inv v p e ds L ver" and b: "b \<le> length ds" and r: "reach t (concat ds) \<le> length (rows_between ds 0 b)"
  shows "reach t (concat ds) = reach t (rows_between ds 0 b)"
proof (cases "reach t (rows_between ds b (length ds)) = 0")
  case False
  then have "reach t (concat ds) = length (rows_between ds 0 b) + reach t (rows_between ds b (length ds))"
    using reach_append_some timed_log [OF li] rows_upto_split [OF b] by metis
  then show ?thesis using False r by simp
qed (use reach_append_none rows_upto_split [OF b] in metis)

lemma run_match:
  assumes li: "log_inv v p e ds L ver" and runs: "runs p e ds 0 (refs @ [ref]) b" and ref: "ref \<in> set (Sealed L)"
    and r: "reach t (concat ds) \<le> length (rows_between ds 0 b)" and k: "reach t (run_rows ds ref) \<noteq> 0"
  shows "epoch_match ds L t (best_at (run_rows ds ref) (LastDelta ref + 1) (reach t (run_rows ds ref)) None)"
proof -
  let ?m = "best_at (run_rows ds ref) (LastDelta ref + 1) (reach t (run_rows ds ref)) None"
  note f = last_run [OF li runs ref] and K = reach_within [OF li _ r]
  have "landed ds 0 b t ?m" unfolding f(2) by (rule landed_seg [OF f(9) _ f(3,4,5)]) (use k f(2) in simp_all)
  moreover have "reach t (rows_between ds 0 b) - 1 < length (rows_between ds 0 b)"
    using reach_le [of t "rows_between ds 0 b"] f(6,7) by (cases "reach t (rows_between ds 0 b)") auto
  moreover have "\<forall>r. r_logRoot r = L \<and> r_next r = LastDelta ref + 1 \<longrightarrow> at_edge r" using sealed_edge [OF li ref] by blast
  ultimately show ?thesis
    using K [OF f(4)] k by (auto simp: landed_def epoch_match_def Let_def rows_upto_split [OF f(4)] nth_append best_at_def)
qed

context store_contract
begin

lemma seek_open_reads:
  assumes "seek_open S c N p e media_anchor t n best s = (x, s')" and "inv s" and "log_inv (view s) p e ds L ver"
    and "OpenFrom L \<le> n" and "unat n \<le> length ds" and "landed ds (unat (OpenFrom L)) (unat n) t best"
  shows "reads s s' \<and> (\<forall>m. x = Inr m \<longrightarrow> landed ds (unat (OpenFrom L)) (length ds) t m) \<and> (\<forall>err. x = Inl err \<longrightarrow> foreign err)"
  using assms
proof (induction N arbitrary: n s best)
  case 0
  then show ?case by (auto simp: reads_def)
next
  case (Suc N)
  note li = Suc.prems(3)
  obtain y s1 where y: "delta S c p e n s = (y, s1)" by fastforce
  note r = delta_reads [OF y Suc.prems(2) li]
  show ?case
  proof (cases y)
    case (Inl err)
    show ?thesis
    proof (cases "errors_Is err ErrNotCommitted")
      case True
      then have "view s (deltaKey p e n) = None" using r Inl by simp
      then have "\<not> unat n < length ds" using log_invD(6) [OF li Suc.prems(4)] by (auto simp: delta_holds_def)
      then have "unat n = length ds" using Suc.prems(5) by simp
      then show ?thesis using Suc.prems(1,6) y Inl True r by (auto simp: reads_def)
    qed (use Suc.prems(1) y Inl r in \<open>auto simp: reads_def\<close>)
  next
    case (Inr D)
    have v: "inv s1" "view s1 = view s" and n: "unat n < length ds" and D: "dm_Groups D = ds ! unat n" using r Inr by auto
    have n1: "unat (n + 1) = Suc (unat n)" using word_next n log_inv_length [OF li] by blast
    have o: "OpenFrom L \<le> n + 1" using Suc.prems(4) n1 by (simp add: word_le_nat_alt)
    have l: "landed ds (unat (OpenFrom L)) (unat (n + 1)) t (consider_all media_anchor t (ds ! unat n) (n + 1) best)"
      using landed_step [OF timed_log [OF li] _ n n1 Suc.prems(6)] Suc.prems(4) n1 by (simp add: word_le_nat_alt)
    have go: "seek_open S c N p e media_anchor t (n + 1) (consider_all media_anchor t (ds ! unat n) (n + 1) best) s1 = (x, s')"
      using Suc.prems(1) y Inr D by simp
    from Suc.IH [OF go v(1) _ o _ l] show ?thesis using v li n n1 by (simp add: reads_def)
  qed
qed

lemma seek_sealed_stop [simp]: "seek_sealed S c p e an st t refs (Some m) s = (Inr (Some m), s)"
  by (cases refs) simp_all

lemma seek_sealed_reads:
  assumes "seek_sealed S c p e media_anchor (\<lambda>ref. Some (MediaStart ref)) t refs None s = (x, s')" and "inv s"
    and "log_inv (view s) p e ds L ver" and "runs p e ds 0 (rev refs) b" and "set refs \<subseteq> set (Sealed L)"
    and "reach t (concat ds) \<le> length (rows_between ds 0 b)"
  shows "reads s s' \<and> (\<forall>m. x = Inr m \<longrightarrow> epoch_match ds L t m) \<and> (\<forall>err. x = Inl err \<longrightarrow> foreign err)"
  using assms
proof (induction refs arbitrary: s b)
  case Nil
  then show ?case by (auto simp: reads_def epoch_match_def)
next
  case (Cons ref refs)
  note li = Cons.prems(3)
  let ?n = "LastDelta ref + 1" and ?rows = "run_rows ds ref" and ?before = "rows_between ds 0 (unat (FirstDelta ref))"
  have ref: "ref \<in> set (Sealed L)" using Cons.prems(5) by simp
  have last: "runs p e ds 0 (rev refs @ [ref]) b" using Cons.prems(4) by simp
  note f = last_run [OF li last ref]
  have K: "reach t (concat ds) = reach t (?before @ ?rows)" using reach_within [OF li f(4) Cons.prems(6)] f(6) by simp
  have none: "reach t ?rows = 0 \<longleftrightarrow> t < MediaStart ref" using f(7,8) by (cases ?rows) (auto simp: reach_def)
  show ?case
  proof (cases "t < MediaStart ref")
    case True
    then have "reach t (concat ds) \<le> length ?before" using K none reach_append_none [of t ?rows ?before] reach_le [of t ?before] by simp
    then show ?thesis using Cons.IH [OF _ Cons.prems(2) li f(1)] Cons.prems(1,5) True by simp
  next
    case False
    obtain y s1 where y: "sealed S c p e ref s = (y, s1)" by fastforce
    note r = sealed_reads [OF y Cons.prems(2) li log_inv_snapshot [OF li] ref]
    show ?thesis
    proof (cases y)
      case (Inl err)
      then show ?thesis using Cons.prems(1) False y r by (auto simp: reads_def)
    next
      case (Inr M)
      let ?m = "best_at ?rows ?n (reach t ?rows) None"
      have k: "reach t ?rows \<noteq> 0" using none False by simp
      have "timed ?rows" using f(9) f(6) by (metis timed_append)
      then have "consider_all media_anchor t ?rows ?n None = ?m" by (simp add: consider_all_media)
      moreover obtain z where z: "?m = Some z" using k by (simp add: best_at_def)
      ultimately have x: "x = Inr ?m" "s' = s1" using Cons.prems(1) False y Inr r by auto
      have "epoch_match ds L t ?m" by (rule run_match [OF li last ref Cons.prems(6) k])
      then show ?thesis using x r Inr by (auto simp: reads_def)
    qed
  qed
qed

end

section \<open>The search of a track\<close>

text \<open>
  The search over the rows of the epochs, newest first: the last row anchored at or before \<open>t\<close> of the first
  epoch that has one, unless it is known to end by then.
\<close>

fun group_at :: "int \<Rightarrow> GroupInfo list list \<Rightarrow> GroupInfo option" where
  "group_at t [] = None"
| "group_at t (rows # older) =
     (if filter (anchored t) rows = [] then group_at t older
      else let g = last (filter (anchored t) rows)
           in if hasDuration g \<and> mediaEnd g \<le> t then None else Some g)"

lemma filter_reach:
  assumes "timed gs"
  shows "filter (anchored t) gs = [] \<longleftrightarrow> reach t gs = 0" and "0 < reach t gs \<Longrightarrow> last (filter (anchored t) gs) = gs ! (reach t gs - 1)"
proof -
  show "filter (anchored t) gs = [] \<longleftrightarrow> reach t gs = 0" using reach_le [of t gs] by (auto simp: last_anchored [OF assms])
  show "last (filter (anchored t) gs) = gs ! (reach t gs - 1)" if "0 < reach t gs"
  proof -
    have "take (reach t gs) gs \<noteq> []" "length (take (reach t gs) gs) = reach t gs" using that reach_le [of t gs] by auto
    then show ?thesis using that unfolding last_anchored [OF assms] by (simp add: last_conv_nth)
  qed
qed

text \<open>A seek that lands on a group of the epoch \<open>e\<close>.\<close>

definition lands_on :: "(u64 \<Rightarrow> GroupInfo list list) \<Rightarrow> (u64 \<Rightarrow> epochLogRoot) \<Rightarrow> u64 \<Rightarrow> GroupInfo \<Rightarrow> Reader \<Rightarrow> Reader \<Rightarrow> bool" where
  "lands_on dss Ls e g r r' \<longleftrightarrow> (\<exists>seg k n i. r' = position e seg k n r \<and> i < length (concat (dss e)) \<and> concat (dss e) ! i = g \<and>
     place (dss e) i (seg, k, n) \<and> k < length seg \<and> seg ! k = g \<and> (\<forall>r. r_logRoot r = Ls e \<and> r_next r = n \<longrightarrow> at_edge r))"

context store_contract
begin

lemma seekWithinEpoch_reads:
  assumes run: "seekWithinEpoch S c N p e L t media_anchor (\<lambda>ref. Some (MediaStart ref)) s = (x, s')" and i: "inv s"
    and li: "log_inv (view s) p e ds L ver"
  shows "reads s s' \<and> (\<forall>m. x = Inr m \<longrightarrow> epoch_match ds L t m) \<and> (\<forall>err. x = Inl err \<longrightarrow> foreign err)"
proof -
  let ?o = "unat (OpenFrom L)"
  obtain y s1 where y: "seek_open S c N p e media_anchor t (OpenFrom L) None s = (y, s1)" by fastforce
  have "landed ds ?o ?o t None" using reach_le by (simp add: landed_def)
  note yr = seek_open_reads [OF y i li order_refl log_invD(3) [OF li] this]
  show ?thesis
  proof (cases y)
    case (Inl err)
    then show ?thesis using run y yr by (auto simp: seekWithinEpoch_def)
  next
    case (Inr best)
    have v: "inv s1" "log_inv (view s1) p e ds L ver" using yr li by (auto simp: reads_def)
    have l: "landed ds ?o (length ds) t best" using yr Inr by simp
    have go: "seek_sealed S c p e media_anchor (\<lambda>ref. Some (MediaStart ref)) t (rev (Sealed L)) best s1 = (x, s')"
      using run y Inr by (simp add: seekWithinEpoch_def)
    show ?thesis
    proof (cases best)
      case None
      have "reach t (concat ds) \<le> length (rows_between ds 0 ?o)" using l None rows_between_all [of ds] by (simp add: landed_def)
      from seek_sealed_reads [OF go [unfolded None] v _ _ this] show ?thesis using log_invD(4) [OF li] yr by (auto simp: reads_def)
    next
      case (Some m)
      then show ?thesis using go landed_match [OF li l] yr by (auto simp: reads_def)
    qed
  qed
qed

lemma seek_epochs_found:
  assumes li: "log_inv v p e (dss e) (Ls e) ver" and m: "epoch_match (dss e) (Ls e) t (Some (g, seg, i, n, a))"
    and x: "(x, r', s') = (if hasDuration g \<and> mediaEnd g \<le> t then (Inl [ErrGroupNotFound], r, s2) else (Inr g, position e seg i n r, s2))"
  shows "s' = s2 \<and> (case x of
      Inr g \<Rightarrow> group_at t (map (\<lambda>e. concat (dss e)) (e # es)) = Some g \<and> lands_on dss Ls e g r r'
    | Inl err \<Rightarrow> r' = r \<and> err = [ErrGroupNotFound] \<and> group_at t (map (\<lambda>e. concat (dss e)) (e # es)) = None)"
proof -
  let ?ds = "dss e" and ?k = "reach t (concat (dss e))"
  have m: "0 < ?k" "g = concat ?ds ! (?k - 1)" "place ?ds (?k - 1) (seg, i, n)" "i < length seg" "seg ! i = g"
    "\<forall>r. r_logRoot r = Ls e \<and> r_next r = n \<longrightarrow> at_edge r"
    using m by (auto simp: epoch_match_def Let_def)
  have k: "filter (anchored t) (concat ?ds) \<noteq> []" "last (filter (anchored t) (concat ?ds)) = g" "?k - 1 < length (concat ?ds)"
    using filter_reach [OF timed_log [OF li], of t] m reach_le [of t "concat ?ds"] by auto
  have "lands_on dss Ls e g r (position e seg i n r)" unfolding lands_on_def using m k(3) by blast
  then show ?thesis using x k by (auto simp: Let_def split: if_splits)
qed

lemma seek_epochs_reads:
  assumes "seek_epochs S c N t media_anchor (\<lambda>g _. if hasDuration g then Some (mediaEnd g) else None) (\<lambda>ref. Some (MediaStart ref)) es r s
      = (x, r', s')" and "inv s" and "logs_hold (view s) (r_path r) lat dss Ls" and "set es \<subseteq> set (epochs lat)"
  shows "reads s s' \<and>
    (case x of
       Inr g \<Rightarrow> group_at t (map (\<lambda>e. concat (dss e)) es) = Some g \<and> (\<exists>e\<in>set es. lands_on dss Ls e g r r')
     | Inl err \<Rightarrow> r' = r \<and> (if errors_Is err ErrGroupNotFound then group_at t (map (\<lambda>e. concat (dss e)) es) = None else foreign err))"
  using assms
proof (induction es arbitrary: s)
  case Nil
  then show ?case by (auto simp: reads_def)
next
  case (Cons e es)
  let ?p = "r_path r" and ?ds = "dss e"
  have "1 \<le> e" "e \<le> lat" using Cons.prems(4) by (auto simp: set_epochs)
  then obtain ver where li: "log_inv (view s) ?p e ?ds (Ls e) ver" using logs_holdD [OF Cons.prems(3)] by blast
  obtain f s1 where f: "fetchEpochLog S c ?p e s = (f, s1)" by fastforce
  note fr = fetchEpochLog_reads [OF f Cons.prems(2) li]
  show ?case
  proof (cases f)
    case (Inl err)
    then show ?thesis using Cons.prems(1) f fr by (auto simp: reads_def foreignD)
  next
    case (Inr q)
    have q: "q = (Ls e, ver)" and v: "inv s1" "view s1 = view s" using fr Inr by auto
    have li1: "log_inv (view s1) ?p e ?ds (Ls e) ver" using li v by simp
    obtain y s2 where y: "seekWithinEpoch S c N ?p e (Ls e) t media_anchor (\<lambda>ref. Some (MediaStart ref)) s1 = (y, s2)" by fastforce
    note yr = seekWithinEpoch_reads [OF y v(1) li1]
    have R: "inv s2" "view s2 = view s" using yr v by (auto simp: reads_def)
    consider (failed) err where "y = Inl err" | (none) "y = Inr None" | (found) g seg i n a where "y = Inr (Some (g, seg, i, n, a))"
      by (metis old.sum.exhaust option.exhaust prod_cases5)
    then show ?thesis
    proof cases
      case failed
      then show ?thesis using Cons.prems(1) f Inr q y yr R by (auto simp: reads_def foreignD)
    next
      case none
      then have k: "filter (anchored t) (concat ?ds) = []" using yr filter_reach(1) [OF timed_log [OF li], of t] by (simp add: epoch_match_def)
      have "seek_epochs S c N t media_anchor (\<lambda>g _. if hasDuration g then Some (mediaEnd g) else None) (\<lambda>ref. Some (MediaStart ref)) es r s2
          = (x, r', s')"
        using Cons.prems(1) f Inr q y none by simp
      from Cons.IH [OF this R(1)] show ?thesis using Cons.prems(3,4) R k by (auto simp: reads_def split: sum.splits)
    next
      case found
      have "(x, r', s') = (if hasDuration g \<and> mediaEnd g \<le> t then (Inl [ErrGroupNotFound], r, s2) else (Inr g, position e seg i n r, s2))"
        using Cons.prems(1) f Inr q y found by (cases "hasDuration g") auto
      from seek_epochs_found [where dss = dss and Ls = Ls and es = es, OF li _ this] show ?thesis using yr found R by (cases x) (auto simp: reads_def)
    qed
  qed
qed

end

context reliable_store
begin

lemma seek_open_ends:
  assumes "inv s" and "log_inv (view s) p e ds L ver" and "OpenFrom L \<le> n" and "unat n \<le> length ds" and "length ds - unat n < N"
  shows "\<exists>m s'. seek_open S Live N p e an t n best s = (Inr m, s')"
  using assms
proof (induction N arbitrary: n s best)
  case (Suc N)
  show ?case
  proof (cases "unat n < length ds")
    case True
    obtain D s1 where d: "delta S Live p e n s = (Inr D, s1)" "inv s1" "view s1 = view s"
      using delta_Live [OF Suc.prems(1-3) True] by auto
    have n1: "unat (n + 1) = Suc (unat n)" using word_next True log_inv_length [OF Suc.prems(2)] by blast
    then have "OpenFrom L \<le> n + 1" using Suc.prems(3) by (simp add: word_le_nat_alt)
    then show ?thesis using Suc.IH [of s1 "n + 1"] Suc.prems d n1 True by simp
  next
    case False
    then have "view s (deltaKey p e n) = None" using log_invD(7) [OF Suc.prems(2)] by simp
    then show ?thesis using delta_absent_Live [OF Suc.prems(1), of p e n] by auto
  qed
qed simp

lemma seek_sealed_ends:
  assumes "inv s" and "log_inv (view s) p e ds L ver" and "set refs \<subseteq> set (Sealed L)"
  shows "\<exists>m s'. seek_sealed S Live p e an st t refs best s = (Inr m, s')"
  using assms
proof (induction refs arbitrary: s best)
  case (Cons ref refs)
  obtain M s1 where m: "sealed S Live p e ref s = (Inr M, s1)" "inv s1" "view s1 = view s"
    using sealed_Live [OF Cons.prems(1,2) log_inv_snapshot [OF Cons.prems(2)], of ref] Cons.prems(3) by auto
  have "\<exists>m s'. seek_sealed S Live p e an st t refs b s0 = (Inr m, s')" if "s0 = s \<or> s0 = s1" for s0 b
    using Cons.IH [of s0 b] Cons.prems m that by auto
  then show ?case using m by (auto split: option.split)
qed simp

lemma seek_epochs_Live:
  assumes "inv s" and "logs_hold (view s) (r_path r) lat dss Ls" and "set es \<subseteq> set (epochs lat)" and "\<forall>e\<in>set es. length (dss e) < N"
    and "seek_epochs S Live N t media_anchor (\<lambda>g _. if hasDuration g then Some (mediaEnd g) else None) (\<lambda>ref. Some (MediaStart ref)) es r s
      = (Inl err, r', s')"
  shows "err = [ErrGroupNotFound]"
  using assms
proof (induction es arbitrary: s)
  case (Cons e es)
  have "1 \<le> e" "e \<le> lat" using Cons.prems(3) by (auto simp: set_epochs)
  then obtain ver where li: "log_inv (view s) (r_path r) e (dss e) (Ls e) ver" using logs_holdD [OF Cons.prems(2)] by blast
  obtain s1 where f: "fetchEpochLog S Live (r_path r) e s = (Inr (Ls e, ver), s1)" "inv s1" "view s1 = view s"
    using fetchEpochLog_Live [OF Cons.prems(1) log_invD(1) [OF li]] by blast
  have li1: "log_inv (view s1) (r_path r) e (dss e) (Ls e) ver" using li f(3) by simp
  obtain b s2 where b: "seek_open S Live N (r_path r) e media_anchor t (OpenFrom (Ls e)) None s1 = (Inr b, s2)"
    using seek_open_ends [OF f(2) li1 order_refl log_invD(3) [OF li], of N] Cons.prems(4) by fastforce
  have "landed (dss e) (unat (OpenFrom (Ls e))) (unat (OpenFrom (Ls e))) t None" using reach_le by (simp add: landed_def)
  then have v2: "inv s2" "log_inv (view s2) (r_path r) e (dss e) (Ls e) ver"
    using seek_open_reads [OF b f(2) li1 order_refl log_invD(3) [OF li]] li1 by (auto simp: reads_def)
  obtain m s3 where "seek_sealed S Live (r_path r) e media_anchor (\<lambda>ref. Some (MediaStart ref)) t (rev (Sealed (Ls e))) b s2 = (Inr m, s3)"
    using seek_sealed_ends [OF v2, where refs = "rev (Sealed (Ls e))" and an = media_anchor
        and st = "\<lambda>ref. Some (MediaStart ref)" and t = t and best = b] by auto
  then have w: "seekWithinEpoch S Live N (r_path r) e (Ls e) t media_anchor (\<lambda>ref. Some (MediaStart ref)) s1 = (Inr m, s3)"
    using b by (simp add: seekWithinEpoch_def)
  have "inv s3 \<and> view s3 = view s" using seekWithinEpoch_reads [OF w f(2) li1] f(3) by (simp add: reads_def)
  then show ?case using Cons.IH [of s3] Cons.prems f(1) w by (cases m) (auto split: if_splits)
qed simp

end

section \<open>A seek into another epoch\<close>

lemma SeekMedia_epochs:
  "SeekMedia S c N t r s = seek_epochs S c N t media_anchor (\<lambda>g _. if hasDuration g then Some (mediaEnd g) else None)
     (\<lambda>ref. Some (MediaStart ref)) (rev (epochs (latest r))) r s"
  by (simp add: SeekMedia_def seekTime_def)

context reliable_store
begin

lemma SeekMedia_Live:
  assumes i: "inv s" and logs: "logs_hold (view s) (r_path r) (latest r) dss Ls"
    and N: "\<forall>e\<in>set (epochs (latest r)). length (dss e) < N"
    and g: "group_at t (map (\<lambda>e. concat (dss e)) (rev (epochs (latest r)))) = Some g"
  shows "\<exists>r' s'. SeekMedia S Live N t r s = (Inr g, r', s')"
proof -
  obtain x r' s' where sk: "SeekMedia S Live N t r s = (x, r', s')" using prod_cases3 by blast
  note q = seek_epochs_reads [OF sk [unfolded SeekMedia_epochs] i logs]
  have "err = [ErrGroupNotFound]" if "x = Inl err" for err
    using seek_epochs_Live [OF i logs, of "rev (epochs (latest r))" N t err r' s'] sk [unfolded SeekMedia_epochs] N that by simp
  then show ?thesis using q sk g by (cases x) auto
qed

text \<open>A run of one epoch's log root is not one of another epoch, and \<open>sealed\<close> says so.\<close>

lemma stale_root_mismatch:
  assumes i: "inv s" and logs: "logs_hold (view s) (r_path r) lat dss Ls" and e: "1 \<le> e" "e \<le> lat" "r_epoch r \<noteq> e"
    and L: "r_logRoot r = Ls e" and ex: "\<not> r_idx r < length (batch r)" and n: "r_next r < OpenFrom (Ls e)"
  shows "\<exists>s'. Next S Live (Suc N) r s = (Inl [ErrManifestMismatch], r, s')"
proof -
  obtain ver where li: "log_inv (view s) (r_path r) e (dss e) (Ls e) ver" using logs_holdD [OF logs e(1,2)] by blast
  obtain ref where ref: "sealedCovering (r_logRoot r) (r_next r) = Some ref" "ref \<in> set (Sealed (Ls e))"
    using runs_covering [OF log_invD(4) [OF li], of "r_next r"] n L by (auto simp: sealedCovering_def word_less_nat_alt)
  have k: "Key ref = sealedKey (r_path r) e (FirstDelta ref) (LastDelta ref)" "view s (Key ref) \<noteq> None"
    using runs_Key [OF log_invD(4) [OF li] ref(2)] log_invD(5) [OF li ref(2)] by auto
  then obtain d u M where d: "view s (Key ref) = Some (d, u)" "decode_sealed d = Inr M" "sm_Track M = r_path r" "sm_Epoch M = e"
    using log_invD(8) [OF li, of "FirstDelta ref" "LastDelta ref"] by (auto simp: sealed_holds_def)
  obtain s' where "Get S Live (Key ref) s = (Inr (d, u), s')" using Get_present_Live [OF i d(1)] by blast
  then have "sealed S Live (r_path r) (r_epoch r) ref s = (Inl [ErrManifestMismatch], s')" using d e(3) by (simp add: sealed_def)
  then show ?thesis using ref(1) ex n L by (simp add: Next_Suc)
qed

end

text \<open>A second epoch for the sample track, with one open group.\<close>

definition second_row :: GroupInfo where
  "second_row = zero_GroupInfo\<lparr>ID := NewGroupID 2 0, Duration := 1000, ObjectKey := groupKey ''cam'' (NewGroupID 2 0), Size := 4\<rparr>"

definition second_delta :: deltaManifest where
  "second_delta = \<lparr>dm_Version = manifestVersion, dm_Seq = 0, dm_Groups = [second_row], CommittedAt = 7\<rparr>"

definition two_epochs_view :: view where
  "two_epochs_view = sealed_view(epochLogKey ''cam'' 2 \<mapsto> (encode_logRoot (new_log ''cam'' 2 7), ''1''),
     groupKey ''cam'' (NewGroupID 2 0) \<mapsto> (''data'', ''1''), deltaKey ''cam'' 2 0 \<mapsto> (encode_delta second_delta, ''1''))"

definition two_epochs_rows :: "u64 \<Rightarrow> GroupInfo list list" where
  "two_epochs_rows e = (if e = 1 then sample_ds else [[second_row]])"

definition two_epochs_logs :: "u64 \<Rightarrow> epochLogRoot" where
  "two_epochs_logs e = (if e = 1 then sealed_log else new_log ''cam'' 2 7)"

lemma second_row_fields [simp]:
  "ID second_row = NewGroupID 2 0" "MediaTime second_row = 0" "Duration second_row = 1000" "Size second_row = 4"
  "ObjectKey second_row = groupKey ''cam'' (NewGroupID 2 0)" "Epoch (NewGroupID 2 0) = 2"
  by (simp_all add: second_row_def zero_GroupInfo_def le_maxGroupEpoch)

lemma second_row_wf: "row_wf ''cam'' 2 second_row"
  using validate_GroupInfo_None [of second_row]
  by (simp add: row_wf_def row_ok_def typed_GroupInfo_def i64_bounds, simp add: second_row_def zero_GroupInfo_def)

lemma second_log_inv: "log_inv two_epochs_view ''cam'' 2 [[second_row]] (new_log ''cam'' 2 7) ''1''"
proof -
  let ?v1 = "sealed_view(epochLogKey ''cam'' 2 \<mapsto> (encode_logRoot (new_log ''cam'' 2 7), ''1''))"
  let ?v2 = "?v1(groupKey ''cam'' (NewGroupID 2 0) \<mapsto> (''data'', ''1''))"
  have "log_at ?v1 ''cam'' 2 (new_log ''cam'' 2 7) ''1''" by (rule new_log_at) (simp_all add: new_log_ok i64_bounds)
  then have "log_inv ?v1 ''cam'' 2 [] (new_log ''cam'' 2 7) ''1''"
    by (rule log_inv_new) (simp add: fresh_epoch_def sealed_view_def open_view_def demo_view key_eq)
  moreover have "NewGroupID 2 0 \<noteq> NewGroupID 1 0" "NewGroupID 2 0 \<noteq> NewGroupID 1 1" by code_simp+
  ultimately have 2: "log_inv ?v2 ''cam'' 2 [] (new_log ''cam'' 2 7) ''1''"
    by (intro log_inv_payload) (simp_all add: sealed_view_def open_view_def demo_view key_eq)
  have "log_inv (?v2(deltaKey ''cam'' 2 0 \<mapsto> (encode_delta second_delta, ''1''))) ''cam'' 2 ([] @ [[second_row]]) (new_log ''cam'' 2 7) ''1''"
    by (rule log_inv_commit [OF 2])
      (use second_row_wf in \<open>auto simp: second_delta_def delta_ok_def row_wf_def manifestVersion_def payload_held_def i64_bounds\<close>)
  then show ?thesis by (simp add: two_epochs_view_def)
qed

lemma first_log_inv: "log_inv two_epochs_view ''cam'' 1 sample_ds sealed_log ''1''"
proof (rule log_inv_cong [OF sealed_log_inv])
  have "NewGroupID 2 0 \<noteq> NewGroupID 1 0" "NewGroupID 2 0 \<noteq> NewGroupID 1 1" by code_simp+
  then show "payload_held two_epochs_view ''cam'' g" if "g \<in> set (concat sample_ds)" "payload_held sealed_view ''cam'' g" for g
    using that by (auto simp: payload_held_def two_epochs_view_def sample_ds_def key_eq)
qed (simp_all add: two_epochs_view_def key_eq)

lemma epochs_two: "epochs 2 = [1, 2]"
  by (simp add: epochs_def upt_rec)

lemma two_epochs_state: "\<exists>s. mem_inv s \<and> mem_view s = two_epochs_view"
proof -
  have put: "\<exists>s. mem_inv s \<and> mem_view s = v(k \<mapsto> (d, ''1''))" if "\<exists>s. mem_inv s \<and> mem_view s = v" for v k d
    using that mem_put by metis
  show ?thesis unfolding two_epochs_view_def by (intro put) (rule view_state(2))
qed

lemma two_epochs_hold: "logs_hold two_epochs_view ''cam'' 2 two_epochs_rows two_epochs_logs"
proof -
  have two: "two_epochs_rows 2 = [[second_row]]" "two_epochs_logs 2 = new_log ''cam'' 2 7"
    by (simp_all add: two_epochs_rows_def two_epochs_logs_def)
  have one: "two_epochs_rows 1 = sample_ds" "two_epochs_logs 1 = sealed_log" by (simp_all add: two_epochs_rows_def two_epochs_logs_def)
  have "\<exists>ver. log_inv two_epochs_view ''cam'' e (two_epochs_rows e) (two_epochs_logs e) ver" if "1 \<le> e" "e \<le> 2" for e
  proof -
    have "e \<in> set (epochs 2)" using that by (simp only: set_epochs mem_Collect_eq)
    then consider "e = 1" | "e = 2" by (auto simp: epochs_two)
    then show ?thesis by cases (use one two first_log_inv second_log_inv in auto)
  qed
  then show ?thesis by (simp only: logs_hold_def) blast
qed

lemma lands_on_epoch:
  assumes "logs_hold v p lat dss Ls" "1 \<le> e" "e \<le> lat" "lands_on dss Ls e g r r'"
  shows "Epoch (ID g) = e"
proof -
  have "g \<in> set (concat (dss e))" using assms(4) nth_mem unfolding lands_on_def by blast
  then show ?thesis using logs_holdD [OF assms(1-3)] log_invD(11) unfolding row_wf_def by blast
qed

declare Next.simps [simp del]


section \<open>Properties\<close>

text \<open>
  C28. \<open>SeekMedia\<close> is the search of the track's rows: on any store, whatever fails, the group it returns is the
  last one anchored at or before the time in the newest epoch that has such a group, and not known to end
  by then, and it answers \<open>ErrGroupNotFound\<close> only when there is none; on a store that answers it does one of
  the two, and an error leaves the reader as it was. After a group was found the reader is in its epoch and the
  next call of \<open>Next\<close> returns that group. What comes after it is the rest of the track in commit order when the
  reader was in that epoch before, with its log root up to date; the seek does not read the log root of another.
\<close>

theorem seek_media_finds_the_group:
  assumes S: "store_contract S view I" and i: "I s" and logs: "logs_hold (view s) (r_path r) (latest r) dss Ls"
    and run: "SeekMedia S c N t r s = (x, r', s')"
  defines "found \<equiv> group_at t (map (\<lambda>e. concat (dss e)) (rev (epochs (latest r))))"
  shows "view s' = view s \<and>
    (\<forall>g. x = Inr g \<longrightarrow> found = Some g \<and> r_epoch r' = Epoch (ID g) \<and> (\<forall>M. \<exists>r''. Next S c (Suc M) r' s' = (Inr g, r'', s'))) \<and>
    (\<forall>err. x = Inl err \<longrightarrow> r' = r \<and> (errors_Is err ErrGroupNotFound \<longrightarrow> found = None)) \<and>
    (reliable_store S view I \<and> c = Live \<and> (\<forall>e\<in>set (epochs (latest r)). length (dss e) < N) \<longrightarrow>
      x = (case found of Some g \<Rightarrow> Inr g | None \<Rightarrow> Inl [ErrGroupNotFound])) \<and>
    (\<forall>g lat j. x = Inr g \<and> cursor (view s) lat dss Ls r j \<and> r_epoch r = Epoch (ID g) \<and> r_logRoot r = Ls (r_epoch r) \<longrightarrow>
      (\<exists>k<length (track_rows dss lat). track_rows dss lat ! k = g \<and> cursor (view s) lat dss Ls r' k \<and> at_edge r'))"
proof -
  have sk: "seek_epochs S c N t media_anchor (\<lambda>g _. if hasDuration g then Some (mediaEnd g) else None) (\<lambda>ref. Some (MediaStart ref))
      (rev (epochs (latest r))) r s = (x, r', s')"
    using run by (simp add: SeekMedia_epochs)
  have sub: "set (rev (epochs (latest r))) \<subseteq> set (epochs (latest r))" by simp
  note q = store_contract.seek_epochs_reads [OF S sk i logs sub, unfolded store_contract.reads_def [OF S]]
  have live: "x = (case found of Some g \<Rightarrow> Inr g | None \<Rightarrow> Inl [ErrGroupNotFound])"
    if "reliable_store S view I" "c = Live" "\<forall>e\<in>set (epochs (latest r)). length (dss e) < N"
  proof (cases x)
    case (Inl err)
    then have "err = [ErrGroupNotFound]"
      using reliable_store.seek_epochs_Live [OF that(1) i logs sub, of N t err r' s'] sk that(2,3) by simp
    then show ?thesis using q Inl by (simp add: found_def)
  qed (use q in \<open>simp add: found_def\<close>)
  have found: "r_epoch r' = Epoch (ID g) \<and> (\<forall>M. \<exists>r''. Next S c (Suc M) r' s' = (Inr g, r'', s'))" if x: "x = Inr g" for g
  proof -
    obtain e where e: "e \<in> set (epochs (latest r))" "lands_on dss Ls e g r r'" using q x by auto
    then have "Epoch (ID g) = e" using lands_on_epoch [OF logs] by (simp add: set_epochs)
    then show ?thesis using e(2) by (auto simp: lands_on_def position_def Next_Suc Let_def)
  qed
  have "\<exists>k<length (track_rows dss lat). track_rows dss lat ! k = g \<and> cursor (view s) lat dss Ls r' k \<and> at_edge r'"
    if x: "x = Inr g" and cur: "cursor (view s) lat dss Ls r j" and e: "r_epoch r = Epoch (ID g)" and L: "r_logRoot r = Ls (r_epoch r)"
    for g lat j
  proof -
    obtain e' where p0: "e' \<in> set (epochs (latest r))" "lands_on dss Ls e' g r r'" using q x by auto
    then obtain seg k n i' where p: "e' \<in> set (epochs (latest r))" "r' = position e' seg k n r" "i' < length (concat (dss e'))"
        "concat (dss e') ! i' = g" "place (dss e') i' (seg, k, n)" "k < length seg" "\<forall>r. r_logRoot r = Ls e' \<and> r_next r = n \<longrightarrow> at_edge r"
      unfolding lands_on_def by blast
    have e': "1 \<le> e'" "e' \<le> latest r" using p(1) by (auto simp: set_epochs)
    then have ee: "r_epoch r = e'" using e lands_on_epoch [OF logs _ _ p0(2)] by simp
    have "cursor (view s) lat dss Ls r' (offset dss (r_epoch r') + i')"
      by (rule place_cursor) (use p ee L cur in \<open>auto simp: position_def cursor_def Let_def\<close>)
    moreover have "at_edge r'" using p(2,7) ee L by (simp add: position_def)
    moreover have "e' \<le> lat" using e'(2) cursor_epochs [OF cur] order_trans by blast
    ultimately show ?thesis
      using track_rows_nth [OF e'(1), of lat i' dss] p(2,3,4) by (auto simp: position_def)
  qed
  then show ?thesis using q live found by (auto simp: found_def split: sum.splits)
qed

definition two_epochs_reader :: Reader where
  "two_epochs_reader = demo_reader\<lparr>latest := 2, epoch1Log := sealed_log, r_logRoot := sealed_log\<rparr>"

lemma two_epochs_reader_fields [simp]:
  "r_path two_epochs_reader = ''cam''" "latest two_epochs_reader = 2" "r_epoch two_epochs_reader = 1"
  "r_logRoot two_epochs_reader = two_epochs_logs 1"
  by (simp_all add: two_epochs_reader_def demo_reader_def two_epochs_logs_def)

lemma two_epochs_found: "group_at 500 (map (\<lambda>e. concat (two_epochs_rows e)) (rev (epochs 2))) = Some second_row"
  by (simp add: epochs_two two_epochs_rows_def hasDuration_def mediaEnd_def i64_def)

lemma two_epochs_short: "\<forall>e\<in>set (epochs 2). length (two_epochs_rows e) < 3"
  by (simp add: two_epochs_rows_def)

theorem seek_media_finds_the_group_witness:
  "\<exists>s r' s'. mem_view s = two_epochs_view \<and> SeekMedia mem_store Live 3 500 two_epochs_reader s = (Inr second_row, r', s')"
proof -
  obtain s where s: "mem_inv s" "mem_view s = two_epochs_view" using two_epochs_state by blast
  have logs: "logs_hold (mem_view s) (r_path two_epochs_reader) (latest two_epochs_reader) two_epochs_rows two_epochs_logs"
    using two_epochs_hold s(2) by simp
  obtain x r' s' where n: "SeekMedia mem_store Live 3 500 two_epochs_reader s = (x, r', s')" using prod_cases3 by blast
  have "x = (case Some second_row of Some g \<Rightarrow> Inr g | None \<Rightarrow> Inl [ErrGroupNotFound])"
    using seek_media_finds_the_group [OF mem.store_contract_axioms s(1) logs n, unfolded two_epochs_reader_fields two_epochs_found]
      mem.reliable_store_axioms two_epochs_short by blast
  then have "x = Inr second_row" by simp
  then show ?thesis using s(2) n by blast
qed



end
