(* ===== verification/Storetest.thy ===== *)
theory Storetest
  imports Mem_Store Db_Store Bucket_Store Fs_Store "HOL-Library.Multiset" "HOL-Library.AList_Mapping"
begin

text \<open>
  The conformance suite for backends (\<open>ledger/store/storetest/storetest.go\<close>). A subtest runs the backend's
  operations from the state of a fresh store and passes or fails. \<open>require\<close> ends a subtest that fails,
  \<open>assert\<close> records the failure and goes on; a subtest passes when nothing failed, so both are a condition on the
  run, and only a value that a \<open>require\<close> guards is used after it. What a call returns is a value here: the
  subtest that overwrites the slice it was given can only reach its own copy.

  The suite is shown to pass on every store of the contract that answers and keeps the further promises the suite
  relies on (locales \<open>strict_store\<close> and \<open>listing_store\<close>), the four backends are run through it, and backends with
  one fault each are shown to fail exactly the subtests meant for it.
\<close>

section \<open>Assertions\<close>

text \<open>
  What each documented assertion asks of a call, with the rest of the subtest: no error, on a call with a result and
  on one without; an error that is a given one; some error.
\<close>

definition require_NoError :: "(error + 'a) \<times> 's \<Rightarrow> ('a \<Rightarrow> 's \<Rightarrow> bool) \<Rightarrow> bool" where
  "require_NoError call rest = (case call of (Inl _, _) \<Rightarrow> False | (Inr x, s) \<Rightarrow> rest x s)"

definition require_NoErr :: "error option \<times> 's \<Rightarrow> ('s \<Rightarrow> bool) \<Rightarrow> bool" where
  "require_NoErr call rest = (case call of (Some _, _) \<Rightarrow> False | (None, s) \<Rightarrow> rest s)"

definition assert_ErrorIs :: "(error + 'a) \<times> 's \<Rightarrow> sentinel \<Rightarrow> ('s \<Rightarrow> bool) \<Rightarrow> bool" where
  "assert_ErrorIs call target rest =
     (case call of (r, s) \<Rightarrow> (case r of Inl err \<Rightarrow> errors_Is err target | Inr _ \<Rightarrow> False) \<and> rest s)"

definition assert_Error :: "(error + 'a) \<times> 's \<Rightarrow> ('s \<Rightarrow> bool) \<Rightarrow> bool" where
  "assert_Error call rest = (case call of (r, s) \<Rightarrow> isl r \<and> rest s)"

section \<open>The suite\<close>

definition Get_Missing :: "'s store \<Rightarrow> 's \<Rightarrow> bool" where
  "Get_Missing S s = assert_ErrorIs (Get S Live ''absent'' s) ErrNotExist (\<lambda>s. True)"

definition Create_ThenGet :: "'s store \<Rightarrow> 's \<Rightarrow> bool" where
  "Create_ThenGet S s =
     (let payload = ''frames''; key = ''live/cam1/groups/e000001-g00000001''
      in require_NoError (Create S Live key payload s) (\<lambda>ver s.
         require_NoError (Get S Live key s) (\<lambda>(d, got) s. d = payload \<and> got = ver)))"

definition Create_Empty :: "'s store \<Rightarrow> 's \<Rightarrow> bool" where
  "Create_Empty S s =
     require_NoError (Create S Live ''empty'' [] s) (\<lambda>_ s.
     require_NoError (Get S Live ''empty'' s) (\<lambda>(d, _) s. d = []))"

definition Create_Existing :: "'s store \<Rightarrow> 's \<Rightarrow> bool" where
  "Create_Existing S s =
     require_NoError (Create S Live ''key'' ''first'' s) (\<lambda>_ s.
     assert_ErrorIs (Create S Live ''key'' ''second'' s) ErrExist (\<lambda>s.
     require_NoError (Get S Live ''key'' s) (\<lambda>(d, _) s. d = ''first'')))"

definition Swap_MatchingVersion :: "'s store \<Rightarrow> 's \<Rightarrow> bool" where
  "Swap_MatchingVersion S s =
     require_NoError (Create S Live ''head'' ''v1'' s) (\<lambda>ver s.
     require_NoError (Swap S Live ''head'' ''v2'' ver s) (\<lambda>nxt s. ver \<noteq> nxt \<and>
     require_NoError (Get S Live ''head'' s) (\<lambda>(d, _) s. d = ''v2'')))"

definition Swap_StaleVersion :: "'s store \<Rightarrow> 's \<Rightarrow> bool" where
  "Swap_StaleVersion S s =
     require_NoError (Create S Live ''head'' ''v1'' s) (\<lambda>stale s.
     require_NoError (Swap S Live ''head'' ''v2'' stale s) (\<lambda>_ s.
     assert_ErrorIs (Swap S Live ''head'' ''v3'' stale s) ErrVersionMismatch (\<lambda>s.
     require_NoError (Get S Live ''head'' s) (\<lambda>(d, _) s. d = ''v2''))))"

definition Swap_AbsentWithNoVersion :: "'s store \<Rightarrow> 's \<Rightarrow> bool" where
  "Swap_AbsentWithNoVersion S s =
     require_NoError (Swap S Live ''head'' ''v1'' NoVersion s) (\<lambda>_ s.
     require_NoError (Get S Live ''head'' s) (\<lambda>(d, _) s. d = ''v1''))"

definition Swap_AbsentWithVersion :: "'s store \<Rightarrow> 's \<Rightarrow> bool" where
  "Swap_AbsentWithVersion S s = assert_ErrorIs (Swap S Live ''head'' ''v1'' ''bogus'' s) ErrNotExist (\<lambda>s. True)"

definition Delete_Present :: "'s store \<Rightarrow> 's \<Rightarrow> bool" where
  "Delete_Present S s =
     require_NoError (Create S Live ''key'' ''data'' s) (\<lambda>_ s.
     require_NoErr (Delete S Live ''key'' s) (\<lambda>s.
     assert_ErrorIs (Get S Live ''key'' s) ErrNotExist (\<lambda>s. True)))"

definition Delete_Absent :: "'s store \<Rightarrow> 's \<Rightarrow> bool" where
  "Delete_Absent S s = (fst (Delete S Live ''never-existed'' s) = None)"

definition Create_AfterDelete :: "'s store \<Rightarrow> 's \<Rightarrow> bool" where
  "Create_AfterDelete S s =
     require_NoError (Create S Live ''key'' ''first'' s) (\<lambda>_ s.
     require_NoErr (Delete S Live ''key'' s) (\<lambda>s.
     \<not> isl (fst (Create S Live ''key'' ''second'' s))))"

text \<open>Writing to the first byte of an empty slice panics, which fails the subtest.\<close>

definition Get_ReturnsIndependentCopy :: "'s store \<Rightarrow> 's \<Rightarrow> bool" where
  "Get_ReturnsIndependentCopy S s =
     require_NoError (Create S Live ''key'' ''original'' s) (\<lambda>_ s.
     require_NoError (Get S Live ''key'' s) (\<lambda>(d, _) s.
       if d = [] then False
       else let d = d[0 := CHR ''X'']
            in require_NoError (Get S Live ''key'' s) (\<lambda>(again, _) s. again = ''original'')))"

definition ContextCancelled :: "'s store \<Rightarrow> 's \<Rightarrow> bool" where
  "ContextCancelled S s =
     assert_Error (Get S Ctx_Canceled ''key'' s) (\<lambda>s.
     assert_Error (Create S Ctx_Canceled ''key'' ''x'' s) (\<lambda>s. True))"

text \<open>\<open>newStore\<close> is called once for each subtest; a subtest is known by its name.\<close>

definition Run :: "'s store \<Rightarrow> (nat \<Rightarrow> 's) \<Rightarrow> (string \<times> bool) list" where
  "Run S newStore =
     [(''Get_Missing'', Get_Missing S (newStore 0)),
      (''Create_ThenGet'', Create_ThenGet S (newStore 1)),
      (''Create_Empty'', Create_Empty S (newStore 2)),
      (''Create_Existing'', Create_Existing S (newStore 3)),
      (''Swap_MatchingVersion'', Swap_MatchingVersion S (newStore 4)),
      (''Swap_StaleVersion'', Swap_StaleVersion S (newStore 5)),
      (''Swap_AbsentWithNoVersion'', Swap_AbsentWithNoVersion S (newStore 6)),
      (''Swap_AbsentWithVersion'', Swap_AbsentWithVersion S (newStore 7)),
      (''Delete'', Delete_Present S (newStore 8)),
      (''Delete_Absent'', Delete_Absent S (newStore 9)),
      (''Create_AfterDelete'', Create_AfterDelete S (newStore 10)),
      (''Get_ReturnsIndependentCopy'', Get_ReturnsIndependentCopy S (newStore 11)),
      (''ContextCancelled'', ContextCancelled S (newStore 12))]"

section \<open>The suite for listings\<close>

text \<open>The loop over the listed keys, which requires that none is an error.\<close>

fun require_keys :: "(error + string) list \<Rightarrow> string list \<Rightarrow> (string list \<Rightarrow> bool) \<Rightarrow> bool" where
  "require_keys [] found rest = rest found"
| "require_keys (Inl _ # ks) found rest = False"
| "require_keys (Inr key # ks) found rest = require_keys ks (found @ [key]) rest"

fun require_created :: "'s store \<Rightarrow> string list \<Rightarrow> 's \<Rightarrow> ('s \<Rightarrow> bool) \<Rightarrow> bool" where
  "require_created S [] s rest = rest s"
| "require_created S (key # ks) s rest =
     require_NoError (Create S Live key ''x'' s) (\<lambda>_ s. require_created S ks s rest)"

type_synonym 's lister = "ctx \<Rightarrow> string \<Rightarrow> 's \<Rightarrow> (error + string) list \<times> 's"

definition Keys_ByPrefix :: "'s store \<Rightarrow> 's lister \<Rightarrow> 's \<Rightarrow> bool" where
  "Keys_ByPrefix S List s =
     require_created S [''live/cam1/groups/a'', ''live/cam1/groups/b'', ''live/cam1/root.manifest'', ''live/cam2/groups/a''] s
       (\<lambda>s. require_keys (fst (List Live ''live/cam1/groups/'' s)) []
         (\<lambda>found. mset [''live/cam1/groups/a'', ''live/cam1/groups/b''] = mset found))"

definition Keys_NoMatches :: "'s store \<Rightarrow> 's lister \<Rightarrow> 's \<Rightarrow> bool" where
  "Keys_NoMatches S List s =
     require_created S [''live/cam1/root.manifest''] s
       (\<lambda>s. require_keys (fst (List Live ''no/such/prefix/'' s)) [] (\<lambda>found. found = []))"

definition RunLister :: "'s store \<Rightarrow> 's lister \<Rightarrow> (nat \<Rightarrow> 's) \<Rightarrow> (string \<times> bool) list" where
  "RunLister S List newStore =
     [(''Keys_ByPrefix'', Keys_ByPrefix S List (newStore 0)), (''Keys_NoMatches'', Keys_NoMatches S List (newStore 1))]"

section \<open>What the suite relies on\<close>

text \<open>
  The contract and an answer to every call, and promises more: a call with a canceled context fails, a swap
  of an absent object for a version answers \<open>ErrNotExist\<close>, and a listing yields each key with the prefix once.
\<close>

locale strict_store = reliable_store +
  assumes canceled: "inv s \<Longrightarrow> isl (fst (Get S Ctx_Canceled k s)) \<and> isl (fst (Create S Ctx_Canceled k d s))"
    and swap_absent: "inv s \<Longrightarrow> view s k = None \<Longrightarrow> v \<noteq> NoVersion \<Longrightarrow>
      \<exists>e s'. Swap S Live k d v s = (Inl e, s') \<and> errors_Is e ErrNotExist"

locale listing_store = strict_store +
  fixes List :: "'a lister"
  assumes list_keys: "inv s \<Longrightarrow> \<exists>keys s'. List Live p s = (map Inr keys, s') \<and> distinct keys \<and>
      set keys = {k. view s k \<noteq> None \<and> HasPrefix k p}"

lemma require_keys_Inr [simp]: "require_keys (map Inr keys) found rest = rest (found @ keys)"
  by (induction keys arbitrary: found) auto

lemmas assertions = require_NoError_def require_NoErr_def assert_ErrorIs_def assert_Error_def

context reliable_store
begin

text \<open>Each call of a subtest, as a rule for what comes after it.\<close>

lemma require_Create:
  assumes "inv s" and "view s k = None" and "\<And>v s'. Create S Live k d s = (Inr v, s') \<Longrightarrow> inv s' \<Longrightarrow> view s' = (view s)(k \<mapsto> (d, v)) \<Longrightarrow> rest v s'"
  shows "require_NoError (Create S Live k d s) rest"
proof -
  obtain v s' where c: "Create S Live k d s = (Inr v, s')" using create_absent [OF assms(1,2)] by blast
  then show ?thesis using create_inv [OF assms(1) c] create_Inr [OF assms(1) c] assms(3) [OF c] by (simp add: assertions)
qed

lemma require_Swap:
  assumes "inv s" and "swap_matches (view s k) e"
    and "\<And>v s'. Swap S Live k d e s = (Inr v, s') \<Longrightarrow> inv s' \<Longrightarrow> view s' = (view s)(k \<mapsto> (d, v)) \<Longrightarrow> rest v s'"
  shows "require_NoError (Swap S Live k d e s) rest"
proof -
  obtain v s' where c: "Swap S Live k d e s = (Inr v, s')" using swap_ok [OF assms(1,2)] by blast
  then show ?thesis using swap_inv [OF assms(1) c] swap_Inr [OF assms(1) c] assms(3) [OF c] by (simp add: assertions)
qed

lemma require_Get:
  assumes "inv s" and "view s k = Some x" and "\<And>s'. inv s' \<Longrightarrow> view s' = view s \<Longrightarrow> rest x s'"
  shows "require_NoError (Get S Live k s) rest"
proof -
  obtain s' where c: "Get S Live k s = (Inr x, s')" using get_present [OF assms(1,2)] by blast
  then show ?thesis using get_view [OF assms(1) c] assms(3) by (simp add: assertions)
qed

lemma require_Delete:
  assumes "inv s" and "\<And>s'. inv s' \<Longrightarrow> view s' = (view s)(k := None) \<Longrightarrow> rest s'"
  shows "require_NoErr (Delete S Live k s) rest"
proof -
  obtain s' where c: "Delete S Live k s = (None, s')" using delete_ok [OF assms(1)] by blast
  then show ?thesis using delete_inv [OF assms(1) c] delete_view [OF assms(1) c] assms(2) by (simp add: assertions)
qed

lemma assert_absent:
  assumes "inv s" and "view s k = None"
  shows "assert_ErrorIs (Get S Live k s) ErrNotExist (\<lambda>s. True)"
  using get_absent [OF assms] by (auto simp: assertions)

lemma assert_exists:
  assumes "inv s" and "view s k = Some x" and "\<And>s'. inv s' \<Longrightarrow> view s' = view s \<Longrightarrow> rest s'"
  shows "assert_ErrorIs (Create S Live k d s) ErrExist rest"
proof -
  obtain e s' where c: "Create S Live k d s = (Inl e, s')" "errors_Is e ErrExist" using create_present [OF assms(1)] assms(2) by blast
  have "view s' = view s" using create_Inl [OF assms(1) c(1)] assms(2) by auto
  then show ?thesis using c create_inv [OF assms(1) c(1)] assms(3) by (simp add: assertions)
qed

lemma assert_stale:
  assumes "inv s" and "view s k = Some (x, v)" and "issued view inv e" and "v \<noteq> e" and "\<And>s'. inv s' \<Longrightarrow> view s' = view s \<Longrightarrow> rest s'"
  shows "assert_ErrorIs (Swap S Live k d e s) ErrVersionMismatch rest"
proof -
  have m: "\<not> swap_matches (view s k) e" using assms(2,4) by (simp add: swap_matches_def)
  obtain er s' where c: "Swap S Live k d e s = (Inl er, s')" "errors_Is er ErrVersionMismatch"
    using swap_refused [OF assms(1,3) m, of d] assms(2) by auto
  have "view s' = view s" using swap_Inl [OF assms(1) c(1)] m assms(3) by blast
  then show ?thesis using c swap_inv [OF assms(1) c(1)] assms(5) by (simp add: assertions)
qed

text \<open>The subtests; \<open>new\<close> says that the second write of a key in a fresh store gets another version.\<close>

lemma subtests_pass:
  assumes f: "inv s" "view s = Map.empty"
  shows "Get_Missing S s" "Create_ThenGet S s" "Create_Empty S s" "Create_Existing S s" "Swap_AbsentWithNoVersion S s"
    "Delete_Present S s" "Delete_Absent S s" "Create_AfterDelete S s" "Get_ReturnsIndependentCopy S s"
proof -
  show "Get_Missing S s" unfolding Get_Missing_def by (rule assert_absent) (simp_all add: f)
  show "Create_ThenGet S s" unfolding Create_ThenGet_def Let_def
    by (rule require_Create [OF f(1)], simp add: f) (rule require_Get, auto)
  show "Create_Empty S s" unfolding Create_Empty_def
    by (rule require_Create [OF f(1)], simp add: f) (rule require_Get, auto)
  show "Create_Existing S s" unfolding Create_Existing_def
    by (rule require_Create [OF f(1)], simp add: f) (rule assert_exists, auto intro!: require_Get)
  show "Swap_AbsentWithNoVersion S s" unfolding Swap_AbsentWithNoVersion_def
    by (rule require_Swap [OF f(1)], simp add: f swap_matches_def) (rule require_Get, auto)
  show "Delete_Present S s" unfolding Delete_Present_def
    by (rule require_Create [OF f(1)], simp add: f) (rule require_Delete, simp, rule assert_absent, auto)
  show "Delete_Absent S s" unfolding Delete_Absent_def using delete_ok [OF f(1), of "''never-existed''"] by auto
  show "Create_AfterDelete S s" unfolding Create_AfterDelete_def
  proof (rule require_Create [OF f(1)], simp add: f, rule require_Delete)
    fix v s1 s2 assume "inv s2" "view s2 = (view s1)(''key'' := None)"
    then show "\<not> isl (fst (Create S Live ''key'' ''second'' s2))" using create_absent [of s2 "''key''" "''second''"] by auto
  qed
  show "Get_ReturnsIndependentCopy S s" unfolding Get_ReturnsIndependentCopy_def Let_def
    by (rule require_Create [OF f(1)], simp add: f) (rule require_Get, auto intro!: require_Get)
qed

lemma version_subtests_pass:
  assumes f: "inv s" "view s = Map.empty"
    and new: "\<And>v s1 v' s2. Create S Live ''head'' ''v1'' s = (Inr v, s1) \<Longrightarrow> Swap S Live ''head'' ''v2'' v s1 = (Inr v', s2) \<Longrightarrow> v' \<noteq> v"
  shows "Swap_MatchingVersion S s" "Swap_StaleVersion S s"
proof -
  show "Swap_MatchingVersion S s" unfolding Swap_MatchingVersion_def
  proof (rule require_Create [OF f(1)], simp add: f, rule require_Swap, assumption, simp add: swap_matches_def, rule conjI)
    fix v s1 v' s2 assume c: "Create S Live ''head'' ''v1'' s = (Inr v, s1)" "Swap S Live ''head'' ''v2'' v s1 = (Inr v', s2)"
    show "v \<noteq> v'" using new [OF c] by simp
  qed (rule require_Get, auto)
  show "Swap_StaleVersion S s" unfolding Swap_StaleVersion_def
  proof (rule require_Create [OF f(1)], simp add: f, rule require_Swap, assumption, simp add: swap_matches_def, rule assert_stale)
    fix v s1 v' s2
    assume c: "Create S Live ''head'' ''v1'' s = (Inr v, s1)" "Swap S Live ''head'' ''v2'' v s1 = (Inr v', s2)"
      and v: "inv s1" "view s1 = (view s)(''head'' \<mapsto> (''v1'', v))" "view s2 = (view s1)(''head'' \<mapsto> (''v2'', v'))"
    show "view s2 ''head'' = Some (''v2'', v')" using v(3) by simp
    show "issued view inv v" using issuedI [of inv s1 view "''head''" "''v1''" v] v(1,2) by simp
    show "v' \<noteq> v" using new [OF c] .
  qed (auto intro!: require_Get)
qed

lemma require_created_all:
  assumes "inv s" and "distinct ks" and "\<forall>k\<in>set ks. view s k = None"
    and "\<And>s'. inv s' \<Longrightarrow> dom (view s') = dom (view s) \<union> set ks \<Longrightarrow> rest s'"
  shows "require_created S ks s rest"
  using assms
proof (induction ks arbitrary: s)
  case (Cons k ks)
  show ?case
  proof (simp, rule require_Create)
    fix v s' assume s': "inv s'" "view s' = (view s)(k \<mapsto> (''x'', v))"
    have d: "dom (view s') = insert k (dom (view s))" using s'(2) by auto
    show "require_created S ks s' rest"
    proof (rule Cons.IH [OF s'(1)])
      show "rest s2" if "inv s2" "dom (view s2) = dom (view s') \<union> set ks" for s2
        by (rule Cons.prems(4) [OF that(1)]) (simp add: that(2) d)
    qed (use Cons.prems s'(2) in auto)
  qed (use Cons.prems in auto)
qed simp

end

context strict_store
begin

lemma strict_subtests_pass:
  assumes f: "inv s" "view s = Map.empty"
  shows "Swap_AbsentWithVersion S s" "ContextCancelled S s"
proof -
  show "Swap_AbsentWithVersion S s"
    using swap_absent [OF f(1), of "''head''" "''bogus''" "''v1''"] f(2)
    by (auto simp: Swap_AbsentWithVersion_def assertions NoVersion_def)
  obtain r s1 where g: "Get S Ctx_Canceled ''key'' s = (r, s1)" by fastforce
  then have "isl r" "inv s1" using canceled [OF f(1), of "''key''"] get_view [OF f(1) g] by auto
  then show "ContextCancelled S s" using g canceled [of s1 "''key''" "''x''"] by (auto simp: ContextCancelled_def assertions)
qed

lemma Run_passes:
  assumes f: "\<And>i. inv (newStore i) \<and> view (newStore i) = Map.empty"
    and new: "\<And>i v s1 v' s2. Create S Live ''head'' ''v1'' (newStore i) = (Inr v, s1) \<Longrightarrow>
      Swap S Live ''head'' ''v2'' v s1 = (Inr v', s2) \<Longrightarrow> v' \<noteq> v"
  shows "list_all snd (Run S newStore)"
  using subtests_pass version_subtests_pass [OF _ _ new] strict_subtests_pass f by (simp add: Run_def)

end

context listing_store
begin

lemma lists_under:
  assumes "inv s" and "\<And>keys. distinct keys \<Longrightarrow> set keys = {k \<in> dom (view s). HasPrefix k p} \<Longrightarrow> rest keys"
  shows "require_keys (fst (List Live p s)) [] rest"
proof -
  obtain keys s' where "List Live p s = (map Inr keys, s')" "distinct keys" "set keys = {k. view s k \<noteq> None \<and> HasPrefix k p}"
    using list_keys [OF assms(1), of p] by blast
  then show ?thesis using assms(2) [of keys] by (simp add: dom_def)
qed

lemma RunLister_passes:
  assumes f: "\<And>i. inv (newStore i) \<and> view (newStore i) = Map.empty"
  shows "list_all snd (RunLister S List newStore)"
proof -
  let ?ks = "[''live/cam1/groups/a'', ''live/cam1/groups/b'', ''live/cam1/root.manifest'', ''live/cam2/groups/a'']"
  have "Keys_ByPrefix S List (newStore 0)" unfolding Keys_ByPrefix_def
  proof (rule require_created_all)
    fix s' assume s': "inv s'" "dom (view s') = dom (view (newStore 0)) \<union> set ?ks"
    show "require_keys (fst (List Live ''live/cam1/groups/'' s')) []
        (\<lambda>found. mset [''live/cam1/groups/a'', ''live/cam1/groups/b''] = mset found)"
    proof (rule lists_under [OF s'(1)])
      fix keys assume "distinct keys" and k: "set keys = {k \<in> dom (view s'). HasPrefix k ''live/cam1/groups/''}"
      moreover have "dom (view s') = set ?ks" using s'(2) f [of 0] by simp
      then have "set keys = set (filter (\<lambda>k. HasPrefix k ''live/cam1/groups/'') ?ks)" by (simp only: k set_filter)
      moreover have "filter (\<lambda>k. HasPrefix k ''live/cam1/groups/'') ?ks = [''live/cam1/groups/a'', ''live/cam1/groups/b'']" by code_simp
      ultimately show "mset [''live/cam1/groups/a'', ''live/cam1/groups/b''] = mset keys"
        by (subst set_eq_iff_mset_eq_distinct [symmetric]) simp_all
    qed
  qed (use f in auto)
  moreover have "Keys_NoMatches S List (newStore 1)" unfolding Keys_NoMatches_def
  proof (rule require_created_all)
    fix s' assume s': "inv s'" "dom (view s') = dom (view (newStore 1)) \<union> set [''live/cam1/root.manifest'']"
    show "require_keys (fst (List Live ''no/such/prefix/'' s')) [] (\<lambda>found. found = [])"
    proof (rule lists_under [OF s'(1)])
      fix keys assume k: "set keys = {k \<in> dom (view s'). HasPrefix k ''no/such/prefix/''}"
      have "dom (view s') = set [''live/cam1/root.manifest'']" using s'(2) f [of 1] by simp
      then have "set keys = set (filter (\<lambda>k. HasPrefix k ''no/such/prefix/'') [''live/cam1/root.manifest''])" by (simp only: k set_filter)
      moreover have "filter (\<lambda>k. HasPrefix k ''no/such/prefix/'') [''live/cam1/root.manifest''] = []" by code_simp
      ultimately show "keys = []" by simp
    qed
  qed (use f in auto)
  ultimately show ?thesis by (simp add: RunLister_def)
qed

end

section \<open>The backends\<close>

text \<open>The in-memory backend holds finitely many objects.\<close>

definition mem_finite :: "mem \<Rightarrow> bool" where
  "mem_finite s \<longleftrightarrow> mem_inv s \<and> finite (Mapping.keys (objects s))"

lemma mem_finite_step:
  "mem_finite s \<Longrightarrow> obj_version obj \<noteq> NoVersion \<Longrightarrow> mem_finite (s\<lparr>nextVersion := n, objects := Mapping.update k obj (objects s)\<rparr>)"
  "mem_finite s \<Longrightarrow> mem_finite (s\<lparr>objects := Mapping.delete k (objects s)\<rparr>)" "mem_finite mem_New"
  by (simp_all add: mem_finite_def) (simp add: mem_New_def)

lemma mem_view_keys: "mem_view s k \<noteq> None \<longleftrightarrow> k \<in> Mapping.keys (objects s)"
  by (simp add: mem_view_None keys_is_none_rep Option.is_none_def)

interpretation mem_strict: listing_store mem_store mem_view mem_finite "\<lambda>c p s. (mem_List c p s, s)"
proof unfold_locales
  show "v \<noteq> NoVersion" if "mem_finite s" "mem_view s k = Some (d, v)" for s k d v
    using that mem.version_nonempty unfolding mem_finite_def by blast
  show "\<exists>keys s'. (mem_List Live p s, s) = (map Inr keys, s') \<and> distinct keys \<and>
      set keys = {k. mem_view s k \<noteq> None \<and> HasPrefix k p}" if "mem_finite s" for s p
    using that by (intro exI [of _ "filter (\<lambda>k. HasPrefix k p) (Mapping.ordered_keys (objects s))"])
      (auto simp: mem_List_def ctx_Err_def mem_view_keys [symmetric] mem_finite_def)
qed (auto simp: mem_defs swap_matches_def mem_view_None mem_view_def ctx_Err_def Let_def mem_finite_step
      split: option.splits ctx.splits prod.splits if_splits)

text \<open>The bucket backend on the service with one bucket: what each request comes to.\<close>

lemma one_sent:
  assumes "bs_prefix st \<noteq> ''''"
  obtains rq where "addressed st rq m (bucket_path st k)" "Body rq = b"
    "\<And>name. name \<in> {''If-Match'', ''If-None-Match''} \<Longrightarrow> map_of (Header rq) name = map_of hdr name"
    "bucket_do one_bucket st c m (bs_prefix st @ k) None b hdr W =
       (fst (one_Do c rq (service W)), \<lparr>service = snd (one_Do c rq (service W)), sent = Suc (sent W)\<rparr>)"
proof -
  let ?rq = "bucket_request st m (bs_prefix st @ k) None b hdr"
  let ?sg = "sign (tr_sha256 one_bucket) (tr_hmac one_bucket) (bs_signer st) ?rq b (tr_time one_bucket (sent W))"
  have "addressed st ?sg m (bucket_path st k)" by (simp add: addressed_def bucket_request_def bucket_path_def)
  moreover have "bucket_do one_bucket st c m (bs_prefix st @ k) None b hdr W =
       (fst (one_Do c ?sg (service W)), \<lparr>service = snd (one_Do c ?sg (service W)), sent = Suc (sent W)\<rparr>)"
    using assms by (simp add: bucket_do_def one_bucket_def Let_def split: prod.split)
  ultimately show thesis by (intro that [of ?sg]) (auto simp: bucket_request_def sign_header)
qed

lemma one_Get:
  assumes "bs_prefix st \<noteq> ''''"
  shows "bucket_Get one_bucket st Live k W =
     (case service W (bucket_path st k) of None \<Rightarrow> Inl [ErrNotExist] | Some x \<Rightarrow> Inr x, \<lparr>service = service W, sent = Suc (sent W)\<rparr>)"
proof -
  obtain rq where "addressed st rq ''GET'' (bucket_path st k)"
    "bucket_do one_bucket st Live ''GET'' (bs_prefix st @ k) None [] [] W =
       (fst (one_Do Live rq (service W)), \<lparr>service = snd (one_Do Live rq (service W)), sent = Suc (sent W)\<rparr>)"
    using one_sent [OF assms, of "''GET''" k "[]" "[]" Live W] by blast
  then show ?thesis by (auto simp: bucket_Get_def one_Do_def addressed_def split: option.split)
qed

definition put_status :: "(bytes \<times> string) option \<Rightarrow> http_Header \<Rightarrow> nat" where
  "put_status cur hdr = (if hdr = [(''If-None-Match'', [''*''])] then if cur = None then 200 else 412
     else case cur of None \<Rightarrow> 404 | Some (_, v) \<Rightarrow> if hdr = [(''If-Match'', [v])] then 200 else 412)"

lemma one_put_once:
  fixes st k W
  assumes "bs_prefix st \<noteq> ''''" and hdr: "hdr = [(''If-None-Match'', [''*''])] \<or> (\<exists>tag. hdr = [(''If-Match'', [tag])])"
  defines "status \<equiv> put_status (service W (bucket_path st k)) hdr"
  shows "\<exists>W'. bucket_put one_bucket st Live k d hdr W = (Inr (if status = 200 then tag_of d else NoVersion, status), W')"
proof -
  obtain rq where rq: "addressed st rq ''PUT'' (bucket_path st k)" "Body rq = d"
    "\<And>name. name \<in> {''If-Match'', ''If-None-Match''} \<Longrightarrow> map_of (Header rq) name = map_of hdr name"
    "bucket_do one_bucket st Live ''PUT'' (bs_prefix st @ k) None d hdr W =
       (fst (one_Do Live rq (service W)), \<lparr>service = snd (one_Do Live rq (service W)), sent = Suc (sent W)\<rparr>)"
    using one_sent [OF assms(1), of "''PUT''" k d hdr Live W] by blast
  have p: "one_put rq (service W) = status"
    using hdr rq(1) rq(3) [of "''If-Match''"] rq(3) [of "''If-None-Match''"]
    by (auto simp: one_put_def addressed_def status_def put_status_def split: option.split)
  have s: "status \<in> {200, 404, 412}" using hdr by (auto simp: status_def put_status_def split: option.split)
  show ?thesis
    using rq(1,2,4) p s by (auto simp: bucket_put_def conflictAttempts_def numeral_3_eq_3 one_Do_def addressed_def)
qed

lemma demo_bucket_prefix: "bs_prefix demo_bucket \<noteq> ''''"
  by (simp add: demo_bucket_def bucket_New_def trim_slashes_def)

interpretation one_bucket_strict: strict_store "bucket_store one_bucket demo_bucket" "bucket_view demo_bucket (\<lambda>s. s)" "\<lambda>W. tags_ok (service W)"
proof -
  let ?S = "bucket_store one_bucket demo_bucket" and ?v = "bucket_view demo_bucket (\<lambda>s. s)"
  note put = one_put_once [OF demo_bucket_prefix, unfolded put_status_def]
  have C: "store_contract ?S ?v (\<lambda>W. tags_ok (service W))" by (rule one_bucket.keeps_contract)
  have cur: "?v W k = service W (bucket_path demo_bucket k)" for W k by (simp add: bucket_view_def)
  show "strict_store ?S ?v (\<lambda>W. tags_ok (service W))"
  proof (intro strict_store.intro reliable_store.intro C reliable_store_axioms.intro strict_store_axioms.intro)
    show "\<exists>e s'. Get ?S Live k s = (Inl e, s') \<and> errors_Is e ErrNotExist" if "?v s k = None" for s k
      using that by (simp add: bucket_store_def one_Get [OF demo_bucket_prefix] cur)
    show "\<exists>s'. Get ?S Live k s = (Inr x, s')" if "?v s k = Some x" for s k x
      using that by (simp add: bucket_store_def one_Get [OF demo_bucket_prefix] cur)
    show "\<exists>v s'. Create ?S Live k d s = (Inr v, s')" if "?v s k = None" for s k d
      using that put [of "[(''If-None-Match'', [''*''])]" k d s] by (auto simp: bucket_store_def bucket_Create_def cur)
    show "\<exists>e s'. Create ?S Live k d s = (Inl e, s') \<and> errors_Is e ErrExist" if "?v s k \<noteq> None" for s k d
      using that put [of "[(''If-None-Match'', [''*''])]" k d s] by (auto simp: bucket_store_def bucket_Create_def cur)
    show "\<exists>v s'. Swap ?S Live k d expect s = (Inr v, s')" if "swap_matches (?v s k) expect" and "tags_ok (service s)" for s k d expect
      using that put [of "[(''If-None-Match'', [''*''])]" k d s] put [of "[(''If-Match'', [expect])]" k d s]
      by (auto simp: bucket_store_def bucket_Swap_def cur swap_matches_def tags_ok_def NoVersion_def Let_def split: option.splits)
    show "\<exists>e s'. Swap ?S Live k d expect s = (Inl e, s') \<and>
        (if ?v s k = None then errors_Is e ErrNotExist else errors_Is e ErrVersionMismatch)"
      if "\<not> swap_matches (?v s k) expect" for s k d expect
      using that put [of "[(''If-None-Match'', [''*''])]" k d s] put [of "[(''If-Match'', [expect])]" k d s]
      by (auto simp: bucket_store_def bucket_Swap_def cur swap_matches_def Let_def split: option.splits)
    show "\<exists>e s'. Swap ?S Live k d v s = (Inl e, s') \<and> errors_Is e ErrNotExist" if "?v s k = None" "v \<noteq> NoVersion" for s k d v
      using that put [of "[(''If-Match'', [v])]" k d s] by (auto simp: bucket_store_def bucket_Swap_def cur Let_def)
    show "\<exists>s'. Delete ?S Live k s = (None, s')" for s k
    proof -
      obtain rq where "addressed demo_bucket rq ''DELETE'' (bucket_path demo_bucket k)"
        "bucket_do one_bucket demo_bucket Live ''DELETE'' (bs_prefix demo_bucket @ k) None [] [] s =
           (fst (one_Do Live rq (service s)), \<lparr>service = snd (one_Do Live rq (service s)), sent = Suc (sent s)\<rparr>)"
        using one_sent [OF demo_bucket_prefix, of "''DELETE''" k "[]" "[]" Live s] by blast
      then show ?thesis by (simp add: bucket_store_def bucket_Delete_def one_Do_def addressed_def)
    qed
    show "isl (fst (Get ?S Ctx_Canceled k s)) \<and> isl (fst (Create ?S Ctx_Canceled k d s))" for k d s
    proof -
      have do: "\<exists>W'. bucket_do one_bucket demo_bucket Ctx_Canceled m (bs_prefix demo_bucket @ k) None b hdr s = (Inl [Canceled], W')" for m b hdr
        using one_sent [OF demo_bucket_prefix, of m k b hdr Ctx_Canceled s] by (auto simp: one_Do_def)
      from do [of "''GET''" "[]" "[]"] do [of "''PUT''" d "[(''If-None-Match'', [''*''])]"] show ?thesis
        by (auto simp: bucket_store_def bucket_Get_def bucket_Create_def bucket_put_def conflictAttempts_def numeral_3_eq_3)
    qed
  qed
qed

lemmas subtest_defs = Run_def Get_Missing_def Create_ThenGet_def Create_Empty_def Create_Existing_def Swap_MatchingVersion_def
  Swap_StaleVersion_def Swap_AbsentWithNoVersion_def Swap_AbsentWithVersion_def Delete_Present_def Delete_Absent_def
  Create_AfterDelete_def Get_ReturnsIndependentCopy_def ContextCancelled_def assertions

text \<open>The database backend on one table.\<close>

lemma version_texts: "formatVersion 1 = ''1''" "formatVersion 2 = ''2''" "ParseInt ''1'' = Inr 1" "isl (ParseInt ''bogus'')"
  by (code_simp, code_simp, simp_all add: ParseInt_def is_digit_def i64_bounds)

lemma db_Run: "list_all snd (Run (db_store (one_table ''t'') \<lparr>db_table = ''t'', db_uri = ''''\<rparr>) (\<lambda>_. Map.empty))"
proof -
  obtain e where "ParseInt ''bogus'' = Inl e" using version_texts(4) by (auto simp: isl_def)
  with version_texts(1-3) show ?thesis
    by (simp add: subtest_defs db_store_def db_Get_def db_Create_def db_Swap_def db_Delete_def db_insert_def db_refused_def query_row_def
      one_table_def one_exec_def one_query_row_def scan_object_def scan_int_def scan_bool_def notNil_def firstVersion_def NoVersion_def MaxInt64_def Let_def)
qed

text \<open>The bucket backend: the tag of an object is that of what was written.\<close>

lemma bucket_tags:
  "bucket_Create one_bucket demo_bucket Live k d W = (Inr v, W') \<Longrightarrow> v = tag_of d"
  "bucket_Swap one_bucket demo_bucket Live k d e W = (Inr v, W') \<Longrightarrow> v = tag_of d"
  using one_put_once [OF demo_bucket_prefix, unfolded put_status_def, of "[(''If-None-Match'', [''*''])]" k d W]
    one_put_once [OF demo_bucket_prefix, unfolded put_status_def, of "[(''If-Match'', [e])]" k d W]
  by (auto simp: bucket_Create_def bucket_Swap_def Let_def split: if_splits option.splits)

lemma bucket_Run: "list_all snd (Run (bucket_store one_bucket demo_bucket) (\<lambda>_. \<lparr>service = Map.empty, sent = 0\<rparr>))"
proof (rule one_bucket_strict.Run_passes)
  show "tags_ok (service \<lparr>service = Map.empty, sent = 0\<rparr>) \<and> bucket_view demo_bucket (\<lambda>s. s) \<lparr>service = Map.empty, sent = 0\<rparr> = Map.empty"
    by (simp add: tags_ok_def bucket_view_def)
  show "v' \<noteq> v" if "Create (bucket_store one_bucket demo_bucket) Live ''head'' ''v1'' \<lparr>service = Map.empty, sent = 0\<rparr> = (Inr v, s1)"
    "Swap (bucket_store one_bucket demo_bucket) Live ''head'' ''v2'' v s1 = (Inr v', s2)" for v s1 v' s2
    using that bucket_tags by (fastforce simp: bucket_store_def tag_of_def)
qed

text \<open>The file backend on a disk: versions, the names of the keys, and what each operation comes to.\<close>

lemma hex_inject: "hex m = hex n \<Longrightarrow> m = n"
proof (induction m arbitrary: n rule: hex.induct)
  case (1 m)
  have digit: "''0123456789abcdef'' ! i = ''0123456789abcdef'' ! j \<longleftrightarrow> i = j" if "i < 16" "j < 16" for i j
    by (rule nth_eq_iff_index_eq) (use that in simp_all)
  have ne: "hex i \<noteq> []" for i by (subst hex.simps) simp
  have m: "hex m = (if m < 16 then [''0123456789abcdef'' ! m] else hex (m div 16) @ [''0123456789abcdef'' ! (m mod 16)])" by (rule hex.simps)
  have n: "hex n = (if n < 16 then [''0123456789abcdef'' ! n] else hex (n div 16) @ [''0123456789abcdef'' ! (n mod 16)])" by (rule hex.simps)
  have mn: "m mod 16 < 16" "n mod 16 < 16" by simp_all
  show ?case
  proof (cases "m < 16 \<or> n < 16")
    case True
    then show ?thesis using 1(2) m n ne ne [symmetric] digit by (auto split: if_splits simp del: nth_Cons_numeral)
  next
    case False
    then have "hex (m div 16) = hex (n div 16)" "''0123456789abcdef'' ! (m mod 16) = ''0123456789abcdef'' ! (n mod 16)"
      using 1(2) m n by simp_all
    then have "m div 16 = n div 16" "m mod 16 = n mod 16" using 1(1) False digit [OF mn] by simp_all
    then show ?thesis by (metis div_mult_mod_eq)
  qed
qed

lemma written_versions_differ: "fs_version ''v1'' \<noteq> fs_version ''v2''"
proof -
  have "fnv1a ''v1'' \<noteq> fnv1a ''v2''" by (simp add: fnv1a_def)
  then show ?thesis using hex_inject by (metis fs_version_def word_unat_eq_iff)
qed

lemma long_key: "resolve srv ''live/cam1/groups/e000001-g00000001'' = Inr ''/srv/live/cam1/groups/e000001-g00000001''"
proof -
  let ?xs = "[''live'', ''cam1'', ''groups'', ''e000001-g00000001'']" and ?k = "''live/cam1/groups/e000001-g00000001''"
  have k: "join_slash ?xs = ?k" by simp
  have seg: "segments ?k = ?xs" unfolding k [symmetric] by (rule segments_join) simp_all
  obtain n where n: "resolve srv ?k = Inr n"
    using resolve_accepts [of ?k srv] unfolding seg by (simp add: plain_segment_def)
  have "clean_parts ''/srv'' = [''srv'']" by code_simp
  then have "n = of_parts True ([''srv''] @ ?xs)"
    using resolve_parts(1) [OF n] unfolding key_parts_def seg by (simp add: srv_def HasPrefix_def)
  then show ?thesis using n by (simp add: of_parts_def)
qed

lemma srv_keys:
  "resolve srv ''absent'' = Inr ''/srv/absent''" "resolve srv ''never-existed'' = Inr ''/srv/never-existed''"
  "resolve srv ''empty'' = Inr ''/srv/empty''" "resolve srv ''key'' = Inr ''/srv/key''" "filepath_Dir ''/srv/head'' = ''/srv''"
  by (code_simp, code_simp, code_simp, code_simp, code_simp)

lemma disk_Get: "resolve st k = Inr n \<Longrightarrow>
    fs_Get disk_os st Live k s = (case dfiles s n of None \<Rightarrow> Inl [ErrNotExist] | Some d \<Rightarrow> Inr (d, fs_version d), s)"
  by (simp add: fs_Get_def disk_os_def ctx_Err_def split: option.split)

lemma disk_Create: "resolve st k = Inr n \<Longrightarrow> length d \<le> room s \<Longrightarrow>
    fs_Create disk_os st Live k d s = (if dfiles s n = None
      then (Inr (fs_version d), s\<lparr>dfiles := (dfiles s)(n \<mapsto> d), room := room s - length d\<rparr>) else (Inl [ErrExist], s))"
  by (simp add: fs_Create_def fs_fill_def disk_os_def disk_Write_def ctx_Err_def Let_def)

lemma disk_Delete: "resolve st k = Inr n \<Longrightarrow>
    fs_Delete disk_os st Live k s = (None, s\<lparr>dfiles := (dfiles s)(n := None)\<rparr>)"
  by (auto simp: fs_Delete_def disk_os_def ctx_Err_def fun_upd_idem)

lemma disk_Swap:
  assumes "resolve st k = Inr n" and "length d \<le> room s" and "filepath_Dir n @ ''/.swap-'' @ dec (made s) \<noteq> n"
    and "dfiles s (filepath_Dir n @ ''/.swap-'' @ dec (made s)) = None"
  shows "fs_Swap disk_os st Live k d e s =
    (let new = (Inr (fs_version d), s\<lparr>dfiles := (dfiles s)(n \<mapsto> d), room := room s - length d, made := Suc (made s)\<rparr>)
     in case dfiles s n of None \<Rightarrow> if e = NoVersion then new else (Inl [ErrNotExist], s)
        | Some cur \<Rightarrow> if fs_version cur = e then new else (Inl [ErrVersionMismatch], s))"
  using assms
  by (auto simp: fs_Swap_def fs_replace_def disk_os_def disk_Write_def disk_CreateTemp_def ctx_Err_def Let_def fun_upd_twist fun_upd_idem split: option.split)

lemma disk_canceled: "fs_Get disk_os st Ctx_Canceled k s = (Inl [Canceled], s)" "fs_Create disk_os st Ctx_Canceled k d s = (Inl [Canceled], s)"
  by (simp_all add: fs_Get_def fs_Create_def ctx_Err_def split: sum.split)

lemma fs_Run: "list_all snd (Run (fs_store disk_os srv) (\<lambda>_. \<lparr>dfiles = Map.empty, room = 99, made = 0\<rparr>))"
  using written_versions_differ
  by (simp add: subtest_defs fs_store_def srv_key srv_keys long_key disk_canceled disk_Get disk_Create disk_Delete disk_Swap
      Let_def NoVersion_def)

section \<open>What the suite catches\<close>

text \<open>
  Backends with one fault each: the in-memory backend with one operation changed, or its listing. The subtests that
  fail are computed.
\<close>

definition mem_lister :: "mem lister" where
  "mem_lister c p s = (mem_List c p s, s)"

definition failed :: "mem store \<Rightarrow> mem lister \<Rightarrow> string list" where
  "failed S List = map fst (filter (\<lambda>(name, ok). \<not> ok) (Run S (\<lambda>_. mem_New) @ RunLister S List (\<lambda>_. mem_New)))"

definition put_anyway :: "string \<Rightarrow> bytes \<Rightarrow> mem \<Rightarrow> mem" where
  "put_anyway k d s = snd (mem_Create Live k d (snd (mem_Delete Live k s)))"

definition faulty_Gets :: "(ctx \<Rightarrow> string \<Rightarrow> mem \<Rightarrow> (error + bytes \<times> version) \<times> mem) list" where
  "faulty_Gets =
     [\<comment> \<open>an absent object reads as an empty one\<close>
      \<lambda>c k s. (case mem_Get c k s of (Inl err, s) \<Rightarrow> (if errors_Is err ErrNotExist then Inr ([], NoVersion) else Inl err, s) | r \<Rightarrow> r),
      \<comment> \<open>the data come back changed\<close>
      \<lambda>c k s. (case mem_Get c k s of (Inr (d, v), s) \<Rightarrow> (Inr (rev d, v), s) | r \<Rightarrow> r),
      \<comment> \<open>the version is another than that of the write\<close>
      \<lambda>c k s. (case mem_Get c k s of (Inr (d, v), s) \<Rightarrow> (Inr (d, v @ v), s) | r \<Rightarrow> r),
      \<comment> \<open>an empty object reads as one zero byte\<close>
      \<lambda>c k s. (case mem_Get c k s of (Inr ([], v), s) \<Rightarrow> (Inr ([CHR 0x00], v), s) | r \<Rightarrow> r),
      \<comment> \<open>a read consumes the object\<close>
      \<lambda>c k s. (case mem_Get c k s of (r, s) \<Rightarrow> (r, snd (mem_Delete Live k s))),
      \<comment> \<open>the context is ignored\<close>
      \<lambda>c k s. mem_Get Live k s]"

definition faulty_Creates :: "(ctx \<Rightarrow> string \<Rightarrow> bytes \<Rightarrow> mem \<Rightarrow> (error + version) \<times> mem) list" where
  "faulty_Creates =
     [\<comment> \<open>an existing object is overwritten\<close>
      \<lambda>c k d s. mem_Create c k d (snd (mem_Delete Live k s)),
      \<comment> \<open>it is overwritten and the create refused\<close>
      \<lambda>c k d s. (case mem_Create c k d s of (Inl err, s) \<Rightarrow> (Inl err, if c = Live then put_anyway k d s else s) | r \<Rightarrow> r),
      \<comment> \<open>it is refused with another error\<close>
      \<lambda>c k d s. (case mem_Create c k d s of (Inl err, s) \<Rightarrow> (Inl [ErrVersionMismatch], s) | r \<Rightarrow> r),
      \<comment> \<open>an empty object is refused\<close>
      \<lambda>c k d s. if d = [] then (Inl [ErrInvalidKey], s) else mem_Create c k d s,
      \<comment> \<open>a key with a slash is refused\<close>
      \<lambda>c k d s. if CHR ''/'' \<in> set k then (Inl [ErrInvalidKey], s) else mem_Create c k d s,
      \<comment> \<open>nothing is written\<close>
      \<lambda>c k d s. (fst (mem_Create c k d s), s),
      \<comment> \<open>the context is ignored\<close>
      \<lambda>c k d s. mem_Create Live k d s]"

definition faulty_Swaps :: "(ctx \<Rightarrow> string \<Rightarrow> bytes \<Rightarrow> version \<Rightarrow> mem \<Rightarrow> (error + version) \<times> mem) list" where
  "faulty_Swaps =
     [\<comment> \<open>the version is not compared\<close>
      \<lambda>c k d v s. (case mem_Get c k s of (Inr (_, cur), s) \<Rightarrow> mem_Swap c k d cur s | _ \<Rightarrow> mem_Swap c k d v s),
      \<comment> \<open>a refused swap changes the object\<close>
      \<lambda>c k d v s. (case mem_Swap c k d v s of (Inl err, s) \<Rightarrow> (Inl err, put_anyway k d s) | r \<Rightarrow> r),
      \<comment> \<open>it is refused with another error\<close>
      \<lambda>c k d v s. (case mem_Swap c k d v s of (Inl err, s) \<Rightarrow> (Inl [ErrExist], s) | r \<Rightarrow> r),
      \<comment> \<open>the version stays the same\<close>
      \<lambda>c k d v s. (case mem_Swap c k d v s of (Inr u, s) \<Rightarrow> (Inr (if v = NoVersion then u else v), s) | r \<Rightarrow> r),
      \<comment> \<open>nothing is written\<close>
      \<lambda>c k d v s. (fst (mem_Swap c k d v s), s),
      \<comment> \<open>a swap without a version never creates\<close>
      \<lambda>c k d v s. if v = NoVersion then (Inl [ErrNotExist], s) else mem_Swap c k d v s,
      \<comment> \<open>a swap of an absent object always creates\<close>
      \<lambda>c k d v s. (case mem_Get c k s of (Inl _, s) \<Rightarrow> mem_Swap c k d NoVersion s | _ \<Rightarrow> mem_Swap c k d v s)]"

definition faulty_Deletes :: "(ctx \<Rightarrow> string \<Rightarrow> mem \<Rightarrow> error option \<times> mem) list" where
  "faulty_Deletes =
     [\<comment> \<open>an absent object is an error\<close>
      \<lambda>c k s. (case mem_Get c k s of (Inl err, s) \<Rightarrow> (Some err, s) | _ \<Rightarrow> mem_Delete c k s),
      \<comment> \<open>nothing is removed\<close>
      \<lambda>c k s. (None, s),
      \<comment> \<open>an object that exists is not removed and an error answered\<close>
      \<lambda>c k s. (case mem_Get c k s of (Inr _, s) \<Rightarrow> (Some [ErrExist], s) | _ \<Rightarrow> mem_Delete c k s)]"

definition faulty_listers :: "mem lister list" where
  "faulty_listers =
     [\<comment> \<open>the prefix is ignored\<close>
      \<lambda>c p s. (mem_List c [] s, s),
      \<comment> \<open>a key is left out\<close>
      \<lambda>c p s. (tl (mem_List c p s), s),
      \<comment> \<open>a key comes twice\<close>
      \<lambda>c p s. (case mem_List c p s of [] \<Rightarrow> [] | key # keys \<Rightarrow> key # key # keys, s),
      \<comment> \<open>the listing ends with an error\<close>
      \<lambda>c p s. (mem_List c p s @ [Inl [ErrNotExist]], s)]"

section \<open>Properties\<close>

text \<open>
  C21. The suite tells sound backends from faulty ones. Every store that keeps the contract, answers, gives the second
  write of a key another version than the first, refuses a canceled context and a swap of an absent object for a
  version, and lists its keys, passes all thirteen subtests and both listing subtests from fresh states. Of the
  faulty backends, each the in-memory one with one fault, every one fails exactly the subtests named, and every
  subtest is failed by one of them; one passes: the subtest with the canceled context reads a key that was never
  written, where a \<open>Get\<close> that ignores the context fails too.
\<close>

theorem suite_tells_faults_apart:
  assumes S: "listing_store S view I L" and f: "\<And>i. I (newStore i) \<and> view (newStore i) = Map.empty"
    and new: "\<And>i v s1 v' s2. Create S Live ''head'' ''v1'' (newStore i) = (Inr v, s1) \<Longrightarrow>
      Swap S Live ''head'' ''v2'' v s1 = (Inr v', s2) \<Longrightarrow> v' \<noteq> v"
  shows "list_all snd (Run S newStore @ RunLister S L newStore) \<and>
    map (\<lambda>G. failed (mem_store\<lparr>Get := G\<rparr>) mem_lister) faulty_Gets =
     [[''Get_Missing'', ''Delete''],
      [''Create_ThenGet'', ''Create_Existing'', ''Swap_MatchingVersion'', ''Swap_StaleVersion'', ''Swap_AbsentWithNoVersion'',
       ''Get_ReturnsIndependentCopy''],
      [''Create_ThenGet''], [''Create_Empty''], [''Get_ReturnsIndependentCopy''], []] \<and>
    map (\<lambda>C. failed (mem_store\<lparr>Create := C\<rparr>) mem_lister) faulty_Creates =
     [[''Create_Existing''], [''Create_Existing''], [''Create_Existing''], [''Create_Empty''],
      [''Create_ThenGet'', ''Keys_ByPrefix'', ''Keys_NoMatches''],
      [''Create_ThenGet'', ''Create_Empty'', ''Create_Existing'', ''Swap_MatchingVersion'', ''Swap_StaleVersion'',
       ''Get_ReturnsIndependentCopy'', ''Keys_ByPrefix''],
      [''ContextCancelled'']] \<and>
    map (\<lambda>W. failed (mem_store\<lparr>Swap := W\<rparr>) mem_lister) faulty_Swaps =
     [[''Swap_StaleVersion''], [''Swap_StaleVersion''], [''Swap_StaleVersion'', ''Swap_AbsentWithVersion''],
      [''Swap_MatchingVersion''], [''Swap_MatchingVersion'', ''Swap_StaleVersion'', ''Swap_AbsentWithNoVersion''],
      [''Swap_AbsentWithNoVersion''], [''Swap_AbsentWithVersion'']] \<and>
    map (\<lambda>D. failed (mem_store\<lparr>Delete := D\<rparr>) mem_lister) faulty_Deletes =
     [[''Delete_Absent''], [''Delete'', ''Create_AfterDelete''], [''Delete'', ''Create_AfterDelete'']] \<and>
    map (failed mem_store) faulty_listers =
     [[''Keys_ByPrefix'', ''Keys_NoMatches''], [''Keys_ByPrefix''], [''Keys_ByPrefix''], [''Keys_ByPrefix'', ''Keys_NoMatches'']]"
proof (rule conjI)
  show "list_all snd (Run S newStore @ RunLister S L newStore)"
    using strict_store.Run_passes [OF listing_store.axioms(1) [OF S] f new] listing_store.RunLister_passes [OF S f] by simp
qed (intro conjI; code_simp)

theorem suite_tells_faults_apart_witness:
  "list_all snd (Run mem_store (\<lambda>_. mem_New) @ RunLister mem_store (\<lambda>c p s. (mem_List c p s, s)) (\<lambda>_. mem_New))"
proof (rule suite_tells_faults_apart [OF mem_strict.listing_store_axioms, THEN conjunct1])
  show "mem_finite mem_New \<and> mem_view mem_New = Map.empty" by (simp add: mem_finite_step)
  show "v' \<noteq> v" if "Create mem_store Live ''head'' ''v1'' mem_New = (Inr v, s1)" "Swap mem_store Live ''head'' ''v2'' v s1 = (Inr v', s2)"
    for v s1 v' s2
  proof -
    have "dec 1 \<noteq> dec 2" by code_simp
    then show ?thesis using that by (auto simp: mem_defs ctx_Err_def mem_New_def Let_def)
  qed
qed

text \<open>
  The other three backends pass the suite: the database backend on one table, the bucket backend on a service
  with one bucket, and the file backend on an empty disk with room.
\<close>

theorem backends_pass_the_suite:
  "list_all (list_all snd)
     [Run (db_store (one_table ''t'') \<lparr>db_table = ''t'', db_uri = ''''\<rparr>) (\<lambda>_. Map.empty),
      Run (bucket_store one_bucket demo_bucket) (\<lambda>_. \<lparr>service = Map.empty, sent = 0\<rparr>),
      Run (fs_store disk_os srv) (\<lambda>_. \<lparr>dfiles = Map.empty, room = 99, made = 0\<rparr>)]"
  by (simp only: list.pred_inject db_Run bucket_Run fs_Run simp_thms)

end
