(* ===== verification/Inspect_Follow.thy ===== *)
theory Inspect_Follow
  imports Reader_Seek Fs_Store
begin

text \<open>
  The example reader (\<open>examples/inspect-follow/main.go\<close>) and the build information it prints
  (\<open>internal/version/version.go\<close>). The flags are those \<open>flag.Parse\<close> found; what is printed is a list of lines, and the table
  of \<open>inspect\<close> its rows of texts, which the tab writer only aligns.

  \<open>follow\<close> polls: at the tip it waits for the next tick or for the interrupt. What other processes did to the
  store by a tick is part of the tick, so a run is one with a given list of ticks, and the loop takes a bound on its turns.
  It is shown that \<open>inspect\<close> lists the whole track, and that \<open>follow\<close>, beside writers that append and seal, prints every
  group: a reader whose log root has become old finds no delta at its place and answers \<open>EOF\<close> until it
  reads the log root again, which it does within \<open>rootRecheckEvery\<close> polls.
\<close>

section \<open>Build information\<close>

record Info =
  info_Version :: string
  info_Commit :: string
  info_Date :: string
  info_Go :: string

text \<open>What \<open>debug.ReadBuildInfo\<close> tells: the toolchain and the settings with their values.\<close>

record BuildInfo =
  GoVersion :: string
  Settings :: "(string \<times> string) list"

fun stamp :: "(string \<times> string) list \<Rightarrow> Info \<Rightarrow> Info" where
  "stamp [] info = info"
| "stamp ((key, val) # settings) info =
     stamp settings
       (if key = ''vcs.revision'' then if info_Commit info = ''none'' then info\<lparr>info_Commit := val\<rparr> else info
        else if key = ''vcs.time'' then if info_Date info = ''unknown'' then info\<lparr>info_Date := val\<rparr> else info
        else info)"

text \<open>The first three arguments are the package's variables, which the linker may have set.\<close>

definition version_Get :: "string \<Rightarrow> string \<Rightarrow> string \<Rightarrow> BuildInfo option \<Rightarrow> Info" where
  "version_Get version commit date build =
     (let info = \<lparr>info_Version = version, info_Commit = commit, info_Date = date, info_Go = ''unknown''\<rparr>
      in case build of None \<Rightarrow> info | Some b \<Rightarrow> stamp (Settings b) (info\<lparr>info_Go := GoVersion b\<rparr>))"

section \<open>Times as text\<close>

text \<open>The date of a day counted from 1970-01-01, in the Gregorian calendar.\<close>

definition civil :: "int \<Rightarrow> int \<times> int \<times> int" where
  "civil days =
     (let z = days + 719468; era = z div 146097; doe = z mod 146097;
          yoe = (doe - doe div 1460 + doe div 36524 - doe div 146096) div 365;
          doy = doe - (365 * yoe + yoe div 4 - yoe div 100);
          mp = (5 * doy + 2) div 153;
          d = doy - (153 * mp + 2) div 5 + 1;
          m = (if mp < 10 then mp + 3 else mp - 9)
      in (yoe + era * 400 + (if m \<le> 2 then 1 else 0), m, d))"

text \<open>\<open>time.Unix(0, ns).UTC().Format(time.RFC3339Nano)\<close>; the fraction loses the zeros at its end.\<close>

definition RFC3339Nano :: "int \<Rightarrow> string" where
  "RFC3339Nano ns =
     (let secs = ns div 1000000000; frac = nat (ns mod 1000000000); tod = secs mod 86400;
          two = (\<lambda>n. Sprintf_0d 2 (nat n));
          digits = rev (dropWhile (\<lambda>c. c = CHR ''0'') (rev (Sprintf_0d 9 frac)))
      in case civil (secs div 86400) of (y, m, d) \<Rightarrow>
           Sprintf_0d 4 (nat y) @ ''-'' @ two m @ ''-'' @ two d @ ''T'' @
           two (tod div 3600) @ '':'' @ two (tod div 60 mod 60) @ '':'' @ two (tod mod 60) @
           (if digits = '''' then '''' else ''.'' @ digits) @ ''Z'')"

section \<open>\<open>inspect\<close>\<close>

text \<open>The store is the file backend, and the track is opened with the zero settings.\<close>

definition openTrack :: "'f os \<Rightarrow> clock \<Rightarrow> ctx \<Rightarrow> string \<Rightarrow> string \<Rightarrow> 'f \<Rightarrow> (error + fs_Store \<times> Track) \<times> 'f" where
  "openTrack os time_Now c root path s =
     (case fs_New os root s of
        (Inl err, s) \<Rightarrow> (Inl err, s)
      | (Inr st, s) \<Rightarrow>
          (case Open_Track (fs_store os st) time_Now c path \<lparr>SealThreshold = 0, Clock = None\<rparr> s of
             (Inl err, s) \<Rightarrow> (Inl err, s)
           | (Inr t, s) \<Rightarrow> (Inr (st, t), s)))"

definition summary :: "TrackInfo \<Rightarrow> string list" where
  "summary info =
     [''track       '' @ ti_Track info,
      ''timescale   '' @ dec (unat (Timescale (ti_TrackSchema info))) @ '' units/sec ('' @ TimeSource (ti_TrackSchema info) @ '')'',
      ''encoding    '' @ ts_Encoding (ti_TrackSchema info) @ '' '' @ ts_MIME (ti_TrackSchema info),
      ''epochs      '' @ dec (unat (ti_LatestEpoch info))]"

definition table_head :: "string list" where
  "table_head = [''GROUP'', ''MEDIA'', ''WALLCLOCK'', ''OBJECTS'', ''SIZE'']"

definition group_row :: "GroupInfo \<Rightarrow> string list" where
  "group_row g =
     (let media = FormatInt (MediaTime g);
          media = (if Duration g > 0 then media @ ''..'' @ FormatInt (i64 (MediaTime g + Duration g)) else media);
          wallclock = (if Wallclock g \<noteq> 0 then RFC3339Nano (Wallclock g) else ''-'')
      in [String_GroupID (ID g), media, wallclock, dec (unat (ObjectCount g)), FormatInt (Size g)])"

fun inspect_loop :: "'s store \<Rightarrow> ctx \<Rightarrow> nat \<Rightarrow> nat \<Rightarrow> Reader \<Rightarrow> 's \<Rightarrow> string list list \<times> error option \<times> 's" where
  "inspect_loop S c N 0 r s = ([], Some [Unfinished], s)"
| "inspect_loop S c N (Suc M) r s =
     (case Next S c N r s of
        (Inl err, r, s) \<Rightarrow> ([], if errors_Is err EOF then None else Some err, s)
      | (Inr g, r, s) \<Rightarrow> (case inspect_loop S c N M r s of (rows, e, s) \<Rightarrow> (group_row g # rows, e, s)))"

text \<open>What follows the opening; the table is printed when it is flushed, so its head is lost when no reader opens.\<close>

definition inspect_track ::
  "'s store \<Rightarrow> ctx \<Rightarrow> nat \<Rightarrow> nat \<Rightarrow> bool \<Rightarrow> Track \<Rightarrow> 's \<Rightarrow> (string list \<times> string list list) \<times> error option \<times> 's" where
  "inspect_track S c N M groups t s =
     (let out = summary (Root_Track t)
      in if \<not> groups then ((out, []), None, s)
         else case Reader_Track S c t s of
                (Inl err, s) \<Rightarrow> ((out @ [''''], []), Some err, s)
              | (Inr r, s) \<Rightarrow>
                  (case inspect_loop S c N M (SeekStart r) s of
                     (rows, e, s) \<Rightarrow> ((out @ [''''], table_head # rows), e, s)))"

record inspect_flags =
  i_root :: string
  i_track :: string
  i_groups :: bool

definition inspect ::
  "'f os \<Rightarrow> clock \<Rightarrow> ctx \<Rightarrow> nat \<Rightarrow> nat \<Rightarrow> inspect_flags \<Rightarrow> 'f \<Rightarrow> (string list \<times> string list list) \<times> error option \<times> 'f" where
  "inspect os time_Now c N M fl s =
     (if i_track fl = '''' then (([], []), Some [], s)
      else case openTrack os time_Now c (i_root fl) (i_track fl) s of
        (Inl err, s) \<Rightarrow> (([], []), Some err, s)
      | (Inr (st, t), s) \<Rightarrow> inspect_track (fs_store os st) c N M (i_groups fl) t s)"

section \<open>\<open>follow\<close>\<close>

text \<open>
  How a wait ends: the context is done, or the ticker fires, when the context is as given and others have changed the
  store. With no end given the loop is left waiting.
\<close>

datatype 's poll = Done ctx | Tick ctx "'s \<Rightarrow> 's"

fun follow_loop ::
  "'s store \<Rightarrow> nat \<Rightarrow> nat \<Rightarrow> 's poll list \<Rightarrow> ctx \<Rightarrow> Reader \<Rightarrow> 's \<Rightarrow> GroupInfo list \<times> error option \<times> Reader \<times> 's" where
  "follow_loop S N 0 polls c r s = ([], Some [Unfinished], r, s)"
| "follow_loop S N (Suc M) polls c r s =
     (case Next S c N r s of
        (Inr g, r, s) \<Rightarrow> (case follow_loop S N M polls c r s of (gs, e, r, s) \<Rightarrow> (g # gs, e, r, s))
      | (Inl err, r, s) \<Rightarrow>
          if errors_Is err EOF then
            (case polls of
               [] \<Rightarrow> ([], Some [Unfinished], r, s)
             | Done c # _ \<Rightarrow> ([], ctx_Err c, r, s)
             | Tick c others # polls \<Rightarrow> follow_loop S N M polls c r (others s))
          else ([], Some err, r, s))"

definition follow_line :: "GroupInfo \<Rightarrow> string" where
  "follow_line g =
     ''group '' @ String_GroupID (ID g) @ ''  media '' @ FormatInt (MediaTime g) @ ''+'' @ FormatInt (Duration g) @
     ''  '' @ dec (unat (ObjectCount g)) @ '' objects  '' @ FormatInt (Size g) @ '' bytes''"

record follow_flags =
  f_root :: string
  f_track :: string
  f_group :: string
  f_tip :: bool
  f_interval :: int

text \<open>The position to start from.\<close>

definition follow_start :: "'s store \<Rightarrow> nat \<Rightarrow> ctx \<Rightarrow> follow_flags \<Rightarrow> Reader \<Rightarrow> 's \<Rightarrow> error option \<times> Reader \<times> 's" where
  "follow_start S N c fl r s =
     (if f_group fl \<noteq> '''' then
        (case ParseGroupID (f_group fl) of
           Inl err \<Rightarrow> (Some err, r, s)
         | Inr i \<Rightarrow> SeekAfter S c N i r s)
      else if f_tip fl then SeekTip S c r s
      else (None, SeekStart r, s))"

text \<open>How the command ends; \<open>time.NewTicker\<close> panics on an interval that is not positive.\<close>

datatype outcome = Returned "error option" | Panicked

definition follow_track ::
  "'s store \<Rightarrow> nat \<Rightarrow> nat \<Rightarrow> 's poll list \<Rightarrow> ctx \<Rightarrow> follow_flags \<Rightarrow> Track \<Rightarrow> 's \<Rightarrow> string list \<times> outcome \<times> 's" where
  "follow_track S N M polls c fl t s =
     (case Reader_Track S c t s of
        (Inl err, s) \<Rightarrow> ([], Returned (Some err), s)
      | (Inr r, s) \<Rightarrow>
          (case follow_start S N c fl r s of
             (Some err, r, s) \<Rightarrow> ([], Returned (Some err), s)
           | (None, r, s) \<Rightarrow>
               if f_interval fl \<le> 0 then ([], Panicked, s)
               else case follow_loop S N M polls c r s of (gs, e, r, s) \<Rightarrow> (map follow_line gs, Returned e, s)))"

definition follow ::
  "'f os \<Rightarrow> clock \<Rightarrow> nat \<Rightarrow> nat \<Rightarrow> 'f poll list \<Rightarrow> ctx \<Rightarrow> follow_flags \<Rightarrow> 'f \<Rightarrow> string list \<times> outcome \<times> 'f" where
  "follow os time_Now N M polls c fl s =
     (if f_track fl = '''' then ([], Returned (Some []), s)
      else case openTrack os time_Now c (f_root fl) (f_track fl) s of
        (Inl err, s) \<Rightarrow> ([], Returned (Some err), s)
      | (Inr (st, t), s) \<Rightarrow> follow_track (fs_store os st) N M polls c fl t s)"

lemma civil_days: "civil 0 = (1970, 1, 1)" "civil 11016 = (2000, 2, 29)" "civil 19675 = (2023, 11, 14)"
  unfolding civil_def Let_def by simp_all

lemma times_as_text: "RFC3339Nano 1700000000500000000 = ''2023-11-14T22:13:20.5Z''"
proof -
  have "Sprintf_0d 9 500000000 = ''500000000''" "Sprintf_0d 4 2023 = ''2023''" "Sprintf_0d 2 11 = ''11''" "Sprintf_0d 2 14 = ''14''"
    "Sprintf_0d 2 22 = ''22''" "Sprintf_0d 2 13 = ''13''" "Sprintf_0d 2 20 = ''20''"
    by (simp_all add: Sprintf_0d_def dec.simps digit_def char_of_def bit_numeral_rec bit_0)
  then show ?thesis by (simp add: RFC3339Nano_def civil_days)
qed

section \<open>\<open>inspect\<close> is a drain\<close>

declare Next.simps [simp del]

lemma inspect_loop_drain:
  "drain S c N M r s = (gs, Some err, r', s') \<Longrightarrow>
    inspect_loop S c N M r s = (map group_row gs, if errors_Is err EOF then None else Some err, s')"
proof (induction M arbitrary: r s gs)
  case (Suc M)
  obtain x r1 s1 where "Next S c N r s = (x, r1, s1)" using prod_cases3 by blast
  with Suc show ?case by (cases x) (auto split: prod.splits)
qed simp

lemma SeekStart_opened:
  assumes "Reader_Track S c t s = (Inr r, s')"
  shows "SeekStart r = r"
  using assms by (auto simp: Reader_Track_def loadEpoch_def SeekStart_def Let_def split: if_splits prod.splits sum.splits)

section \<open>A reader whose log root is old\<close>

text \<open>A reader at the tip reads the root again at its first miss and at every eighth.\<close>

definition due :: "nat \<Rightarrow> bool" where
  "due m \<longleftrightarrow> m = 1 \<or> m mod rootRecheckEvery = 0"

definition until_due :: "nat \<Rightarrow> nat" where
  "until_due m = (if m = 0 then 1 else rootRecheckEvery - m mod rootRecheckEvery)"

lemma until_due_bounds: "0 < until_due m" "until_due m \<le> rootRecheckEvery" "until_due 0 \<le> until_due m"
  using mod_less_divisor [of rootRecheckEvery m] by (auto simp: until_due_def rootRecheckEvery_def Suc_le_eq)

lemma until_due_Suc:
  assumes "\<not> due (Suc m)"
  shows "until_due m = Suc (until_due (Suc m))"
proof -
  have "Suc m mod 8 = Suc (m mod 8)" "m \<noteq> 0" "m mod 8 < 8" using assms by (auto simp: due_def rootRecheckEvery_def mod_Suc split: if_splits)
  moreover have "Suc (m mod 8) < 8" using calculation(1) mod_less_divisor [of 8 "Suc m"] by simp
  ultimately show ?thesis by (simp add: until_due_def rootRecheckEvery_def)
qed

text \<open>
  What a store that answers adds to a call of \<open>Next\<close>: a group, or \<open>EOF\<close> from a reader that now has the log root of the
  store, or \<open>EOF\<close> with only the misses counted.
\<close>

definition fresh :: "(u64 \<Rightarrow> epochLogRoot) \<Rightarrow> u64 \<Rightarrow> Reader \<Rightarrow> bool" where
  "fresh Ls lat r \<longleftrightarrow> r_logRoot r = Ls (r_epoch r) \<and> latest r = lat"

definition settled :: "(u64 \<Rightarrow> epochLogRoot) \<Rightarrow> u64 \<Rightarrow> Reader \<Rightarrow> error + GroupInfo \<Rightarrow> Reader \<Rightarrow> bool" where
  "settled Ls lat r x r' \<longleftrightarrow>
     (case x of
        Inr g \<Rightarrow> misses r' = misses r \<or> misses r' = 0
      | Inl err \<Rightarrow> err = [EOF] \<and> (fresh Ls lat r' \<or> r' = r\<lparr>misses := Suc (misses r)\<rparr> \<and> \<not> due (Suc (misses r))))"

context reliable_store
begin

lemma delta_present_Live:
  assumes "inv s" and li: "log_inv (view s) p e ds L ver" and "view s (deltaKey p e n) \<noteq> None"
  shows "\<exists>D s'. delta S Live p e n s = (Inr D, s') \<and> dm_Groups D \<noteq> []"
proof -
  have n: "unat n < length ds" "delta_holds (view s) p e n (ds ! unat n)" using log_invD(13) [OF li assms(3)] by auto
  then obtain d u D where "view s (deltaKey p e n) = Some (d, u)" and D: "decode_delta d = Inr D" "dm_Groups D = ds ! unat n"
    by (auto simp: delta_holds_def)
  then obtain s' where "Get S Live (deltaKey p e n) s = (Inr (d, u), s')" using Get_present_Live [OF assms(1)] by metis
  moreover have "ds ! unat n \<noteq> []" using log_invD(10) [OF li] n(1) by simp
  ultimately show ?thesis using D by (simp add: delta_def)
qed

lemma Refresh_Live:
  assumes i: "inv s" and t: "track_holds (view s) (r_path r) lat dss Ls" and e: "1 \<le> r_epoch r" "r_epoch r \<le> lat"
  shows "\<exists>r' s'. Refresh S Live r s = (None, r', s')"
proof -
  obtain R ver where "root_at (view s) (r_path r) R ver" using t by (auto simp: track_holds_def)
  then obtain s1 where f: "fetchTrackRoot S Live (r_path r) s = (Inr (R, ver), s1)" "inv s1" "view s1 = view s"
    using fetchTrackRoot_Live [OF i] by blast
  obtain u where "log_inv (view s1) (r_path r) (r_epoch r) (dss (r_epoch r)) (Ls (r_epoch r)) u"
    using t e logs_holdD f(3) by (fastforce simp: track_holds_def)
  then obtain s2 where "fetchEpochLog S Live (r_path r) (r_epoch r) s1 = (Inr (Ls (r_epoch r), u), s2)"
    using fetchEpochLog_Live [OF f(2) log_invD(1)] by metis
  then show ?thesis using f(1) by (simp add: Refresh_def Let_def)
qed

lemma Next_filled:
  assumes "Next S Live (Suc (Suc N)) r s = Next S Live (Suc N) r1 s1" and "r_idx r1 < length (batch r1)" and "misses r1 = 0"
  shows "\<exists>x r' s'. Next S Live (Suc (Suc N)) r s = (x, r', s') \<and> settled Ls lat r x r'"
  using assms by (simp add: Next_Suc [of S Live N r1 s1] settled_def Let_def)

lemma Next_at_tip:
  assumes i: "inv s" and t: "track_holds (view s) (r_path r) lat dss Ls" and cur: "cursor (view s) lat dss Ls r j"
    and ex: "\<not> r_idx r < length (batch r)" and ge: "\<not> r_next r < OpenFrom (r_logRoot r)"
    and none: "view s (deltaKey (r_path r) (r_epoch r) (r_next r)) = None" and e: "\<not> r_epoch r < latest r"
  shows "\<exists>x r' s'. Next S Live (Suc N) r s = (x, r', s') \<and> settled Ls lat r x r'"
proof -
  let ?r = "r\<lparr>misses := Suc (misses r)\<rparr>"
  have ep: "1 \<le> r_epoch r" "r_epoch r \<le> lat" using cursor_epochs [OF cur] order_trans by blast+
  obtain s1 where d: "delta S Live (r_path r) (r_epoch r) (r_next r) s = (Inl [ErrNotCommitted], s1)" "inv s1" "view s1 = view s"
    using delta_absent_Live [OF i none] by blast
  have t1: "track_holds (view s1) (r_path ?r) lat dss Ls" and c1: "cursor (view s1) lat dss Ls ?r j" using t cur d(3) by simp_all
  then obtain r2 s2 where z: "Refresh S Live ?r s1 = (None, r2, s2)" using Refresh_Live [OF d(2) t1] ep by auto
  have "fresh Ls lat r2" using Refresh_cursor [OF z d(2) t1 c1] by (simp add: fresh_def)
  then show ?thesis
    using ex ge d(1) e z by (cases "due (Suc (misses r))") (auto simp: Next_Suc settled_def due_def Let_def)
qed

end

context reliable_store
begin

lemma Next_steps_on:
  assumes i: "inv s" and t: "track_holds (view s) (r_path r) lat dss Ls" and cur: "cursor (view s) lat dss Ls r j"
    and ex: "\<not> r_idx r < length (batch r)" and ge: "\<not> r_next r < OpenFrom (r_logRoot r)"
    and none: "view s (deltaKey (r_path r) (r_epoch r) (r_next r)) = None" and lt: "r_epoch r < latest r"
  shows "\<exists>r1 s1. inv s1 \<and> view s1 = view s \<and> r_path r1 = r_path r \<and> latest r1 = latest r \<and>
    unat (r_epoch r1) = Suc (unat (r_epoch r)) \<and> misses r1 = 0 \<and> cursor (view s) lat dss Ls r1 j \<and>
    (\<forall>N. Next S Live (Suc N) r s = Next S Live N r1 s1)"
proof -
  let ?e = "r_epoch r" and ?p = "r_path r" and ?ds = "dss (r_epoch r)"
  let ?r = "r\<lparr>r_epoch := ?e + 1, r_logRoot := Ls (?e + 1), r_next := 0, r_idx := 0, batch := [], misses := 0\<rparr>"
  have logs: "logs_hold (view s) ?p lat dss Ls" and e: "1 \<le> ?e" "?e \<le> lat" "latest r \<le> lat"
    using t cursor_epochs [OF cur] order_trans by (auto simp: track_holds_def)
  then obtain u where li: "log_inv (view s) ?p ?e ?ds (Ls ?e) u" using logs_holdD by blast
  have "r_logRoot r = Ls ?e" using cur lt by (simp add: cursor_def Let_def)
  then have "\<not> unat (r_next r) < length ?ds" using log_invD(6) [OF li, of "r_next r"] none ge by (fastforce simp: delta_holds_def not_less)
  then have n: "unat (r_next r) = length ?ds" using cur by (simp add: cursor_def Let_def)
  have e1: "unat (?e + 1) = Suc (unat ?e)" using word_Suc_unat [OF lt] .
  obtain s1 where d: "delta S Live ?p ?e (r_next r) s = (Inl [ErrNotCommitted], s1)" "inv s1" "view s1 = view s"
    using delta_absent_Live [OF i none] by blast
  have "?e + 1 \<le> lat" "?e + 1 \<noteq> 0" using e1 lt e(3) by (auto simp: word_le_nat_alt word_less_nat_alt)
  then obtain u2 where "log_inv (view s1) ?p (?e + 1) (dss (?e + 1)) (Ls (?e + 1)) u2"
    using logs_holdD [OF logs, of "?e + 1"] d(3) by auto
  then obtain s2 where f: "fetchEpochLog S Live ?p (?e + 1) s1 = (Inr (Ls (?e + 1), u2), s2)" "inv s2" "view s2 = view s"
    using fetchEpochLog_Live [OF d(2) log_invD(1)] d(3) by metis
  have "Next S Live (Suc N) r s = Next S Live N ?r s2" for N using ex ge d(1) lt f(1) by (simp add: Next_Suc loadEpoch_def)
  then show ?thesis using f e1 cursor_epoch [OF cur ex n lt logs] by (intro exI [of _ ?r] exI [of _ s2]) simp
qed

lemma Next_serves:
  assumes i: "inv s" and li: "log_inv (view s) (r_path r) (r_epoch r) (dss (r_epoch r)) L u" and cur: "cursor (view s) lat dss Ls r j"
    and ex: "\<not> r_idx r < length (batch r)"
    and there: "r_next r < OpenFrom (r_logRoot r) \<or> view s (deltaKey (r_path r) (r_epoch r) (r_next r)) \<noteq> None"
  shows "\<exists>x r' s'. Next S Live (Suc (Suc N)) r s = (x, r', s') \<and> settled Ls lat r x r'"
proof (cases "r_next r < OpenFrom (r_logRoot r)")
  case True
  let ?ds = "dss (r_epoch r)"
  have snap: "snapshot (view s) (r_path r) (r_epoch r) ?ds (r_logRoot r)" using cur by (simp add: cursor_def Let_def)
  obtain ref where ref: "sealedCovering (r_logRoot r) (r_next r) = Some ref" "ref \<in> set (Sealed (r_logRoot r))"
    by (rule cursor_sealed [OF cur ex True log_inv_length [OF li]]) (rule that)
  obtain M s1 where m: "sealed S Live (r_path r) (r_epoch r) ref s = (Inr M, s1)" "sm_Groups M = run_rows ?ds ref"
    using sealed_Live [OF i li snap ref(2)] by blast
  have "run_rows ?ds ref \<noteq> []"
    using run_rows_nonempty [of "r_path r" "r_epoch r" ?ds 0 "Sealed (r_logRoot r)"] snap ref(2) log_invD(10) [OF li] by (auto simp: snapshot_def)
  moreover have "Next S Live (Suc (Suc N)) r s =
      Next S Live (Suc N) (r\<lparr>batch := sm_Groups M, r_idx := 0, r_next := LastDelta ref + 1, misses := 0\<rparr>) s1"
    using ex True ref(1) m(1) by (subst Next_Suc) simp
  ultimately show ?thesis using Next_filled m(2) by fastforce
next
  case False
  then obtain D s1 where d: "delta S Live (r_path r) (r_epoch r) (r_next r) s = (Inr D, s1)" "dm_Groups D \<noteq> []"
    using delta_present_Live [OF i li] there by blast
  have "Next S Live (Suc (Suc N)) r s =
      Next S Live (Suc N) (r\<lparr>batch := dm_Groups D, r_idx := 0, r_next := r_next r + 1, misses := 0\<rparr>) s1"
    using ex False d(1) by (subst Next_Suc) simp
  then show ?thesis using Next_filled d(2) by fastforce
qed

lemma Next_settles:
  assumes "inv s" and "track_holds (view s) (r_path r) lat dss Ls" and "cursor (view s) lat dss Ls r j"
    and "unat (latest r) - unat (r_epoch r) + 2 \<le> N"
  shows "\<exists>x r' s'. Next S Live N r s = (x, r', s') \<and> settled Ls lat r x r'"
  using assms
proof (induction N arbitrary: r s)
  case (Suc N)
  note cur = Suc.prems(3)
  have e: "1 \<le> r_epoch r" "r_epoch r \<le> lat" using cursor_epochs [OF cur] order_trans by blast+
  then obtain u where li: "log_inv (view s) (r_path r) (r_epoch r) (dss (r_epoch r)) (Ls (r_epoch r)) u"
    using Suc.prems(2) logs_holdD by (fastforce simp: track_holds_def)
  obtain N' where N: "N = Suc N'" using Suc.prems(4) by (cases N) auto
  consider "r_idx r < length (batch r)"
    | "\<not> r_idx r < length (batch r)" "r_next r < OpenFrom (r_logRoot r) \<or> view s (deltaKey (r_path r) (r_epoch r) (r_next r)) \<noteq> None"
    | (gone) "\<not> r_idx r < length (batch r)" "\<not> r_next r < OpenFrom (r_logRoot r)" "view s (deltaKey (r_path r) (r_epoch r) (r_next r)) = None" by blast
  then show ?case
  proof cases
    case 1
    then show ?thesis by (simp add: Next_Suc settled_def Let_def)
  next
    case 2
    then show ?thesis unfolding N by (rule Next_serves [OF Suc.prems(1) li cur])
  next
    case gone
    show ?thesis
    proof (cases "r_epoch r < latest r")
      case lt: True
      from Next_steps_on [OF Suc.prems(1,2) cur gone lt] obtain r1 s1
        where r1: "inv s1" "view s1 = view s" "r_path r1 = r_path r" "latest r1 = latest r" "unat (r_epoch r1) = Suc (unat (r_epoch r))"
          "misses r1 = 0" "cursor (view s) lat dss Ls r1 j" and n: "\<And>N. Next S Live (Suc N) r s = Next S Live N r1 s1" by metis
      have "unat (latest r1) - unat (r_epoch r1) + 2 \<le> N" using Suc.prems(4) r1(4,5) lt by (simp add: word_less_nat_alt)
      moreover have "settled Ls lat r1 x r' \<Longrightarrow> settled Ls lat r x r'" for x r' using r1(6) by (cases x) (auto simp: settled_def due_def)
      ultimately show ?thesis using Suc.IH [of s1 r1] r1 Suc.prems(2) unfolding n [of N] by metis
    qed (rule Next_at_tip [OF Suc.prems(1,2) cur gone])
  qed
qed simp

end

section \<open>Following a track others append to\<close>

text \<open>
  The ticks by which writers of the latest epoch may have appended and sealed, from a state with the rows \<open>dss\<close> on,
  and ticks by which nothing has changed.
\<close>

primrec attended ::
  "('s \<Rightarrow> view) \<Rightarrow> ('s \<Rightarrow> bool) \<Rightarrow> TrackPath \<Rightarrow> u64 \<Rightarrow> 's poll list \<Rightarrow> 's \<Rightarrow> (u64 \<Rightarrow> GroupInfo list list) \<Rightarrow> (u64 \<Rightarrow> epochLogRoot) \<Rightarrow> bool"
where
  "attended view I p lat [] s dss Ls \<longleftrightarrow> True"
| "attended view I p lat (q # ps) s dss Ls \<longleftrightarrow> (\<exists>f. q = Tick Live f \<and> (\<forall>s1. I s1 \<and> view s1 = view s \<longrightarrow>
     I (f s1) \<and> written p lat (view s) (view (f s1)) \<and>
     (\<exists>xs L. track_holds (view (f s1)) p lat (dss(lat := dss lat @ xs)) (Ls(lat := L)) \<and>
       attended view I p lat ps (f s1) (dss(lat := dss lat @ xs)) (Ls(lat := L)))))"

definition quiet :: "('s \<Rightarrow> view) \<Rightarrow> ('s \<Rightarrow> bool) \<Rightarrow> 's poll \<Rightarrow> bool" where
  "quiet view I q \<longleftrightarrow> (\<exists>f. q = Tick Live f \<and> (\<forall>s. I s \<longrightarrow> I (f s) \<and> view (f s) = view s))"

text \<open>The groups printed from a position on leave out no row after it.\<close>

definition covers :: "GroupInfo list \<Rightarrow> nat \<Rightarrow> GroupInfo list \<Rightarrow> bool" where
  "covers rows j gs \<longleftrightarrow> set (drop j rows) \<subseteq> set gs \<and> set gs \<subseteq> set rows"

lemma covers_earlier: "covers rows i gs \<Longrightarrow> i \<le> j \<Longrightarrow> covers rows j gs"
  using set_drop_subset_set_drop [of i j rows] by (auto simp: covers_def)

lemma covers_Cons:
  assumes "covers rows (Suc i) gs" and "i \<le> j" and "i < length rows"
  shows "covers rows j (rows ! i # gs)"
proof -
  have "drop i rows = rows ! i # drop (Suc i) rows" using assms(3) by (simp add: Cons_nth_drop_Suc)
  then have "covers rows i (rows ! i # gs)" using assms(1,3) by (auto simp: covers_def)
  then show ?thesis using assms(2) by (rule covers_earlier)
qed

text \<open>How many groups may still come before a tip: a reader inside a sealed run goes back once.\<close>

definition slack :: "GroupInfo list \<Rightarrow> Reader \<Rightarrow> nat \<Rightarrow> nat" where
  "slack rows r j = (if at_edge r then 0 else length rows) + (length rows - j)"

lemma slack_less:
  assumes "i \<le> j" and "at_edge r \<longrightarrow> i = j" and "at_edge r' \<or> \<not> at_edge r \<and> i = j" and "i < length rows"
  shows "slack rows r' (Suc i) < slack rows r j"
  using assms by (auto simp: slack_def)

context reliable_store
begin

lemma follow_turn:
  assumes i: "inv s" and t: "track_holds (view s) (r_path r) lat dss Ls" and cur: "cursor (view s) lat dss Ls r j" and N: "unat lat + 2 \<le> N"
  obtains (group) k r1 s1 where "Next S Live N r s = (Inr (track_rows dss lat ! k), r1, s1)" "inv s1" "view s1 = view s" "r_path r1 = r_path r"
      "k \<le> j" "k < length (track_rows dss lat)" "cursor (view s) lat dss Ls r1 (Suc k)"
      "slack (track_rows dss lat) r1 (Suc k) < slack (track_rows dss lat) r j"
      "fresh Ls lat r \<longrightarrow> fresh Ls lat r1" "until_due (misses r1) \<le> until_due (misses r)"
    | (tip) k r1 s1 where "Next S Live N r s = (Inl [EOF], r1, s1)" "inv s1" "view s1 = view s" "r_path r1 = r_path r"
      "k \<le> j" "cursor (view s) lat dss Ls r1 k" "fresh Ls lat r \<longrightarrow> length (track_rows dss lat) \<le> j \<and> fresh Ls lat r1"
      "fresh Ls lat r1 \<or> until_due (misses r) = Suc (until_due (misses r1))"
proof -
  have l: "latest r \<le> lat" using cursor_epochs [OF cur] by blast
  then have N': "unat (latest r) - unat (r_epoch r) + 2 \<le> N" using N by (simp add: word_le_nat_alt)
  obtain x r1 s1 where n: "Next S Live N r s = (x, r1, s1)" and st: "settled Ls lat r x r1" using Next_settles [OF i t cur N'] by blast
  have p: "reads s s1" "next_post (view s) lat dss Ls r j x r1" using Next_reads [of Live N lat dss Ls] n i t cur unfolding next_loop_def by blast+
  have v: "inv s1" "view s1 = view s" using p(1) by (auto simp: reads_def)
  obtain k where k: "k \<le> j" "at_edge r \<longrightarrow> k = j" "isl x \<or> at_edge r1 \<or> \<not> at_edge r \<and> k = j" "next_at (view s) lat dss Ls (latest r) x r1 k"
    and pr: "r_path r1 = r_path r" "r_logRoot r = Ls (r_epoch r) \<longrightarrow> r_logRoot r1 = Ls (r_epoch r1)"
    using p(2) unfolding next_post_def by blast
  show thesis
  proof (cases x)
    case (Inr g)
    have q: "k < length (track_rows dss lat)" "g = track_rows dss lat ! k" "cursor (view s) lat dss Ls r1 (Suc k)" "latest r1 = latest r"
      using k(4) Inr by (auto simp: next_at_def)
    have "until_due (misses r1) \<le> until_due (misses r)" using st Inr until_due_bounds(3) by (auto simp: settled_def)
    moreover have "slack (track_rows dss lat) r1 (Suc k) < slack (track_rows dss lat) r j" by (rule slack_less) (use k q(1) Inr in auto)
    moreover have "fresh Ls lat r \<longrightarrow> fresh Ls lat r1" using pr(2) q(4) by (simp add: fresh_def)
    ultimately show thesis using group n Inr q v pr(1) k(1) by blast
  next
    case (Inl err)
    have e: "err = [EOF]" and f: "fresh Ls lat r1 \<or> r1 = r\<lparr>misses := Suc (misses r)\<rparr> \<and> \<not> due (Suc (misses r))" using st Inl by (auto simp: settled_def)
    have "cursor (view s) lat dss Ls r1 k" using k(4) Inl e by (simp add: next_at_def)
    moreover have "length (track_rows dss lat) \<le> j" if "fresh Ls lat r"
      using Next_Live [OF i t cur _ N'] n Inl that by (auto simp: fresh_def split: if_splits)
    moreover have "fresh Ls lat r \<longrightarrow> fresh Ls lat r1" using f by (auto simp: fresh_def)
    moreover have "fresh Ls lat r1 \<or> until_due (misses r) = Suc (until_due (misses r1))" using f until_due_Suc by auto
    ultimately show thesis using tip n Inl e v pr(1) k(1) by blast
  qed
qed

text \<open>With turns enough the loop ends, in one way.\<close>

definition comes_to :: "nat \<Rightarrow> 'a poll list \<Rightarrow> Reader \<Rightarrow> 'a \<Rightarrow> (GroupInfo list \<Rightarrow> error option \<Rightarrow> 'a \<Rightarrow> bool) \<Rightarrow> bool" where
  "comes_to N polls r s Q \<longleftrightarrow>
     (\<exists>M0 gs e r' s'. (\<forall>M\<ge>M0. follow_loop S N M polls Live r s = (gs, e, r', s')) \<and> Q gs e s')"

lemma comes_toI:
  assumes "\<And>M. M \<ge> M0 \<Longrightarrow> follow_loop S N (Suc M) polls Live r s = (gs, e, r', s')" and "Q gs e s'"
  shows "comes_to N polls r s Q"
proof -
  have "follow_loop S N M polls Live r s = (gs, e, r', s')" if "M \<ge> Suc M0" for M
    using that assms(1) [of "M - 1"] by (cases M) auto
  then show ?thesis unfolding comes_to_def using assms(2) by blast
qed

lemma comes_group:
  assumes "Next S Live N r s = (Inr g, r1, s1)" and "comes_to N polls r1 s1 (\<lambda>gs. Q (g # gs))"
  shows "comes_to N polls r s Q"
proof -
  obtain M0 gs e r' s' where "\<And>M. M \<ge> M0 \<Longrightarrow> follow_loop S N M polls Live r1 s1 = (gs, e, r', s')" "Q (g # gs) e s'"
    using assms(2) unfolding comes_to_def by blast
  then show ?thesis using assms(1) by (intro comes_toI [of M0 N polls r s "g # gs"]) auto
qed

lemma comes_tick:
  assumes "Next S Live N r s = (Inl [EOF], r1, s1)" and "comes_to N polls r1 (f s1) Q"
  shows "comes_to N (Tick Live f # polls) r s Q"
proof -
  obtain M0 gs e r' s' where "\<And>M. M \<ge> M0 \<Longrightarrow> follow_loop S N M polls Live r1 (f s1) = (gs, e, r', s')" "Q gs e s'"
    using assms(2) unfolding comes_to_def by blast
  then show ?thesis using assms(1) by (intro comes_toI [of M0]) auto
qed

lemma comes_done:
  assumes "Next S Live N r s = (Inl [EOF], r1, s1)" and "Q [] (ctx_Err c) s1"
  shows "comes_to N (Done c # polls) r s Q"
  using assms by (intro comes_toI [of 0]) auto

lemma comes_mono: "comes_to N polls r s P \<Longrightarrow> (\<And>gs e s'. P gs e s' \<Longrightarrow> Q gs e s') \<Longrightarrow> comes_to N polls r s Q"
  unfolding comes_to_def by blast

lemma follow_quiet:
  assumes "inv s" and "track_holds (view s) (r_path r) lat dss Ls" and "cursor (view s) lat dss Ls r j" and "unat lat + 2 \<le> N"
    and "list_all (quiet view inv) qs" and "fresh Ls lat r \<or> until_due (misses r) \<le> length qs"
  shows "comes_to N (qs @ [Done c]) r s
    (\<lambda>gs e s'. e = ctx_Err c \<and> inv s' \<and> view s' = view s \<and> covers (track_rows dss lat) j gs)"
  using assms
proof (induction "length qs * Suc (2 * length (track_rows dss lat)) + slack (track_rows dss lat) r j" arbitrary: qs r s j rule: less_induct)
  case less
  let ?rows = "track_rows dss lat"
  have fw: "slack ?rows r' i \<le> 2 * length ?rows" for r' i using diff_le_self [of "length ?rows" i] unfolding slack_def mult_2 by (cases "at_edge r'") (auto intro: le_trans add_mono)
  show ?case
  proof (rule follow_turn [OF less.prems(1-4)])
    fix k r1 s1
    assume a: "Next S Live N r s = (Inr (?rows ! k), r1, s1)" "inv s1" "view s1 = view s" "r_path r1 = r_path r" "k \<le> j" "k < length ?rows"
      "cursor (view s) lat dss Ls r1 (Suc k)" "slack ?rows r1 (Suc k) < slack ?rows r j"
      "fresh Ls lat r \<longrightarrow> fresh Ls lat r1" "until_due (misses r1) \<le> until_due (misses r)"
    have "comes_to N (qs @ [Done c]) r1 s1 (\<lambda>gs e s'. e = ctx_Err c \<and> inv s' \<and> view s' = view s1 \<and> covers ?rows (Suc k) gs)"
      by (rule less.hyps) (use a less.prems in auto)
    then show ?thesis by (intro comes_group [OF a(1)], elim comes_mono) (use a covers_Cons in auto)
  next
    fix k r1 s1
    assume a: "Next S Live N r s = (Inl [EOF], r1, s1)" "inv s1" "view s1 = view s" "r_path r1 = r_path r" "k \<le> j"
      "cursor (view s) lat dss Ls r1 k" "fresh Ls lat r \<longrightarrow> length ?rows \<le> j \<and> fresh Ls lat r1"
      "fresh Ls lat r1 \<or> until_due (misses r) = Suc (until_due (misses r1))"
    show ?thesis
    proof (cases qs)
      case Nil
      then have "fresh Ls lat r" using less.prems(6) until_due_bounds(1) [of "misses r"] by simp
      then show ?thesis using a Nil by (auto intro!: comes_done simp: covers_def)
    next
      case (Cons q qs')
      then obtain f where f: "q = Tick Live f" "\<And>s. inv s \<Longrightarrow> inv (f s) \<and> view (f s) = view s" using less.prems(5) by (auto simp: quiet_def)
      have "comes_to N (qs' @ [Done c]) r1 (f s1) (\<lambda>gs e s'. e = ctx_Err c \<and> inv s' \<and> view s' = view (f s1) \<and> covers ?rows k gs)"
        by (rule less.hyps) (use a f(2) [OF a(2)] less.prems Cons fw [of r1 k] in auto)
      then show ?thesis unfolding Cons f(1) append_Cons
        by (intro comes_tick [OF a(1)], elim comes_mono) (use a f(2) [OF a(2)] covers_earlier in auto)
    qed
  qed
qed

end


context reliable_store
begin

text \<open>How following ends: the rows there are now extend those of the start, and none after the position was left out.\<close>

definition followed :: "TrackPath \<Rightarrow> u64 \<Rightarrow> GroupInfo list \<Rightarrow> nat \<Rightarrow> ctx \<Rightarrow> GroupInfo list \<Rightarrow> error option \<Rightarrow> 'a \<Rightarrow> bool" where
  "followed p lat rows j c gs e s \<longleftrightarrow> e = ctx_Err c \<and> inv s \<and>
     (\<exists>dss Ls xs. track_holds (view s) p lat dss Ls \<and> track_rows dss lat = rows @ xs \<and> covers (track_rows dss lat) j gs)"

lemma followed_Cons:
  assumes "followed p lat rows (Suc i) c gs e s" and "i \<le> j" and "i < length rows"
  shows "followed p lat rows j c (rows ! i # gs) e s"
proof -
  have "covers (rows @ xs) j (rows ! i # gs)" if "covers (rows @ xs) (Suc i) gs" for xs
    using covers_Cons [OF that assms(2)] assms(3) by (simp add: nth_append)
  then show ?thesis using assms(1) unfolding followed_def by metis
qed

lemma followed_grown: "followed p lat (rows @ ys) i c gs e s \<Longrightarrow> i \<le> j \<Longrightarrow> followed p lat rows j c gs e s"
  unfolding followed_def using covers_earlier by (metis append_assoc)

lemma follow_attended:
  assumes "inv s" and "track_holds (view s) (r_path r) lat dss Ls" and "cursor (view s) lat dss Ls r j" and "unat lat + 2 \<le> N"
    and "attended view inv (r_path r) lat ps s dss Ls" and "list_all (quiet view inv) qs" and "rootRecheckEvery \<le> length qs"
  shows "comes_to N (ps @ qs @ [Done c]) r s (followed (r_path r) lat (track_rows dss lat) j c)"
  using assms
proof (induction ps arbitrary: r s j dss Ls)
  case Nil
  have f: "fresh Ls lat r \<or> until_due (misses r) \<le> length qs" using Nil.prems(7) until_due_bounds(2) order_trans by blast
  have "followed (r_path r) lat (track_rows dss lat) j c gs e s'"
    if "e = ctx_Err c \<and> inv s' \<and> view s' = view s \<and> covers (track_rows dss lat) j gs" for gs e s'
    unfolding followed_def using that Nil.prems(2) by (intro conjI exI [of _ dss] exI [of _ Ls] exI [of _ "[]"]) auto
  then show ?case unfolding append_Nil using comes_mono [OF follow_quiet [OF Nil.prems(1-4,6) f, of c]] by blast
next
  case (Cons q ps)
  have lat: "lat \<noteq> 0" using Cons.prems(2) by (auto simp: track_holds_def)
  note outer = Cons.IH
  show ?case using Cons.prems
  proof (induction "slack (track_rows dss lat) r j" arbitrary: r s j rule: less_induct)
    case less
    let ?rows = "track_rows dss lat"
    show ?case
    proof (rule follow_turn [OF less.prems(1-4)])
      fix k r1 s1
      assume a: "Next S Live N r s = (Inr (?rows ! k), r1, s1)" "inv s1" "view s1 = view s" "r_path r1 = r_path r" "k \<le> j" "k < length ?rows"
        "cursor (view s) lat dss Ls r1 (Suc k)" "slack ?rows r1 (Suc k) < slack ?rows r j"
      have "comes_to N ((q # ps) @ qs @ [Done c]) r1 s1 (followed (r_path r1) lat ?rows (Suc k) c)"
        by (rule less.hyps) (use a less.prems in auto)
      then show ?thesis using comes_group [OF a(1) comes_mono] followed_Cons [OF _ a(5,6)] a(4) by metis
    next
      fix k r1 s1
      assume a: "Next S Live N r s = (Inl [EOF], r1, s1)" "inv s1" "view s1 = view s" "r_path r1 = r_path r" "k \<le> j"
        "cursor (view s) lat dss Ls r1 k"
      obtain f xs L where q: "q = Tick Live f" and f: "inv (f s1)" "written (r_path r) lat (view s) (view (f s1))"
        "track_holds (view (f s1)) (r_path r) lat (dss(lat := dss lat @ xs)) (Ls(lat := L))"
        "attended view inv (r_path r) lat ps (f s1) (dss(lat := dss lat @ xs)) (Ls(lat := L))"
        using less.prems(5) a(2,3) by auto
      have "cursor (view (f s1)) lat (dss(lat := dss lat @ xs)) (Ls(lat := L)) r1 k"
        by (rule cursor_grows [OF a(6)]) (simp only: a(4) f(2))
      then have "comes_to N (ps @ qs @ [Done c]) r1 (f s1) (followed (r_path r1) lat (track_rows (dss(lat := dss lat @ xs)) lat) k c)"
        using outer [OF f(1) _ _ less.prems(4) _ less.prems(6,7)] f(3,4) a(4) by metis
      then have "comes_to N (ps @ qs @ [Done c]) r1 (f s1) (followed (r_path r) lat ?rows j c)"
        unfolding track_rows_grow [OF lat] a(4) by (rule comes_mono) (rule followed_grown [OF _ a(5)])
      then show ?thesis unfolding q append_Cons by (rule comes_tick [OF a(1)])
    qed
  qed
qed

end


section \<open>What writers do counts as attendance\<close>

lemma attended_cong: "view s = view s' \<Longrightarrow> attended view I p lat ps s dss Ls = attended view I p lat ps s' dss Ls"
  by (cases ps) simp_all

text \<open>A tick by which a writer in step with the log called \<open>AppendGroup\<close>, whatever came of it.\<close>

lemma append_attended:
  assumes S: "store_contract S view I" and t: "track_holds (view s) p lat dss Ls" and wi: "writer_inv (view s) w (dss lat)"
    and w: "w_path w = p" "w_epoch w = lat" and meta: "meta_ok meta payload"
    and room: "int (Suc (length (concat (dss lat)))) \<le> MaxInt64"
  shows "attended view I p lat [Tick Live (\<lambda>s1. objs (snd (snd (AppendGroup S c N meta payload w (W\<lparr>objs := s1\<rparr>)))))] s dss Ls"
proof -
  have "I (objs W1) \<and> written p lat (view s) (view (objs W1)) \<and>
      (\<exists>xs L. track_holds (view (objs W1)) p lat (dss(lat := dss lat @ xs)) (Ls(lat := L)))"
    if s1: "I s1" "view s1 = view s" "W1 = snd (snd (AppendGroup S c N meta payload w (W\<lparr>objs := s1\<rparr>)))" for s1 W1
  proof -
    obtain g err w' where run: "AppendGroup S c N meta payload w (W\<lparr>objs := s1\<rparr>) = ((g, err), w', W1)" using s1(3) by (metis surj_pair snd_conv)
    have "I (objs (W\<lparr>objs := s1\<rparr>))" "track_holds (view (objs (W\<lparr>objs := s1\<rparr>))) p lat dss Ls" "writer_inv (view (objs (W\<lparr>objs := s1\<rparr>))) w (dss lat)"
      using s1(1,2) t wi by simp_all
    from AppendGroup_grows [OF S this w meta room run] show ?thesis using s1(2) by auto
  qed
  then show ?thesis by simp
qed

section \<open>Starting\<close>

text \<open>The start of the track, or right after the group an earlier run printed last.\<close>

definition starts_at :: "follow_flags \<Rightarrow> Track \<Rightarrow> nat \<Rightarrow> (u64 \<Rightarrow> GroupInfo list list) \<Rightarrow> GroupInfo list \<Rightarrow> nat \<Rightarrow> bool" where
  "starts_at fl t N dss rows j \<longleftrightarrow>
     (if f_group fl = '''' then \<not> f_tip fl \<and> j = 0
      else \<exists>i. ParseGroupID (f_group fl) = Inr i \<and> 1 \<le> Epoch i \<and> Epoch i \<le> LatestEpoch (t_root t) \<and>
        ascending (concat (dss (Epoch i))) \<and> length (dss (Epoch i)) < N \<and> j = length (filter (\<lambda>g. Compare (ID g) i \<le> 0) rows))"

context reliable_store
begin

lemma follow_starts:
  assumes i: "inv s" and t: "track_holds (view s) (t_path t) lat dss Ls" and l: "LatestEpoch (t_root t) \<noteq> 0" "LatestEpoch (t_root t) \<le> lat"
    and st: "starts_at fl t N dss (track_rows dss lat) j"
  shows "\<exists>r0 s0 r s1. Reader_Track S Live t s = (Inr r0, s0) \<and> follow_start S N Live fl r0 s0 = (None, r, s1) \<and> inv s1 \<and> view s1 = view s \<and>
    r_path r = t_path t \<and> cursor (view s) lat dss Ls r j"
proof -
  obtain r0 s0 where r0: "Reader_Track S Live t s = (Inr r0, s0)" using Reader_Track_Live [OF i t l(1)] by blast
  have o: "inv s0" "view s0 = view s" "cursor (view s) lat dss Ls r0 0" "r_path r0 = t_path t" "latest r0 = LatestEpoch (t_root t)"
    using Reader_Track_opens [OF r0 i t l(2)] by (auto simp: reads_def)
  show ?thesis
  proof (cases "f_group fl = ''''")
    case True
    then have "follow_start S N Live fl r0 s0 = (None, r0, s0)" "j = 0"
      using st SeekStart_opened [OF r0] by (simp_all add: starts_at_def follow_start_def)
    then show ?thesis using r0 o by blast
  next
    case False
    then obtain g where g: "ParseGroupID (f_group fl) = Inr g" "1 \<le> Epoch g" "Epoch g \<le> latest r0" "ascending (concat (dss (Epoch g)))"
      "length (dss (Epoch g)) < N" and j: "j = length (filter (\<lambda>x. Compare (ID x) g \<le> 0) (track_rows dss lat))"
      using st o(5) by (auto simp: starts_at_def)
    have logs: "logs_hold (view s0) (r_path r0) lat dss Ls" and cur: "cursor (view s0) lat dss Ls r0 0" using t o by (simp_all add: track_holds_def)
    have le: "latest r0 \<le> lat" "Epoch g \<le> lat" using l(2) o(5) g(3) by auto
    have nz: "g \<noteq> GroupID 0" using g(2) by (auto simp: Epoch_def)
    obtain r s1 where sk: "SeekAfter S Live N g r0 s0 = (None, r, s1)" using SeekAfter_Live [OF o(1) logs g(2,3) le(1) g(5)] by blast
    note c = SeekAfter_cursor [OF sk o(1) logs cur g(2-4) nz]
    have "cursor (view s) lat dss Ls r j" using c rows_upto [OF logs g(2) le(2) g(4)] o(2) j by (simp add: reads_def)
    then show ?thesis using r0 sk False g(1) c o by (auto simp: follow_start_def reads_def)
  qed
qed

end

section \<open>Properties\<close>

lemma stamp_keeps:
  "info_Commit info \<noteq> ''none'' \<Longrightarrow> info_Commit (stamp settings info) = info_Commit info"
  "info_Date info \<noteq> ''unknown'' \<Longrightarrow> info_Date (stamp settings info) = info_Date info"
  "info_Version (stamp settings info) = info_Version info" "info_Go (stamp settings info) = info_Go info"
  by (induction settings info rule: stamp.induct) auto

text \<open>What the linker set is kept; a commit it did not set is the revision of the build.\<close>

lemma version_Get_keeps_stamps:
  "commit \<noteq> ''none'' \<Longrightarrow> info_Commit (version_Get v commit date build) = commit"
  "date \<noteq> ''unknown'' \<Longrightarrow> info_Date (version_Get v commit date build) = date"
  "commit \<noteq> ''none'' \<Longrightarrow> info_Commit (version_Get v ''none'' date (Some \<lparr>GoVersion = go, Settings = (''vcs.revision'', commit) # st\<rparr>)) = commit"
  by (auto simp: version_Get_def Let_def stamp_keeps split: option.split)

text \<open>
  A poll interval that is not positive stops the command with a panic, after the reader was placed.
\<close>

lemma follow_panics:
  assumes "Reader_Track S c t s = (Inr r, s1)" and "follow_start S N c fl r s1 = (None, r', s2)" and "f_interval fl \<le> 0"
  shows "follow_track S N M polls c fl t s = ([], Panicked, s2)"
  using assms by (simp add: follow_track_def)

text \<open>
  \<open>inspect -groups\<close> lists the whole track: on a store that answers, the track of a valid path opens, and the table has
  one row for each group of all epochs, in commit order, after the summary of the root; there is no error. The
  fuel is one turn per epoch and two more for \<open>Next\<close>, and one turn more than there are groups.
\<close>

theorem inspect_lists_the_track:
  assumes S: "reliable_store S view I" and i: "I s" and p: "validate_TrackPath p = None" and t: "track_holds (view s) p lat dss Ls"
    and N: "unat lat + 2 \<le> N" "length (track_rows dss lat) < M"
  shows "\<exists>t s1 s'. Open_Track S clk Live p cfg s = (Inr t, s1) \<and> ti_Track (Root_Track t) = p \<and> ti_LatestEpoch (Root_Track t) = lat \<and>
    inspect_track S Live N M True t s1 =
      ((summary (Root_Track t) @ [''''], table_head # map group_row (track_rows dss lat)), None, s')"
proof -
  note C = reliable_store.axioms(1) [OF S]
  obtain R ver where R: "root_at (view s) p R ver" "LatestEpoch R = lat" using t by (auto simp: track_holds_def)
  obtain s1 where f: "fetchTrackRoot S Live p s = (Inr (R, ver), s1)" "I s1" "view s1 = view s"
    using reliable_store.fetchTrackRoot_Live [OF S i R(1)] by blast
  define h where "h = (resolveConfig clk p cfg)\<lparr>t_root := R, t_rootVersion := ver\<rparr>"
  have h: "Open_Track S clk Live p cfg s = (Inr h, s1)" "t_path h = p" "t_root h = R"
    using p f(1) by (simp_all add: Open_Track_def h_def resolveConfig_def Let_def)
  have th: "track_holds (view s1) (t_path h) lat dss Ls" using t f(3) h(2) by simp
  have nz: "LatestEpoch (t_root h) \<noteq> 0" using R(2) h(3) t by (auto simp: track_holds_def)
  obtain r s2 where r: "Reader_Track S Live h s1 = (Inr r, s2)" using reliable_store.Reader_Track_Live [OF S f(2) th nz] by blast
  have o: "I s2" "view s2 = view s1" "cursor (view s1) lat dss Ls r 0" "r_path r = t_path h" "latest r = lat" "r_logRoot r = Ls (r_epoch r)" "at_edge r"
    using store_contract.Reader_Track_opens [OF C r f(2) th] R(2) h(3) by (auto simp: store_contract.reads_def [OF C])
  have "\<exists>r' s'. drain S Live N M r s2 = (drop 0 (track_rows dss lat), Some [EOF], r', s')"
    by (rule reliable_store.drain_all [OF S o(1)]) (use o th N in simp_all)
  then obtain s' where "inspect_loop S Live N M r s2 = (map group_row (track_rows dss lat), None, s')"
    using inspect_loop_drain by fastforce
  then show ?thesis using h r R(2) SeekStart_opened [OF r] by (simp add: inspect_track_def Root_Track_def Let_def)
qed

theorem inspect_lists_the_track_witness:
  "\<exists>s t s1 s'. mem_view s = sealed_view \<and> Open_Track mem_store (\<lambda>_. 0) Live ''cam'' \<lparr>SealThreshold = 0, Clock = None\<rparr> s = (Inr t, s1) \<and>
    inspect_track mem_store Live 3 3 True t s1 =
      ((summary (Root_Track t) @ [''''], [table_head, group_row (sample_row 0), group_row (sample_row 1)]), None, s')"
proof -
  obtain s where s: "mem_inv s" "mem_view s = sealed_view" using view_state(2) by blast
  have t: "track_holds (mem_view s) ''cam'' 1 (\<lambda>_. sample_ds) (\<lambda>_. sealed_log)" using sample_track_holds(2) s(2) by simp
  have p: "validate_TrackPath ''cam'' = None" by code_simp
  from inspect_lists_the_track [OF mem.reliable_store_axioms s(1) p t, of 3 3] show ?thesis using s(2) by fastforce
qed

text \<open>
  C7. \<open>follow\<close> prints every group: on a store that answers, beside writers that append to the latest epoch and seal it, with
  at least eight polls after their last change, the command ends with the error of its context once enough turns
  are allowed, and has printed every group committed by then, over all epochs, from the start of
  the track or after the identity it was to resume from; and nothing but groups of the track.
\<close>

theorem follow_prints_every_group:
  assumes S: "reliable_store S view I" and i: "I s" and t: "track_holds (view s) (t_path t) lat dss Ls"
    and l: "LatestEpoch (t_root t) \<noteq> 0" "LatestEpoch (t_root t) \<le> lat" and N: "unat lat + 2 \<le> N"
    and fl: "starts_at fl t N dss (track_rows dss lat) j" "0 < f_interval fl"
    and ps: "attended view I (t_path t) lat ps s dss Ls" and qs: "list_all (quiet view I) qs" "rootRecheckEvery \<le> length qs"
  shows "\<exists>M0 printed s'. (\<forall>M\<ge>M0. follow_track S N M (ps @ qs @ [Done c]) Live fl t s = (printed, Returned (ctx_Err c), s')) \<and>
    (\<exists>dss' Ls' xs. track_holds (view s') (t_path t) lat dss' Ls' \<and> track_rows dss' lat = track_rows dss lat @ xs \<and>
      set (map follow_line (drop j (track_rows dss' lat))) \<subseteq> set printed \<and> set printed \<subseteq> set (map follow_line (track_rows dss' lat)))"
proof -
  note F = reliable_store.followed_def [OF S] reliable_store.comes_to_def [OF S]
  obtain r0 s0 r s1 where r: "Reader_Track S Live t s = (Inr r0, s0)" "follow_start S N Live fl r0 s0 = (None, r, s1)"
    and s1: "I s1" "view s1 = view s" "r_path r = t_path t" "cursor (view s) lat dss Ls r j"
    using reliable_store.follow_starts [OF S i t l fl(1)] by blast
  have "attended view I (r_path r) lat ps s1 dss Ls" using attended_cong [OF s1(2)] ps s1(3) by simp
  then have "reliable_store.comes_to S N (ps @ qs @ [Done c]) r s1 (reliable_store.followed view I (t_path t) lat (track_rows dss lat) j c)"
    using reliable_store.follow_attended [OF S s1(1) _ _ N _ qs, of r dss Ls j ps c] s1 t by simp
  then obtain M0 gs r' s' dss' Ls' xs where m: "\<forall>M\<ge>M0. follow_loop S N M (ps @ qs @ [Done c]) Live r s1 = (gs, ctx_Err c, r', s')"
    and e: "track_holds (view s') (t_path t) lat dss' Ls'" "track_rows dss' lat = track_rows dss lat @ xs" "covers (track_rows dss' lat) j gs"
    unfolding F by blast
  have "follow_track S N M (ps @ qs @ [Done c]) Live fl t s = (map follow_line gs, Returned (ctx_Err c), s')" if "M \<ge> M0" for M
    using r fl(2) m that by (simp add: follow_track_def)
  moreover have "set (map follow_line (drop j (track_rows dss' lat))) \<subseteq> set (map follow_line gs)"
      "set (map follow_line gs) \<subseteq> set (map follow_line (track_rows dss' lat))"
    using e(3) unfolding covers_def set_map by (blast, blast)
  ultimately show ?thesis using e(1,2) by blast
qed

theorem follow_prints_every_group_witness:
  "\<exists>M printed s' dss Ls.
    follow_track mem_store 3 M
      (Tick Live (\<lambda>s1. objs (snd (snd (AppendGroup mem_store Live 1 demo_meta ''data'' demo_writer (demo_log_world\<lparr>objs := s1\<rparr>)))))
        # replicate 8 (Tick Live (\<lambda>s. s)) @ [Done Ctx_Canceled])
      Live \<lparr>f_root = ''.'', f_track = ''cam'', f_group = '''', f_tip = False, f_interval = 1\<rparr> demo_track (objs demo_log_world) =
        (printed, Returned (Some [Canceled]), s') \<and>
    track_holds (mem_view s') ''cam'' 1 dss Ls \<and> set (map follow_line (track_rows dss 1)) \<subseteq> set printed"
proof -
  note d = demo_writer_inv
  let ?s = "objs demo_log_world" and ?L = "logRoot demo_writer" and ?c = Ctx_Canceled
  let ?fl = "\<lparr>f_root = ''.'', f_track = ''cam'', f_group = '''', f_tip = False, f_interval = 1\<rparr>"
  let ?ps = "[Tick Live (\<lambda>s1. objs (snd (snd (AppendGroup mem_store Live 1 demo_meta ''data'' demo_writer (demo_log_world\<lparr>objs := s1\<rparr>)))))]"
  have li: "log_inv (mem_view ?s) ''cam'' 1 [] ?L (logVersion demo_writer)" using d(2-5) by (simp add: writer_inv_def synced_def)
  then have t: "track_holds (mem_view ?s) (t_path demo_track) 1 (\<lambda>_. []) (\<lambda>_. ?L)"
    using demo_log_root_at log_inv_logs_hold by (auto simp: track_holds_def)
  have r: "LatestEpoch (t_root demo_track) = 1" by (simp add: demo_root_def new_root_def)
  have ps: "attended mem_view mem_inv (t_path demo_track) 1 ?ps ?s (\<lambda>_. []) (\<lambda>_. ?L)"
    by (rule append_attended [OF mem.store_contract_axioms t]) (use d(2,4,5) demo_meta_ok(1) in \<open>auto simp: i64_bounds\<close>)
  have qs: "list_all (quiet mem_view mem_inv) (replicate 8 (Tick Live (\<lambda>s. s)))" "rootRecheckEvery \<le> length (replicate 8 (Tick Live (\<lambda>s. s)))"
    by (simp_all add: list_all_iff quiet_def rootRecheckEvery_def)
  have fl: "starts_at ?fl demo_track 3 (\<lambda>_. []) (track_rows (\<lambda>_. []) 1) 0" by (simp add: starts_at_def)
  obtain M0 printed s' dss Ls where x: "\<forall>M\<ge>M0. follow_track mem_store 3 M (?ps @ replicate 8 (Tick Live (\<lambda>s. s)) @ [Done ?c]) Live ?fl demo_track ?s
      = (printed, Returned (ctx_Err ?c), s')" "track_holds (mem_view s') (t_path demo_track) 1 dss Ls"
      "set (map follow_line (drop 0 (track_rows dss 1))) \<subseteq> set printed"
    using follow_prints_every_group [OF mem.reliable_store_axioms d(1) t _ _ _ fl _ ps qs, of ?c] r by auto
  then show ?thesis by (intro exI [of _ M0] exI [of _ printed] exI [of _ s'] exI [of _ dss] exI [of _ Ls]) (simp add: ctx_Err_def)
qed

end
