(* ===== verification/Spec2Isabelle.thy ===== *)
theory Spec2Isabelle
  imports Redact Store_Open Ingest_Props Reader_Seek_Time Storetest Inspect_Follow
begin

text \<open>
  A verification of qumo-ledger, a Go library that records tracks of media groups in an object store, and of
  the HTTP server that feeds it.

  \<^bold>\<open>The program.\<close> A track has a root object and a sequence of epochs. An epoch has a log root, which lists its
  sealed runs and says where its open region starts, one delta object per append in the open region, sealed
  manifests that each hold the rows of a run of deltas, and a head that says which delta was written last. The
  payload of each group is an object of its own. A \<open>Track\<close> creates and opens these objects, a \<open>Writer\<close> appends
  to the latest epoch and seals its open region, a \<open>Reader\<close> follows the epochs in order and answers queries, and
  a \<open>Store\<close> is any of four backends. The ingest server holds a writer per open track and turns requests into
  appends, history pages and redactions.

  \<^bold>\<open>The model.\<close> State is passed explicitly: a store's state \<open>'s\<close>, or a world with it and the number of times a
  clock was read. A fallible operation returns \<open>error + 'a\<close> or \<open>error option\<close>, an error being the list of
  sentinels \<open>errors.Is\<close> finds in it. Go's \<open>uint64\<close> is \<open>64 word\<close>, \<open>int64\<close> is \<open>int\<close> with its wrap-around written
  out, strings and bytes are \<open>string\<close>. Each theory after the first models the file it names, in the code's order
  and under the code's names, with a suffix or prefix where two types share a method.

  \<^item> \<open>Prelude\<close>, \<open>Go_Text\<close>: sentinels and contexts (\<open>ledger/errors.go\<close>), 64-bit arithmetic, and what the code
    uses of \<open>strings\<close>, \<open>strconv\<close>, \<open>path\<close> and \<open>unicode/utf8\<close>.
  \<^item> \<open>Group_Id\<close>, \<open>Group_Info\<close>: group identities and rows (\<open>ledger/group.go\<close>).
  \<^item> \<open>Store\<close>: the interface of \<open>ledger/store/store.go\<close> and its documented contract, as the locale
    \<open>store_contract\<close>, in which a call may fail, be canceled, or take effect and lose its reply, and the locale
    \<open>reliable_store\<close>, in which calls with a live context answer.
  \<^item> \<open>Mem_Store\<close>, \<open>Db_Store\<close>, \<open>Bucket_Sign\<close> with \<open>Bucket_Store\<close>, \<open>Fs_Store\<close>: the backends (\<open>ledger/store/mem\<close>,
    \<open>db\<close>, \<open>bucket\<close>, \<open>fs\<close>). \<open>Store_Open\<close>: the registry of schemes and the openers (\<open>ledger/store/open.go\<close>, the
    \<open>open.go\<close> files and \<open>ledger/backends.go\<close>).
  \<^item> \<open>Json\<close>, \<open>Manifest\<close>, \<open>Manifest_Keys\<close>, \<open>Manifest_Codec\<close>: manifests, their keys and their JSON
    (\<open>ledger/manifest.go\<close>).
  \<^item> \<open>Track\<close>: tracks, their roots and epochs (\<open>ledger/track.go\<close>). \<open>Redact\<close>: \<open>ledger/redact.go\<close> and \<open>ReadGroup\<close>.
  \<^item> \<open>Writer\<close>: \<open>ledger/writer.go\<close>. \<open>Reader\<close>: \<open>ledger/reader.go\<close> and \<open>ledger/before.go\<close>.
  \<^item> \<open>Limit\<close>, \<open>Ingest\<close>: \<open>ingest/limit.go\<close> and \<open>ingest/handler.go\<close>. \<open>Float64\<close>: the arithmetic of \<open>float64\<close> and
    \<open>time.Duration\<close> the limits use.
  \<^item> \<open>Storetest\<close>: the conformance suite for backends (\<open>ledger/store/storetest/storetest.go\<close>), a subtest being a condition on
    a run from a fresh state. \<open>Inspect_Follow\<close>: the example reader (\<open>examples/inspect-follow/main.go\<close>) with
    what it prints, and \<open>internal/version/version.go\<close>.

  \<^bold>\<open>What is shown.\<close> \<open>Epoch_Log\<close> states the invariant \<open>log_inv v p e ds L ver\<close>: in the store's contents \<open>v\<close> the
  epoch \<open>e\<close> of the track \<open>p\<close> holds the deltas \<open>ds\<close>, laid out as its log root \<open>L\<close> says. It is the abstract state
  all else refines: \<open>concat ds\<close> is the epoch's rows in commit order.

  \<^item> \<open>Writer_Inv\<close> shows that every operation of a writer keeps the invariant on every store of the contract and
    changes the rows only by the row appended; \<open>Writer_Live\<close> that operations end and succeed on a reliable store;
    \<open>Writer_Frame\<close> that a writer touches no object but its own; \<open>Writer_Append\<close> what \<open>Append\<close> leaves behind.
    \<open>Writer_Props\<close> has the properties: atomic appends, recovery, seals, new epochs, refused appends.
  \<^item> \<open>Reader_Reads\<close> and \<open>Reader_Queries\<close> show what the bounded queries return against the rows of all epochs;
    \<open>Reader_Before\<close> that the backward page is exactly the end of the list of earlier rows; \<open>Reader_Cursor\<close> and
    \<open>Reader_Props\<close> that following a track skips nothing, ends, and keeps its place while a writer works, and what a
    reader that fell out of step loses.
    \<open>Reader_Seek\<close> shows that \<open>SeekAfter\<close> stands after exactly the rows up to an identity and what a resumed reader
    then yields; \<open>Reader_Seek_Time\<close> that \<open>SeekMedia\<close> finds the group a search over all rows chooses, and that a seek
    into another epoch leaves the reader with the log root of the old one. \<open>Sample_Track\<close> is a concrete track for witnesses.
  \<^item> \<open>Inspect_Follow\<close> composes them: \<open>inspect\<close> lists the rows of all epochs, and \<open>follow\<close>, polling beside writers that
    append and seal, prints every committed group, also when its log root is old for a while.
  \<^item> \<open>Db_Store\<close> and \<open>Bucket_Store\<close> show that the backend keeps the contract whenever the database or the service
    does what is documented of it (locales \<open>sql_table\<close> and \<open>object_service\<close>); \<open>Fs_Store\<close> shows the same of the
    file system (\<open>file_tree\<close>) except that a failed create may leave a prefix of its data, and that keys stay
    inside the root. \<open>Storetest\<close> shows that the contract is enough for the conformance suite, that the four backends
    pass it, and which subtests each of a list of faulty backends fails.
  \<^item> \<open>Ingest_Inv\<close> shows that every handler keeps the server's state sound, \<open>Ingest_Rows\<close> what a record does to
    the rows of its track and what is remembered of it, \<open>Ingest_Keys\<close> how long a reply is remembered,
    \<open>Ingest_History\<close> what a page shows, and \<open>Ingest_Props\<close> has the properties; they hold on any store of the contract and use the writer's and reader's lemmas.
  \<^item> \<open>Group_Id\<close>, \<open>Group_Info\<close>, \<open>Manifest_Keys\<close>, \<open>Manifest_Codec\<close>, \<open>Track\<close>, \<open>Redact\<close> and \<open>Limit\<close> hold the
    properties of their own functions: round trips, accepted inputs, disjoint keys, creation, redaction, rates. \<open>Float64\<close>
    bounds the rounding error, and \<open>Limit\<close> the admitted requests with it, and shows that a very low rate is not enforced.

  Interfaces are locales. \<open>store_contract\<close> is what every client relies on, and its lemmas are proved once in it;
  \<open>reliable_store\<close> extends it, and \<open>strict_store\<close> and \<open>listing_store\<close> add the promises only the conformance suite uses.
  The in-memory backend interprets all of them, the database and bucket backends are
  sublocales of the contract over the laws of their services, and these laws are interpreted on a table, a bucket
  and a disk kept in a map.

  \<^bold>\<open>Fuel.\<close> Loops whose end depends on what the store holds take a bound \<open>N\<close> and answer the error \<open>Unfinished\<close>,
  which no code tests for, when it runs out: the probing of deltas in recovery, queries and \<open>Next\<close>, the pages
  of a listing, and the turns of the example's loops. The liveness properties ask for \<open>N\<close> above the number of the epoch's deltas, since each round of
  these loops reads one delta and the first absent one ends it. All other loops end structurally or by a measure.

  \<^bold>\<open>Arguments.\<close> Code outside the repository is an argument: the SQL database, the HTTP client with the object
  service behind it, SHA-256 and HMAC, the XML decoder, the calls of package \<open>os\<close>, the URL parser, \<open>encoding/json\<close>
  for the ingest server's records, the application's \<open>Authorize\<close> hook, and every clock. The JSON of the ledger's
  own manifests is modelled. Go's \<open>float64\<close>, which the rate limits compute with, is modelled in \<open>Float64\<close>: each operation
  rounds the exact result to the nearest double, ties to even, with infinities and not-a-number; the conversion to
  \<open>int64\<close>, which the language leaves open outside the range, is that of amd64. Signed zeros are one value.

  \<^bold>\<open>Not modelled.\<close> Goroutines inside one process: an operation of a track, writer or handler runs whole, as its
  mutex makes it, and two requests that open the same track at once are not modelled; other processes are, as
  arbitrary changes of the store or as calls that fail. The routing of \<open>http.ServeMux\<close>, the logger and the text of
  error messages. Slices are values, so the copies the memory backend makes, and the subtest that checks them, have no
  counterpart beyond the value. Of the example, the parsing of flags, the choice of a command and the help text. The build
  tasks (\<open>magefiles\<close>), which run other programs.
\<close>

end
